(* ===== verification/Prelude.thy ===== *)
theory Prelude
  imports Main "HOL-Library.Word" "HOL-Library.Sublist"
begin

text \<open>
  The shared vocabulary of the development: the machine integers of the C sources, the
  little-endian memory layout that \<open>memcpy\<close> of a packed struct produces on the targets
  (\<open>BADVPN_LITTLE_ENDIAN\<close> is set in \<open>Android.mk\<close>), byte-buffer updates, and the
  contracts (locales) that several components share: a wire codec, a bounded FIFO and an
  invariant kept by every operation of a component.
\<close>

unbundle bit_operations_syntax

named_theorems wire_simps \<open>layout of packed structs in memory\<close>
named_theorems buf_simps \<open>reading and writing a run of bytes inside a buffer\<close>

type_synonym byte = "8 word"
type_synonym u16 = "16 word"
type_synonym u32 = "32 word"
type_synonym u64 = "64 word"

section \<open>C integers\<close>

abbreviation INT_MAX :: int where "INT_MAX \<equiv> 2147483647"
abbreviation INT_MIN :: int where "INT_MIN \<equiv> - 2147483648"

text \<open>An \<open>int\<close> of the source is modelled by an unbounded integer; that every value the code
  computes stays in range is a theorem, never an assumption of the model.\<close>

definition in_int :: "int \<Rightarrow> bool" where
  "in_int x \<longleftrightarrow> INT_MIN \<le> x \<and> x \<le> INT_MAX"

lemma nat_plus_le: "0 \<le> a \<Longrightarrow> nat a + n \<le> m \<longleftrightarrow> a + int n \<le> int m"
  by linarith

lemma nat_plus_nat_le: "0 \<le> a \<Longrightarrow> 0 \<le> b \<Longrightarrow> a + b \<le> c \<Longrightarrow> nat a + nat b \<le> nat c"
  by linarith

text \<open>\<open>misc/balign.h\<close>: the quotient rounded up, as the code computes it.\<close>

definition bdivide_up :: "nat \<Rightarrow> nat \<Rightarrow> nat" where
  "bdivide_up a b = (let r = a mod b in if r > 0 then a div b + 1 else a div b)"

lemma bdivide_up_ge: "0 < b \<Longrightarrow> a \<le> bdivide_up a b * b"
proof -
  assume b: "0 < b"
  have eq: "a div b * b + a mod b = a" by simp
  have lt: "a mod b < b" using b by simp
  show ?thesis
  proof (cases "a mod b > 0")
    case True
    then have "bdivide_up a b * b = a div b * b + b" by (simp add: bdivide_up_def)
    with eq lt show ?thesis by linarith
  next
    case False
    then have "bdivide_up a b * b = a div b * b" by (simp add: bdivide_up_def)
    with eq False show ?thesis by linarith
  qed
qed

lemma bdivide_up_le_iff: "0 < b \<Longrightarrow> bdivide_up a b \<le> n \<longleftrightarrow> a \<le> n * b"
proof
  assume b: "0 < b" and "bdivide_up a b \<le> n"
  then have "bdivide_up a b * b \<le> n * b" by (intro mult_le_mono) simp_all
  with bdivide_up_ge [OF b, of a] show "a \<le> n * b" by linarith
next
  assume b: "0 < b" and le: "a \<le> n * b"
  show "bdivide_up a b \<le> n"
  proof (cases "a mod b > 0")
    case True
    have "a div b < n"
    proof (rule ccontr)
      assume "\<not> a div b < n"
      then have "n * b \<le> a div b * b" by simp
      moreover have "a div b * b + a mod b = a" by simp
      ultimately show False using le True by linarith
    qed
    with True show ?thesis by (simp add: bdivide_up_def)
  next
    case False
    have "a div b \<le> (n * b) div b" using le by (rule div_le_mono)
    with False b show ?thesis by (simp add: bdivide_up_def)
  qed
qed

lemma bdivide_up_mono: "0 < b \<Longrightarrow> a \<le> a' \<Longrightarrow> bdivide_up a b \<le> bdivide_up a' b"
  using bdivide_up_ge [of b a'] by (simp add: bdivide_up_le_iff)

lemma bdivide_up_0 [simp]: "bdivide_up 0 b = 0"
  by (simp add: bdivide_up_def)

section \<open>Byte order and struct layout\<close>

definition store16 :: "u16 \<Rightarrow> byte list" where
  "store16 w = [ucast w, ucast (drop_bit 8 w)]"

fun load16 :: "byte list \<Rightarrow> u16" where
  "load16 (b0 # b1 # _) = ucast b0 OR push_bit 8 (ucast b1)"
| "load16 _ = 0"

definition store32 :: "u32 \<Rightarrow> byte list" where
  "store32 w = [ucast w, ucast (drop_bit 8 w), ucast (drop_bit 16 w), ucast (drop_bit 24 w)]"

fun load32 :: "byte list \<Rightarrow> u32" where
  "load32 (b0 # b1 # b2 # b3 # _) =
     ucast b0 OR push_bit 8 (ucast b1) OR push_bit 16 (ucast b2) OR push_bit 24 (ucast b3)"
| "load32 _ = 0"

text \<open>\<open>misc/byteorder.h\<close> with \<open>BADVPN_LITTLE_ENDIAN\<close>: \<open>hton16\<close> reverses the two
  bytes, \<open>htol16\<close> is the identity; \<open>ntoh16\<close> and \<open>ltoh16\<close> are the same functions.\<close>

definition badvpn_reverse16 :: "u16 \<Rightarrow> u16" where
  "badvpn_reverse16 x = load16 (rev (store16 x))"

definition badvpn_reverse32 :: "u32 \<Rightarrow> u32" where
  "badvpn_reverse32 x = load32 (rev (store32 x))"

abbreviation hton16 :: "u16 \<Rightarrow> u16" where "hton16 \<equiv> badvpn_reverse16"
abbreviation ntoh16 :: "u16 \<Rightarrow> u16" where "ntoh16 \<equiv> badvpn_reverse16"
abbreviation hton32 :: "u32 \<Rightarrow> u32" where "hton32 \<equiv> badvpn_reverse32"

definition htol16 :: "u16 \<Rightarrow> u16" where
  [simp]: "htol16 x = x"

abbreviation ltoh16 :: "u16 \<Rightarrow> u16" where "ltoh16 \<equiv> htol16"

text \<open>\<open>misc/read_write_int.h\<close>: a big-endian 16-bit read.\<close>

fun badvpn_read_be16 :: "byte list \<Rightarrow> u16" where
  "badvpn_read_be16 (p0 # p1 # _) = push_bit 8 (ucast p0) OR ucast p1"
| "badvpn_read_be16 _ = 0"

lemma length_store16 [simp, wire_simps]: "length (store16 w) = 2"
  by (simp add: store16_def)

lemma length_store32 [simp, wire_simps]: "length (store32 w) = 4"
  by (simp add: store32_def)

lemma load_store16 [simp, wire_simps]: "load16 (store16 w @ r) = w"
  by (rule bit_word_eqI) (auto simp: store16_def bit_simps)

lemma load_store16' [simp, wire_simps]: "load16 (store16 w) = w"
  using load_store16 [of w "[]"] by simp

lemma load_store32 [simp, wire_simps]: "load32 (store32 w @ r) = w"
proof (rule bit_word_eqI)
  fix n assume "n < LENGTH(32)"
  then show "bit (load32 (store32 w @ r)) n \<longleftrightarrow> bit w n"
    by (cases "n < 8"; cases "n < 16"; cases "n < 24") (auto simp: store32_def bit_simps)
qed

lemma load_store32' [simp, wire_simps]: "load32 (store32 w) = w"
  using load_store32 [of w "[]"] by simp

lemma not_bit_byte [simp]: "8 \<le> n \<Longrightarrow> \<not> bit (b :: byte) n"
  by (auto dest: bit_imp_le_length)

lemma store_load16: "store16 (load16 [a, b]) = [a, b]"
  by (auto simp: store16_def bit_simps intro!: bit_word_eqI)

lemma store_load16_length: "length xs = 2 \<Longrightarrow> store16 (load16 xs) = xs"
  by (auto simp: store_load16 numeral_2_eq_2 length_Suc_conv simp del: load16.simps)

lemma store16_inj [simp]: "store16 x = store16 y \<longleftrightarrow> x = y"
  by (metis load_store16')

lemma store32_inj [simp]: "store32 x = store32 y \<longleftrightarrow> x = y"
  by (metis load_store32')

lemma load16_append: "2 \<le> length xs \<Longrightarrow> load16 (xs @ ys) = load16 xs"
  by (cases xs rule: load16.cases) auto

lemma load16_take: "2 \<le> n \<Longrightarrow> load16 (take n xs) = load16 xs"
  by (cases xs rule: load16.cases) (auto simp: take_Cons' numeral_2_eq_2)

lemma store16_reverse [wire_simps]: "store16 (badvpn_reverse16 x) = rev (store16 x)"
  unfolding badvpn_reverse16_def by (rule store_load16_length) simp

lemma reverse16_involution [simp]: "badvpn_reverse16 (badvpn_reverse16 x) = x"
  by (metis badvpn_reverse16_def load_store16' rev_rev_ident store16_reverse)

lemma reverse16_inj [simp]: "badvpn_reverse16 x = badvpn_reverse16 y \<longleftrightarrow> x = y"
  by (metis reverse16_involution)

lemma read_be16_store [simp, wire_simps]:
  "badvpn_read_be16 (store16 w @ r) = badvpn_reverse16 w"
  by (simp add: store16_def badvpn_reverse16_def or.commute)

lemma read_be16_append: "2 \<le> length xs \<Longrightarrow> badvpn_read_be16 (xs @ ys) = badvpn_read_be16 xs"
  by (cases xs rule: load16.cases) auto

section \<open>Writing a run of bytes into a buffer\<close>

definition memcpy_at :: "byte list \<Rightarrow> nat \<Rightarrow> byte list \<Rightarrow> byte list" where
  "memcpy_at buf off src = take off buf @ src @ drop (off + length src) buf"

definition sub_bytes :: "nat \<Rightarrow> nat \<Rightarrow> 'a list \<Rightarrow> 'a list" where
  "sub_bytes off n buf = take n (drop off buf)"

lemma length_memcpy_at [buf_simps]:
  "off + length src \<le> length buf \<Longrightarrow> length (memcpy_at buf off src) = length buf"
  by (simp add: memcpy_at_def)

lemma length_sub_bytes [buf_simps]: "off + n \<le> length buf \<Longrightarrow> length (sub_bytes off n buf) = n"
  by (simp add: sub_bytes_def)

lemma sub_bytes_memcpy_same [buf_simps]:
  "off + length src \<le> length buf \<Longrightarrow> n = length src \<Longrightarrow>
   sub_bytes off n (memcpy_at buf off src) = src"
  by (simp add: sub_bytes_def memcpy_at_def)

lemma sub_bytes_memcpy_before [buf_simps]:
  "o1 + n \<le> off \<Longrightarrow> off + length src \<le> length buf \<Longrightarrow>
   sub_bytes o1 n (memcpy_at buf off src) = sub_bytes o1 n buf"
  by (simp add: sub_bytes_def memcpy_at_def drop_take)

lemma sub_bytes_memcpy_after [buf_simps]:
  "off + length src \<le> o1 \<Longrightarrow> off + length src \<le> length buf \<Longrightarrow>
   sub_bytes o1 n (memcpy_at buf off src) = sub_bytes o1 n buf"
  by (simp add: sub_bytes_def memcpy_at_def drop_append)

lemma sub_bytes_all: "sub_bytes 0 (length xs) xs = xs"
  by (simp add: sub_bytes_def)

lemma sub_bytes_take_drop: "sub_bytes off n xs @ drop (off + n) xs = drop off xs"
  by (simp add: sub_bytes_def add.commute flip: drop_drop)

lemma memcpy_append:
  assumes "off + length xs + length ys \<le> length b" "off' = off + length xs"
  shows "memcpy_at (memcpy_at b off xs) off' ys = memcpy_at b off (xs @ ys)"
  using assms by (simp add: memcpy_at_def ac_simps)

lemma memcpy_whole: "length src = length b \<Longrightarrow> memcpy_at b 0 src = src"
  by (simp add: memcpy_at_def)

lemma sub_bytes_add: "sub_bytes off (m + n) xs = sub_bytes off m xs @ sub_bytes (off + m) n xs"
  by (simp add: sub_bytes_def take_add add.commute)

section \<open>Contracts shared by several components\<close>

text \<open>A wire codec: decoding the encoding of a value gives the value and the bytes behind it.\<close>

locale wire_codec =
  fixes enc :: "'a \<Rightarrow> byte list"
    and dec :: "byte list \<Rightarrow> ('a \<times> byte list) option"
    and ok :: "'a \<Rightarrow> bool"
  assumes dec_enc: "ok a \<Longrightarrow> dec (enc a @ rest) = Some (a, rest)"
begin

fun dec_n :: "nat \<Rightarrow> byte list \<Rightarrow> ('a list \<times> byte list) option" where
  "dec_n 0 bs = Some ([], bs)"
| "dec_n (Suc n) bs =
     (case dec bs of None \<Rightarrow> None
      | Some (a, r) \<Rightarrow> (case dec_n n r of None \<Rightarrow> None | Some (as, r') \<Rightarrow> Some (a # as, r')))"

lemma dec_n_concat:
  "list_all ok as \<Longrightarrow> dec_n (length as) (concat (map enc as) @ rest) = Some (as, rest)"
  by (induction as) (auto simp: dec_enc)

lemma enc_inj: "ok a \<Longrightarrow> ok b \<Longrightarrow> enc a = enc b \<Longrightarrow> a = b"
  using dec_enc [of a "[]"] dec_enc [of b "[]"] by simp

lemma concat_enc_inj:
  assumes "list_all ok as" "list_all ok bs" "length as = length bs"
    "concat (map enc as) = concat (map enc bs)"
  shows "as = bs"
  using dec_n_concat [OF assms(1), of "[]"] dec_n_concat [OF assms(2), of "[]"] assms(3,4) by simp

end

text \<open>A component whose operations keep an invariant: every run of operations keeps it.\<close>

locale invariant_machine =
  fixes inv :: "'s \<Rightarrow> bool"
    and pre :: "'op \<Rightarrow> 's \<Rightarrow> bool"
    and step :: "'op \<Rightarrow> 's \<Rightarrow> 's"
  assumes step_inv: "inv s \<Longrightarrow> pre op s \<Longrightarrow> inv (step op s)"
begin

fun legal :: "'op list \<Rightarrow> 's \<Rightarrow> bool" where
  "legal [] s = True"
| "legal (op # ops) s = (pre op s \<and> legal ops (step op s))"

fun run :: "'op list \<Rightarrow> 's \<Rightarrow> 's" where
  "run [] s = s"
| "run (op # ops) s = run ops (step op s)"

lemma run_inv: "inv s \<Longrightarrow> legal ops s \<Longrightarrow> inv (run ops s)"
  by (induction ops arbitrary: s) (auto intro: step_inv)

lemma run_append: "run (xs @ ys) s = run ys (run xs s)"
  by (induction xs arbitrary: s) auto

lemma legal_append: "legal (xs @ ys) s \<longleftrightarrow> legal xs s \<and> legal ys (run xs s)"
  by (induction xs arbitrary: s) auto

end

text \<open>A bounded first-in first-out store, specified by the list of what it holds.\<close>

locale bounded_fifo =
  fixes inv :: "'q \<Rightarrow> bool"
    and contents :: "'q \<Rightarrow> 'a list"
    and can_put :: "'q \<Rightarrow> 'a \<Rightarrow> bool"
    and put :: "'a \<Rightarrow> 'q \<Rightarrow> 'q"
    and can_get :: "'q \<Rightarrow> bool"
    and front :: "'q \<Rightarrow> 'a"
    and get :: "'q \<Rightarrow> 'q"
  assumes put_inv: "inv q \<Longrightarrow> can_put q x \<Longrightarrow> inv (put x q)"
    and put_contents: "inv q \<Longrightarrow> can_put q x \<Longrightarrow> contents (put x q) = contents q @ [x]"
    and can_get_iff: "inv q \<Longrightarrow> can_get q \<longleftrightarrow> contents q \<noteq> []"
    and front_contents: "inv q \<Longrightarrow> contents q \<noteq> [] \<Longrightarrow> front q = hd (contents q)"
    and get_inv: "inv q \<Longrightarrow> contents q \<noteq> [] \<Longrightarrow> inv (get q)"
    and get_contents: "inv q \<Longrightarrow> contents q \<noteq> [] \<Longrightarrow> contents (get q) = tl (contents q)"
begin

text \<open>A history of accepted puts (\<open>Some x\<close>) and gets (\<open>None\<close>): what came out.\<close>

fun play :: "'a option list \<Rightarrow> 'q \<Rightarrow> ('a list \<times> 'q) option" where
  "play [] q = Some ([], q)"
| "play (Some x # es) q = (if can_put q x then play es (put x q) else None)"
| "play (None # es) q =
     (if can_get q then map_option (\<lambda>(out, q'). (front q # out, q')) (play es (get q)) else None)"

definition puts :: "'a option list \<Rightarrow> 'a list" where
  "puts es = map the (filter (\<lambda>e. e \<noteq> None) es)"

lemma puts_simps [simp]:
  "puts [] = []" "puts (Some x # es) = x # puts es" "puts (None # es) = puts es"
  by (simp_all add: puts_def)

lemma play_fifo:
  "inv q \<Longrightarrow> play es q = Some (out, q') \<Longrightarrow>
   inv q' \<and> contents q @ puts es = out @ contents q'"
proof (induction es q arbitrary: out q' rule: play.induct)
  case (1 q)
  then show ?case by simp
next
  case (2 x es q)
  then show ?case by (auto simp: put_inv put_contents split: if_splits)
next
  case (3 es q)
  from "3.prems" obtain o1 where get: "can_get q" and pl: "play es (get q) = Some (o1, q')"
    and out: "out = front q # o1"
    by (auto split: if_splits)
  have ne: "contents q \<noteq> []" using can_get_iff "3.prems"(1) get by blast
  have IH: "inv q' \<and> contents (get q) @ puts es = o1 @ contents q'"
    using "3.IH" get pl get_inv ne "3.prems"(1) by blast
  then show ?case
    using out ne front_contents get_contents "3.prems"(1)
    by (metis append_Cons list.collapse puts_simps(3))
qed

end

end
