(* ===== verification/ChunkBuffer.thy ===== *)
theory ChunkBuffer
  imports Prelude
begin

text \<open>
  The circular packet buffer of \<open>structure/ChunkBuffer2.h\<close>. The backing array of
  \<open>struct ChunkBuffer2_block\<close> (one \<open>int\<close> each) is modelled as the bytes it occupies,
  so that the headers \<open>buffer[i].len\<close> and the packet bytes written behind them share one
  memory, as in the code. Pointers into the array are byte offsets, \<open>NULL\<close> is \<open>None\<close>.
  The two \<open>ASSERT\<close> functions of the header are translated as predicates and proved to hold
  in every reachable state; the buffer is proved to be a bounded FIFO.
\<close>

section \<open>State and operations\<close>

record ChunkBuffer2 =
  buffer :: "byte list"
  cb_size :: int
  cb_wrap :: int
  cb_start :: int
  cb_used :: int
  cb_mtu :: int
  input_dest :: "int option"
  input_avail :: int
  output_dest :: "int option"
  output_avail :: int

text \<open>\<open>sizeof(struct ChunkBuffer2_block)\<close> is 4; \<open>blocks_of\<close> is
  \<open>bdivide_up(len, sizeof(struct ChunkBuffer2_block))\<close>.\<close>

definition blocks_of :: "int \<Rightarrow> int" where
  "blocks_of len = int (bdivide_up (nat len) 4)"

definition read_len :: "byte list \<Rightarrow> int \<Rightarrow> int" where
  "read_len mem i = sint (load32 (sub_bytes (nat (4 * i)) 4 mem))"

definition write_len :: "byte list \<Rightarrow> int \<Rightarrow> int \<Rightarrow> byte list" where
  "write_len mem i len = memcpy_at mem (nat (4 * i)) (store32 (word_of_int len))"

definition ChunkBuffer2_end :: "ChunkBuffer2 \<Rightarrow> int" where
  "ChunkBuffer2_end b =
     (if cb_used b \<ge> cb_wrap b - cb_start b then cb_used b - (cb_wrap b - cb_start b)
      else cb_start b + cb_used b)"

definition ChunkBuffer2_assert_buffer :: "ChunkBuffer2 \<Rightarrow> bool" where
  "ChunkBuffer2_assert_buffer b \<longleftrightarrow>
     cb_size b > 0 \<and> cb_wrap b > 0 \<and> cb_wrap b \<le> cb_size b \<and>
     cb_start b \<ge> 0 \<and> cb_start b < cb_wrap b \<and>
     cb_used b \<ge> 0 \<and> cb_used b \<le> cb_wrap b \<and>
     (cb_wrap b = cb_size b \<or> cb_used b \<ge> cb_wrap b - cb_start b) \<and>
     cb_mtu b \<ge> 0"

definition ChunkBuffer2_assert_input :: "ChunkBuffer2 \<Rightarrow> bool" where
  "ChunkBuffer2_assert_input b \<longleftrightarrow>
     (let end = ChunkBuffer2_end b in
      if cb_size b - end - 1 < cb_mtu b then input_dest b = None \<and> input_avail b = -1
      else
        let free = (if cb_used b \<ge> cb_wrap b - cb_start b then cb_start b - end
                    else cb_size b - end) in
        if free > 0 then input_dest b = Some (4 * (end + 1)) \<and> input_avail b = (free - 1) * 4
        else input_dest b = None \<and> input_avail b = -1)"

definition ChunkBuffer2_assert_output :: "ChunkBuffer2 \<Rightarrow> bool" where
  "ChunkBuffer2_assert_output b \<longleftrightarrow>
     (if cb_used b > 0 then
        (let datalen = read_len (buffer b) (cb_start b); blocklen = blocks_of datalen in
         datalen \<ge> 0 \<and> blocklen \<le> cb_used b - 1 \<and> blocklen \<le> cb_wrap b - cb_start b - 1 \<and>
         output_dest b = Some (4 * (cb_start b + 1)) \<and> output_avail b = datalen)
      else output_dest b = None \<and> output_avail b = -1)"

definition ChunkBuffer2_assert_io :: "ChunkBuffer2 \<Rightarrow> bool" where
  "ChunkBuffer2_assert_io b \<longleftrightarrow> ChunkBuffer2_assert_input b \<and> ChunkBuffer2_assert_output b"

definition ChunkBuffer2_update_input :: "ChunkBuffer2 \<Rightarrow> ChunkBuffer2" where
  "ChunkBuffer2_update_input b =
     (let end = ChunkBuffer2_end b in
      if cb_size b - end - 1 < cb_mtu b then b\<lparr>input_dest := None, input_avail := -1\<rparr>
      else
        let free = (if cb_used b \<ge> cb_wrap b - cb_start b then cb_start b - end
                    else cb_size b - end) in
        if free > 0 then b\<lparr>input_dest := Some (4 * (end + 1)), input_avail := (free - 1) * 4\<rparr>
        else b\<lparr>input_dest := None, input_avail := -1\<rparr>)"

definition ChunkBuffer2_update_output :: "ChunkBuffer2 \<Rightarrow> ChunkBuffer2" where
  "ChunkBuffer2_update_output b =
     (if cb_used b > 0 then
        let datalen = read_len (buffer b) (cb_start b) in
        b\<lparr>output_dest := Some (4 * (cb_start b + 1)), output_avail := datalen\<rparr>
      else b\<lparr>output_dest := None, output_avail := -1\<rparr>)"

definition ChunkBuffer2_calc_blocks :: "int \<Rightarrow> int \<Rightarrow> int" where
  "ChunkBuffer2_calc_blocks chunk_len num =
     (let chunk_data_blocks = blocks_of chunk_len in
      if chunk_data_blocks > INT_MAX - 1 then -1
      else
        let chunk_blocks = 1 + chunk_data_blocks in
        if num > INT_MAX - 1 then -1
        else
          let num_chunks = num + 1 in
          if chunk_blocks > INT_MAX div num_chunks then -1
          else chunk_blocks * num_chunks)"

text \<open>\<open>ChunkBuffer2_Init\<close> gets the array that the caller allocated; its contents are arbitrary.\<close>

definition ChunkBuffer2_Init :: "byte list \<Rightarrow> int \<Rightarrow> int \<Rightarrow> ChunkBuffer2" where
  "ChunkBuffer2_Init mem blocks mtu =
     ChunkBuffer2_update_output (ChunkBuffer2_update_input
       \<lparr>buffer = mem, cb_size = blocks, cb_wrap = blocks, cb_start = 0, cb_used = 0,
        cb_mtu = blocks_of mtu, input_dest = None, input_avail = -1,
        output_dest = None, output_avail = -1\<rparr>)"

definition ChunkBuffer2_SubmitPacket :: "ChunkBuffer2 \<Rightarrow> int \<Rightarrow> ChunkBuffer2" where
  "ChunkBuffer2_SubmitPacket b len =
     (let end = ChunkBuffer2_end b;
          blocklen = blocks_of len;
          b = b\<lparr>buffer := write_len (buffer b) end len, cb_used := cb_used b + (1 + blocklen)\<rparr>;
          b = (if cb_used b \<le> cb_wrap b - cb_start b \<and>
                  cb_mtu b > cb_size b - (end + 1 + blocklen) - 1
               then b\<lparr>cb_wrap := end + 1 + blocklen\<rparr> else b);
          b = ChunkBuffer2_update_input b
      in if cb_used b = 1 + blocklen then ChunkBuffer2_update_output b else b)"

definition ChunkBuffer2_ConsumePacket :: "ChunkBuffer2 \<Rightarrow> ChunkBuffer2" where
  "ChunkBuffer2_ConsumePacket b =
     (let blocklen = blocks_of (read_len (buffer b) (cb_start b));
          data_wrapped = (cb_used b \<ge> cb_wrap b - cb_start b);
          b = b\<lparr>cb_start := cb_start b + (1 + blocklen), cb_used := cb_used b - (1 + blocklen)\<rparr>;
          b = (if cb_start b = cb_wrap b then b\<lparr>cb_start := 0, cb_wrap := cb_size b\<rparr> else b);
          b = (if data_wrapped then ChunkBuffer2_update_input b else b)
      in ChunkBuffer2_update_output b)"

text \<open>The user of the buffer writes the packet at \<open>input_dest\<close> before it submits it.\<close>

definition write_packet :: "byte list \<Rightarrow> ChunkBuffer2 \<Rightarrow> ChunkBuffer2" where
  "write_packet p b =
     (case input_dest b of None \<Rightarrow> b
      | Some d \<Rightarrow> b\<lparr>buffer := memcpy_at (buffer b) (nat d) p\<rparr>)"

definition put_packet :: "byte list \<Rightarrow> ChunkBuffer2 \<Rightarrow> ChunkBuffer2" where
  "put_packet p b = ChunkBuffer2_SubmitPacket (write_packet p b) (int (length p))"

definition can_put_packet :: "ChunkBuffer2 \<Rightarrow> byte list \<Rightarrow> bool" where
  "can_put_packet b p \<longleftrightarrow> input_dest b \<noteq> None \<and> int (length p) \<le> input_avail b"

definition front_packet :: "ChunkBuffer2 \<Rightarrow> byte list" where
  "front_packet b =
     (case output_dest b of None \<Rightarrow> []
      | Some d \<Rightarrow> sub_bytes (nat d) (nat (output_avail b)) (buffer b))"

section \<open>The packets a run of blocks holds\<close>

lemma blocks_of_nonneg [simp]: "0 \<le> blocks_of len" "- 1 < blocks_of len"
  by (simp_all add: blocks_of_def)

function chunks :: "byte list \<Rightarrow> int \<Rightarrow> int \<Rightarrow> byte list list" where
  "chunks mem i j =
     (if j \<le> i then []
      else sub_bytes (nat (4 * (i + 1))) (nat (read_len mem i)) mem
             # chunks mem (i + 1 + blocks_of (read_len mem i)) j)"
  by pat_completeness auto
termination
proof (relation "measure (\<lambda>(mem, i, j). nat (j - i))", goal_cases)
  case (2 mem i j)
  then show ?case by simp
qed simp

function chunks_ok :: "byte list \<Rightarrow> int \<Rightarrow> int \<Rightarrow> int \<Rightarrow> bool" where
  "chunks_ok mem lim i j =
     (if j \<le> i then i = j
      else i \<le> lim \<and> 0 \<le> read_len mem i \<and> i + 1 + blocks_of (read_len mem i) \<le> j \<and>
           chunks_ok mem lim (i + 1 + blocks_of (read_len mem i)) j)"
  by pat_completeness auto
termination
proof (relation "measure (\<lambda>(mem, lim, i, j). nat (j - i))", goal_cases)
  case (2 mem lim i j)
  then show ?case by simp
qed simp

declare chunks.simps [simp del] chunks_ok.simps [simp del]

definition cb_wrapped :: "ChunkBuffer2 \<Rightarrow> bool" where
  "cb_wrapped b \<longleftrightarrow> cb_used b \<ge> cb_wrap b - cb_start b"

definition cb_contents :: "ChunkBuffer2 \<Rightarrow> byte list list" where
  "cb_contents b =
     (if cb_wrapped b
      then chunks (buffer b) (cb_start b) (cb_wrap b) @ chunks (buffer b) 0 (ChunkBuffer2_end b)
      else chunks (buffer b) (cb_start b) (ChunkBuffer2_end b))"

text \<open>The invariant: the assertions of the code, that packets are laid out back to back, that
  every packet starts where a maximum-size packet fits (\<open>lim\<close>), and that the array is in the
  range of an \<open>int\<close> when counted in bytes.\<close>

abbreviation cb_lim :: "ChunkBuffer2 \<Rightarrow> int" where
  "cb_lim b \<equiv> cb_size b - cb_mtu b - 1"

definition cb_core :: "ChunkBuffer2 \<Rightarrow> bool" where
  "cb_core b \<longleftrightarrow>
     ChunkBuffer2_assert_buffer b \<and>
     4 * cb_size b \<le> INT_MAX \<and> length (buffer b) = nat (4 * cb_size b) \<and>
     cb_start b \<le> cb_lim b \<and> cb_size b - cb_mtu b \<le> cb_wrap b \<and>
     (if cb_wrapped b
      then chunks_ok (buffer b) (cb_lim b) (cb_start b) (cb_wrap b) \<and>
           chunks_ok (buffer b) (cb_lim b) 0 (ChunkBuffer2_end b)
      else chunks_ok (buffer b) (cb_lim b) (cb_start b) (ChunkBuffer2_end b) \<and>
           ChunkBuffer2_end b \<le> cb_lim b)"

definition cb_inv :: "ChunkBuffer2 \<Rightarrow> bool" where
  "cb_inv b \<longleftrightarrow> cb_core b \<and> ChunkBuffer2_assert_io b"

section \<open>Memory lemmas\<close>

definition same_bytes :: "int \<Rightarrow> int \<Rightarrow> byte list \<Rightarrow> byte list \<Rightarrow> bool" where
  "same_bytes a b mem mem' \<longleftrightarrow>
     (\<forall>off n. nat a \<le> off \<longrightarrow> off + n \<le> nat b \<longrightarrow> sub_bytes off n mem' = sub_bytes off n mem)"

lemma same_bytes_trans:
  "same_bytes a b m1 m2 \<Longrightarrow> same_bytes a b m2 m3 \<Longrightarrow> same_bytes a b m1 m3"
  by (simp add: same_bytes_def)

lemma same_bytes_memcpy:
  assumes "off + length src \<le> length mem" and "nat b \<le> off \<or> off + length src \<le> nat a"
  shows "same_bytes a b mem (memcpy_at mem off src)"
  unfolding same_bytes_def
proof (intro allI impI)
  fix o1 n assume "nat a \<le> o1" "o1 + n \<le> nat b"
  then show "sub_bytes o1 n (memcpy_at mem off src) = sub_bytes o1 n mem"
    using assms sub_bytes_memcpy_before [of o1 n off src mem] sub_bytes_memcpy_after [of off src o1 mem n]
    by linarith
qed

lemma blocks_of_bound: "0 \<le> len \<Longrightarrow> len \<le> 4 * blocks_of len"
  using bdivide_up_ge [of 4 "nat len"] by (simp add: blocks_of_def)

lemma blocks_of_le_iff: "0 \<le> n \<Longrightarrow> blocks_of len \<le> n \<longleftrightarrow> len \<le> 4 * n"
  using bdivide_up_le_iff [of 4 "nat len" "nat n"] by (auto simp: blocks_of_def)

lemma read_len_same:
  assumes "same_bytes a b mem mem'" "0 \<le> a" "a \<le> 4 * i" "4 * (i + 1) \<le> b"
  shows "read_len mem' i = read_len mem i"
proof -
  have "nat a \<le> nat (4 * i)" using assms(3) by (rule nat_mono)
  moreover have "nat (4 * i) + nat 4 \<le> nat b" using assms by (intro nat_plus_nat_le) auto
  ultimately show ?thesis using assms(1) by (simp add: read_len_def same_bytes_def)
qed

lemma chunks_empty [simp]: "chunks mem i i = []" "chunks_ok mem lim i i"
  by (simp_all add: chunks.simps chunks_ok.simps)

text \<open>A run of chunks only depends on its own bytes.\<close>

lemma chunks_same:
  assumes "chunks_ok mem lim i j" "same_bytes a b mem mem'" "0 \<le> a" "a \<le> 4 * i" "4 * j \<le> b"
  shows "chunks mem' i j = chunks mem i j" and "chunks_ok mem' lim i j"
proof -
  have "chunks mem' i j = chunks mem i j \<and> chunks_ok mem' lim i j"
    using assms
  proof (induction mem lim i j rule: chunks_ok.induct)
    case (1 mem lim i j)
    show ?case
    proof (cases "j \<le> i")
      case True
      then show ?thesis
        using "1.prems"(1) by (simp add: chunks_ok.simps [of mem lim i j])
    next
      case False
      let ?len = "read_len mem i"
      let ?k = "i + 1 + blocks_of ?len"
      from False "1.prems"(1) have ok: "i \<le> lim" "0 \<le> ?len" "?k \<le> j" "chunks_ok mem lim ?k j"
        by (simp_all add: chunks_ok.simps [of mem lim i j])
      have same_len: "read_len mem' i = ?len"
        using read_len_same [OF "1.prems"(2,3)] "1.prems"(4,5) False by simp
      have "nat a \<le> nat (4 * (i + 1))" using "1.prems"(4) by (intro nat_mono) simp
      moreover have "nat (4 * (i + 1)) + nat ?len \<le> nat b"
      proof (rule nat_plus_nat_le)
        show "0 \<le> 4 * (i + 1)" using "1.prems"(3,4) by arith
        show "4 * (i + 1) + ?len \<le> b"
          unfolding distrib_left using blocks_of_bound [OF ok(2)] ok(3) "1.prems"(5) by linarith
      qed (rule ok(2))
      ultimately have data: "sub_bytes (nat (4 * (i + 1))) (nat ?len) mem' =
                       sub_bytes (nat (4 * (i + 1))) (nat ?len) mem"
        using "1.prems"(2) by (simp add: same_bytes_def)
      have "a \<le> 4 * ?k"
        unfolding distrib_left using "1.prems"(4) blocks_of_nonneg(1) [of ?len] by linarith
      then have IH: "chunks mem' ?k j = chunks mem ?k j \<and> chunks_ok mem' lim ?k j"
        using "1.IH" False ok(4) "1.prems"(2,3,5) by blast
      show ?thesis
        using False ok(1-3) IH data
        by (simp add: chunks.simps [of _ i j] chunks_ok.simps [of _ _ i j] same_len)
    qed
  qed
  then show "chunks mem' i j = chunks mem i j" "chunks_ok mem' lim i j" by simp_all
qed

text \<open>Appending one packet to a run of chunks.\<close>

lemma chunks_snoc:
  assumes "chunks_ok mem lim i j" "i \<le> j" "j \<le> lim" "0 \<le> read_len mem j"
  shows "chunks mem i (j + 1 + blocks_of (read_len mem j)) =
           chunks mem i j @ [sub_bytes (nat (4 * (j + 1))) (nat (read_len mem j)) mem]"
    and "chunks_ok mem lim i (j + 1 + blocks_of (read_len mem j))"
proof -
  let ?e = "j + 1 + blocks_of (read_len mem j)"
  let ?p = "sub_bytes (nat (4 * (j + 1))) (nat (read_len mem j)) mem"
  have "chunks mem i ?e = chunks mem i j @ [?p] \<and> chunks_ok mem lim i ?e"
    using assms
  proof (induction mem lim i j rule: chunks_ok.induct)
    case (1 mem lim i j)
    let ?e = "j + 1 + blocks_of (read_len mem j)"
    have lt: "i < ?e" using "1.prems"(2) blocks_of_nonneg(1) [of "read_len mem j"] by linarith
    show ?case
    proof (cases "j \<le> i")
      case True
      then have eq: "i = j" using "1.prems"(2) by simp
      show ?thesis
        unfolding eq using lt "1.prems"(3,4) eq
        by (simp add: chunks.simps [of mem j ?e] chunks_ok.simps [of mem lim j ?e])
    next
      case False
      let ?k = "i + 1 + blocks_of (read_len mem i)"
      from False "1.prems"(1) have ok: "i \<le> lim" "0 \<le> read_len mem i" "?k \<le> j" "chunks_ok mem lim ?k j"
        by (simp_all add: chunks_ok.simps [of mem lim i j])
      have IH: "chunks mem ?k ?e = chunks mem ?k j @
                  [sub_bytes (nat (4 * (j + 1))) (nat (read_len mem j)) mem] \<and> chunks_ok mem lim ?k ?e"
        using "1.IH" False ok "1.prems"(3,4) by blast
      have "?k \<le> ?e" using ok(3) blocks_of_nonneg(1) [of "read_len mem j"] by linarith
      then show ?thesis
        using False lt ok IH
        by (simp add: chunks.simps [of mem i j] chunks.simps [of mem i ?e]
            chunks_ok.simps [of mem lim i ?e])
    qed
  qed
  then show "chunks mem i ?e = chunks mem i j @ [?p]" "chunks_ok mem lim i ?e" by simp_all
qed

lemma read_write_len:
  assumes "0 \<le> i" "4 * (i + 1) \<le> int (length mem)" "0 \<le> len" "len \<le> INT_MAX"
  shows "read_len (write_len mem i len) i = len"
proof -
  have "nat (4 * i) + 4 \<le> length mem" using assms(1,2) by (simp add: nat_plus_le)
  then have "sub_bytes (nat (4 * i)) 4 (write_len mem i len) = store32 (word_of_int len)"
    by (simp add: write_len_def sub_bytes_memcpy_same)
  moreover have "sint (word_of_int len :: u32) = len"
    using assms(3,4) by (simp add: signed_take_bit_int_eq_self sint_sbintrunc')
  ultimately show ?thesis by (simp add: read_len_def)
qed

lemma length_write_len:
  "0 \<le> i \<Longrightarrow> 4 * (i + 1) \<le> int (length mem) \<Longrightarrow> length (write_len mem i len) = length mem"
  by (simp add: write_len_def length_memcpy_at)

section \<open>The invariant\<close>

lemma update_input_fields [simp]:
  "buffer (ChunkBuffer2_update_input b) = buffer b"
  "cb_size (ChunkBuffer2_update_input b) = cb_size b"
  "cb_wrap (ChunkBuffer2_update_input b) = cb_wrap b"
  "cb_start (ChunkBuffer2_update_input b) = cb_start b"
  "cb_used (ChunkBuffer2_update_input b) = cb_used b"
  "cb_mtu (ChunkBuffer2_update_input b) = cb_mtu b"
  "output_dest (ChunkBuffer2_update_input b) = output_dest b"
  "output_avail (ChunkBuffer2_update_input b) = output_avail b"
  by (simp_all add: ChunkBuffer2_update_input_def Let_def)

lemma update_output_fields [simp]:
  "buffer (ChunkBuffer2_update_output b) = buffer b"
  "cb_size (ChunkBuffer2_update_output b) = cb_size b"
  "cb_wrap (ChunkBuffer2_update_output b) = cb_wrap b"
  "cb_start (ChunkBuffer2_update_output b) = cb_start b"
  "cb_used (ChunkBuffer2_update_output b) = cb_used b"
  "cb_mtu (ChunkBuffer2_update_output b) = cb_mtu b"
  "input_dest (ChunkBuffer2_update_output b) = input_dest b"
  "input_avail (ChunkBuffer2_update_output b) = input_avail b"
  by (simp_all add: ChunkBuffer2_update_output_def Let_def)

lemmas cb_structure_defs =
  ChunkBuffer2_end_def cb_wrapped_def ChunkBuffer2_assert_buffer_def cb_core_def cb_contents_def

lemma end_flat: "\<not> cb_wrapped b \<Longrightarrow> ChunkBuffer2_end b = cb_start b + cb_used b"
  by (simp add: cb_wrapped_def ChunkBuffer2_end_def)

lemma end_wrapped: "cb_wrapped b \<Longrightarrow> ChunkBuffer2_end b = cb_used b - (cb_wrap b - cb_start b)"
  by (simp add: cb_wrapped_def ChunkBuffer2_end_def)

lemma core_update [simp]:
  "cb_core (ChunkBuffer2_update_input b) = cb_core b"
  "cb_core (ChunkBuffer2_update_output b) = cb_core b"
  "cb_contents (ChunkBuffer2_update_input b) = cb_contents b"
  "cb_contents (ChunkBuffer2_update_output b) = cb_contents b"
  by (simp_all add: cb_structure_defs)

lemma update_end [simp]:
  "ChunkBuffer2_end (ChunkBuffer2_update_input b) = ChunkBuffer2_end b"
  "ChunkBuffer2_end (ChunkBuffer2_update_output b) = ChunkBuffer2_end b"
  "cb_wrapped (ChunkBuffer2_update_input b) = cb_wrapped b"
  "cb_wrapped (ChunkBuffer2_update_output b) = cb_wrapped b"
  by (simp_all add: ChunkBuffer2_end_def cb_wrapped_def)

lemma assert_input_update: "ChunkBuffer2_assert_input (ChunkBuffer2_update_input b)"
  by (simp add: ChunkBuffer2_assert_input_def ChunkBuffer2_update_input_def ChunkBuffer2_end_def
      Let_def)

lemma assert_input_update_output [simp]:
  "ChunkBuffer2_assert_input (ChunkBuffer2_update_output b) = ChunkBuffer2_assert_input b"
  by (simp add: ChunkBuffer2_assert_input_def ChunkBuffer2_end_def)

lemma assert_output_update_input [simp]:
  "ChunkBuffer2_assert_output (ChunkBuffer2_update_input b) = ChunkBuffer2_assert_output b"
  by (simp add: ChunkBuffer2_assert_output_def)

lemma core_end_bounds:
  assumes "cb_core b" shows "0 \<le> ChunkBuffer2_end b" "ChunkBuffer2_end b \<le> cb_lim b"
  using assms by (auto simp: cb_structure_defs split: if_splits)

text \<open>The header the consumer reads is the header of a packet that lies in the buffer.\<close>

lemma core_head:
  assumes "cb_core b" "0 < cb_used b"
  shows "0 \<le> read_len (buffer b) (cb_start b)"
    and "blocks_of (read_len (buffer b) (cb_start b)) \<le> cb_used b - 1"
    and "blocks_of (read_len (buffer b) (cb_start b)) \<le> cb_wrap b - cb_start b - 1"
proof -
  let ?e = "if cb_wrapped b then cb_wrap b else ChunkBuffer2_end b"
  have ok: "chunks_ok (buffer b) (cb_lim b) (cb_start b) ?e" and lt: "cb_start b < ?e"
    and le: "?e \<le> cb_wrap b" "?e - cb_start b \<le> cb_used b"
    using assms by (auto simp: cb_structure_defs split: if_splits)
  from ok lt show "0 \<le> read_len (buffer b) (cb_start b)"
    by (simp add: chunks_ok.simps [of _ _ "cb_start b" ?e])
  from ok lt have "cb_start b + 1 + blocks_of (read_len (buffer b) (cb_start b)) \<le> ?e"
    by (simp add: chunks_ok.simps [of _ _ "cb_start b" ?e])
  with le show "blocks_of (read_len (buffer b) (cb_start b)) \<le> cb_used b - 1"
    "blocks_of (read_len (buffer b) (cb_start b)) \<le> cb_wrap b - cb_start b - 1" by linarith+
qed

lemma assert_output_update: "cb_core b \<Longrightarrow> ChunkBuffer2_assert_output (ChunkBuffer2_update_output b)"
  using core_head [of b]
  by (auto simp: ChunkBuffer2_assert_output_def ChunkBuffer2_update_output_def Let_def)

subsection \<open>Submitting a packet\<close>

text \<open>The memory after the user wrote the packet \<open>p\<close> and the header was filled in.\<close>

definition mem_put :: "ChunkBuffer2 \<Rightarrow> byte list \<Rightarrow> byte list" where
  "mem_put b p =
     write_len (memcpy_at (buffer b) (nat (4 * (ChunkBuffer2_end b + 1))) p)
       (ChunkBuffer2_end b) (int (length p))"

text \<open>The blocks from \<open>end\<close> up to \<open>cb_bound\<close> are free.\<close>

definition cb_bound :: "ChunkBuffer2 \<Rightarrow> int" where
  "cb_bound b = (if cb_wrapped b then cb_start b else cb_size b)"

lemma can_put_room:
  assumes "cb_inv b" "can_put_packet b p"
  shows "input_dest b = Some (4 * (ChunkBuffer2_end b + 1))"
    and "ChunkBuffer2_end b + 1 + blocks_of (int (length p)) \<le> cb_bound b"
    and "cb_bound b \<le> cb_size b"
proof -
  have core: "cb_core b" and inp: "ChunkBuffer2_assert_input b"
    using assms(1) by (simp_all add: cb_inv_def ChunkBuffer2_assert_io_def)
  let ?e = "ChunkBuffer2_end b"
  have dest: "input_dest b \<noteq> None" and len: "int (length p) \<le> input_avail b"
    using assms(2) by (simp_all add: can_put_packet_def)
  have "\<not> cb_size b - ?e - 1 < cb_mtu b" using core_end_bounds [OF core] by linarith
  with inp dest have free: "0 < cb_bound b - ?e"
    and d: "input_dest b = Some (4 * (?e + 1))" and av: "input_avail b = (cb_bound b - ?e - 1) * 4"
    by (auto simp: ChunkBuffer2_assert_input_def cb_bound_def cb_wrapped_def Let_def split: if_splits)
  show "input_dest b = Some (4 * (?e + 1))" by (rule d)
  have "blocks_of (int (length p)) \<le> cb_bound b - ?e - 1"
    using free len av blocks_of_le_iff [of "cb_bound b - ?e - 1" "int (length p)"] by simp
  then show "?e + 1 + blocks_of (int (length p)) \<le> cb_bound b" by linarith
  show "cb_bound b \<le> cb_size b" using core by (auto simp: cb_bound_def cb_structure_defs)
qed

lemma mem_put_props:
  assumes inv: "cb_inv b" and can: "can_put_packet b p"
  shows "length (mem_put b p) = length (buffer b)"
    and "read_len (mem_put b p) (ChunkBuffer2_end b) = int (length p)"
    and "sub_bytes (nat (4 * (ChunkBuffer2_end b + 1))) (length p) (mem_put b p) = p"
    and "0 \<le> lo \<Longrightarrow> hi \<le> ChunkBuffer2_end b \<or> cb_bound b \<le> lo \<Longrightarrow>
         same_bytes (4 * lo) (4 * hi) (buffer b) (mem_put b p)"
proof -
  let ?e = "ChunkBuffer2_end b" and ?len = "int (length p)"
  let ?off = "nat (4 * (?e + 1))"
  let ?m1 = "memcpy_at (buffer b) ?off p"
  have core: "cb_core b" using inv by (simp add: cb_inv_def)
  note e = core_end_bounds [OF core] and room = can_put_room [OF inv can]
  have size: "int (length (buffer b)) = 4 * cb_size b" "4 * cb_size b \<le> INT_MAX"
    using core by (auto simp: cb_structure_defs)
  have bl: "?len \<le> 4 * blocks_of ?len" by (rule blocks_of_bound) simp
  have endp: "4 * (?e + 1) + ?len \<le> 4 * cb_bound b" unfolding distrib_left using room(2) bl by linarith
  have fit: "?off + length p \<le> length (buffer b)"
    using endp room(3) e(1) size(1) by (simp add: nat_plus_le)
  then have len1: "length ?m1 = length (buffer b)" by (rule length_memcpy_at)
  have hdr: "4 * (?e + 1) \<le> int (length ?m1)" using endp room(3) len1 size(1) by simp
  show "length (mem_put b p) = length (buffer b)"
    using length_write_len [OF e(1) hdr] len1 by (simp add: mem_put_def)
  have "?len \<le> INT_MAX" using endp room(3) size e(1) by simp
  then show "read_len (mem_put b p) ?e = ?len"
    using read_write_len [OF e(1) hdr] by (simp add: mem_put_def)
  have hdr4: "nat (4 * ?e) + 4 \<le> ?off" "nat (4 * ?e) + 4 \<le> length ?m1"
    using e(1) hdr by (auto simp: nat_plus_le)
  show "sub_bytes ?off (length p) (mem_put b p) = p"
    unfolding mem_put_def write_len_def using hdr4 fit
    by (subst sub_bytes_memcpy_after) (auto simp: sub_bytes_memcpy_same)
  assume lo: "0 \<le> lo" and out: "hi \<le> ?e \<or> cb_bound b \<le> lo"
  have hi_e: "hi \<le> ?e \<Longrightarrow> nat (4 * hi) \<le> nat (4 * ?e)" by (intro nat_mono) simp
  have lo_b: "cb_bound b \<le> lo \<Longrightarrow> ?off + length p \<le> nat (4 * lo)"
    using endp e(1) by (simp add: nat_plus_le)
  have disj: "nat (4 * hi) \<le> nat (4 * ?e) \<or> ?off + length p \<le> nat (4 * lo)"
    using out hi_e lo_b by blast
  have s1: "same_bytes (4 * lo) (4 * hi) (buffer b) ?m1"
    by (rule same_bytes_memcpy [OF fit]) (use disj hdr4(1) in \<open>meson add_leD1 order_trans\<close>)
  have s2: "same_bytes (4 * lo) (4 * hi) ?m1 (mem_put b p)"
    unfolding mem_put_def write_len_def
  proof (rule same_bytes_memcpy)
    show "nat (4 * ?e) + length (store32 (word_of_int ?len)) \<le> length ?m1"
      using hdr4(2) by simp
    show "nat (4 * hi) \<le> nat (4 * ?e) \<or>
          nat (4 * ?e) + length (store32 (word_of_int ?len)) \<le> nat (4 * lo)"
      unfolding length_store32 using disj hdr4(1) by (meson add_leD1 order_trans)
  qed
  show "same_bytes (4 * lo) (4 * hi) (buffer b) (mem_put b p)"
    by (rule same_bytes_trans [OF s1 s2])
qed

text \<open>The structural part of \<open>ChunkBuffer2_SubmitPacket\<close>, before the two update calls.\<close>

definition submitted :: "ChunkBuffer2 \<Rightarrow> byte list \<Rightarrow> ChunkBuffer2" where
  "submitted b p =
     (let e = ChunkBuffer2_end b;
          bl = blocks_of (int (length p));
          b = b\<lparr>buffer := mem_put b p, cb_used := cb_used b + (1 + bl)\<rparr>
      in if cb_used b \<le> cb_wrap b - cb_start b \<and> cb_mtu b > cb_size b - (e + 1 + bl) - 1
         then b\<lparr>cb_wrap := e + 1 + bl\<rparr> else b)"

lemma end_update_buffer [simp]: "ChunkBuffer2_end (b\<lparr>buffer := m\<rparr>) = ChunkBuffer2_end b"
  by (simp add: ChunkBuffer2_end_def)

lemma put_packet_eq:
  assumes "cb_inv b" "can_put_packet b p"
  shows "put_packet p b =
    (let b' = ChunkBuffer2_update_input (submitted b p) in
     if cb_used b' = 1 + blocks_of (int (length p)) then ChunkBuffer2_update_output b' else b')"
  using can_put_room(1) [OF assms]
  unfolding put_packet_def ChunkBuffer2_SubmitPacket_def submitted_def mem_put_def write_packet_def
    Let_def by simp

lemma submitted_core:
  assumes inv: "cb_inv b" and can: "can_put_packet b p"
  shows "cb_core (submitted b p)" and "cb_contents (submitted b p) = cb_contents b @ [p]"
proof -
  let ?e = "ChunkBuffer2_end b" and ?bl = "blocks_of (int (length p))" and ?m = "mem_put b p"
  have core: "cb_core b" using inv by (simp add: cb_inv_def)
  note e = core_end_bounds [OF core] and room = can_put_room [OF inv can]
    and mem = mem_put_props [OF inv can]
  have bl: "0 \<le> ?bl" by simp
  have snoc: "chunks ?m i (?e + 1 + ?bl) = chunks (buffer b) i ?e @ [p] \<and>
              chunks_ok ?m (cb_lim b) i (?e + 1 + ?bl)"
    if "chunks_ok (buffer b) (cb_lim b) i ?e" "0 \<le> i" "i \<le> ?e" for i
  proof -
    have same: "same_bytes (4 * i) (4 * ?e) (buffer b) ?m" using mem(4) that(2) by simp
    note c = chunks_same [OF that(1) same]
    have "chunks ?m i ?e = chunks (buffer b) i ?e" "chunks_ok ?m (cb_lim b) i ?e"
      using c that(2) by simp_all
    then show ?thesis
      using chunks_snoc [of ?m "cb_lim b" i ?e] that(3) e(2) mem(2,3) by simp
  qed
  show "cb_core (submitted b p)" "cb_contents (submitted b p) = cb_contents b @ [p]"
  proof (atomize (full), cases "cb_wrapped b")
    case True
    then have le: "?e + 1 + ?bl \<le> cb_start b" using room(2) by (simp add: cb_bound_def)
    have wr: "\<not> cb_used b + (1 + ?bl) \<le> cb_wrap b - cb_start b"
      using True bl unfolding cb_wrapped_def by linarith
    have ok: "chunks_ok (buffer b) (cb_lim b) (cb_start b) (cb_wrap b)"
        "chunks_ok (buffer b) (cb_lim b) 0 ?e"
      using core True by (simp_all add: cb_core_def)
    have same: "same_bytes (4 * cb_start b) (4 * cb_wrap b) (buffer b) ?m"
      using mem(4) True core by (simp add: cb_bound_def cb_structure_defs)
    have c: "chunks ?m (cb_start b) (cb_wrap b) = chunks (buffer b) (cb_start b) (cb_wrap b)"
      "chunks_ok ?m (cb_lim b) (cb_start b) (cb_wrap b)"
      using chunks_same [OF ok(1) same] core by (simp_all add: cb_structure_defs)
    have sub: "submitted b p = b\<lparr>buffer := ?m, cb_used := cb_used b + (1 + ?bl)\<rparr>"
      using wr by (simp add: submitted_def Let_def)
    have cond: "cb_wrap b - cb_start b \<le> cb_used b + (1 + ?bl)"
      using True bl unfolding cb_wrapped_def by linarith
    have e': "ChunkBuffer2_end (submitted b p) = ?e + 1 + ?bl"
      using True cond by (simp add: sub ChunkBuffer2_end_def cb_wrapped_def)
    have wr': "cb_wrapped (submitted b p)" using cond by (simp add: sub cb_wrapped_def)
    show "cb_core (submitted b p) \<and> cb_contents (submitted b p) = cb_contents b @ [p]"
      using snoc [OF ok(2)] e(1) c True core le bl mem(1) wr' e' cond
      unfolding cb_core_def cb_contents_def
      by (simp add: sub ChunkBuffer2_assert_buffer_def cb_wrapped_def [of b] ChunkBuffer2_end_def [of b])
  next
    case False
    then have ok: "chunks_ok (buffer b) (cb_lim b) (cb_start b) ?e" and ew: "?e = cb_start b + cb_used b"
      and ws: "cb_wrap b = cb_size b" and st: "0 \<le> cb_start b" "cb_start b \<le> ?e"
      and le: "?e + 1 + ?bl \<le> cb_size b"
      using room(2) core by (auto simp: cb_bound_def cb_structure_defs)
    note sn = snoc [OF ok st]
    have extra: "0 < cb_size b" "cb_start b < cb_size b" "cb_start b < cb_size b - cb_mtu b"
      using core ws by (simp_all add: cb_core_def ChunkBuffer2_assert_buffer_def)
    have u: "cb_used b + (1 + ?bl) \<le> cb_wrap b - cb_start b" using le ew ws by linarith
    show "cb_core (submitted b p) \<and> cb_contents (submitted b p) = cb_contents b @ [p]"
    proof (cases "cb_mtu b > cb_size b - (?e + 1 + ?bl) - 1")
      case wrap: True
      have sub: "submitted b p = b\<lparr>buffer := ?m, cb_used := cb_used b + (1 + ?bl), cb_wrap := ?e + 1 + ?bl\<rparr>"
        using u wrap by (simp add: submitted_def Let_def)
      have e': "ChunkBuffer2_end (submitted b p) = 0" and wr': "cb_wrapped (submitted b p)"
        using ew by (simp_all add: sub ChunkBuffer2_end_def cb_wrapped_def)
      show ?thesis
        using sn core le bl mem(1) wr' e' ew st wrap False
        unfolding cb_core_def cb_contents_def
        by (simp add: sub ChunkBuffer2_assert_buffer_def)
    next
      case nowrap: False
      have sub: "submitted b p = b\<lparr>buffer := ?m, cb_used := cb_used b + (1 + ?bl)\<rparr>"
        using nowrap by (simp add: submitted_def Let_def)
      have "cb_mtu b \<ge> 0" using core by (simp add: cb_structure_defs)
      then have lt: "cb_used b + (1 + ?bl) < cb_wrap b - cb_start b" using nowrap ew ws by linarith
      have e': "ChunkBuffer2_end (submitted b p) = ?e + 1 + ?bl" and wr': "\<not> cb_wrapped (submitted b p)"
        using lt ew by (simp_all add: sub ChunkBuffer2_end_def cb_wrapped_def)
      show ?thesis
        using sn core le bl mem(1) wr' e' ew st nowrap False lt
        unfolding cb_core_def cb_contents_def
        by (simp add: sub ChunkBuffer2_assert_buffer_def extra)
    qed
  qed
qed

lemma submitted_used: "cb_used (submitted b p) = cb_used b + (1 + blocks_of (int (length p)))"
  by (simp add: submitted_def Let_def)

lemma submitted_output:
  "output_dest (submitted b p) = output_dest b" "output_avail (submitted b p) = output_avail b"
  "cb_start (submitted b p) = cb_start b" "buffer (submitted b p) = mem_put b p"
  by (simp_all add: submitted_def Let_def)

text \<open>When packets were waiting, the first one stays where it is: its header is not touched.\<close>

lemma submitted_head:
  assumes inv: "cb_inv b" and can: "can_put_packet b p" and used: "0 < cb_used b"
  shows "read_len (mem_put b p) (cb_start b) = read_len (buffer b) (cb_start b)"
proof -
  have core: "cb_core b" using inv by (simp add: cb_inv_def)
  have st: "0 \<le> cb_start b" using core by (simp add: cb_structure_defs)
  have "cb_start b + 1 \<le> ChunkBuffer2_end b \<or> cb_bound b \<le> cb_start b"
    using used by (auto simp: cb_bound_def cb_wrapped_def ChunkBuffer2_end_def)
  then have "same_bytes (4 * cb_start b) (4 * (cb_start b + 1)) (buffer b) (mem_put b p)"
    using mem_put_props(4) [OF inv can] st by blast
  from read_len_same [OF this] st show ?thesis by simp
qed

theorem put_packet_inv:
  assumes inv: "cb_inv b" and can: "can_put_packet b p"
  shows "cb_inv (put_packet p b)" and "cb_contents (put_packet p b) = cb_contents b @ [p]"
proof -
  let ?s = "submitted b p" and ?bl = "blocks_of (int (length p))"
  note eq = put_packet_eq [OF inv can] and core = submitted_core [OF inv can]
  show "cb_contents (put_packet p b) = cb_contents b @ [p]"
    by (simp add: eq Let_def core(2))
  have used0: "0 \<le> cb_used b" using inv by (simp add: cb_inv_def cb_structure_defs)
  have "ChunkBuffer2_assert_output (put_packet p b)"
  proof (cases "cb_used ?s = 1 + ?bl")
    case True
    then show ?thesis using assert_output_update [of "ChunkBuffer2_update_input ?s"] core(1)
      by (simp add: eq Let_def)
  next
    case False
    then have used: "0 < cb_used b" using used0 submitted_used [of b p] by simp
    have "ChunkBuffer2_assert_output b" using inv by (simp add: cb_inv_def ChunkBuffer2_assert_io_def)
    then have out: "output_dest b = Some (4 * (cb_start b + 1))"
      "output_avail b = read_len (buffer b) (cb_start b)"
      using used by (simp_all add: ChunkBuffer2_assert_output_def Let_def)
    have "0 < cb_used ?s"
      using used submitted_used [of b p] blocks_of_nonneg(1) [of "int (length p)"] by linarith
    then show ?thesis
      using core_head [OF core(1)] False out submitted_head [OF inv can used]
      by (simp add: eq Let_def ChunkBuffer2_assert_output_def submitted_output)
  qed
  then show "cb_inv (put_packet p b)"
    using core(1) assert_input_update [of ?s]
    by (simp add: cb_inv_def ChunkBuffer2_assert_io_def eq Let_def)
qed

subsection \<open>Consuming a packet\<close>

lemma contents_empty_iff:
  assumes "cb_core b" shows "cb_contents b \<noteq> [] \<longleftrightarrow> 0 < cb_used b"
  using assms by (auto simp: cb_structure_defs chunks.simps split: if_splits)

lemma chunks_ConsD:
  assumes "chunks_ok mem lim i j" "i < j"
  shows "chunks mem i j = sub_bytes (nat (4 * (i + 1))) (nat (read_len mem i)) mem
           # chunks mem (i + 1 + blocks_of (read_len mem i)) j"
    and "i + 1 + blocks_of (read_len mem i) \<le> j"
    and "chunks_ok mem lim (i + 1 + blocks_of (read_len mem i)) j"
    and "0 \<le> read_len mem i"
  using assms by (simp_all add: chunks.simps [of mem i j] chunks_ok.simps [of mem lim i j])

lemma chunks_ok_lim: "chunks_ok mem lim i j \<Longrightarrow> i < j \<Longrightarrow> i \<le> lim"
  by (simp add: chunks_ok.simps [of mem lim i j])

definition consumed :: "ChunkBuffer2 \<Rightarrow> ChunkBuffer2" where
  "consumed b =
     (let bl = blocks_of (read_len (buffer b) (cb_start b));
          b = b\<lparr>cb_start := cb_start b + (1 + bl), cb_used := cb_used b - (1 + bl)\<rparr>
      in if cb_start b = cb_wrap b then b\<lparr>cb_start := 0, cb_wrap := cb_size b\<rparr> else b)"

lemma consume_packet_eq:
  "ChunkBuffer2_ConsumePacket b =
     ChunkBuffer2_update_output
       (if cb_wrapped b then ChunkBuffer2_update_input (consumed b) else consumed b)"
  by (simp add: ChunkBuffer2_ConsumePacket_def consumed_def cb_wrapped_def Let_def)

lemma consumed_fields [simp]:
  "buffer (consumed b) = buffer b" "cb_size (consumed b) = cb_size b" "cb_mtu (consumed b) = cb_mtu b"
  "input_dest (consumed b) = input_dest b" "input_avail (consumed b) = input_avail b"
  "cb_used (consumed b) = cb_used b - (1 + blocks_of (read_len (buffer b) (cb_start b)))"
  by (simp_all add: consumed_def Let_def)

lemma consumed_core:
  assumes core: "cb_core b" and used: "0 < cb_used b"
  shows "cb_core (consumed b)" and "cb_contents (consumed b) = tl (cb_contents b)"
    and "\<not> cb_wrapped b \<Longrightarrow> \<not> cb_wrapped (consumed b)"
    and "ChunkBuffer2_end (consumed b) = ChunkBuffer2_end b"
proof -
  let ?len = "read_len (buffer b) (cb_start b)"
  let ?bl = "blocks_of ?len"
  let ?k = "cb_start b + 1 + ?bl"
  have bl: "0 \<le> ?bl" by simp
  note head = core_head [OF core used]
  have all: "cb_core (consumed b) \<and> cb_contents (consumed b) = tl (cb_contents b) \<and>
        (\<not> cb_wrapped b \<longrightarrow> \<not> cb_wrapped (consumed b)) \<and>
        ChunkBuffer2_end (consumed b) = ChunkBuffer2_end b"
  proof (cases "cb_wrapped b")
    case True
    have ok: "chunks_ok (buffer b) (cb_lim b) (cb_start b) (cb_wrap b)"
      "chunks_ok (buffer b) (cb_lim b) 0 (ChunkBuffer2_end b)"
      and lt: "cb_start b < cb_wrap b"
      using core True by (simp_all add: cb_core_def ChunkBuffer2_assert_buffer_def)
    note c = chunks_ConsD [OF ok(1) lt]
    have eb: "ChunkBuffer2_end b = cb_used b - (cb_wrap b - cb_start b)"
      using True by (simp add: ChunkBuffer2_end_def cb_wrapped_def)
    have le: "cb_wrap b - cb_start b \<le> cb_used b" "cb_used b \<le> cb_wrap b"
      using True core by (simp_all add: cb_structure_defs)
    show ?thesis
    proof (cases "?k = cb_wrap b")
      case unwrap: True
      have sub: "consumed b = b\<lparr>cb_start := 0, cb_used := cb_used b - (1 + ?bl), cb_wrap := cb_size b\<rparr>"
        using unwrap by (simp add: consumed_def Let_def)
      have ub: "cb_used b - (1 + ?bl) = ChunkBuffer2_end b" using eb unwrap by linarith
      have bnd: "0 \<le> ChunkBuffer2_end b" "ChunkBuffer2_end b \<le> cb_lim b"
        using core_end_bounds [OF core] by simp_all
      have "0 \<le> cb_mtu b" using core by (simp add: cb_structure_defs)
      then have small: "ChunkBuffer2_end b < cb_size b" using bnd by linarith
      have nw: "\<not> cb_wrapped (consumed b)" using small ub by (simp add: sub cb_wrapped_def)
      have e': "ChunkBuffer2_end (consumed b) = ChunkBuffer2_end b"
        using end_flat [OF nw] ub by (simp add: sub)
      have "cb_contents (consumed b) = tl (cb_contents b)"
        using True nw e' c(1) unwrap by (simp add: cb_contents_def sub)
      moreover have "cb_core (consumed b)"
        using core nw e' ok(2) bnd small ub unfolding cb_core_def
        by (simp add: sub ChunkBuffer2_assert_buffer_def)
      ultimately show ?thesis using nw e' by simp
    next
      case stay: False
      have sub: "consumed b = b\<lparr>cb_start := cb_start b + (1 + ?bl), cb_used := cb_used b - (1 + ?bl)\<rparr>"
        using stay by (simp add: consumed_def Let_def)
      have klt: "?k < cb_wrap b" using stay c(2) by simp
      have klim: "?k \<le> cb_lim b" using chunks_ok_lim [OF c(3) klt] .
      have w': "cb_wrapped (consumed b)" using le unfolding sub cb_wrapped_def by simp
      have e': "ChunkBuffer2_end (consumed b) = ChunkBuffer2_end b"
        using end_wrapped [OF w'] eb by (simp add: sub)
      have "cb_contents (consumed b) = tl (cb_contents b)"
        using True w' e' c(1) by (simp add: cb_contents_def sub add.assoc)
      moreover have wp: "0 < cb_wrap b" using core by (simp add: cb_structure_defs)
      moreover have ul: "cb_used b - (1 + ?bl) \<le> cb_wrap b" using le(2) bl by linarith
      moreover have "cb_core (consumed b)"
        using core w' e' ok(2) c(3) klim klt bl head le True unfolding cb_core_def
        by (simp add: sub ChunkBuffer2_assert_buffer_def add.assoc wp ul)
      ultimately show ?thesis using True e' by simp
    qed
  next
    case False
    have ok: "chunks_ok (buffer b) (cb_lim b) (cb_start b) (ChunkBuffer2_end b)"
      and eb: "ChunkBuffer2_end b = cb_start b + cb_used b" and ws: "cb_wrap b = cb_size b"
      and lim: "ChunkBuffer2_end b \<le> cb_lim b" and ul: "cb_used b < cb_wrap b - cb_start b"
      using core False by (auto simp: cb_core_def ChunkBuffer2_assert_buffer_def cb_wrapped_def
          ChunkBuffer2_end_def split: if_splits)
    have lt: "cb_start b < ChunkBuffer2_end b" using eb used by simp
    note c = chunks_ConsD [OF ok lt]
    have kne: "?k \<noteq> cb_wrap b" using c(2) eb ul by linarith
    have sub: "consumed b = b\<lparr>cb_start := cb_start b + (1 + ?bl), cb_used := cb_used b - (1 + ?bl)\<rparr>"
      using kne by (simp add: consumed_def Let_def)
    have nw: "\<not> cb_wrapped (consumed b)" using ul unfolding sub cb_wrapped_def by simp
    have e': "ChunkBuffer2_end (consumed b) = ChunkBuffer2_end b"
      using end_flat [OF nw] eb by (simp add: sub)
    have "cb_contents (consumed b) = tl (cb_contents b)"
      using False nw e' c(1) by (simp add: cb_contents_def sub add.assoc)
    moreover have u': "cb_used b - (1 + ?bl) \<le> cb_size b" using ul ws bl core
      unfolding cb_core_def ChunkBuffer2_assert_buffer_def by linarith
    moreover have "cb_core (consumed b)"
      using core nw e' c(2,3) bl head lim ul eb ws unfolding cb_core_def
      by (simp add: sub ChunkBuffer2_assert_buffer_def add.assoc False u')
    ultimately show ?thesis using nw e' by simp
  qed
  from all show "cb_core (consumed b)" "cb_contents (consumed b) = tl (cb_contents b)"
    "\<not> cb_wrapped b \<Longrightarrow> \<not> cb_wrapped (consumed b)"
    "ChunkBuffer2_end (consumed b) = ChunkBuffer2_end b" by blast+
qed

lemma consume_packet_inv:
  assumes inv: "cb_inv b" and ne: "cb_contents b \<noteq> []"
  shows "cb_inv (ChunkBuffer2_ConsumePacket b)"
    and "cb_contents (ChunkBuffer2_ConsumePacket b) = tl (cb_contents b)"
proof -
  have core: "cb_core b" and inp: "ChunkBuffer2_assert_input b"
    using inv by (simp_all add: cb_inv_def ChunkBuffer2_assert_io_def)
  have used: "0 < cb_used b" using contents_empty_iff [OF core] ne by simp
  note c = consumed_core [OF core used]
  show "cb_contents (ChunkBuffer2_ConsumePacket b) = tl (cb_contents b)"
    by (simp add: consume_packet_eq c(2))
  have "ChunkBuffer2_assert_input (consumed b)" if "\<not> cb_wrapped b"
  proof -
    have "\<not> cb_wrap (consumed b) - cb_start (consumed b) \<le> cb_used (consumed b)"
      using c(3) [OF that] unfolding cb_wrapped_def .
    then show ?thesis
      using inp that c(4) by (simp add: ChunkBuffer2_assert_input_def cb_wrapped_def Let_def split: if_splits)
  qed
  then have "ChunkBuffer2_assert_input (ChunkBuffer2_ConsumePacket b)"
    by (simp add: consume_packet_eq assert_input_update)
  moreover have "ChunkBuffer2_assert_output (ChunkBuffer2_ConsumePacket b)"
    unfolding consume_packet_eq by (rule assert_output_update) (simp add: c(1))
  moreover have "cb_core (ChunkBuffer2_ConsumePacket b)" by (simp add: consume_packet_eq c(1))
  ultimately show "cb_inv (ChunkBuffer2_ConsumePacket b)"
    by (simp add: cb_inv_def ChunkBuffer2_assert_io_def)
qed

lemma front_packet_hd:
  assumes inv: "cb_inv b" and ne: "cb_contents b \<noteq> []"
  shows "output_dest b = Some (4 * (cb_start b + 1))" and "front_packet b = hd (cb_contents b)"
proof -
  have core: "cb_core b" and outp: "ChunkBuffer2_assert_output b"
    using inv by (simp_all add: cb_inv_def ChunkBuffer2_assert_io_def)
  have used: "0 < cb_used b" using contents_empty_iff [OF core] ne by simp
  show out: "output_dest b = Some (4 * (cb_start b + 1))"
    using outp used by (simp add: ChunkBuffer2_assert_output_def Let_def)
  have av: "output_avail b = read_len (buffer b) (cb_start b)"
    using outp used by (simp add: ChunkBuffer2_assert_output_def Let_def)
  have hd: "hd (cb_contents b) = sub_bytes (nat (4 * (cb_start b + 1)))
      (nat (read_len (buffer b) (cb_start b))) (buffer b)"
    using core used by (auto simp: cb_structure_defs chunks.simps [of _ "cb_start b"] split: if_splits)
  show "front_packet b = hd (cb_contents b)" by (simp add: front_packet_def out av hd)
qed

lemma output_none_iff: "cb_inv b \<Longrightarrow> output_dest b \<noteq> None \<longleftrightarrow> cb_contents b \<noteq> []"
  using contents_empty_iff [of b]
  by (auto simp: cb_inv_def ChunkBuffer2_assert_io_def ChunkBuffer2_assert_output_def Let_def
      split: if_splits)

interpretation cbq: bounded_fifo cb_inv cb_contents can_put_packet put_packet
  "\<lambda>b. output_dest b \<noteq> None" front_packet ChunkBuffer2_ConsumePacket
  by unfold_locales
    (simp_all add: put_packet_inv consume_packet_inv front_packet_hd(2) output_none_iff del: not_None_eq)

section \<open>Initial state, capacity and stability of the input pointer\<close>

lemma init_inv:
  assumes "blocks_of mtu < blocks" "4 * blocks \<le> INT_MAX" "length mem = nat (4 * blocks)"
  shows "cb_inv (ChunkBuffer2_Init mem blocks mtu)"
    and "cb_contents (ChunkBuffer2_Init mem blocks mtu) = []"
proof -
  let ?b = "\<lparr>buffer = mem, cb_size = blocks, cb_wrap = blocks, cb_start = 0, cb_used = 0,
        cb_mtu = blocks_of mtu, input_dest = None, input_avail = -1,
        output_dest = None, output_avail = -1\<rparr>"
  have p: "0 < blocks" using assms(1) blocks_of_nonneg(1) [of mtu] by linarith
  have core: "cb_core ?b" using assms p by (simp add: cb_structure_defs)
  then show "cb_inv (ChunkBuffer2_Init mem blocks mtu)"
    using assert_output_update [of "ChunkBuffer2_update_input ?b"] assert_input_update [of ?b]
    by (simp add: cb_inv_def ChunkBuffer2_Init_def ChunkBuffer2_assert_io_def)
  show "cb_contents (ChunkBuffer2_Init mem blocks mtu) = []"
    using p by (simp add: ChunkBuffer2_Init_def cb_structure_defs)
qed

lemma init_fields [simp]:
  "cb_size (ChunkBuffer2_Init mem blocks mtu) = blocks"
  "cb_mtu (ChunkBuffer2_Init mem blocks mtu) = blocks_of mtu"
  by (simp_all add: ChunkBuffer2_Init_def)

lemma put_fields [simp]:
  "cb_size (put_packet p b) = cb_size b" "cb_mtu (put_packet p b) = cb_mtu b"
  by (simp_all add: put_packet_def ChunkBuffer2_SubmitPacket_def write_packet_def Let_def
      split: option.splits)

lemma consume_fields [simp]:
  "cb_size (ChunkBuffer2_ConsumePacket b) = cb_size b"
  "cb_mtu (ChunkBuffer2_ConsumePacket b) = cb_mtu b"
  by (simp_all add: consume_packet_eq)

lemma calc_blocks_value:
  assumes "ChunkBuffer2_calc_blocks mtu num = blocks" "blocks \<noteq> -1"
  shows "blocks = (1 + blocks_of mtu) * (num + 1)"
  using assms by (auto simp: ChunkBuffer2_calc_blocks_def Let_def split: if_splits)

text \<open>The blocks a run of packets takes are exactly the blocks between its ends.\<close>

lemma chunks_blocks:
  assumes "chunks_ok mem lim i j" "0 \<le> i" "4 * j \<le> int (length mem)"
  shows "j - i = (\<Sum>p\<leftarrow>chunks mem i j. 1 + blocks_of (int (length p)))"
  using assms
proof (induction mem lim i j rule: chunks_ok.induct)
  case (1 mem lim i j)
  show ?case
  proof (cases "j \<le> i")
    case True
    then show ?thesis using "1.prems"(1) by (simp add: chunks_ok.simps [of mem lim i j])
  next
    case False
    then have lt: "i < j" by simp
    let ?len = "read_len mem i"
    let ?k = "i + 1 + blocks_of ?len"
    note c = chunks_ConsD [OF "1.prems"(1) lt]
    have k: "0 \<le> ?k" using "1.prems"(2) blocks_of_nonneg(1) [of ?len] by linarith
    have room: "nat (4 * (i + 1)) + nat ?len \<le> length mem"
      using nat_plus_nat_le [of "4 * (i + 1)" ?len "int (length mem)"] blocks_of_bound [OF c(4)]
        c(2,4) "1.prems"(2,3) by simp
    have len: "int (length (sub_bytes (nat (4 * (i + 1))) (nat ?len) mem)) = ?len"
      using length_sub_bytes [OF room] c(4) by simp
    have nle: "\<not> j \<le> i" using lt by simp
    have "j - ?k = (\<Sum>p\<leftarrow>chunks mem ?k j. 1 + blocks_of (int (length p)))"
      using "1.IH" [OF nle c(3) k "1.prems"(3)] .
    then show ?thesis using c(1) len by simp
  qed
qed

lemma used_blocks:
  assumes core: "cb_core b"
  shows "cb_used b = (\<Sum>p\<leftarrow>cb_contents b. 1 + blocks_of (int (length p)))"
proof -
  have mem: "int (length (buffer b)) = 4 * cb_size b" "cb_wrap b \<le> cb_size b"
    "ChunkBuffer2_end b \<le> cb_size b" "0 \<le> cb_start b"
    using core core_end_bounds [OF core] by (auto simp: cb_core_def ChunkBuffer2_assert_buffer_def)
  show ?thesis
  proof (cases "cb_wrapped b")
    case True
    then show ?thesis
      using core chunks_blocks [of "buffer b" "cb_lim b" "cb_start b" "cb_wrap b"]
        chunks_blocks [of "buffer b" "cb_lim b" 0 "ChunkBuffer2_end b"] mem end_wrapped [OF True]
      by (simp add: cb_core_def cb_contents_def)
  next
    case False
    then show ?thesis
      using core chunks_blocks [of "buffer b" "cb_lim b" "cb_start b" "ChunkBuffer2_end b"] mem
        end_flat [OF False]
      by (simp add: cb_core_def cb_contents_def)
  qed
qed

lemma blocks_of_mono: "a \<le> b \<Longrightarrow> blocks_of a \<le> blocks_of b"
  by (simp add: blocks_of_def bdivide_up_mono nat_mono)

text \<open>How much the producer may write, in terms of the free blocks.\<close>

lemma input_avail_free:
  assumes "cb_inv b"
  shows "cb_bound b - ChunkBuffer2_end b > 0 \<Longrightarrow>
           input_avail b = (cb_bound b - ChunkBuffer2_end b - 1) * 4 \<and>
           input_dest b = Some (4 * (ChunkBuffer2_end b + 1))"
    and "cb_bound b - ChunkBuffer2_end b \<le> 0 \<Longrightarrow> input_avail b = -1 \<and> input_dest b = None"
proof -
  have core: "cb_core b" and inp: "ChunkBuffer2_assert_input b"
    using assms by (simp_all add: cb_inv_def ChunkBuffer2_assert_io_def)
  have "\<not> cb_size b - ChunkBuffer2_end b - 1 < cb_mtu b"
    using core_end_bounds [OF core] by linarith
  then show "cb_bound b - ChunkBuffer2_end b > 0 \<Longrightarrow>
           input_avail b = (cb_bound b - ChunkBuffer2_end b - 1) * 4 \<and>
           input_dest b = Some (4 * (ChunkBuffer2_end b + 1))"
    "cb_bound b - ChunkBuffer2_end b \<le> 0 \<Longrightarrow> input_avail b = -1 \<and> input_dest b = None"
    using inp
    by (auto simp: ChunkBuffer2_assert_input_def cb_bound_def cb_wrapped_def Let_def split: if_splits)
qed

text \<open>In the unwrapped state a full-size packet always fits.\<close>

lemma flat_accepts:
  assumes inv: "cb_inv b" and nw: "\<not> cb_wrapped b"
  shows "4 * cb_mtu b \<le> input_avail b \<and> input_dest b = Some (4 * (ChunkBuffer2_end b + 1))"
proof -
  have core: "cb_core b" using inv by (simp add: cb_inv_def)
  have m: "0 \<le> cb_mtu b" using core by (simp add: cb_structure_defs)
  have bd: "cb_bound b = cb_size b" using nw by (simp add: cb_bound_def)
  have "cb_bound b - ChunkBuffer2_end b > cb_mtu b" using core_end_bounds [OF core] bd by linarith
  then show ?thesis using input_avail_free(1) [OF inv] m by simp
qed

lemma empty_accepts:
  assumes inv: "cb_inv b" and empty: "cb_contents b = []"
  shows "4 * cb_mtu b \<le> input_avail b \<and> input_dest b = Some (4 * (ChunkBuffer2_end b + 1))"
proof -
  have core: "cb_core b" using inv by (simp add: cb_inv_def)
  then have "\<not> 0 < cb_used b" using contents_empty_iff empty by blast
  then have "\<not> cb_wrapped b" using core by (auto simp: cb_structure_defs)
  then show ?thesis by (rule flat_accepts [OF inv])
qed

lemma sum_list_bound_const:
  "\<forall>p\<in>set ps. f p \<le> (c :: int) \<Longrightarrow> (\<Sum>p\<leftarrow>ps. f p) \<le> int (length ps) * c"
  by (induction ps) (auto simp: algebra_simps)

text \<open>Capacity: the array that \<open>ChunkBuffer2_calc_blocks\<close> sizes for \<open>num\<close> packets takes one more
  maximum-size packet as long as it holds fewer than \<open>num\<close>.\<close>

lemma capacity:
  assumes inv: "cb_inv b" and sz: "cb_size b = (1 + cb_mtu b) * (num + 1)"
    and small: "\<forall>p\<in>set (cb_contents b). blocks_of (int (length p)) \<le> cb_mtu b"
    and few: "int (length (cb_contents b)) < num"
  shows "4 * cb_mtu b \<le> input_avail b" and "input_dest b \<noteq> None"
proof -
  have core: "cb_core b" using inv by (simp add: cb_inv_def)
  have m: "0 \<le> cb_mtu b" using core by (simp add: cb_structure_defs)
  have "4 * cb_mtu b \<le> input_avail b \<and> input_dest b \<noteq> None"
  proof (cases "cb_wrapped b")
    case False
    then show ?thesis using flat_accepts [OF inv] by simp
  next
    case True
    have "cb_used b \<le> int (length (cb_contents b)) * (1 + cb_mtu b)"
      unfolding used_blocks [OF core] by (rule sum_list_bound_const) (use small in simp)
    also have "\<dots> \<le> (num - 1) * (1 + cb_mtu b)"
      using few m by (intro mult_right_mono) simp_all
    finally obtain X where X: "X = (num - 1) * (1 + cb_mtu b)" and used: "cb_used b \<le> X" by simp
    have "cb_bound b - ChunkBuffer2_end b = cb_wrap b - cb_used b"
      using True end_wrapped [OF True] by (simp add: cb_bound_def)
    moreover have "cb_size b - cb_mtu b \<le> cb_wrap b" using core by (simp add: cb_core_def)
    moreover have "cb_size b = X + 2 + 2 * cb_mtu b" using sz by (simp add: X algebra_simps)
    ultimately have "cb_bound b - ChunkBuffer2_end b > cb_mtu b" using used m by linarith
    then show ?thesis using input_avail_free(1) [OF inv] m by simp
  qed
  then show "4 * cb_mtu b \<le> input_avail b" "input_dest b \<noteq> None" by simp_all
qed

text \<open>A packet being received while another is consumed: the place it is written to does not move,
  and never shrinks.\<close>

lemma consume_input_stable:
  assumes inv: "cb_inv b" and ne: "cb_contents b \<noteq> []" and d: "input_dest b = Some d"
  shows "input_dest (ChunkBuffer2_ConsumePacket b) = Some d"
    and "input_avail b \<le> input_avail (ChunkBuffer2_ConsumePacket b)"
    and "buffer (ChunkBuffer2_ConsumePacket b) = buffer b"
proof -
  let ?b = "ChunkBuffer2_ConsumePacket b"
  have core: "cb_core b" using inv by (simp add: cb_inv_def)
  have used: "0 < cb_used b" using contents_empty_iff [OF core] ne by simp
  note c = consumed_core [OF core used] and inv' = consume_packet_inv(1) [OF inv ne]
  have e: "ChunkBuffer2_end ?b = ChunkBuffer2_end b"
    using c(4) by (simp add: consume_packet_eq)
  have pos: "cb_bound b - ChunkBuffer2_end b > 0"
    using input_avail_free(2) [OF inv] d by (metis linorder_not_le option.distinct(1))
  have bnd: "cb_bound b \<le> cb_bound ?b"
  proof -
    have st: "cb_start b < cb_wrap b" "cb_wrap b \<le> cb_size b" "cb_mtu b \<ge> 0"
      using core by (auto simp: cb_structure_defs)
    have w: "cb_wrapped ?b = cb_wrapped (consumed b)"
      by (simp add: consume_packet_eq)
    show ?thesis
    proof (cases "cb_wrapped ?b")
      case True
      then have wb: "cb_wrapped b" using c(3) w by blast
      moreover have "cb_start b \<le> cb_start ?b"
        using True c(1) core_end_bounds [OF core] end_wrapped [OF wb] w
        by (auto simp: consume_packet_eq consumed_def Let_def cb_wrapped_def cb_core_def
          ChunkBuffer2_assert_buffer_def)
      ultimately show ?thesis using True by (simp add: cb_bound_def)
    next
      case False
      then show ?thesis using st by (auto simp: cb_bound_def)
    qed
  qed
  then have pos': "cb_bound ?b - ChunkBuffer2_end ?b > 0" using pos e by simp
  from input_avail_free(1) [OF inv pos] input_avail_free(1) [OF inv' pos'] d e bnd
  show "input_dest ?b = Some d" "input_avail b \<le> input_avail ?b" by simp_all
  show "buffer ?b = buffer b" by (simp add: consume_packet_eq)
qed

lemma assert_input_buffer: "ChunkBuffer2_assert_input (b\<lparr>buffer := m\<rparr>) = ChunkBuffer2_assert_input b"
  by (cases b) (simp add: ChunkBuffer2_assert_input_def ChunkBuffer2_end_def)

text \<open>Writing into the region offered for the next packet changes nothing else.\<close>

lemma free_write:
  assumes inv: "cb_inv b" and d: "input_dest b = Some d"
    and off: "d \<le> int off" "int (off + length src) \<le> d + input_avail b"
  shows "cb_inv (b\<lparr>buffer := memcpy_at (buffer b) off src\<rparr>)"
    and "cb_contents (b\<lparr>buffer := memcpy_at (buffer b) off src\<rparr>) = cb_contents b"
    and "length (memcpy_at (buffer b) off src) = length (buffer b)"
proof -
  let ?m = "memcpy_at (buffer b) off src" and ?e = "ChunkBuffer2_end b"
  let ?b = "b\<lparr>buffer := ?m\<rparr>"
  have core: "cb_core b" and io: "ChunkBuffer2_assert_input b" "ChunkBuffer2_assert_output b"
    using inv by (simp_all add: cb_inv_def ChunkBuffer2_assert_io_def)
  have pos: "cb_bound b - ?e > 0"
    using input_avail_free(2) [OF inv] d by (metis linorder_not_le option.distinct(1))
  have d4: "d = 4 * ?e + 4" and av: "d + input_avail b = 4 * cb_bound b"
    using input_avail_free(1) [OF inv pos] d by simp_all
  have bs: "cb_bound b \<le> cb_size b" using core by (auto simp: cb_bound_def cb_structure_defs)
  have len: "int (length (buffer b)) = 4 * cb_size b"
    using core by (simp add: cb_core_def ChunkBuffer2_assert_buffer_def)
  have room: "off + length src \<le> length (buffer b)" using off av bs len by linarith
  show lenm: "length ?m = length (buffer b)" by (rule length_memcpy_at [OF room])
  have same: "same_bytes (4 * lo) (4 * hi) (buffer b) ?m" if "0 \<le> lo" "hi \<le> ?e \<or> cb_bound b \<le> lo" for lo hi
  proof (rule same_bytes_memcpy [OF room])
    have "0 \<le> ?e" using core_end_bounds [OF core] by simp
    then have "hi \<le> ?e \<Longrightarrow> nat (4 * hi) \<le> off" "cb_bound b \<le> lo \<Longrightarrow> off + length src \<le> nat (4 * lo)"
      using off d4 av by linarith+
    then show "nat (4 * hi) \<le> off \<or> off + length src \<le> nat (4 * lo)" using that(2) by blast
  qed
  have e': "ChunkBuffer2_end ?b = ?e" "cb_wrapped ?b = cb_wrapped b"
    by (simp_all add: ChunkBuffer2_end_def cb_wrapped_def)
  have st: "0 \<le> cb_start b" using core by (simp add: cb_structure_defs)
  have head: "read_len ?m (cb_start b) = read_len (buffer b) (cb_start b)" if "0 < cb_used b"
  proof -
    have "cb_start b + 1 \<le> ?e \<or> cb_bound b \<le> cb_start b"
      using that by (auto simp: cb_bound_def cb_wrapped_def ChunkBuffer2_end_def)
    then show ?thesis using read_len_same [OF same [OF st]] st by simp
  qed
  have ch: "chunks ?m i j = chunks (buffer b) i j \<and> chunks_ok ?m (cb_lim b) i j"
    if "chunks_ok (buffer b) (cb_lim b) i j" "0 \<le> i" "j \<le> ?e \<or> cb_bound b \<le> i" for i j
    using chunks_same [OF that(1) same [OF that(2,3)]] that(2) by simp
  have "cb_core ?b \<and> cb_contents ?b = cb_contents b"
  proof (cases "cb_wrapped b")
    case True
    then have ok: "chunks_ok (buffer b) (cb_lim b) (cb_start b) (cb_wrap b)" "chunks_ok (buffer b) (cb_lim b) 0 ?e"
      and bd: "cb_bound b = cb_start b"
      using core by (simp_all add: cb_core_def cb_bound_def)
    show ?thesis
      using core True ch [OF ok(1) st] ch [OF ok(2)] bd lenm
      by (simp add: cb_core_def cb_contents_def e' ChunkBuffer2_assert_buffer_def)
  next
    case False
    then have ok: "chunks_ok (buffer b) (cb_lim b) (cb_start b) ?e"
      using core by (simp add: cb_core_def)
    show ?thesis
      using core False ch [OF ok st] lenm
      by (simp add: cb_core_def cb_contents_def e' ChunkBuffer2_assert_buffer_def)
  qed
  moreover have "ChunkBuffer2_assert_input ?b"
    using io(1) by (simp add: assert_input_buffer)
  moreover have "ChunkBuffer2_assert_output ?b"
    using io(2) head unfolding ChunkBuffer2_assert_output_def by (auto simp: Let_def)
  ultimately show "cb_inv ?b" "cb_contents ?b = cb_contents b"
    by (simp_all add: cb_inv_def ChunkBuffer2_assert_io_def)
qed

end
