(* ===== verification/Jobs.thy ===== *)
theory Jobs
  imports Prelude
begin

text \<open>
  The job queue of \<open>base/BPending.c\<close>: a stack of pending jobs from which the reactor takes
  the most recently set job. A job is identified by \<open>'j\<close> (the address of its
  \<open>BSmallPending\<close>), its handler and user pointer by \<open>'h\<close>. The queue is an
  \<open>SLinkedList\<close>; \<open>removed\<close> is the marker \<open>BPending__ListMarkRemoved\<close> leaves in a node
  (its next pointer points to itself), which is what \<open>BSmallPending_IsSet\<close> reads. That the
  marker and membership in the list agree is the invariant of the component.
\<close>

section \<open>State and operations\<close>

record ('j, 'h) BPendingGroup =
  jobs :: "'j list"
  removed :: "'j \<Rightarrow> bool"
  job_handler :: "'j \<Rightarrow> 'h option"

definition BPendingGroup_Init :: "('j, 'h) BPendingGroup" where
  "BPendingGroup_Init = \<lparr>jobs = [], removed = (\<lambda>_. True), job_handler = (\<lambda>_. None)\<rparr>"

definition BPendingGroup_HasJobs :: "('j, 'h) BPendingGroup \<Rightarrow> bool" where
  "BPendingGroup_HasJobs g \<longleftrightarrow> jobs g \<noteq> []"

definition BPendingGroup_PeekJob :: "('j, 'h) BPendingGroup \<Rightarrow> 'j option" where
  "BPendingGroup_PeekJob g = (case jobs g of [] \<Rightarrow> None | p # _ \<Rightarrow> Some p)"

text \<open>\<open>BPendingGroup_ExecuteJob\<close> unlinks the first job and marks it; the handler that it then
  calls is returned, to be run by the caller.\<close>

definition BPendingGroup_ExecuteJob ::
  "('j, 'h) BPendingGroup \<Rightarrow> ('j \<times> ('j, 'h) BPendingGroup) option" where
  "BPendingGroup_ExecuteJob g =
     (case jobs g of [] \<Rightarrow> None
      | p # ps \<Rightarrow> Some (p, g\<lparr>jobs := ps, removed := (removed g)(p := True)\<rparr>))"

definition BSmallPending_Init :: "'j \<Rightarrow> 'h \<Rightarrow> ('j, 'h) BPendingGroup \<Rightarrow> ('j, 'h) BPendingGroup" where
  "BSmallPending_Init j h g =
     g\<lparr>job_handler := (job_handler g)(j \<mapsto> h), removed := (removed g)(j := True)\<rparr>"

text \<open>\<open>BPending__List_Remove\<close> unlinks the node and leaves its own pointers alone.\<close>

definition list_Remove :: "'j \<Rightarrow> ('j, 'h) BPendingGroup \<Rightarrow> ('j, 'h) BPendingGroup" where
  "list_Remove j g = g\<lparr>jobs := remove1 j (jobs g)\<rparr>"

definition list_Prepend :: "'j \<Rightarrow> ('j, 'h) BPendingGroup \<Rightarrow> ('j, 'h) BPendingGroup" where
  "list_Prepend j g = g\<lparr>jobs := j # jobs g, removed := (removed g)(j := False)\<rparr>"

text \<open>After \<open>BSmallPending_Free\<close> the object does not exist any more: its handler entry is
  dropped and its marker is meaningless, kept here as removed.\<close>

definition BSmallPending_Free :: "'j \<Rightarrow> ('j, 'h) BPendingGroup \<Rightarrow> ('j, 'h) BPendingGroup" where
  "BSmallPending_Free j g =
     (let g = (if \<not> removed g j then list_Remove j g else g)
      in g\<lparr>job_handler := (job_handler g)(j := None), removed := (removed g)(j := True)\<rparr>)"

definition BSmallPending_SetHandler ::
  "'j \<Rightarrow> 'h \<Rightarrow> ('j, 'h) BPendingGroup \<Rightarrow> ('j, 'h) BPendingGroup" where
  "BSmallPending_SetHandler j h g = g\<lparr>job_handler := (job_handler g)(j \<mapsto> h)\<rparr>"

definition BSmallPending_Set :: "'j \<Rightarrow> ('j, 'h) BPendingGroup \<Rightarrow> ('j, 'h) BPendingGroup" where
  "BSmallPending_Set j g =
     (let g = (if \<not> removed g j then list_Remove j g else g) in list_Prepend j g)"

definition BSmallPending_Unset :: "'j \<Rightarrow> ('j, 'h) BPendingGroup \<Rightarrow> ('j, 'h) BPendingGroup" where
  "BSmallPending_Unset j g =
     (if \<not> removed g j
      then (list_Remove j g)\<lparr>removed := (removed g)(j := True)\<rparr> else g)"

definition BSmallPending_IsSet :: "'j \<Rightarrow> ('j, 'h) BPendingGroup \<Rightarrow> bool" where
  "BSmallPending_IsSet j g \<longleftrightarrow> \<not> removed g j"

section \<open>Invariant\<close>

text \<open>Every pending job is linked once, its marker says so, and it is a live object.\<close>

definition group_inv :: "('j, 'h) BPendingGroup \<Rightarrow> bool" where
  "group_inv g \<longleftrightarrow>
     distinct (jobs g) \<and> (\<forall>j. removed g j \<longleftrightarrow> j \<notin> set (jobs g)) \<and>
     (\<forall>j \<in> set (jobs g). job_handler g j \<noteq> None)"

text \<open>The operations a user performs on the queue; \<open>OpExec\<close> is one turn of the reactor.\<close>

datatype ('j, 'h) job_op =
  OpInit 'j 'h | OpFree 'j | OpSetHandler 'j 'h | OpSet 'j | OpUnset 'j | OpExec

fun job_pre :: "('j, 'h) job_op \<Rightarrow> ('j, 'h) BPendingGroup \<Rightarrow> bool" where
  "job_pre (OpInit j h) g = (job_handler g j = None)"
| "job_pre (OpFree j) g = (job_handler g j \<noteq> None)"
| "job_pre (OpSetHandler j h) g = (job_handler g j \<noteq> None)"
| "job_pre (OpSet j) g = (job_handler g j \<noteq> None)"
| "job_pre (OpUnset j) g = (job_handler g j \<noteq> None)"
| "job_pre OpExec g = BPendingGroup_HasJobs g"

fun job_step :: "('j, 'h) job_op \<Rightarrow> ('j, 'h) BPendingGroup \<Rightarrow> ('j, 'h) BPendingGroup" where
  "job_step (OpInit j h) g = BSmallPending_Init j h g"
| "job_step (OpFree j) g = BSmallPending_Free j g"
| "job_step (OpSetHandler j h) g = BSmallPending_SetHandler j h g"
| "job_step (OpSet j) g = BSmallPending_Set j g"
| "job_step (OpUnset j) g = BSmallPending_Unset j g"
| "job_step OpExec g = (case BPendingGroup_ExecuteJob g of None \<Rightarrow> g | Some (_, g') \<Rightarrow> g')"

lemmas job_defs =
  BPendingGroup_HasJobs_def BPendingGroup_ExecuteJob_def BSmallPending_Init_def
  BSmallPending_Free_def BSmallPending_SetHandler_def BSmallPending_Set_def
  BSmallPending_Unset_def BSmallPending_IsSet_def list_Remove_def list_Prepend_def
  BPendingGroup_PeekJob_def

lemma job_init_inv: "group_inv BPendingGroup_Init"
  by (simp add: group_inv_def BPendingGroup_Init_def)

lemma job_step_inv: "group_inv g \<Longrightarrow> job_pre op g \<Longrightarrow> group_inv (job_step op g)"
  by (cases op)
    (auto simp: group_inv_def job_defs Let_def split: list.splits)

interpretation bpg: invariant_machine group_inv job_pre job_step
  by unfold_locales (rule job_step_inv)

section \<open>Order of execution\<close>

text \<open>What a \<open>Set\<close> does to the stack, whatever the job's previous state.\<close>

lemma set_jobs: "group_inv g \<Longrightarrow> jobs (BSmallPending_Set j g) = j # removeAll j (jobs g)"
  by (auto simp: group_inv_def job_defs Let_def distinct_remove1_removeAll removeAll_id)

lemma unset_jobs: "group_inv g \<Longrightarrow> jobs (BSmallPending_Unset j g) = removeAll j (jobs g)"
  by (auto simp: group_inv_def job_defs Let_def distinct_remove1_removeAll removeAll_id)

lemma isset_iff: "group_inv g \<Longrightarrow> BSmallPending_IsSet j g \<longleftrightarrow> j \<in> set (jobs g)"
  by (simp add: group_inv_def job_defs)

text \<open>Executing jobs until the queue is empty, with handlers that set no job: the order.\<close>

fun drain :: "nat \<Rightarrow> ('j, 'h) BPendingGroup \<Rightarrow> 'j list" where
  "drain 0 g = []"
| "drain (Suc n) g =
     (case BPendingGroup_ExecuteJob g of None \<Rightarrow> [] | Some (j, g') \<Rightarrow> j # drain n g')"

lemma drain_jobs: "drain n g = take n (jobs g)"
  by (induction n arbitrary: g) (auto simp: BPendingGroup_ExecuteJob_def split: list.splits)

lemma set_all_jobs:
  assumes "group_inv g" "jobs g = []" "distinct js" "\<forall>j\<in>set js. job_handler g j \<noteq> None"
  shows "jobs (fold BSmallPending_Set js g) = rev js \<and> group_inv (fold BSmallPending_Set js g)"
  using assms(3,4)
proof (induction js rule: rev_induct)
  case Nil
  then show ?case using assms(1,2) by simp
next
  case (snoc j js)
  let ?g = "fold BSmallPending_Set js g"
  have IH: "jobs ?g = rev js" "group_inv ?g" using snoc by simp_all
  have "job_handler ?g = job_handler g"
    by (induction js arbitrary: g) (simp_all add: BSmallPending_Set_def list_Remove_def list_Prepend_def Let_def)
  then have "job_pre (OpSet j) ?g" using snoc.prems by simp
  then have "group_inv (BSmallPending_Set j ?g)" using job_step_inv [OF IH(2)] by fastforce
  then show ?case using set_jobs [OF IH(2)] IH(1) snoc.prems(1) by (simp add: removeAll_id)
qed

section \<open>Properties\<close>

text \<open>C24. Through any sequence of legal operations on the job queue (initialising, freeing,
  setting and unsetting jobs, executing one), the queue never holds a job twice, the removed-marker
  that \<open>BSmallPending_IsSet\<close> reads agrees with membership in the queue, and every queued job is
  a live object with a handler: no freed job is ever executed.\<close>

theorem job_queue_consistent:
  assumes "bpg.legal ops BPendingGroup_Init"
  shows "let g = bpg.run ops BPendingGroup_Init in
     distinct (jobs g) \<and> (\<forall>j. BSmallPending_IsSet j g \<longleftrightarrow> j \<in> set (jobs g)) \<and>
     (\<forall>j g'. BPendingGroup_ExecuteJob g = Some (j, g') \<longrightarrow>
        job_handler g j \<noteq> None \<and> \<not> BSmallPending_IsSet j g')"
proof -
  have inv: "group_inv (bpg.run ops BPendingGroup_Init)"
    using bpg.run_inv [OF job_init_inv assms] .
  then show ?thesis
    using isset_iff [OF inv]
    by (auto simp: Let_def group_inv_def job_defs split: list.splits)
qed

theorem job_queue_consistent_witness:
  "let g = bpg.run [OpInit (0::nat) ''a'', OpInit 1 ''b'', OpSet 0, OpSet 1, OpSet 0, OpExec]
       BPendingGroup_Init in
     distinct (jobs g) \<and> (\<forall>j. BSmallPending_IsSet j g \<longleftrightarrow> j \<in> set (jobs g)) \<and>
     (\<forall>j g'. BPendingGroup_ExecuteJob g = Some (j, g') \<longrightarrow>
        job_handler g j \<noteq> None \<and> \<not> BSmallPending_IsSet j g')"
  by (rule job_queue_consistent)
    (simp add: job_defs BPendingGroup_Init_def Let_def)

text \<open>C25. The queue is last-in first-out: with no job pending, setting jobs one after the other and
  executing until none is left runs each of them exactly once, the last set first.\<close>

theorem job_queue_lifo:
  assumes "group_inv g" "\<not> BPendingGroup_HasJobs g" "distinct js"
    "\<forall>j\<in>set js. job_handler g j \<noteq> None" "length js \<le> n"
  shows "drain n (fold BSmallPending_Set js g) = rev js"
  using set_all_jobs [OF assms(1) _ assms(3,4)] assms(2,5)
  by (simp add: drain_jobs BPendingGroup_HasJobs_def)

theorem job_queue_lifo_witness:
  "drain 5 (fold BSmallPending_Set [1, 2]
     (BSmallPending_Init 1 ''a'' (BSmallPending_Init (2::nat) ''b'' BPendingGroup_Init))) = [2, 1]"
  using job_queue_lifo [of "BSmallPending_Init 1 ''a'' (BSmallPending_Init (2::nat) ''b'' BPendingGroup_Init)"
      "[1, 2]" 5]
  by (simp add: job_defs BPendingGroup_Init_def group_inv_def)

end
