(* ===== verification/FlowInterface.thy ===== *)
theory FlowInterface
  imports Jobs
begin

text \<open>
  The four request interfaces through which the components of \<open>flow/\<close> talk to each other:
  \<open>PacketPassInterface\<close> (with cancellation), \<open>PacketRecvInterface\<close>,
  \<open>StreamPassInterface\<close> and \<open>StreamRecvInterface\<close>. A request does not call the provider
  but sets a job; the answer sets another job. A data pointer is of type \<open>'d\<close>; the jobs live in
  the shared group of theory \<open>Jobs\<close>, together with the jobs of every other component. The
  callbacks that a job handler makes are its result. The theorems show that the \<open>ASSERT\<close>s of the
  job handlers hold whatever the rest of the program does with its own jobs, and that requests and
  answers alternate.
\<close>

section \<open>The contract: one request outstanding\<close>

text \<open>What a client of an interface relies on. The contract is met by all four interfaces.\<close>

locale request_interface =
  fixes inv :: "'c \<Rightarrow> bool"
    and step :: "'c \<Rightarrow> 'e \<Rightarrow> 'c \<Rightarrow> bool"
    and busy :: "'c \<Rightarrow> bool"
    and is_req :: "'e \<Rightarrow> bool"
    and is_done :: "'e \<Rightarrow> bool"
  assumes step_inv: "inv c \<Longrightarrow> step c e c' \<Longrightarrow> inv c'"
    and req: "inv c \<Longrightarrow> step c e c' \<Longrightarrow> is_req e \<Longrightarrow> \<not> busy c \<and> busy c'"
    and done_: "inv c \<Longrightarrow> step c e c' \<Longrightarrow> is_done e \<Longrightarrow> busy c \<and> \<not> busy c'"
    and other: "inv c \<Longrightarrow> step c e c' \<Longrightarrow> \<not> is_req e \<Longrightarrow> \<not> is_done e \<Longrightarrow> busy c' = busy c"
    and excl: "\<not> (is_req e \<and> is_done e)"
begin

inductive trace :: "'c \<Rightarrow> 'e list \<Rightarrow> 'c \<Rightarrow> bool" where
  trace_nil: "trace c [] c"
| trace_snoc: "trace c es c' \<Longrightarrow> step c' e c'' \<Longrightarrow> trace c (es @ [e]) c''"

lemma trace_inv: "trace c es c' \<Longrightarrow> inv c \<Longrightarrow> inv c'"
  by (induction rule: trace.induct) (auto intro: step_inv)

lemma trace_alternates:
  "trace c es c' \<Longrightarrow> inv c \<Longrightarrow> \<not> busy c \<Longrightarrow>
   length (filter is_req es) = length (filter is_done es) + (if busy c' then 1 else 0)"
proof (induction rule: trace.induct)
  case (trace_nil c)
  then show ?case by simp
next
  case (trace_snoc c es c' e c'')
  have inv: "inv c'" using trace_inv trace_snoc by blast
  show ?case
    using trace_snoc.IH [OF trace_snoc.prems] req [OF inv trace_snoc.hyps(2)]
      done_ [OF inv trace_snoc.hyps(2)] other [OF inv trace_snoc.hyps(2)] excl [of e]
    by (auto split: if_splits)
qed

end

datatype iface_state = STATE_NONE | STATE_OPERATION_PENDING | STATE_BUSY | STATE_DONE_PENDING

section \<open>PacketPassInterface\<close>

record ('j, 'd) PacketPassInterface =
  ppi_mtu :: int
  ppi_has_cancel :: bool
  ppi_has_user :: bool
  ppi_job_operation :: 'j
  ppi_job_requestcancel :: 'j
  ppi_job_done :: 'j
  ppi_data :: 'd
  ppi_len :: int
  ppi_state :: iface_state
  ppi_cancel_requested :: bool

type_synonym ('j, 'd, 'h) ppi_cfg = "('j, 'd) PacketPassInterface \<times> ('j, 'h) BPendingGroup"

text \<open>The three job objects are members of the interface; \<open>h\<close> names their handlers.\<close>

definition PacketPassInterface_Init ::
  "int \<Rightarrow> 'j \<Rightarrow> 'j \<Rightarrow> 'j \<Rightarrow> 'h \<Rightarrow> 'h \<Rightarrow> 'h \<Rightarrow> 'd \<Rightarrow> ('j, 'h) BPendingGroup \<Rightarrow> ('j, 'd, 'h) ppi_cfg" where
  "PacketPassInterface_Init mtu jo jc jd ho hc hdn junk g =
     (\<lparr>ppi_mtu = mtu, ppi_has_cancel = False, ppi_has_user = False, ppi_job_operation = jo,
       ppi_job_requestcancel = jc, ppi_job_done = jd, ppi_data = junk, ppi_len = 0,
       ppi_state = STATE_NONE, ppi_cancel_requested = False\<rparr>,
      BSmallPending_Init jd hdn (BSmallPending_Init jc hc (BSmallPending_Init jo ho g)))"

definition PacketPassInterface_Free ::
  "('j, 'd) PacketPassInterface \<Rightarrow> ('j, 'h) BPendingGroup \<Rightarrow> ('j, 'h) BPendingGroup" where
  "PacketPassInterface_Free i g =
     BSmallPending_Free (ppi_job_operation i) (BSmallPending_Free (ppi_job_requestcancel i)
       (BSmallPending_Free (ppi_job_done i) g))"

definition PacketPassInterface_EnableCancel :: "('j, 'd) PacketPassInterface \<Rightarrow> ('j, 'd) PacketPassInterface" where
  "PacketPassInterface_EnableCancel i = i\<lparr>ppi_has_cancel := True\<rparr>"

definition PacketPassInterface_Sender_Init :: "('j, 'd) PacketPassInterface \<Rightarrow> ('j, 'd) PacketPassInterface" where
  "PacketPassInterface_Sender_Init i = i\<lparr>ppi_has_user := True\<rparr>"

fun PacketPassInterface_Done :: "('j, 'd, 'h) ppi_cfg \<Rightarrow> ('j, 'd, 'h) ppi_cfg" where
  "PacketPassInterface_Done (i, g) =
     (i\<lparr>ppi_state := STATE_DONE_PENDING\<rparr>,
      BSmallPending_Set (ppi_job_done i) (BSmallPending_Unset (ppi_job_requestcancel i) g))"

fun PacketPassInterface_Sender_Send :: "'d \<Rightarrow> int \<Rightarrow> ('j, 'd, 'h) ppi_cfg \<Rightarrow> ('j, 'd, 'h) ppi_cfg" where
  "PacketPassInterface_Sender_Send data len (i, g) =
     (i\<lparr>ppi_data := data, ppi_len := len, ppi_state := STATE_OPERATION_PENDING,
        ppi_cancel_requested := False\<rparr>,
      BSmallPending_Set (ppi_job_operation i) g)"

fun PacketPassInterface_Sender_RequestCancel :: "('j, 'd, 'h) ppi_cfg \<Rightarrow> ('j, 'd, 'h) ppi_cfg" where
  "PacketPassInterface_Sender_RequestCancel (i, g) =
     (if ppi_cancel_requested i then (i, g)
      else
        let i = i\<lparr>ppi_cancel_requested := True\<rparr> in
        if ppi_state i = STATE_OPERATION_PENDING then
          (i\<lparr>ppi_state := STATE_DONE_PENDING\<rparr>,
           BSmallPending_Set (ppi_job_done i) (BSmallPending_Unset (ppi_job_operation i) g))
        else if ppi_state i = STATE_BUSY then (i, BSmallPending_Set (ppi_job_requestcancel i) g)
        else (i, g))"

text \<open>The job handlers: the new state and the arguments of the callback.\<close>

definition PacketPassInterface_job_operation ::
  "('j, 'd) PacketPassInterface \<Rightarrow> ('j, 'd) PacketPassInterface \<times> 'd \<times> int" where
  "PacketPassInterface_job_operation i = (i\<lparr>ppi_state := STATE_BUSY\<rparr>, ppi_data i, ppi_len i)"

definition PacketPassInterface_job_requestcancel ::
  "('j, 'd) PacketPassInterface \<Rightarrow> ('j, 'd) PacketPassInterface" where
  "PacketPassInterface_job_requestcancel i = i"

definition PacketPassInterface_job_done :: "('j, 'd) PacketPassInterface \<Rightarrow> ('j, 'd) PacketPassInterface" where
  "PacketPassInterface_job_done i = i\<lparr>ppi_state := STATE_NONE\<rparr>"

definition ppi_jobs :: "('j, 'd) PacketPassInterface \<Rightarrow> 'j set" where
  "ppi_jobs i = {ppi_job_operation i, ppi_job_requestcancel i, ppi_job_done i}"

text \<open>What may happen: calls of the user and of the provider under their documented preconditions,
  the reactor executing a job, and any activity on jobs that belong to others.\<close>

datatype 'd ppi_event =
  PSend 'd int | PCancel | PDone | POperation 'd int | PRequestCancel | PHandlerDone | POther

fun job_target :: "('j, 'h) job_op \<Rightarrow> ('j, 'h) BPendingGroup \<Rightarrow> 'j option" where
  "job_target (OpInit j h) g = Some j"
| "job_target (OpFree j) g = Some j"
| "job_target (OpSetHandler j h) g = Some j"
| "job_target (OpSet j) g = Some j"
| "job_target (OpUnset j) g = Some j"
| "job_target OpExec g = BPendingGroup_PeekJob g"

inductive ppi_step :: "('j, 'd, 'h) ppi_cfg \<Rightarrow> 'd ppi_event \<Rightarrow> ('j, 'd, 'h) ppi_cfg \<Rightarrow> bool" where
  send: "ppi_state i = STATE_NONE \<Longrightarrow> ppi_has_user i \<Longrightarrow> 0 \<le> len \<Longrightarrow> len \<le> ppi_mtu i \<Longrightarrow>
     ppi_step (i, g) (PSend d len) (PacketPassInterface_Sender_Send d len (i, g))"
| cancel: "ppi_state i \<noteq> STATE_NONE \<Longrightarrow> ppi_has_cancel i \<Longrightarrow>
     ppi_step (i, g) PCancel (PacketPassInterface_Sender_RequestCancel (i, g))"
| pdone: "ppi_state i = STATE_BUSY \<Longrightarrow>
     ppi_step (i, g) PDone (PacketPassInterface_Done (i, g))"
| run_operation: "BPendingGroup_ExecuteJob g = Some (ppi_job_operation i, g') \<Longrightarrow>
     PacketPassInterface_job_operation i = (i', d, len) \<Longrightarrow>
     ppi_step (i, g) (POperation d len) (i', g')"
| run_requestcancel: "BPendingGroup_ExecuteJob g = Some (ppi_job_requestcancel i, g') \<Longrightarrow>
     ppi_step (i, g) PRequestCancel (PacketPassInterface_job_requestcancel i, g')"
| run_done: "BPendingGroup_ExecuteJob g = Some (ppi_job_done i, g') \<Longrightarrow>
     ppi_step (i, g) PHandlerDone (PacketPassInterface_job_done i, g')"
| others: "job_pre op g \<Longrightarrow> job_target op g = Some j \<Longrightarrow> j \<notin> ppi_jobs i \<Longrightarrow>
     ppi_step (i, g) POther (i, job_step op g)"

inductive_cases ppi_stepE: "ppi_step c e c'"

text \<open>The invariant ties the state field to the jobs that are pending.\<close>

fun ppi_pending :: "('j, 'd, 'h) ppi_cfg \<Rightarrow> bool \<Rightarrow> bool \<Rightarrow> bool \<Rightarrow> bool" where
  "ppi_pending (i, g) po pc pd \<longleftrightarrow>
     (ppi_job_operation i \<in> set (jobs g)) = po \<and>
     (ppi_job_requestcancel i \<in> set (jobs g)) = pc \<and>
     (ppi_job_done i \<in> set (jobs g)) = pd"

fun ppi_inv :: "('j, 'd, 'h) ppi_cfg \<Rightarrow> bool" where
  "ppi_inv (i, g) \<longleftrightarrow>
     group_inv g \<and>
     distinct [ppi_job_operation i, ppi_job_requestcancel i, ppi_job_done i] \<and>
     (\<forall>j\<in>ppi_jobs i. job_handler g j \<noteq> None) \<and>
     (case ppi_state i of
        STATE_NONE \<Rightarrow> ppi_pending (i, g) False False False
      | STATE_OPERATION_PENDING \<Rightarrow>
          ppi_pending (i, g) True False False \<and> \<not> ppi_cancel_requested i \<and>
          0 \<le> ppi_len i \<and> ppi_len i \<le> ppi_mtu i
      | STATE_BUSY \<Rightarrow> ppi_pending (i, g) False (ppi_job_requestcancel i \<in> set (jobs g)) False \<and>
          (ppi_job_requestcancel i \<in> set (jobs g) \<longrightarrow> ppi_cancel_requested i \<and> ppi_has_cancel i)
      | STATE_DONE_PENDING \<Rightarrow> ppi_pending (i, g) False False True)"

definition ppi_busy :: "('j, 'd, 'h) ppi_cfg \<Rightarrow> bool" where
  "ppi_busy c \<longleftrightarrow> ppi_state (fst c) \<noteq> STATE_NONE"

lemma set_jobs_set: "group_inv g \<Longrightarrow> set (jobs (BSmallPending_Set j g)) = insert j (set (jobs g))"
  by (auto simp: set_jobs)

lemma unset_jobs_set: "group_inv g \<Longrightarrow> set (jobs (BSmallPending_Unset j g)) = set (jobs g) - {j}"
  by (auto simp: unset_jobs)

lemma handler_set [simp]:
  "job_handler (BSmallPending_Set j g) = job_handler g"
  "job_handler (BSmallPending_Unset j g) = job_handler g"
  by (simp_all add: job_defs Let_def)

lemma set_inv: "group_inv g \<Longrightarrow> job_handler g j \<noteq> None \<Longrightarrow> group_inv (BSmallPending_Set j g)"
  using job_step_inv [of g "OpSet j"] by simp

lemma unset_inv: "group_inv g \<Longrightarrow> group_inv (BSmallPending_Unset j g)"
  by (auto simp: group_inv_def job_defs)

lemma execute_jobs:
  assumes "group_inv g" "BPendingGroup_ExecuteJob g = Some (j, g')"
  shows "group_inv g'" "j \<in> set (jobs g)" "set (jobs g') = set (jobs g) - {j}"
    "job_handler g' = job_handler g"
  using assms by (auto simp: group_inv_def BPendingGroup_ExecuteJob_def split: list.splits if_splits)

text \<open>Activity on a job that is not \<open>j\<close> leaves \<open>j\<close> alone.\<close>

lemma others_frame:
  assumes "job_target op g = Some k" "k \<noteq> j" "group_inv g"
  shows "j \<in> set (jobs (job_step op g)) \<longleftrightarrow> j \<in> set (jobs g)"
    and "job_handler (job_step op g) j = job_handler g j"
  using assms
  by (cases op; auto simp: job_defs Let_def group_inv_def split: list.splits if_splits)+

lemmas iface_job_simps =
  set_jobs_set unset_jobs_set set_inv unset_inv

lemma ppi_step_inv: "ppi_inv c \<Longrightarrow> ppi_step c e c' \<Longrightarrow> ppi_inv c'"
proof (erule ppi_stepE, goal_cases)
  case (7 op g j i)
  then have g: "group_inv (job_step op g)" and inv: "group_inv g" using job_step_inv by auto
  have nj: "j \<noteq> ppi_job_operation i" "j \<noteq> ppi_job_requestcancel i" "j \<noteq> ppi_job_done i"
    using 7 by (auto simp: ppi_jobs_def)
  note f = others_frame [OF 7(6) nj(1) inv] others_frame [OF 7(6) nj(2) inv]
    others_frame [OF 7(6) nj(3) inv]
  show ?case using 7 g f by (auto simp: ppi_jobs_def split: iface_state.splits)
next
  case (4 g i g' i' d len)
  then have "group_inv g" by simp
  note f = execute_jobs [OF this 4(5)]
  have i': "i' = i\<lparr>ppi_state := STATE_BUSY\<rparr>"
    using 4(6) by (simp add: PacketPassInterface_job_operation_def)
  show ?case using 4(1) f unfolding 4(2,4) i' by (auto simp: ppi_jobs_def split: iface_state.splits)
next
  case (5 g i g')
  then have "group_inv g" by simp
  note f = execute_jobs [OF this 5(5)]
  show ?case using 5(1) f unfolding 5(2,4) PacketPassInterface_job_requestcancel_def
    by (auto simp: ppi_jobs_def split: iface_state.splits)
next
  case (6 g i g')
  then have "group_inv g" by simp
  note f = execute_jobs [OF this 6(5)]
  show ?case using 6(1) f unfolding 6(2,4) PacketPassInterface_job_done_def
    by (auto simp: ppi_jobs_def split: iface_state.splits)
qed (auto simp: iface_job_simps ppi_jobs_def Let_def split: iface_state.splits)

lemma ppi_run_state:
  assumes "ppi_inv (i, g)"
  shows "BPendingGroup_ExecuteJob g = Some (ppi_job_operation i, g') \<Longrightarrow> ppi_state i = STATE_OPERATION_PENDING"
    and "BPendingGroup_ExecuteJob g = Some (ppi_job_requestcancel i, g') \<Longrightarrow>
      ppi_state i = STATE_BUSY \<and> ppi_cancel_requested i \<and> ppi_has_cancel i"
    and "BPendingGroup_ExecuteJob g = Some (ppi_job_done i, g') \<Longrightarrow> ppi_state i = STATE_DONE_PENDING"
  using assms execute_jobs(2) [of g _ g'] by (auto split: iface_state.splits)

lemma ppi_busy_steps:
  assumes "ppi_inv c" "ppi_step c e c'"
  shows "(case e of PSend d len \<Rightarrow> \<not> ppi_busy c \<and> ppi_busy c'
    | PHandlerDone \<Rightarrow> ppi_busy c \<and> \<not> ppi_busy c'
    | _ \<Rightarrow> ppi_busy c' = ppi_busy c)"
  using assms(2,1)
  by (cases rule: ppi_step.cases)
    (auto simp: ppi_busy_def Let_def PacketPassInterface_job_operation_def
      PacketPassInterface_job_requestcancel_def PacketPassInterface_job_done_def
      simp del: ppi_inv.simps dest: ppi_run_state)

fun is_psend :: "'d ppi_event \<Rightarrow> bool" where
  "is_psend (PSend _ _) = True" | "is_psend _ = False"

fun is_phandler_done :: "'d ppi_event \<Rightarrow> bool" where
  "is_phandler_done PHandlerDone = True" | "is_phandler_done _ = False"

interpretation ppi: request_interface ppi_inv ppi_step ppi_busy is_psend is_phandler_done
proof (unfold_locales, goal_cases)
  case (1 c e c')
  then show ?case by (rule ppi_step_inv)
next
  case (2 c e c')
  then show ?case using ppi_busy_steps [of c e c'] by (cases e) auto
next
  case (3 c e c')
  then show ?case using ppi_busy_steps [of c e c'] by (cases e) auto
next
  case (4 c e c')
  then show ?case using ppi_busy_steps [of c e c'] by (cases e) auto
next
  case (5 e)
  then show ?case by (cases e) auto
qed

section \<open>PacketRecvInterface\<close>

record ('j, 'd) PacketRecvInterface =
  pri_mtu :: int
  pri_has_user :: bool
  pri_job_operation :: 'j
  pri_job_done :: 'j
  pri_data :: 'd
  pri_done_len :: int
  pri_state :: iface_state

type_synonym ('j, 'd, 'h) pri_cfg = "('j, 'd) PacketRecvInterface \<times> ('j, 'h) BPendingGroup"

definition PacketRecvInterface_Init :: "int \<Rightarrow> 'j \<Rightarrow> 'j \<Rightarrow> 'h \<Rightarrow> 'h \<Rightarrow> 'd \<Rightarrow> ('j, 'h) BPendingGroup \<Rightarrow> ('j, 'd, 'h) pri_cfg" where
  "PacketRecvInterface_Init mtu jo jd ho hdn junk g =
     (\<lparr>pri_mtu = mtu, pri_has_user = False, pri_job_operation = jo,
       pri_job_done = jd, pri_data = junk, pri_done_len = 0, pri_state = STATE_NONE\<rparr>,
      BSmallPending_Init jd hdn (BSmallPending_Init jo ho g))"

definition PacketRecvInterface_Free :: "('j, 'd) PacketRecvInterface \<Rightarrow> ('j, 'h) BPendingGroup \<Rightarrow> ('j, 'h) BPendingGroup" where
  "PacketRecvInterface_Free i g =
     BSmallPending_Free (pri_job_operation i) (BSmallPending_Free (pri_job_done i) g)"

definition PacketRecvInterface_Receiver_Init :: "('j, 'd) PacketRecvInterface \<Rightarrow> ('j, 'd) PacketRecvInterface" where
  "PacketRecvInterface_Receiver_Init i = i\<lparr>pri_has_user := True\<rparr>"

fun PacketRecvInterface_Done :: "int \<Rightarrow> ('j, 'd, 'h) pri_cfg \<Rightarrow> ('j, 'd, 'h) pri_cfg" where
  "PacketRecvInterface_Done n (i, g) =
     (i\<lparr>pri_done_len := n, pri_state := STATE_DONE_PENDING\<rparr>, BSmallPending_Set (pri_job_done i) g)"

fun PacketRecvInterface_Receiver_Recv :: "'d \<Rightarrow> ('j, 'd, 'h) pri_cfg \<Rightarrow> ('j, 'd, 'h) pri_cfg" where
  "PacketRecvInterface_Receiver_Recv data (i, g) =
     (i\<lparr>pri_data := data, pri_state := STATE_OPERATION_PENDING\<rparr>, BSmallPending_Set (pri_job_operation i) g)"

definition PacketRecvInterface_job_operation :: "('j, 'd) PacketRecvInterface \<Rightarrow> ('j, 'd) PacketRecvInterface \<times> 'd" where
  "PacketRecvInterface_job_operation i = (i\<lparr>pri_state := STATE_BUSY\<rparr>, pri_data i)"

definition PacketRecvInterface_job_done :: "('j, 'd) PacketRecvInterface \<Rightarrow> ('j, 'd) PacketRecvInterface \<times> int" where
  "PacketRecvInterface_job_done i = (i\<lparr>pri_state := STATE_NONE\<rparr>, pri_done_len i)"

datatype 'd pri_event =
  RReq 'd | RDone int | ROperation 'd | RHandlerDone int | ROther

inductive pri_step :: "('j, 'd, 'h) pri_cfg \<Rightarrow> 'd pri_event \<Rightarrow> ('j, 'd, 'h) pri_cfg \<Rightarrow> bool" where
  pri_req: "pri_state i = STATE_NONE \<Longrightarrow> pri_has_user i \<Longrightarrow>
     pri_step (i, g) (RReq d) (PacketRecvInterface_Receiver_Recv d (i, g))"
| pri_pdone: "pri_state i = STATE_BUSY \<Longrightarrow> 0 \<le> n \<Longrightarrow> n \<le> pri_mtu i \<Longrightarrow>
     pri_step (i, g) (RDone n) (PacketRecvInterface_Done n (i, g))"
| pri_run_operation: "BPendingGroup_ExecuteJob g = Some (pri_job_operation i, g') \<Longrightarrow>
     PacketRecvInterface_job_operation i = (i', d) \<Longrightarrow>
     pri_step (i, g) (ROperation d) (i', g')"
| pri_run_done: "BPendingGroup_ExecuteJob g = Some (pri_job_done i, g') \<Longrightarrow>
     PacketRecvInterface_job_done i = (i', n) \<Longrightarrow>
     pri_step (i, g) (RHandlerDone n) (i', g')"
| pri_others: "job_pre op g \<Longrightarrow> job_target op g = Some j \<Longrightarrow>
     j \<notin> {pri_job_operation i, pri_job_done i} \<Longrightarrow>
     pri_step (i, g) ROther (i, job_step op g)"

inductive_cases pri_stepE: "pri_step c e c'"

fun pri_inv :: "('j, 'd, 'h) pri_cfg \<Rightarrow> bool" where
  "pri_inv (i, g) \<longleftrightarrow>
     group_inv g \<and> pri_job_operation i \<noteq> pri_job_done i \<and>
     job_handler g (pri_job_operation i) \<noteq> None \<and> job_handler g (pri_job_done i) \<noteq> None \<and>
     (pri_job_operation i \<in> set (jobs g) \<longleftrightarrow> pri_state i = STATE_OPERATION_PENDING) \<and>
     (pri_job_done i \<in> set (jobs g) \<longleftrightarrow> pri_state i = STATE_DONE_PENDING) \<and>
     (pri_state i = STATE_DONE_PENDING \<longrightarrow> 0 \<le> pri_done_len i \<and> pri_done_len i \<le> pri_mtu i)"

definition pri_busy :: "('j, 'd, 'h) pri_cfg \<Rightarrow> bool" where
  "pri_busy c \<longleftrightarrow> pri_state (fst c) \<noteq> STATE_NONE"

lemmas pri_handler_defs = PacketRecvInterface_job_operation_def PacketRecvInterface_job_done_def

lemma pri_step_inv: "pri_inv c \<Longrightarrow> pri_step c e c' \<Longrightarrow> pri_inv c'"
proof (erule pri_stepE, goal_cases)
  case (5 op g j i)
  then have g: "group_inv (job_step op g)" and inv: "group_inv g" using job_step_inv by auto
  have nj: "j \<noteq> pri_job_operation i" "j \<noteq> pri_job_done i" using 5 by auto
  note f = others_frame [OF 5(6) nj(1) inv] others_frame [OF 5(6) nj(2) inv]
  show ?case using 5 g f by auto
next
  case (3 g i g' i' d)
  then have "group_inv g" by simp
  note f = execute_jobs [OF this 3(5)]
  have i': "i' = i\<lparr>pri_state := STATE_BUSY\<rparr>" using 3(6) by (simp add: pri_handler_defs)
  show ?case using 3(1) f unfolding 3(2,4) i' by auto
next
  case (4 g i g' i' n)
  then have "group_inv g" by simp
  note f = execute_jobs [OF this 4(5)]
  have i': "i' = i\<lparr>pri_state := STATE_NONE\<rparr>" using 4(6) by (simp add: pri_handler_defs)
  show ?case using 4(1) f unfolding 4(2,4) i' by auto
qed (auto simp: iface_job_simps)

lemma pri_busy_steps:
  assumes "pri_inv c" "pri_step c e c'"
  shows "(case e of RReq _ \<Rightarrow> \<not> pri_busy c \<and> pri_busy c'
    | RHandlerDone _ \<Rightarrow> pri_busy c \<and> \<not> pri_busy c'
    | _ \<Rightarrow> pri_busy c' = pri_busy c)"
  using assms(2,1)
  by (cases rule: pri_step.cases) (auto simp: pri_busy_def pri_handler_defs dest: execute_jobs(2))

fun is_pri_req :: "'d pri_event \<Rightarrow> bool" where
  "is_pri_req (RReq _) = True" | "is_pri_req _ = False"

fun is_pri_done :: "'d pri_event \<Rightarrow> bool" where
  "is_pri_done (RHandlerDone _) = True" | "is_pri_done _ = False"

interpretation pri: request_interface pri_inv pri_step pri_busy is_pri_req is_pri_done
proof (unfold_locales, goal_cases)
  case (1 c e c')
  then show ?case by (rule pri_step_inv)
next
  case (2 c e c')
  then show ?case using pri_busy_steps [of c e c'] by (cases e) auto
next
  case (3 c e c')
  then show ?case using pri_busy_steps [of c e c'] by (cases e) auto
next
  case (4 c e c')
  then show ?case using pri_busy_steps [of c e c'] by (cases e) auto
next
  case (5 e)
  then show ?case by (cases e) auto
qed

section \<open>StreamPassInterface\<close>

record ('j, 'd) StreamPassInterface =
  spi_has_user :: bool
  spi_job_operation :: 'j
  spi_job_done :: 'j
  spi_data :: 'd
  spi_len :: int
  spi_done_len :: int
  spi_state :: iface_state

type_synonym ('j, 'd, 'h) spi_cfg = "('j, 'd) StreamPassInterface \<times> ('j, 'h) BPendingGroup"

definition StreamPassInterface_Init :: "'j \<Rightarrow> 'j \<Rightarrow> 'h \<Rightarrow> 'h \<Rightarrow> 'd \<Rightarrow> ('j, 'h) BPendingGroup \<Rightarrow> ('j, 'd, 'h) spi_cfg" where
  "StreamPassInterface_Init jo jd ho hdn junk g =
     (\<lparr>spi_has_user = False, spi_job_operation = jo,
       spi_job_done = jd, spi_data = junk, spi_len = 0, spi_done_len = 0, spi_state = STATE_NONE\<rparr>,
      BSmallPending_Init jd hdn (BSmallPending_Init jo ho g))"

definition StreamPassInterface_Free :: "('j, 'd) StreamPassInterface \<Rightarrow> ('j, 'h) BPendingGroup \<Rightarrow> ('j, 'h) BPendingGroup" where
  "StreamPassInterface_Free i g =
     BSmallPending_Free (spi_job_operation i) (BSmallPending_Free (spi_job_done i) g)"

definition StreamPassInterface_Sender_Init :: "('j, 'd) StreamPassInterface \<Rightarrow> ('j, 'd) StreamPassInterface" where
  "StreamPassInterface_Sender_Init i = i\<lparr>spi_has_user := True\<rparr>"

fun StreamPassInterface_Done :: "int \<Rightarrow> ('j, 'd, 'h) spi_cfg \<Rightarrow> ('j, 'd, 'h) spi_cfg" where
  "StreamPassInterface_Done n (i, g) =
     (i\<lparr>spi_done_len := n, spi_state := STATE_DONE_PENDING\<rparr>, BSmallPending_Set (spi_job_done i) g)"

fun StreamPassInterface_Sender_Send :: "'d \<Rightarrow> int \<Rightarrow> ('j, 'd, 'h) spi_cfg \<Rightarrow> ('j, 'd, 'h) spi_cfg" where
  "StreamPassInterface_Sender_Send data len (i, g) =
     (i\<lparr>spi_data := data, spi_len := len, spi_state := STATE_OPERATION_PENDING\<rparr>, BSmallPending_Set (spi_job_operation i) g)"

definition StreamPassInterface_job_operation :: "('j, 'd) StreamPassInterface \<Rightarrow> ('j, 'd) StreamPassInterface \<times> 'd \<times> int" where
  "StreamPassInterface_job_operation i = (i\<lparr>spi_state := STATE_BUSY\<rparr>, spi_data i, spi_len i)"

definition StreamPassInterface_job_done :: "('j, 'd) StreamPassInterface \<Rightarrow> ('j, 'd) StreamPassInterface \<times> int" where
  "StreamPassInterface_job_done i = (i\<lparr>spi_state := STATE_NONE\<rparr>, spi_done_len i)"

datatype 'd spi_event =
  SPReq 'd int | SPDone int | SPOperation 'd int | SPHandlerDone int | SPOther

inductive spi_step :: "('j, 'd, 'h) spi_cfg \<Rightarrow> 'd spi_event \<Rightarrow> ('j, 'd, 'h) spi_cfg \<Rightarrow> bool" where
  spi_req: "spi_state i = STATE_NONE \<Longrightarrow> spi_has_user i \<Longrightarrow> 0 < len \<Longrightarrow>
     spi_step (i, g) (SPReq d len) (StreamPassInterface_Sender_Send d len (i, g))"
| spi_pdone: "spi_state i = STATE_BUSY \<Longrightarrow> 0 < n \<Longrightarrow> n \<le> spi_len i \<Longrightarrow>
     spi_step (i, g) (SPDone n) (StreamPassInterface_Done n (i, g))"
| spi_run_operation: "BPendingGroup_ExecuteJob g = Some (spi_job_operation i, g') \<Longrightarrow>
     StreamPassInterface_job_operation i = (i', d, len) \<Longrightarrow>
     spi_step (i, g) (SPOperation d len) (i', g')"
| spi_run_done: "BPendingGroup_ExecuteJob g = Some (spi_job_done i, g') \<Longrightarrow>
     StreamPassInterface_job_done i = (i', n) \<Longrightarrow>
     spi_step (i, g) (SPHandlerDone n) (i', g')"
| spi_others: "job_pre op g \<Longrightarrow> job_target op g = Some j \<Longrightarrow>
     j \<notin> {spi_job_operation i, spi_job_done i} \<Longrightarrow>
     spi_step (i, g) SPOther (i, job_step op g)"

inductive_cases spi_stepE: "spi_step c e c'"

fun spi_inv :: "('j, 'd, 'h) spi_cfg \<Rightarrow> bool" where
  "spi_inv (i, g) \<longleftrightarrow>
     group_inv g \<and> spi_job_operation i \<noteq> spi_job_done i \<and>
     job_handler g (spi_job_operation i) \<noteq> None \<and> job_handler g (spi_job_done i) \<noteq> None \<and>
     (spi_job_operation i \<in> set (jobs g) \<longleftrightarrow> spi_state i = STATE_OPERATION_PENDING) \<and>
     (spi_job_done i \<in> set (jobs g) \<longleftrightarrow> spi_state i = STATE_DONE_PENDING) \<and>
     (spi_state i = STATE_DONE_PENDING \<longrightarrow> 0 < spi_done_len i \<and> spi_done_len i \<le> spi_len i) \<and>
     (spi_state i = STATE_OPERATION_PENDING \<longrightarrow> 0 < spi_len i)"

definition spi_busy :: "('j, 'd, 'h) spi_cfg \<Rightarrow> bool" where
  "spi_busy c \<longleftrightarrow> spi_state (fst c) \<noteq> STATE_NONE"

lemmas spi_handler_defs = StreamPassInterface_job_operation_def StreamPassInterface_job_done_def

lemma spi_step_inv: "spi_inv c \<Longrightarrow> spi_step c e c' \<Longrightarrow> spi_inv c'"
proof (erule spi_stepE, goal_cases)
  case (5 op g j i)
  then have g: "group_inv (job_step op g)" and inv: "group_inv g" using job_step_inv by auto
  have nj: "j \<noteq> spi_job_operation i" "j \<noteq> spi_job_done i" using 5 by auto
  note f = others_frame [OF 5(6) nj(1) inv] others_frame [OF 5(6) nj(2) inv]
  show ?case using 5 g f by auto
next
  case (3 g i g' i' d len)
  then have "group_inv g" by simp
  note f = execute_jobs [OF this 3(5)]
  have i': "i' = i\<lparr>spi_state := STATE_BUSY\<rparr>" using 3(6) by (simp add: spi_handler_defs)
  show ?case using 3(1) f unfolding 3(2,4) i' by auto
next
  case (4 g i g' i' n)
  then have "group_inv g" by simp
  note f = execute_jobs [OF this 4(5)]
  have i': "i' = i\<lparr>spi_state := STATE_NONE\<rparr>" using 4(6) by (simp add: spi_handler_defs)
  show ?case using 4(1) f unfolding 4(2,4) i' by auto
qed (auto simp: iface_job_simps)

lemma spi_busy_steps:
  assumes "spi_inv c" "spi_step c e c'"
  shows "(case e of SPReq _ _ \<Rightarrow> \<not> spi_busy c \<and> spi_busy c'
    | SPHandlerDone _ \<Rightarrow> spi_busy c \<and> \<not> spi_busy c'
    | _ \<Rightarrow> spi_busy c' = spi_busy c)"
  using assms(2,1)
  by (cases rule: spi_step.cases) (auto simp: spi_busy_def spi_handler_defs dest: execute_jobs(2))

fun is_spi_req :: "'d spi_event \<Rightarrow> bool" where
  "is_spi_req (SPReq _ _) = True" | "is_spi_req _ = False"

fun is_spi_done :: "'d spi_event \<Rightarrow> bool" where
  "is_spi_done (SPHandlerDone _) = True" | "is_spi_done _ = False"

interpretation spi: request_interface spi_inv spi_step spi_busy is_spi_req is_spi_done
proof (unfold_locales, goal_cases)
  case (1 c e c')
  then show ?case by (rule spi_step_inv)
next
  case (2 c e c')
  then show ?case using spi_busy_steps [of c e c'] by (cases e) auto
next
  case (3 c e c')
  then show ?case using spi_busy_steps [of c e c'] by (cases e) auto
next
  case (4 c e c')
  then show ?case using spi_busy_steps [of c e c'] by (cases e) auto
next
  case (5 e)
  then show ?case by (cases e) auto
qed

section \<open>StreamRecvInterface\<close>

record ('j, 'd) StreamRecvInterface =
  sri_has_user :: bool
  sri_job_operation :: 'j
  sri_job_done :: 'j
  sri_data :: 'd
  sri_len :: int
  sri_done_len :: int
  sri_state :: iface_state

type_synonym ('j, 'd, 'h) sri_cfg = "('j, 'd) StreamRecvInterface \<times> ('j, 'h) BPendingGroup"

definition StreamRecvInterface_Init :: "'j \<Rightarrow> 'j \<Rightarrow> 'h \<Rightarrow> 'h \<Rightarrow> 'd \<Rightarrow> ('j, 'h) BPendingGroup \<Rightarrow> ('j, 'd, 'h) sri_cfg" where
  "StreamRecvInterface_Init jo jd ho hdn junk g =
     (\<lparr>sri_has_user = False, sri_job_operation = jo,
       sri_job_done = jd, sri_data = junk, sri_len = 0, sri_done_len = 0, sri_state = STATE_NONE\<rparr>,
      BSmallPending_Init jd hdn (BSmallPending_Init jo ho g))"

definition StreamRecvInterface_Free :: "('j, 'd) StreamRecvInterface \<Rightarrow> ('j, 'h) BPendingGroup \<Rightarrow> ('j, 'h) BPendingGroup" where
  "StreamRecvInterface_Free i g =
     BSmallPending_Free (sri_job_operation i) (BSmallPending_Free (sri_job_done i) g)"

definition StreamRecvInterface_Receiver_Init :: "('j, 'd) StreamRecvInterface \<Rightarrow> ('j, 'd) StreamRecvInterface" where
  "StreamRecvInterface_Receiver_Init i = i\<lparr>sri_has_user := True\<rparr>"

fun StreamRecvInterface_Done :: "int \<Rightarrow> ('j, 'd, 'h) sri_cfg \<Rightarrow> ('j, 'd, 'h) sri_cfg" where
  "StreamRecvInterface_Done n (i, g) =
     (i\<lparr>sri_done_len := n, sri_state := STATE_DONE_PENDING\<rparr>, BSmallPending_Set (sri_job_done i) g)"

fun StreamRecvInterface_Receiver_Recv :: "'d \<Rightarrow> int \<Rightarrow> ('j, 'd, 'h) sri_cfg \<Rightarrow> ('j, 'd, 'h) sri_cfg" where
  "StreamRecvInterface_Receiver_Recv data len (i, g) =
     (i\<lparr>sri_data := data, sri_len := len, sri_state := STATE_OPERATION_PENDING\<rparr>, BSmallPending_Set (sri_job_operation i) g)"

definition StreamRecvInterface_job_operation :: "('j, 'd) StreamRecvInterface \<Rightarrow> ('j, 'd) StreamRecvInterface \<times> 'd \<times> int" where
  "StreamRecvInterface_job_operation i = (i\<lparr>sri_state := STATE_BUSY\<rparr>, sri_data i, sri_len i)"

definition StreamRecvInterface_job_done :: "('j, 'd) StreamRecvInterface \<Rightarrow> ('j, 'd) StreamRecvInterface \<times> int" where
  "StreamRecvInterface_job_done i = (i\<lparr>sri_state := STATE_NONE\<rparr>, sri_done_len i)"

datatype 'd sri_event =
  SRReq 'd int | SRDone int | SROperation 'd int | SRHandlerDone int | SROther

inductive sri_step :: "('j, 'd, 'h) sri_cfg \<Rightarrow> 'd sri_event \<Rightarrow> ('j, 'd, 'h) sri_cfg \<Rightarrow> bool" where
  sri_req: "sri_state i = STATE_NONE \<Longrightarrow> sri_has_user i \<Longrightarrow> 0 < len \<Longrightarrow>
     sri_step (i, g) (SRReq d len) (StreamRecvInterface_Receiver_Recv d len (i, g))"
| sri_pdone: "sri_state i = STATE_BUSY \<Longrightarrow> 0 < n \<Longrightarrow> n \<le> sri_len i \<Longrightarrow>
     sri_step (i, g) (SRDone n) (StreamRecvInterface_Done n (i, g))"
| sri_run_operation: "BPendingGroup_ExecuteJob g = Some (sri_job_operation i, g') \<Longrightarrow>
     StreamRecvInterface_job_operation i = (i', d, len) \<Longrightarrow>
     sri_step (i, g) (SROperation d len) (i', g')"
| sri_run_done: "BPendingGroup_ExecuteJob g = Some (sri_job_done i, g') \<Longrightarrow>
     StreamRecvInterface_job_done i = (i', n) \<Longrightarrow>
     sri_step (i, g) (SRHandlerDone n) (i', g')"
| sri_others: "job_pre op g \<Longrightarrow> job_target op g = Some j \<Longrightarrow>
     j \<notin> {sri_job_operation i, sri_job_done i} \<Longrightarrow>
     sri_step (i, g) SROther (i, job_step op g)"

inductive_cases sri_stepE: "sri_step c e c'"

fun sri_inv :: "('j, 'd, 'h) sri_cfg \<Rightarrow> bool" where
  "sri_inv (i, g) \<longleftrightarrow>
     group_inv g \<and> sri_job_operation i \<noteq> sri_job_done i \<and>
     job_handler g (sri_job_operation i) \<noteq> None \<and> job_handler g (sri_job_done i) \<noteq> None \<and>
     (sri_job_operation i \<in> set (jobs g) \<longleftrightarrow> sri_state i = STATE_OPERATION_PENDING) \<and>
     (sri_job_done i \<in> set (jobs g) \<longleftrightarrow> sri_state i = STATE_DONE_PENDING) \<and>
     (sri_state i = STATE_DONE_PENDING \<longrightarrow> 0 < sri_done_len i \<and> sri_done_len i \<le> sri_len i) \<and>
     (sri_state i = STATE_OPERATION_PENDING \<longrightarrow> 0 < sri_len i)"

definition sri_busy :: "('j, 'd, 'h) sri_cfg \<Rightarrow> bool" where
  "sri_busy c \<longleftrightarrow> sri_state (fst c) \<noteq> STATE_NONE"

lemmas sri_handler_defs = StreamRecvInterface_job_operation_def StreamRecvInterface_job_done_def

lemma sri_step_inv: "sri_inv c \<Longrightarrow> sri_step c e c' \<Longrightarrow> sri_inv c'"
proof (erule sri_stepE, goal_cases)
  case (5 op g j i)
  then have g: "group_inv (job_step op g)" and inv: "group_inv g" using job_step_inv by auto
  have nj: "j \<noteq> sri_job_operation i" "j \<noteq> sri_job_done i" using 5 by auto
  note f = others_frame [OF 5(6) nj(1) inv] others_frame [OF 5(6) nj(2) inv]
  show ?case using 5 g f by auto
next
  case (3 g i g' i' d len)
  then have "group_inv g" by simp
  note f = execute_jobs [OF this 3(5)]
  have i': "i' = i\<lparr>sri_state := STATE_BUSY\<rparr>" using 3(6) by (simp add: sri_handler_defs)
  show ?case using 3(1) f unfolding 3(2,4) i' by auto
next
  case (4 g i g' i' n)
  then have "group_inv g" by simp
  note f = execute_jobs [OF this 4(5)]
  have i': "i' = i\<lparr>sri_state := STATE_NONE\<rparr>" using 4(6) by (simp add: sri_handler_defs)
  show ?case using 4(1) f unfolding 4(2,4) i' by auto
qed (auto simp: iface_job_simps)

lemma sri_busy_steps:
  assumes "sri_inv c" "sri_step c e c'"
  shows "(case e of SRReq _ _ \<Rightarrow> \<not> sri_busy c \<and> sri_busy c'
    | SRHandlerDone _ \<Rightarrow> sri_busy c \<and> \<not> sri_busy c'
    | _ \<Rightarrow> sri_busy c' = sri_busy c)"
  using assms(2,1)
  by (cases rule: sri_step.cases) (auto simp: sri_busy_def sri_handler_defs dest: execute_jobs(2))

fun is_sri_req :: "'d sri_event \<Rightarrow> bool" where
  "is_sri_req (SRReq _ _) = True" | "is_sri_req _ = False"

fun is_sri_done :: "'d sri_event \<Rightarrow> bool" where
  "is_sri_done (SRHandlerDone _) = True" | "is_sri_done _ = False"

interpretation sri: request_interface sri_inv sri_step sri_busy is_sri_req is_sri_done
proof (unfold_locales, goal_cases)
  case (1 c e c')
  then show ?case by (rule sri_step_inv)
next
  case (2 c e c')
  then show ?case using sri_busy_steps [of c e c'] by (cases e) auto
next
  case (3 c e c')
  then show ?case using sri_busy_steps [of c e c'] by (cases e) auto
next
  case (4 c e c')
  then show ?case using sri_busy_steps [of c e c'] by (cases e) auto
next
  case (5 e)
  then show ?case by (cases e) auto
qed

section \<open>Properties\<close>

definition ppi_start :: "int \<Rightarrow> 'j \<Rightarrow> 'j \<Rightarrow> 'j \<Rightarrow> 'h \<Rightarrow> 'd \<Rightarrow> ('j, 'h) BPendingGroup \<Rightarrow> ('j, 'd, 'h) ppi_cfg" where
  "ppi_start mtu jo jc jd h junk g =
     (let (i, g) = PacketPassInterface_Init mtu jo jc jd h h h junk g
      in (PacketPassInterface_Sender_Init (PacketPassInterface_EnableCancel i), g))"

lemma init_job_inv:
  "group_inv g \<Longrightarrow> job_handler g j = None \<Longrightarrow> group_inv (BSmallPending_Init j h g)"
  "jobs (BSmallPending_Init j h g) = jobs g"
  "job_handler (BSmallPending_Init j h g) = (job_handler g)(j \<mapsto> h)"
  using job_step_inv [of g "OpInit j h"] by (simp_all add: BSmallPending_Init_def)

lemma unknown_not_pending: "group_inv g \<Longrightarrow> job_handler g j = None \<Longrightarrow> j \<notin> set (jobs g)"
  by (auto simp: group_inv_def)

lemma ppi_start_inv:
  assumes "group_inv g" "distinct [jo, jc, jd]" "\<forall>j\<in>{jo, jc, jd}. job_handler g j = None"
  shows "ppi_inv (ppi_start mtu jo jc jd h junk g)" "\<not> ppi_busy (ppi_start mtu jo jc jd h junk g)"
proof -
  have ne: "jc \<noteq> jo" "jd \<noteq> jo" "jd \<noteq> jc" using assms(2) by auto
  have "group_inv (BSmallPending_Init jd h (BSmallPending_Init jc h (BSmallPending_Init jo h g)))"
    using assms(1,3) ne by (intro init_job_inv(1)) (simp_all add: init_job_inv)
  then show "ppi_inv (ppi_start mtu jo jc jd h junk g)" "\<not> ppi_busy (ppi_start mtu jo jc jd h junk g)"
    using assms unknown_not_pending [OF assms(1)]
    by (simp_all add: ppi_start_def PacketPassInterface_Init_def PacketPassInterface_Sender_Init_def
        PacketPassInterface_EnableCancel_def ppi_jobs_def init_job_inv ppi_busy_def)
qed

text \<open>C26. Along every history of a packet-passing interface (requests of the sender, cancellations,
  answers of the provider, jobs run by the reactor, arbitrary activity on other jobs of the same
  group), the assertions of the three job handlers hold when the reactor runs them, the operation is
  handed over with a length between zero and the MTU, and every request is answered exactly once:
  the number of requests is the number of done callbacks, plus one while the interface is not idle.\<close>

theorem packet_pass_protocol:
  assumes "group_inv g0" "distinct [jo, jc, jd]" "\<forall>j\<in>{jo, jc, jd}. job_handler g0 j = None"
    and "ppi.trace (ppi_start mtu jo jc jd h junk g0) es (i, g)"
  shows "(\<forall>g'. BPendingGroup_ExecuteJob g = Some (ppi_job_operation i, g') \<longrightarrow>
            ppi_state i = STATE_OPERATION_PENDING \<and> 0 \<le> ppi_len i \<and> ppi_len i \<le> ppi_mtu i) \<and>
         (\<forall>g'. BPendingGroup_ExecuteJob g = Some (ppi_job_requestcancel i, g') \<longrightarrow>
            ppi_state i = STATE_BUSY \<and> ppi_cancel_requested i \<and> ppi_has_cancel i) \<and>
         (\<forall>g'. BPendingGroup_ExecuteJob g = Some (ppi_job_done i, g') \<longrightarrow>
            ppi_state i = STATE_DONE_PENDING) \<and>
         length (filter is_psend es) =
           length (filter is_phandler_done es) + (if ppi_state i \<noteq> STATE_NONE then 1 else 0)"
proof -
  note start = ppi_start_inv [OF assms(1-3), of mtu h junk]
  have inv: "ppi_inv (i, g)" using ppi.trace_inv [OF assms(4) start(1)] .
  have "length (filter is_psend es) =
      length (filter is_phandler_done es) + (if ppi_busy (i, g) then 1 else 0)"
    using ppi.trace_alternates [OF assms(4) start] .
  then show ?thesis
    using ppi_run_state [OF inv] inv by (auto simp: ppi_busy_def split: iface_state.splits if_splits)
qed

text \<open>The witness runs one request up to its operation.\<close>

definition ppi_demo :: "(nat, nat, nat) ppi_cfg" where
  "ppi_demo = ppi_start 100 0 1 2 0 0 BPendingGroup_Init"

theorem packet_pass_protocol_witness:
  "let (i, g) = PacketPassInterface_Sender_Send 7 60 ppi_demo in
     (\<forall>g'. BPendingGroup_ExecuteJob g = Some (ppi_job_operation i, g') \<longrightarrow>
        ppi_state i = STATE_OPERATION_PENDING \<and> 0 \<le> ppi_len i \<and> ppi_len i \<le> ppi_mtu i) \<and>
     length (filter is_psend [PSend (7 :: nat) 60]) =
       length (filter is_phandler_done [PSend (7 :: nat) 60]) + (if ppi_state i \<noteq> STATE_NONE then 1 else 0)"
proof -
  obtain i0 g0 where st: "ppi_demo = (i0, g0)" by fastforce
  obtain i g where snd: "PacketPassInterface_Sender_Send 7 60 (i0, g0) = (i, g)" by fastforce
  have "ppi_state i0 = STATE_NONE" "ppi_has_user i0" "ppi_mtu i0 = 100"
    using st by (auto simp: ppi_demo_def ppi_start_def PacketPassInterface_Init_def
        PacketPassInterface_Sender_Init_def PacketPassInterface_EnableCancel_def)
  then have "ppi_step (i0, g0) (PSend 7 60) (i, g)"
    unfolding snd [symmetric] by (intro ppi_step.send) simp_all
  then have tr: "ppi.trace ppi_demo ([] @ [PSend 7 60]) (i, g)"
    unfolding st by (rule ppi.trace_snoc [OF ppi.trace_nil])
  have "group_inv (BPendingGroup_Init :: (nat, nat) BPendingGroup)" by (rule job_init_inv)
  from packet_pass_protocol [OF this _ _ tr [unfolded ppi_demo_def]] show ?thesis
    using st snd by (simp add: BPendingGroup_Init_def)
qed

lemma spi_init_inv:
  assumes "group_inv g" "jo \<noteq> jd" "job_handler g jo = None" "job_handler g jd = None"
  shows "spi_inv (StreamPassInterface_Init jo jd ho hdn junk g)"
    and "\<not> spi_busy (StreamPassInterface_Init jo jd ho hdn junk g)"
  using assms unknown_not_pending [of g]
  by (simp_all add: StreamPassInterface_Init_def init_job_inv spi_busy_def)

lemma spi_run_state:
  assumes "spi_inv (i, g)"
  shows "BPendingGroup_ExecuteJob g = Some (spi_job_operation i, g') \<Longrightarrow>
           spi_state i = STATE_OPERATION_PENDING \<and> 0 < spi_len i"
    and "BPendingGroup_ExecuteJob g = Some (spi_job_done i, g') \<Longrightarrow>
           spi_state i = STATE_DONE_PENDING \<and> 0 < spi_done_len i \<and> spi_done_len i \<le> spi_len i"
  using assms execute_jobs(2) [of g _ g'] by auto

text \<open>Along every history of a stream-passing interface the reactor hands over only requests for
  a positive number of bytes, an answer reports at least one byte and no more than were requested,
  and requests and answers alternate.\<close>

theorem stream_pass_protocol:
  assumes "group_inv g0" "jo \<noteq> jd" "job_handler g0 jo = None" "job_handler g0 jd = None"
    and "spi.trace (StreamPassInterface_Init jo jd ho hdn junk g0) es (i, g)"
  shows "(\<forall>g'. BPendingGroup_ExecuteJob g = Some (spi_job_operation i, g') \<longrightarrow>
            spi_state i = STATE_OPERATION_PENDING \<and> 0 < spi_len i) \<and>
         (\<forall>g'. BPendingGroup_ExecuteJob g = Some (spi_job_done i, g') \<longrightarrow>
            spi_state i = STATE_DONE_PENDING \<and> 0 < spi_done_len i \<and> spi_done_len i \<le> spi_len i) \<and>
         length (filter is_spi_req es) =
           length (filter is_spi_done es) + (if spi_state i \<noteq> STATE_NONE then 1 else 0)"
proof -
  note start = spi_init_inv [OF assms(1-4), of ho hdn junk]
  have inv: "spi_inv (i, g)" using spi.trace_inv [OF assms(5) start(1)] .
  show ?thesis
    using spi.trace_alternates [OF assms(5) start] spi_run_state [OF inv] by (auto simp: spi_busy_def)
qed

theorem stream_pass_protocol_witness:
  "let (i, g) = (StreamPassInterface_Init 0 1 0 0 0 BPendingGroup_Init :: (nat, nat, nat) spi_cfg) in
     \<forall>g'. BPendingGroup_ExecuteJob g = Some (spi_job_operation i, g') \<longrightarrow>
       spi_state i = STATE_OPERATION_PENDING \<and> 0 < spi_len i"
proof -
  obtain i g where st: "(StreamPassInterface_Init 0 1 0 0 0 BPendingGroup_Init :: (nat, nat, nat) spi_cfg) = (i, g)"
    by fastforce
  have "group_inv (BPendingGroup_Init :: (nat, nat) BPendingGroup)" by (rule job_init_inv)
  from stream_pass_protocol [OF this, of 0 1 0 0 0 "[]" i g] spi.trace_nil [of "(i, g)"] st
  show ?thesis by (simp add: BPendingGroup_Init_def)
qed

end
