(* ===== verification/PacketBuffer.thy ===== *)
theory PacketBuffer
  imports ChunkBuffer FlowInterface
begin

text \<open>
  \<open>flow/PacketBuffer.c\<close>: a buffer between a packet receiver and a packet sender, on top of
  the circular buffer of theory \<open>ChunkBuffer\<close>. A handler returns the new state and the calls it
  makes on its two interfaces, in order. The world around the buffer keeps the receive and the send
  that are outstanding, with the raw pointers they were given: a packet that arrives is written where
  the pointer of the outstanding receive says, and what goes out is read where the pointer of the
  outstanding send says, whatever happened to the buffer in between.
\<close>

section \<open>The component\<close>

record PacketBuffer =
  pb_buf :: ChunkBuffer2
  pb_input_mtu :: int

datatype pb_call =
  PB_Recv "int option"
| PB_Send "int option" int

definition PacketBuffer_input_handler_done :: "PacketBuffer \<Rightarrow> int \<Rightarrow> PacketBuffer \<times> pb_call list" where
  "PacketBuffer_input_handler_done buf in_len =
     (let was_empty = (output_avail (pb_buf buf) < 0);
          b = ChunkBuffer2_SubmitPacket (pb_buf buf) in_len;
          c1 = (if input_avail b \<ge> pb_input_mtu buf then [PB_Recv (input_dest b)] else []);
          c2 = (if was_empty then [PB_Send (output_dest b) (output_avail b)] else [])
      in (buf\<lparr>pb_buf := b\<rparr>, c1 @ c2))"

definition PacketBuffer_output_handler_done :: "PacketBuffer \<Rightarrow> PacketBuffer \<times> pb_call list" where
  "PacketBuffer_output_handler_done buf =
     (let was_full = (input_avail (pb_buf buf) < pb_input_mtu buf);
          b = ChunkBuffer2_ConsumePacket (pb_buf buf);
          c1 = (if was_full \<and> input_avail b \<ge> pb_input_mtu buf then [PB_Recv (input_dest b)] else []);
          c2 = (if output_avail b \<ge> 0 then [PB_Send (output_dest b) (output_avail b)] else [])
      in (buf\<lparr>pb_buf := b\<rparr>, c1 @ c2))"

text \<open>\<open>alloc\<close> stands for \<open>BAllocArray\<close>: the bytes of an array of that many blocks, or failure.\<close>

definition PacketBuffer_Init ::
  "(int \<Rightarrow> byte list option) \<Rightarrow> int \<Rightarrow> int \<Rightarrow> (PacketBuffer \<times> pb_call list) option" where
  "PacketBuffer_Init alloc input_mtu num_packets =
     (let num_blocks = ChunkBuffer2_calc_blocks input_mtu num_packets in
      if num_blocks < 0 then None
      else case alloc num_blocks of None \<Rightarrow> None
        | Some mem \<Rightarrow>
            let b = ChunkBuffer2_Init mem num_blocks input_mtu
            in Some (\<lparr>pb_buf = b, pb_input_mtu = input_mtu\<rparr>, [PB_Recv (input_dest b)]))"

section \<open>The buffer between its two interfaces\<close>

text \<open>\<open>pb_violated\<close> records a breach of the interfaces' contract: a second request while one is
  outstanding, or a null pointer. \<open>pb_received\<close> and \<open>pb_sent\<close> are the histories.\<close>

record pb_world =
  pb :: PacketBuffer
  pb_recv :: "int option"
  pb_send :: "(int \<times> int) option"
  pb_violated :: bool
  pb_received :: "byte list list"
  pb_sent :: "byte list list"

fun pb_apply :: "pb_call \<Rightarrow> pb_world \<Rightarrow> pb_world" where
  "pb_apply (PB_Recv (Some d)) w =
     w\<lparr>pb_recv := Some d, pb_violated := (pb_violated w \<or> pb_recv w \<noteq> None)\<rparr>"
| "pb_apply (PB_Send (Some d) len) w =
     w\<lparr>pb_send := Some (d, len), pb_violated := (pb_violated w \<or> pb_send w \<noteq> None \<or> len < 0)\<rparr>"
| "pb_apply _ w = w\<lparr>pb_violated := True\<rparr>"

definition pb_world_init :: "PacketBuffer \<times> pb_call list \<Rightarrow> pb_world" where
  "pb_world_init r = fold pb_apply (snd r)
     \<lparr>pb = fst r, pb_recv = None, pb_send = None, pb_violated = False, pb_received = [], pb_sent = []\<rparr>"

text \<open>The receive finishes: the provider has written the packet at the pointer it was given.\<close>

definition pb_write :: "int \<Rightarrow> byte list \<Rightarrow> PacketBuffer \<Rightarrow> PacketBuffer" where
  "pb_write d p buf =
     buf\<lparr>pb_buf := (pb_buf buf)\<lparr>buffer := memcpy_at (buffer (pb_buf buf)) (nat d) p\<rparr>\<rparr>"

definition pb_input :: "int \<Rightarrow> byte list \<Rightarrow> pb_world \<Rightarrow> pb_world" where
  "pb_input d p w =
     (let (buf, calls) = PacketBuffer_input_handler_done (pb_write d p (pb w)) (int (length p))
      in fold pb_apply calls (w\<lparr>pb := buf, pb_recv := None, pb_received := pb_received w @ [p]\<rparr>))"

definition pb_output :: "int \<Rightarrow> int \<Rightarrow> pb_world \<Rightarrow> pb_world" where
  "pb_output d len w =
     (let (buf, calls) = PacketBuffer_output_handler_done (pb w)
      in fold pb_apply calls (w\<lparr>pb := buf, pb_send := None,
           pb_sent := pb_sent w @ [sub_bytes (nat d) (nat len) (buffer (pb_buf (pb w)))]\<rparr>))"

inductive pb_step :: "pb_world \<Rightarrow> pb_world \<Rightarrow> bool" where
  pb_in: "pb_recv w = Some d \<Longrightarrow> int (length p) \<le> pb_input_mtu (pb w) \<Longrightarrow> pb_step w (pb_input d p w)"
| pb_out: "pb_send w = Some (d, len) \<Longrightarrow> pb_step w (pb_output d len w)"

inductive pb_reach :: "pb_world \<Rightarrow> pb_world \<Rightarrow> bool" for w0 where
  start: "pb_reach w0 w0"
| step: "pb_reach w0 w \<Longrightarrow> pb_step w w' \<Longrightarrow> pb_reach w0 w'"

inductive_simps pb_step_simps: "pb_step w w'"

section \<open>Invariant\<close>

definition pb_contents :: "pb_world \<Rightarrow> byte list list" where
  "pb_contents w = cb_contents (pb_buf (pb w))"

definition pb_inv :: "pb_world \<Rightarrow> bool" where
  "pb_inv w \<longleftrightarrow>
     (let b = pb_buf (pb w); mtu = pb_input_mtu (pb w) in
      cb_inv b \<and> 0 \<le> mtu \<and> cb_mtu b = blocks_of mtu \<and>
      pb_recv w = (if input_avail b \<ge> mtu then input_dest b else None) \<and>
      pb_send w = (if cb_contents b \<noteq> [] then Some (4 * (cb_start b + 1), output_avail b) else None) \<and>
      (\<forall>p\<in>set (cb_contents b). int (length p) \<le> mtu) \<and>
      \<not> pb_violated w \<and> pb_received w = pb_sent w @ cb_contents b)"

lemma output_avail_cases:
  assumes "cb_inv b"
  shows "cb_contents b \<noteq> [] \<Longrightarrow> output_dest b = Some (4 * (cb_start b + 1)) \<and> 0 \<le> output_avail b"
    and "cb_contents b = [] \<Longrightarrow> output_dest b = None \<and> output_avail b < 0"
proof -
  have core: "cb_core b" and out: "ChunkBuffer2_assert_output b"
    using assms by (simp_all add: cb_inv_def ChunkBuffer2_assert_io_def)
  show "cb_contents b \<noteq> [] \<Longrightarrow> output_dest b = Some (4 * (cb_start b + 1)) \<and> 0 \<le> output_avail b"
    "cb_contents b = [] \<Longrightarrow> output_dest b = None \<and> output_avail b < 0"
    using out contents_empty_iff [OF core]
    by (auto simp: ChunkBuffer2_assert_output_def Let_def split: if_splits)
qed

lemma input_avail_dest: "cb_inv b \<Longrightarrow> 0 \<le> input_avail b \<Longrightarrow> \<exists>d. input_dest b = Some d"
  using input_avail_free [of b] by (cases "cb_bound b - ChunkBuffer2_end b > 0") auto

lemma put_output_unchanged:
  assumes "cb_inv b" "can_put_packet b p" "cb_contents b \<noteq> []"
  shows "output_avail (put_packet p b) = output_avail b" and "cb_start (put_packet p b) = cb_start b"
proof -
  have core: "cb_core b" using assms(1) by (simp add: cb_inv_def)
  have "0 < cb_used b" using contents_empty_iff [OF core] assms(3) by simp
  then have "cb_used (submitted b p) \<noteq> 1 + blocks_of (int (length p))" by (simp add: submitted_used)
  then show "output_avail (put_packet p b) = output_avail b" "cb_start (put_packet p b) = cb_start b"
    using put_packet_eq [OF assms(1,2)] by (simp_all add: Let_def submitted_output)
qed

lemma pb_inputs_put:
  assumes inv: "pb_inv w" and r: "pb_recv w = Some d" and len: "int (length p) \<le> pb_input_mtu (pb w)"
  shows "can_put_packet (pb_buf (pb w)) p"
    and "ChunkBuffer2_SubmitPacket (pb_buf (pb_write d p (pb w))) (int (length p)) =
           put_packet p (pb_buf (pb w))"
    and "output_avail (pb_buf (pb_write d p (pb w))) = output_avail (pb_buf (pb w))"
proof -
  have "input_dest (pb_buf (pb w)) = Some d" "pb_input_mtu (pb w) \<le> input_avail (pb_buf (pb w))"
    using inv r by (auto simp: pb_inv_def Let_def split: if_splits)
  then show "can_put_packet (pb_buf (pb w)) p"
    "ChunkBuffer2_SubmitPacket (pb_buf (pb_write d p (pb w))) (int (length p)) =
       put_packet p (pb_buf (pb w))"
    "output_avail (pb_buf (pb_write d p (pb w))) = output_avail (pb_buf (pb w))"
    using len by (simp_all add: can_put_packet_def put_packet_def write_packet_def pb_write_def)
qed

lemma pb_write_mtu [simp]: "pb_input_mtu (pb_write d p b) = pb_input_mtu b"
  by (simp add: pb_write_def)

lemma pb_input_inv:
  assumes inv: "pb_inv w" and r: "pb_recv w = Some d" and len: "int (length p) \<le> pb_input_mtu (pb w)"
  shows "pb_inv (pb_input d p w)"
proof -
  let ?b = "pb_buf (pb w)" and ?mtu = "pb_input_mtu (pb w)"
  let ?b' = "put_packet p ?b"
  have cinv: "cb_inv ?b" and mtu: "0 \<le> ?mtu" using inv by (simp_all add: pb_inv_def Let_def)
  note put = pb_inputs_put [OF assms]
  note inv' = put_packet_inv [OF cinv put(1)]
  have dest: "\<exists>d. input_dest ?b' = Some d" if "?mtu \<le> input_avail ?b'"
    using input_avail_dest [OF inv'(1)] that mtu by simp
  have out: "output_dest ?b' = Some (4 * (cb_start ?b' + 1))" "0 \<le> output_avail ?b'"
    using output_avail_cases(1) [OF inv'(1)] inv'(2) by simp_all
  show ?thesis
  proof (cases "cb_contents ?b = []")
    case True
    then show ?thesis
      using inv inv' out len dest output_avail_cases(2) [OF cinv True] put True
      by (cases "?mtu \<le> input_avail ?b'")
        (auto simp: pb_inv_def pb_input_def Let_def PacketBuffer_input_handler_done_def)
  next
    case False
    note keep = put_output_unchanged [OF cinv put(1) False]
    show ?thesis
      using inv inv' out len dest output_avail_cases(1) [OF cinv False] put keep False
      by (cases "?mtu \<le> input_avail ?b'")
        (auto simp: pb_inv_def pb_input_def Let_def PacketBuffer_input_handler_done_def)
  qed
qed

lemma pb_output_inv:
  assumes inv: "pb_inv w" and s: "pb_send w = Some (d, len)"
  shows "pb_inv (pb_output d len w)"
proof -
  let ?b = "pb_buf (pb w)" and ?mtu = "pb_input_mtu (pb w)"
  let ?b' = "ChunkBuffer2_ConsumePacket ?b"
  have cinv: "cb_inv ?b" and mtu: "0 \<le> ?mtu" using inv by (simp_all add: pb_inv_def Let_def)
  have ne: "cb_contents ?b \<noteq> []" and dl: "d = 4 * (cb_start ?b + 1)" "len = output_avail ?b"
    using inv s by (auto simp: pb_inv_def Let_def split: if_splits)
  note inv' = consume_packet_inv [OF cinv ne]
  have dest: "\<exists>d. input_dest ?b' = Some d" if "?mtu \<le> input_avail ?b'"
    using input_avail_dest [OF inv'(1)] that mtu by simp
  have stable: "input_dest ?b' = input_dest ?b \<and> ?mtu \<le> input_avail ?b'" if full: "?mtu \<le> input_avail ?b"
  proof -
    obtain e where "input_dest ?b = Some e" using input_avail_dest [OF cinv] full mtu by auto
    then show ?thesis using consume_input_stable [OF cinv ne, of e] full by simp
  qed
  obtain q qs where c: "cb_contents ?b = q # qs" using ne by (cases "cb_contents ?b") auto
  have sent: "sub_bytes (nat d) (nat len) (buffer ?b) = q"
    using front_packet_hd [OF cinv ne] dl c by (simp add: front_packet_def)
  have c': "cb_contents ?b' = qs" using inv'(2) c by simp
  have out: "if qs = [] then output_avail ?b' < 0
      else output_dest ?b' = Some (4 * (cb_start ?b' + 1)) \<and> 0 \<le> output_avail ?b'"
    using output_avail_cases [OF inv'(1)] c' by auto
  have eq: "pb_output d len w = fold pb_apply
      ((if input_avail ?b < ?mtu \<and> ?mtu \<le> input_avail ?b' then [PB_Recv (input_dest ?b')] else []) @
       (if 0 \<le> output_avail ?b' then [PB_Send (output_dest ?b') (output_avail ?b')] else []))
      (w\<lparr>pb := (pb w)\<lparr>pb_buf := ?b'\<rparr>, pb_send := None, pb_sent := pb_sent w @ [q]\<rparr>)"
    by (simp add: pb_output_def PacketBuffer_output_handler_done_def Let_def sent)
  have w: "pb_recv w = (if ?mtu \<le> input_avail ?b then input_dest ?b else None)"
    "\<forall>p\<in>set (q # qs). int (length p) \<le> ?mtu" "\<not> pb_violated w" "pb_received w = pb_sent w @ q # qs"
    "cb_mtu ?b = blocks_of ?mtu"
    using inv by (auto simp: pb_inv_def Let_def c)
  show ?thesis
  proof (cases "?mtu \<le> input_avail ?b")
    case True
    then show ?thesis
      using w out stable inv'(1) mtu unfolding eq by (auto simp: pb_inv_def Let_def c')
  next
    case False
    then show ?thesis
      using w out dest inv'(1) mtu unfolding eq
      by (cases "?mtu \<le> input_avail ?b'") (auto simp: pb_inv_def Let_def c')
  qed
qed

lemma pb_step_inv: "pb_step w w' \<Longrightarrow> pb_inv w \<Longrightarrow> pb_inv w'"
  by (induction rule: pb_step.induct) (simp_all add: pb_input_inv pb_output_inv)

lemma pb_reach_inv: "pb_reach w0 w \<Longrightarrow> pb_inv w0 \<Longrightarrow> pb_inv w"
  by (induction rule: pb_reach.induct) (auto intro: pb_step_inv)

text \<open>The size of the array and the MTU never change.\<close>

lemma fold_pb_apply [simp]: "pb (fold pb_apply cs w) = pb w"
proof (induction cs arbitrary: w)
  case (Cons c cs)
  then show ?case by (cases "(c, w)" rule: pb_apply.cases) auto
qed simp

lemma pb_step_frame:
  "pb_step w w' \<Longrightarrow> pb_inv w \<Longrightarrow> cb_size (pb_buf (pb w')) = cb_size (pb_buf (pb w)) \<and>
     pb_input_mtu (pb w') = pb_input_mtu (pb w)"
proof (induction rule: pb_step.induct)
  case (pb_in w d p)
  then show ?case
    using pb_inputs_put(2) [OF pb_in(3,1,2)]
    by (simp add: pb_input_def PacketBuffer_input_handler_done_def Let_def)
next
  case (pb_out w d len)
  then show ?case
    by (simp add: pb_output_def PacketBuffer_output_handler_done_def Let_def)
qed

lemma pb_reach_frame:
  "pb_reach w0 w \<Longrightarrow> pb_inv w0 \<Longrightarrow> cb_size (pb_buf (pb w)) = cb_size (pb_buf (pb w0)) \<and>
     pb_input_mtu (pb w) = pb_input_mtu (pb w0)"
  by (induction rule: pb_reach.induct) (auto dest: pb_step_frame pb_reach_inv)

text \<open>What \<open>BAllocArray\<close> promises, and that the array can be addressed in bytes by an \<open>int\<close>.\<close>

definition alloc_ok :: "(int \<Rightarrow> byte list option) \<Rightarrow> int \<Rightarrow> bool" where
  "alloc_ok alloc n \<longleftrightarrow>
     (case alloc n of None \<Rightarrow> True | Some mem \<Rightarrow> length mem = nat (4 * n) \<and> 4 * n \<le> INT_MAX)"

lemma pb_init_inv:
  assumes init: "PacketBuffer_Init alloc mtu num = Some r" and "0 \<le> mtu" "0 < num"
    and ok: "alloc_ok alloc (ChunkBuffer2_calc_blocks mtu num)"
  shows "pb_inv (pb_world_init r)" and "pb_input_mtu (pb (pb_world_init r)) = mtu"
    and "cb_size (pb_buf (pb (pb_world_init r))) = (1 + blocks_of mtu) * (num + 1)"
proof -
  let ?n = "ChunkBuffer2_calc_blocks mtu num"
  from init obtain mem where al: "alloc ?n = Some mem" and nn: "\<not> ?n < 0"
    and r: "r = (\<lparr>pb_buf = ChunkBuffer2_Init mem ?n mtu, pb_input_mtu = mtu\<rparr>,
      [PB_Recv (input_dest (ChunkBuffer2_Init mem ?n mtu))])"
    by (auto simp: PacketBuffer_Init_def Let_def split: if_splits option.splits)
  let ?b = "ChunkBuffer2_Init mem ?n mtu"
  have n: "?n = (1 + blocks_of mtu) * (num + 1)" using calc_blocks_value nn by force
  have "(1 + blocks_of mtu) * 1 \<le> (1 + blocks_of mtu) * (num + 1)"
    using assms(3) by (intro mult_left_mono) simp_all
  then have lt: "blocks_of mtu < ?n" using n by simp
  have mem: "length mem = nat (4 * ?n)" "4 * ?n \<le> INT_MAX" using ok al by (simp_all add: alloc_ok_def)
  note inv = init_inv [OF lt mem(2,1)]
  have acc: "4 * blocks_of mtu \<le> input_avail ?b" "input_dest ?b \<noteq> None"
    using empty_accepts [OF inv] by simp_all
  have "mtu \<le> input_avail ?b" using acc(1) blocks_of_bound [OF assms(2)] by linarith
  then show "pb_inv (pb_world_init r)"
    using inv acc assms(2) output_avail_cases(2) [OF inv]
    by (auto simp: r pb_world_init_def pb_inv_def Let_def)
  show "pb_input_mtu (pb (pb_world_init r)) = mtu"
    "cb_size (pb_buf (pb (pb_world_init r))) = (1 + blocks_of mtu) * (num + 1)"
    using acc(2) n by (auto simp: r pb_world_init_def)
qed

section \<open>Properties\<close>

definition demo_alloc :: "int \<Rightarrow> byte list option" where
  "demo_alloc n = Some (replicate (nat (4 * n)) 0)"

definition demo_start :: pb_world where
  "demo_start = pb_world_init (the (PacketBuffer_Init demo_alloc 4 1))"

definition demo_one :: pb_world where
  "demo_one = pb_input 4 [1, 2, 3] demo_start"

lemma demo_init:
  "PacketBuffer_Init demo_alloc 4 1 = Some (the (PacketBuffer_Init demo_alloc 4 1))"
  "alloc_ok demo_alloc (ChunkBuffer2_calc_blocks 4 1)"
  "pb_recv demo_start = Some 4 \<and> pb_input_mtu (pb demo_start) = 4"
  by code_simp+

lemma demo_reach: "pb_reach demo_start demo_one"
  unfolding demo_one_def
  by (rule pb_reach.step [OF pb_reach.start pb_step.pb_in]) (simp_all add: demo_init(3))

text \<open>C16. A packet buffer neither loses, duplicates, reorders nor corrupts packets: in every
  state that arrivals and departures can lead to, the packets that arrived are those that left,
  in order, followed by those the buffer holds, although data is passed by raw pointers into the
  circular array; and the component never issues a second request while one is outstanding, nor one
  with a null pointer.\<close>

theorem packet_buffer_fifo:
  assumes "PacketBuffer_Init alloc mtu num = Some r" "0 \<le> mtu" "0 < num"
    and "alloc_ok alloc (ChunkBuffer2_calc_blocks mtu num)"
    and "pb_reach (pb_world_init r) w"
  shows "pb_received w = pb_sent w @ pb_contents w \<and> \<not> pb_violated w"
  using pb_reach_inv [OF assms(5) pb_init_inv(1) [OF assms(1-4)]]
  by (simp add: pb_inv_def Let_def pb_contents_def)

theorem packet_buffer_fifo_witness:
  "pb_received demo_one = pb_sent demo_one @ pb_contents demo_one \<and> \<not> pb_violated demo_one"
  by (rule packet_buffer_fifo [OF demo_init(1) _ _ demo_init(2) demo_reach [unfolded demo_start_def]])
    simp_all

text \<open>C27. A packet buffer never gets stuck: when it is empty it is waiting for a packet, when it
  holds packets it is sending the first one, and as long as it holds fewer packets than it was
  created for, it is ready to receive another one of full size.\<close>

theorem packet_buffer_live:
  assumes "PacketBuffer_Init alloc mtu num = Some r" "0 \<le> mtu" "0 < num"
    and "alloc_ok alloc (ChunkBuffer2_calc_blocks mtu num)"
    and "pb_reach (pb_world_init r) w"
  shows "(pb_contents w \<noteq> [] \<longrightarrow> pb_send w \<noteq> None) \<and>
         (int (length (pb_contents w)) < num \<longrightarrow> pb_recv w \<noteq> None)"
proof -
  note init = pb_init_inv [OF assms(1-4)]
  have inv: "pb_inv w" using pb_reach_inv [OF assms(5) init(1)] .
  let ?b = "pb_buf (pb w)"
  have fr: "cb_size ?b = (1 + blocks_of mtu) * (num + 1)" "pb_input_mtu (pb w) = mtu"
    using pb_reach_frame [OF assms(5) init(1)] init(2,3) by simp_all
  have c: "cb_inv ?b" "cb_mtu ?b = blocks_of mtu" "\<forall>p\<in>set (cb_contents ?b). int (length p) \<le> mtu"
    using inv fr by (auto simp: pb_inv_def Let_def)
  have "pb_recv w \<noteq> None" if "int (length (pb_contents w)) < num"
  proof -
    have "4 * blocks_of mtu \<le> input_avail ?b \<and> input_dest ?b \<noteq> None"
      using capacity [OF c(1), of num] c(2,3) fr(1) that blocks_of_mono by (simp add: pb_contents_def)
    moreover have "mtu \<le> 4 * blocks_of mtu" using blocks_of_bound assms(2) .
    ultimately show ?thesis using inv fr(2) by (auto simp: pb_inv_def Let_def)
  qed
  then show ?thesis using inv by (auto simp: pb_inv_def Let_def pb_contents_def)
qed

lemma demo_one_contents: "length (pb_contents demo_one) = 1"
  by code_simp

theorem packet_buffer_live_witness: "pb_send demo_one \<noteq> None \<and> pb_recv demo_start \<noteq> None"
proof
  show "pb_send demo_one \<noteq> None"
    using packet_buffer_live [OF demo_init(1) _ _ demo_init(2) demo_reach [unfolded demo_start_def]]
      demo_one_contents by auto
  have "pb_contents demo_start = []" by code_simp
  then show "pb_recv demo_start \<noteq> None"
    using packet_buffer_live [OF demo_init(1) _ _ demo_init(2) pb_reach.start]
    unfolding demo_start_def by simp
qed



end
