(* ===== verification/PacketProto.thy ===== *)
theory PacketProto
  imports FlowInterface
begin

text \<open>
  Packet framing over a stream: \<open>protocol/packetproto.h\<close>, \<open>flow/PacketProtoEncoder.c\<close> and
  \<open>flow/PacketProtoDecoder.c\<close>. A packet travels as a two-byte little-endian length followed by
  its bytes. The decoder reassembles packets in a buffer that holds exactly one packet of maximum
  size; it is modelled with its raw buffer and with the pointers it hands to its two interfaces, so
  that a packet is read back from memory only when its send has finished. The theorems show that any
  division of the stream into chunks gives back the packets, that an oversized length is reported as
  an error, and that the decoder always asks for at least one byte.
\<close>

section \<open>The wire format\<close>

abbreviation PACKETPROTO_MAXPAYLOAD :: int where "PACKETPROTO_MAXPAYLOAD \<equiv> 65535"

definition PACKETPROTO_ENCLEN :: "int \<Rightarrow> int" where
  "PACKETPROTO_ENCLEN len = 2 + len"

definition packetproto_header :: "int \<Rightarrow> byte list" where
  "packetproto_header len = store16 (htol16 (word_of_int len))"

definition header_len :: "byte list \<Rightarrow> int" where
  "header_len h = uint (ltoh16 (load16 h))"

text \<open>The specification: the framed form of a packet and the parser of a stream.\<close>

definition pp_enc :: "byte list \<Rightarrow> byte list" where
  "pp_enc p = packetproto_header (int (length p)) @ p"

definition pp_dec :: "byte list \<Rightarrow> (byte list \<times> byte list) option" where
  "pp_dec bs =
     (if length bs < 2 \<or> int (length bs) - 2 < header_len bs then None
      else Some (take (nat (header_len bs)) (drop 2 bs), drop (2 + nat (header_len bs)) bs))"

definition pp_ok :: "byte list \<Rightarrow> bool" where
  "pp_ok p \<longleftrightarrow> int (length p) \<le> PACKETPROTO_MAXPAYLOAD"

lemma length_header [simp]: "length (packetproto_header n) = 2"
  by (simp add: packetproto_header_def)

lemma header_len_header:
  "0 \<le> n \<Longrightarrow> n \<le> PACKETPROTO_MAXPAYLOAD \<Longrightarrow> header_len (packetproto_header n @ r) = n"
  by (simp add: header_len_def packetproto_header_def uint_word_of_int_eq take_bit_int_eq_self)

lemma header_len_nonneg [simp]: "0 \<le> header_len h" "\<not> header_len h < 0"
  by (simp_all add: header_len_def not_less)

lemma header_len_le: "header_len h \<le> PACKETPROTO_MAXPAYLOAD"
  using uint_lt2p [of "load16 h"] by (simp add: header_len_def)

lemma header_len_take: "2 \<le> n \<Longrightarrow> header_len (take n h) = header_len h"
  by (simp add: header_len_def load16_take)

lemma header_len_append: "2 \<le> length h \<Longrightarrow> header_len (h @ r) = header_len h"
  by (simp add: header_len_def load16_append)

lemma header_of_len: "2 \<le> length h \<Longrightarrow> packetproto_header (header_len h) = take 2 h"
proof -
  assume "2 \<le> length h"
  then have "store16 (load16 (take 2 h)) = take 2 h" by (intro store_load16_length) simp
  then show ?thesis by (simp add: packetproto_header_def header_len_def load16_take)
qed

lemma pp_dec_enc: "pp_ok p \<Longrightarrow> pp_dec (pp_enc p @ rest) = Some (p, rest)"
  using header_len_header [of "int (length p)" "p @ rest"] by (simp add: pp_dec_def pp_enc_def pp_ok_def)

lemma pp_dec_Nil [simp]: "pp_dec [] = None"
  by (simp add: pp_dec_def)

interpretation ppc: wire_codec pp_enc pp_dec pp_ok
  by unfold_locales (rule pp_dec_enc)

section \<open>Encoder\<close>

text \<open>\<open>output_packet\<close> is the pointer to the caller's packet, or null; the handlers return the calls
  they make.\<close>

record PacketProtoEncoder =
  output_packet :: "nat option"

datatype ppe_call = PPE_Recv nat | PPE_Done int

definition PacketProtoEncoder_Init :: PacketProtoEncoder where
  "PacketProtoEncoder_Init = \<lparr>output_packet = None\<rparr>"

definition PacketProtoEncoder_output_handler_recv ::
  "nat \<Rightarrow> PacketProtoEncoder \<Rightarrow> PacketProtoEncoder \<times> ppe_call list" where
  "PacketProtoEncoder_output_handler_recv data enc = (enc\<lparr>output_packet := Some data\<rparr>, [PPE_Recv (data + 2)])"

text \<open>Memory is a list of bytes; the header is written at \<open>output_packet\<close>.\<close>

definition PacketProtoEncoder_input_handler_done ::
  "int \<Rightarrow> byte list \<Rightarrow> PacketProtoEncoder \<Rightarrow> (byte list \<times> PacketProtoEncoder \<times> ppe_call list) option" where
  "PacketProtoEncoder_input_handler_done in_len mem enc =
     (case output_packet enc of None \<Rightarrow> None
      | Some d \<Rightarrow> Some (memcpy_at mem d (packetproto_header in_len),
          enc\<lparr>output_packet := None\<rparr>, [PPE_Done (PACKETPROTO_ENCLEN in_len)]))"

text \<open>One packet through the encoder: the consumer asks with a pointer, the producer fills in the
  payload where it was told to, the consumer gets the length.\<close>

definition encode_packet :: "byte list \<Rightarrow> nat \<Rightarrow> byte list \<Rightarrow> (byte list \<times> int) option" where
  "encode_packet mem d p =
     (case PacketProtoEncoder_output_handler_recv d PacketProtoEncoder_Init of
        (enc, [PPE_Recv d2]) \<Rightarrow>
          (case PacketProtoEncoder_input_handler_done (int (length p)) (memcpy_at mem d2 p) enc of
             Some (mem', enc', [PPE_Done n]) \<Rightarrow> Some (mem', n) | _ \<Rightarrow> None)
      | _ \<Rightarrow> None)"

section \<open>Decoder\<close>

record PacketProtoDecoder =
  dec_output_mtu :: int
  dec_buf_size :: int
  dec_buf_start :: int
  dec_buf_used :: int
  dec_buf :: "byte list"

datatype ppd_call =
  PPD_Send int int
| PPD_Recv int int
| PPD_Error

text \<open>\<open>memmove(enc->buf, enc->buf + enc->buf_start, enc->buf_used)\<close>\<close>

definition move_to_front :: "PacketProtoDecoder \<Rightarrow> byte list" where
  "move_to_front enc =
     memcpy_at (dec_buf enc) 0 (sub_bytes (nat (dec_buf_start enc)) (nat (dec_buf_used enc)) (dec_buf enc))"

definition process_data :: "PacketProtoDecoder \<Rightarrow> PacketProtoDecoder \<times> ppd_call list" where
  "process_data enc =
     (let data = drop (nat (dec_buf_start enc)) (dec_buf enc);
          left = dec_buf_used enc;
          recv = (\<lambda>e. PPD_Recv (dec_buf_start e + dec_buf_used e)
                        (dec_buf_size e - (dec_buf_start e + dec_buf_used e)));
          data_len = header_len data
      in if 2 \<le> left \<and> data_len > dec_output_mtu enc then
           let e = enc\<lparr>dec_buf_start := 0, dec_buf_used := 0\<rparr> in (e, [recv e, PPD_Error])
         else if 2 \<le> left \<and> \<not> left - 2 < data_len then
           (enc\<lparr>dec_buf_start := dec_buf_start enc + (2 + data_len),
                dec_buf_used := dec_buf_used enc - (2 + data_len)\<rparr>,
            [PPD_Send (dec_buf_start enc + 2) data_len])
         else
           let e = (if dec_buf_start enc + dec_buf_used enc = dec_buf_size enc
                    then enc\<lparr>dec_buf := move_to_front enc, dec_buf_start := 0\<rparr> else enc)
           in (e, [recv e]))"

definition PacketProtoDecoder_input_handler_done ::
  "int \<Rightarrow> PacketProtoDecoder \<Rightarrow> PacketProtoDecoder \<times> ppd_call list" where
  "PacketProtoDecoder_input_handler_done data_len enc =
     process_data (enc\<lparr>dec_buf_used := dec_buf_used enc + data_len\<rparr>)"

definition PacketProtoDecoder_output_handler_done ::
  "PacketProtoDecoder \<Rightarrow> PacketProtoDecoder \<times> ppd_call list" where
  "PacketProtoDecoder_output_handler_done enc = process_data enc"

definition PacketProtoDecoder_Init ::
  "(int \<Rightarrow> byte list option) \<Rightarrow> int \<Rightarrow> (PacketProtoDecoder \<times> ppd_call list) option" where
  "PacketProtoDecoder_Init malloc mtu =
     (let output_mtu = min mtu PACKETPROTO_MAXPAYLOAD; size = PACKETPROTO_ENCLEN output_mtu in
      case malloc size of None \<Rightarrow> None
      | Some mem \<Rightarrow> Some (\<lparr>dec_output_mtu = output_mtu, dec_buf_size = size, dec_buf_start = 0,
          dec_buf_used = 0, dec_buf = mem\<rparr>, [PPD_Recv 0 size]))"

definition PacketProtoDecoder_Reset :: "PacketProtoDecoder \<Rightarrow> PacketProtoDecoder" where
  "PacketProtoDecoder_Reset enc =
     enc\<lparr>dec_buf_start := dec_buf_start enc + dec_buf_used enc, dec_buf_used := 0\<rparr>"

section \<open>The decoder between its interfaces\<close>

text \<open>\<open>d_fed\<close> is everything the stream delivered, \<open>d_kept\<close> the same less what a reset or an error
  discarded, \<open>d_out\<close> the packets whose send has finished, read from the buffer at that moment.\<close>

record ppd_world =
  dec :: PacketProtoDecoder
  d_recv :: "(int \<times> int) option"
  d_send :: "(int \<times> int) option"
  d_violated :: bool
  d_errors :: nat
  d_resets :: nat
  d_fed :: "byte list"
  d_kept :: "byte list"
  d_out :: "byte list list"

fun ppd_apply :: "ppd_call \<Rightarrow> ppd_world \<Rightarrow> ppd_world" where
  "ppd_apply (PPD_Send d n) w =
     w\<lparr>d_send := Some (d, n), d_violated := (d_violated w \<or> d_send w \<noteq> None \<or> n < 0)\<rparr>"
| "ppd_apply (PPD_Recv d n) w =
     w\<lparr>d_recv := Some (d, n), d_violated := (d_violated w \<or> d_recv w \<noteq> None \<or> n \<le> 0)\<rparr>"
| "ppd_apply PPD_Error w = w\<lparr>d_errors := d_errors w + 1, d_kept := concat (map pp_enc (d_out w))\<rparr>"

definition ppd_run :: "PacketProtoDecoder \<times> ppd_call list \<Rightarrow> ppd_world \<Rightarrow> ppd_world" where
  "ppd_run r w = fold ppd_apply (snd r) (w\<lparr>dec := fst r\<rparr>)"

definition ppd_world_init :: "PacketProtoDecoder \<times> ppd_call list \<Rightarrow> ppd_world" where
  "ppd_world_init r = ppd_run r
     \<lparr>dec = fst r, d_recv = None, d_send = None, d_violated = False, d_errors = 0, d_resets = 0,
      d_fed = [], d_kept = [], d_out = []\<rparr>"

definition ppd_input :: "int \<Rightarrow> byte list \<Rightarrow> ppd_world \<Rightarrow> ppd_world" where
  "ppd_input d bs w =
     ppd_run (PacketProtoDecoder_input_handler_done (int (length bs))
        ((dec w)\<lparr>dec_buf := memcpy_at (dec_buf (dec w)) (nat d) bs\<rparr>))
       (w\<lparr>d_recv := None, d_fed := d_fed w @ bs, d_kept := d_kept w @ bs\<rparr>)"

definition ppd_output :: "int \<Rightarrow> int \<Rightarrow> ppd_world \<Rightarrow> ppd_world" where
  "ppd_output d n w =
     ppd_run (PacketProtoDecoder_output_handler_done (dec w))
       (w\<lparr>d_send := None, d_out := d_out w @ [sub_bytes (nat d) (nat n) (dec_buf (dec w))]\<rparr>)"

definition ppd_reset :: "ppd_world \<Rightarrow> ppd_world" where
  "ppd_reset w =
     w\<lparr>dec := PacketProtoDecoder_Reset (dec w), d_resets := d_resets w + 1,
       d_kept := take (length (d_kept w) - nat (dec_buf_used (dec w))) (d_kept w)\<rparr>"

inductive ppd_step :: "ppd_world \<Rightarrow> ppd_world \<Rightarrow> bool" where
  ppd_in: "d_recv w = Some (d, n) \<Longrightarrow> bs \<noteq> [] \<Longrightarrow> int (length bs) \<le> n \<Longrightarrow> ppd_step w (ppd_input d bs w)"
| ppd_out: "d_send w = Some (d, n) \<Longrightarrow> ppd_step w (ppd_output d n w)"
| ppd_res: "ppd_step w (ppd_reset w)"

inductive ppd_reach :: "ppd_world \<Rightarrow> ppd_world \<Rightarrow> bool" for w0 where
  ppd_start: "ppd_reach w0 w0"
| ppd_next: "ppd_reach w0 w \<Longrightarrow> ppd_step w w' \<Longrightarrow> ppd_reach w0 w'"

text \<open>The bytes that are in the buffer and not yet passed on, and the packet that is being sent.\<close>

definition d_pending :: "PacketProtoDecoder \<Rightarrow> byte list" where
  "d_pending e = sub_bytes (nat (dec_buf_start e)) (nat (dec_buf_used e)) (dec_buf e)"

definition d_sending :: "ppd_world \<Rightarrow> byte list list" where
  "d_sending w =
     (case d_send w of None \<Rightarrow> [] | Some (d, n) \<Rightarrow> [sub_bytes (nat d) (nat n) (dec_buf (dec w))])"

definition dec_ok :: "PacketProtoDecoder \<Rightarrow> bool" where
  "dec_ok e \<longleftrightarrow>
     0 \<le> dec_output_mtu e \<and> dec_output_mtu e \<le> PACKETPROTO_MAXPAYLOAD \<and>
     dec_buf_size e = PACKETPROTO_ENCLEN (dec_output_mtu e) \<and>
     length (dec_buf e) = nat (dec_buf_size e) \<and>
     0 \<le> dec_buf_start e \<and> 0 \<le> dec_buf_used e \<and> dec_buf_start e + dec_buf_used e \<le> dec_buf_size e"

definition ppd_inv :: "ppd_world \<Rightarrow> bool" where
  "ppd_inv w \<longleftrightarrow>
     (let e = dec w; fill = dec_buf_start e + dec_buf_used e in
      dec_ok e \<and> \<not> d_violated w \<and>
      ((d_send w = None \<and> d_recv w = Some (fill, dec_buf_size e - fill) \<and> fill < dec_buf_size e \<and>
        pp_dec (d_pending e) = None) \<or>
       (d_recv w = None \<and>
        (\<exists>d n. d_send w = Some (d, n) \<and> 2 \<le> d \<and> 0 \<le> n \<and> d + n \<le> dec_buf_start e \<and> n \<le> dec_output_mtu e))) \<and>
      d_kept w = concat (map pp_enc (d_out w @ d_sending w)) @ d_pending e \<and>
      (\<forall>p\<in>set (d_out w @ d_sending w). int (length p) \<le> dec_output_mtu e) \<and>
      (d_errors w = 0 \<longrightarrow> d_resets w = 0 \<longrightarrow> d_fed w = d_kept w))"

section \<open>Invariant of the decoder\<close>

text \<open>What holds when \<open>process_data\<close> is called: nothing is outstanding.\<close>

definition ppd_ready :: "ppd_world \<Rightarrow> bool" where
  "ppd_ready w \<longleftrightarrow>
     dec_ok (dec w) \<and> \<not> d_violated w \<and> d_send w = None \<and> d_recv w = None \<and>
     d_kept w = concat (map pp_enc (d_out w)) @ d_pending (dec w) \<and>
     (\<forall>p\<in>set (d_out w). int (length p) \<le> dec_output_mtu (dec w)) \<and>
     (d_errors w = 0 \<longrightarrow> d_resets w = 0 \<longrightarrow> d_fed w = d_kept w)"

lemma length_pending: "dec_ok e \<Longrightarrow> int (length (d_pending e)) = dec_buf_used e"
proof -
  assume "dec_ok e"
  then have "nat (dec_buf_start e) + nat (dec_buf_used e) \<le> length (dec_buf e)"
    by (simp add: dec_ok_def nat_plus_nat_le)
  then show ?thesis using \<open>dec_ok e\<close> by (simp add: d_pending_def length_sub_bytes dec_ok_def)
qed

lemma header_pending:
  "2 \<le> dec_buf_used e \<Longrightarrow> header_len (drop (nat (dec_buf_start e)) (dec_buf e)) = header_len (d_pending e)"
  by (simp add: d_pending_def sub_bytes_def header_len_take)

lemma pending_move:
  assumes "dec_ok e"
  shows "d_pending (e\<lparr>dec_buf := move_to_front e, dec_buf_start := 0\<rparr>) = d_pending e"
    and "length (move_to_front e) = length (dec_buf e)"
proof -
  have len: "length (d_pending e) = nat (dec_buf_used e)" using length_pending [OF assms] by simp
  have le: "nat (dec_buf_used e) \<le> length (dec_buf e)" using assms by (simp add: dec_ok_def nat_mono)
  show "d_pending (e\<lparr>dec_buf := move_to_front e, dec_buf_start := 0\<rparr>) = d_pending e"
    using sub_bytes_memcpy_same [of 0 "d_pending e" "dec_buf e"] len le
    by (simp add: move_to_front_def d_pending_def)
  show "length (move_to_front e) = length (dec_buf e)"
    using length_memcpy_at [of 0 "d_pending e" "dec_buf e"] len le
    by (simp add: move_to_front_def d_pending_def)
qed

text \<open>Taking one packet off the front of the buffered bytes.\<close>

lemma pending_packet:
  assumes ok: "dec_ok e" and two: "2 \<le> dec_buf_used e" and n: "n = header_len (d_pending e)"
    and left: "2 + n \<le> dec_buf_used e"
  shows "d_pending e = pp_enc (sub_bytes (nat (dec_buf_start e + 2)) (nat n) (dec_buf e)) @
           d_pending (e\<lparr>dec_buf_start := dec_buf_start e + (2 + n), dec_buf_used := dec_buf_used e - (2 + n)\<rparr>)"
    and "int (length (sub_bytes (nat (dec_buf_start e + 2)) (nat n) (dec_buf e))) = n"
proof -
  let ?s = "nat (dec_buf_start e)" and ?u = "nat (dec_buf_used e)" and ?n = "nat n"
  let ?d = "drop ?s (dec_buf e)"
  have n0: "0 \<le> n" using n by simp
  have u: "?u = 2 + ?n + nat (dec_buf_used e - (2 + n))" using left n0 by linarith
  have st: "nat (dec_buf_start e + 2) = ?s + 2" "nat (dec_buf_start e + (2 + n)) = ?s + 2 + ?n"
    using ok n0 by (simp_all add: dec_ok_def nat_add_distrib)
  have "?s + ?u \<le> length (dec_buf e)" using ok by (simp add: dec_ok_def nat_plus_nat_le)
  then have len: "?u \<le> length ?d" by simp
  have p: "sub_bytes (nat (dec_buf_start e + 2)) ?n (dec_buf e) = take ?n (drop 2 ?d)"
    by (simp add: sub_bytes_def st add.commute)
  have "2 + ?n \<le> length ?d" using len u by linarith
  then have "?n \<le> length (drop 2 ?d)" by (simp only: length_drop)
  then have lp: "length (take ?n (drop 2 ?d)) = ?n" by (rule length_take [THEN trans, OF min_absorb2])
  show "int (length (sub_bytes (nat (dec_buf_start e + 2)) ?n (dec_buf e))) = n"
    using lp n0 by (simp add: p)
  have "packetproto_header n = take 2 (d_pending e)"
    using header_of_len [of "d_pending e"] length_pending [OF ok] two n by simp
  then have h: "packetproto_header n = take 2 ?d"
    using two by (simp add: d_pending_def sub_bytes_def)
  have "d_pending e = sub_bytes ?s (2 + (?n + nat (dec_buf_used e - (2 + n)))) (dec_buf e)"
    unfolding d_pending_def u by (simp only: add.assoc)
  then show "d_pending e = pp_enc (sub_bytes (nat (dec_buf_start e + 2)) ?n (dec_buf e)) @
      d_pending (e\<lparr>dec_buf_start := dec_buf_start e + (2 + n), dec_buf_used := dec_buf_used e - (2 + n)\<rparr>)"
    using h lp n0 p by (simp only: sub_bytes_add) (simp add: pp_enc_def d_pending_def sub_bytes_def st)
qed

lemma process_data_inv:
  assumes r: "ppd_ready w" shows "ppd_inv (ppd_run (process_data (dec w)) w)"
proof -
  let ?e = "dec w"
  have ok: "dec_ok ?e" using r by (simp add: ppd_ready_def)
  let ?n = "header_len (d_pending ?e)"
  have hd: "header_len (drop (nat (dec_buf_start ?e)) (dec_buf ?e)) = ?n" if "2 \<le> dec_buf_used ?e"
    using header_pending that by blast
  consider (err) "2 \<le> dec_buf_used ?e" "?n > dec_output_mtu ?e"
    | (pkt) "2 \<le> dec_buf_used ?e" "?n \<le> dec_output_mtu ?e" "2 + ?n \<le> dec_buf_used ?e"
    | (wait) "dec_buf_used ?e < 2 \<or> (?n \<le> dec_output_mtu ?e \<and> dec_buf_used ?e - 2 < ?n)"
    by linarith
  then show ?thesis
  proof cases
    case err
    then show ?thesis
      using r hd by (auto simp: ppd_inv_def ppd_run_def process_data_def Let_def ppd_ready_def dec_ok_def
          PACKETPROTO_ENCLEN_def d_pending_def d_sending_def sub_bytes_def)
  next
    case pkt
    let ?e' = "?e\<lparr>dec_buf_start := dec_buf_start ?e + (2 + ?n), dec_buf_used := dec_buf_used ?e - (2 + ?n)\<rparr>"
    note pk = pending_packet [OF ok pkt(1) refl pkt(3)]
    have pd: "process_data ?e = (?e', [PPD_Send (dec_buf_start ?e + 2) ?n])"
      using pkt hd by (simp add: process_data_def Let_def)
    have run: "ppd_run (process_data ?e) w =
        w\<lparr>dec := ?e', d_send := Some (dec_buf_start ?e + 2, ?n), d_violated := False\<rparr>"
      using r by (simp add: pd ppd_run_def ppd_ready_def)
    have kept: "d_kept w = concat (map pp_enc (d_out w)) @
        pp_enc (sub_bytes (nat (dec_buf_start ?e + 2)) (nat ?n) (dec_buf ?e)) @ d_pending ?e'"
      using r pk(1) by (simp add: ppd_ready_def)
    have ok': "dec_ok ?e'"
      using ok pkt(3) header_len_nonneg(1) [of "d_pending ?e"] by (simp add: dec_ok_def del: header_len_nonneg)
    show ?thesis
      using r kept ok' pk(2) pkt(2) ok unfolding run
      by (simp add: ppd_inv_def Let_def d_sending_def ppd_ready_def dec_ok_def [of ?e])
  next
    case wait
    let ?m = "?e\<lparr>dec_buf := move_to_front ?e, dec_buf_start := 0\<rparr>"
    let ?e' = "if dec_buf_start ?e + dec_buf_used ?e = dec_buf_size ?e then ?m else ?e"
    have pd: "process_data ?e = (?e', [PPD_Recv (dec_buf_start ?e' + dec_buf_used ?e')
         (dec_buf_size ?e' - (dec_buf_start ?e' + dec_buf_used ?e'))])"
      using wait hd by (auto simp: process_data_def Let_def)
    have lt: "dec_buf_used ?e < dec_buf_size ?e"
      using wait ok by (auto simp: dec_ok_def PACKETPROTO_ENCLEN_def)
    have ok': "dec_ok ?e'" and fill: "dec_buf_start ?e' + dec_buf_used ?e' < dec_buf_size ?e'"
      and pend: "d_pending ?e' = d_pending ?e"
      using ok lt pending_move [OF ok] by (auto simp: dec_ok_def)
    have same: "dec_output_mtu ?e' = dec_output_mtu ?e" by simp
    have inc: "pp_dec (d_pending ?e) = None"
      using wait length_pending [OF ok] by (auto simp: pp_dec_def)
    show ?thesis
      using r ok' fill pend same inc unfolding pd ppd_run_def
      by (auto simp: ppd_inv_def Let_def ppd_ready_def d_sending_def simp del: if_split_asm)
  qed
qed

text \<open>Both completions bring the decoder into the state in which \<open>process_data\<close> runs.\<close>

definition ppd_after_input :: "int \<Rightarrow> byte list \<Rightarrow> ppd_world \<Rightarrow> ppd_world" where
  "ppd_after_input d bs w =
     w\<lparr>dec := (dec w)\<lparr>dec_buf := memcpy_at (dec_buf (dec w)) (nat d) bs,
           dec_buf_used := dec_buf_used (dec w) + int (length bs)\<rparr>,
       d_recv := None, d_fed := d_fed w @ bs, d_kept := d_kept w @ bs\<rparr>"

definition ppd_after_output :: "int \<Rightarrow> int \<Rightarrow> ppd_world \<Rightarrow> ppd_world" where
  "ppd_after_output d n w =
     w\<lparr>d_send := None, d_out := d_out w @ [sub_bytes (nat d) (nat n) (dec_buf (dec w))]\<rparr>"

lemma ppd_completion_eqs:
  "ppd_input d bs w = ppd_run (process_data (dec (ppd_after_input d bs w))) (ppd_after_input d bs w)"
  "ppd_output d n w = ppd_run (process_data (dec (ppd_after_output d n w))) (ppd_after_output d n w)"
  by (simp_all add: ppd_input_def ppd_after_input_def PacketProtoDecoder_input_handler_done_def ppd_run_def
      ppd_output_def ppd_after_output_def PacketProtoDecoder_output_handler_done_def)

lemma ppd_input_ready:
  assumes inv: "ppd_inv w" and r: "d_recv w = Some (d, n)" and bs: "int (length bs) \<le> n"
  shows "ppd_ready (ppd_after_input d bs w)"
proof -
  let ?e = "dec w"
  let ?e' = "?e\<lparr>dec_buf := memcpy_at (dec_buf ?e) (nat d) bs, dec_buf_used := dec_buf_used ?e + int (length bs)\<rparr>"
  have ok: "dec_ok ?e" using inv by (simp add: ppd_inv_def Let_def)
  have d: "d = dec_buf_start ?e + dec_buf_used ?e" "n = dec_buf_size ?e - d" and sn: "d_send w = None"
    using inv r by (auto simp: ppd_inv_def Let_def)
  have nd: "nat d = nat (dec_buf_start ?e) + nat (dec_buf_used ?e)"
    using ok d by (simp add: dec_ok_def nat_add_distrib)
  have room: "nat d + length bs \<le> length (dec_buf ?e)" using ok d bs by (simp add: dec_ok_def nat_plus_le)
  have "d_pending ?e' = d_pending ?e @ bs"
  proof -
    have "nat (dec_buf_used ?e + int (length bs)) = nat (dec_buf_used ?e) + length bs"
      using ok by (simp add: dec_ok_def nat_add_distrib)
    moreover have "nat (dec_buf_start ?e) + nat (dec_buf_used ?e) + length bs \<le> length (dec_buf ?e)"
      using room nd by simp
    ultimately show ?thesis
      by (simp add: d_pending_def sub_bytes_def memcpy_at_def nd take_add drop_take)
  qed
  moreover have "dec_ok ?e'"
    using ok d bs length_memcpy_at [OF room] by (simp add: dec_ok_def)
  ultimately show ?thesis
    using inv sn by (simp add: ppd_after_input_def ppd_inv_def Let_def ppd_ready_def d_sending_def)
qed

lemma ppd_output_ready:
  assumes "ppd_inv w" and "d_send w = Some (d, n)"
  shows "ppd_ready (ppd_after_output d n w)"
  using assms by (simp add: ppd_after_output_def ppd_inv_def Let_def ppd_ready_def d_sending_def)

lemma ppd_reset_inv:
  assumes inv: "ppd_inv w" shows "ppd_inv (ppd_reset w)"
proof -
  have ok: "dec_ok (dec w)" using inv by (simp add: ppd_inv_def Let_def)
  have kept: "d_kept w = concat (map pp_enc (d_out w @ d_sending w)) @ d_pending (dec w)"
    using inv by (simp add: ppd_inv_def Let_def)
  have len: "length (d_pending (dec w)) = nat (dec_buf_used (dec w))"
    using length_pending [OF ok] by simp
  have k: "take (length (d_kept w) - nat (dec_buf_used (dec w))) (d_kept w) =
      concat (map pp_enc (d_out w @ d_sending w))"
    unfolding kept by (simp add: len)
  have dec: "d_pending (PacketProtoDecoder_Reset (dec w)) = []" "dec_ok (PacketProtoDecoder_Reset (dec w))"
    using ok by (simp_all add: PacketProtoDecoder_Reset_def d_pending_def sub_bytes_def dec_ok_def)
  have snd: "d_sending (ppd_reset w) = d_sending w"
    by (simp add: d_sending_def ppd_reset_def PacketProtoDecoder_Reset_def split: option.split)
  have "d_send w = Some (d, n) \<Longrightarrow> d + n \<le> dec_buf_start (dec w) \<Longrightarrow>
      d + n \<le> dec_buf_start (dec w) + dec_buf_used (dec w)" for d n
    using ok by (simp add: dec_ok_def)
  then show ?thesis
    using inv k dec unfolding ppd_inv_def Let_def snd
    by (auto simp: ppd_reset_def PacketProtoDecoder_Reset_def)
qed

lemma ppd_step_inv: "ppd_step w w' \<Longrightarrow> ppd_inv w \<Longrightarrow> ppd_inv w'"
  by (induction rule: ppd_step.induct)
    (simp_all add: ppd_completion_eqs process_data_inv ppd_input_ready ppd_output_ready ppd_reset_inv)

lemma ppd_reach_inv: "ppd_reach w0 w \<Longrightarrow> ppd_inv w0 \<Longrightarrow> ppd_inv w"
  by (induction rule: ppd_reach.induct) (auto intro: ppd_step_inv)

lemma ppd_init_inv:
  assumes "PacketProtoDecoder_Init malloc mtu = Some r" "0 \<le> mtu"
    and "\<forall>n mem. malloc n = Some mem \<longrightarrow> length mem = nat n"
  shows "ppd_inv (ppd_world_init r)" and "dec_output_mtu (dec (ppd_world_init r)) = min mtu PACKETPROTO_MAXPAYLOAD"
  using assms
  by (auto simp: PacketProtoDecoder_Init_def Let_def ppd_world_init_def ppd_run_def ppd_inv_def dec_ok_def
      PACKETPROTO_ENCLEN_def d_pending_def d_sending_def sub_bytes_def split: option.splits)

section \<open>Unique parsing\<close>

text \<open>If a framed sequence of packets and some further bytes are a prefix of another framed sequence,
  the packets are a prefix, and the further bytes begin the frame of the next packet.\<close>

lemma framed_prefix:
  assumes "list_all pp_ok qs" "list_all pp_ok ps"
    and "concat (map pp_enc qs) @ rest @ tail_bs = concat (map pp_enc ps)"
  shows "\<exists>ps'. ps = qs @ ps' \<and> rest @ tail_bs = concat (map pp_enc ps')"
  using assms
proof (induction qs arbitrary: ps)
  case Nil
  then show ?case by simp
next
  case (Cons q qs)
  have d: "pp_dec (concat (map pp_enc (q # qs)) @ rest @ tail_bs) = Some (q, concat (map pp_enc qs) @ rest @ tail_bs)"
    using pp_dec_enc [of q "concat (map pp_enc qs) @ rest @ tail_bs"] Cons.prems(1) by simp
  show ?case
  proof (cases ps)
    case Nil
    then show ?thesis using Cons.prems(3) by (simp add: pp_enc_def packetproto_header_def store16_def)
  next
    case (Cons p ps1)
    then have "pp_dec (concat (map pp_enc ps)) = Some (p, concat (map pp_enc ps1))"
      using pp_dec_enc [of p "concat (map pp_enc ps1)"] Cons.prems(2) by simp
    then have "q = p" "concat (map pp_enc qs) @ rest @ tail_bs = concat (map pp_enc ps1)"
      using d Cons.prems(3) by simp_all
    then show ?thesis using Cons.IH [of ps1] Cons.prems(1,2) Cons by simp
  qed
qed

lemma frame_head:
  assumes "list_all pp_ok ps" "rest @ tail_bs = concat (map pp_enc ps)" "2 \<le> length rest"
  shows "\<exists>p ps'. ps = p # ps' \<and> header_len rest = int (length p)"
proof (cases ps)
  case Nil
  then show ?thesis using assms(2,3) by simp
next
  case (Cons p ps')
  have "header_len rest = header_len (rest @ tail_bs)" using header_len_append [OF assms(3)] by simp
  also have "\<dots> = int (length p)"
    using header_len_header [of "int (length p)" "p @ concat (map pp_enc ps')"] assms(1,2) Cons
    by (simp add: pp_enc_def pp_ok_def)
  finally show ?thesis using Cons by simp
qed

text \<open>While the stream is a prefix of framed packets within the MTU, no error is reported.\<close>

lemma process_data_no_error:
  assumes "dec_ok e" "rest = d_pending e" "rest @ tail_bs = concat (map pp_enc ps)"
    and "\<forall>p\<in>set ps. int (length p) \<le> dec_output_mtu e"
  shows "PPD_Error \<notin> set (snd (process_data e))"
proof -
  have ok: "list_all pp_ok ps" using assms(1,4) by (fastforce simp: list_all_iff pp_ok_def dec_ok_def)
  have "\<not> header_len (d_pending e) > dec_output_mtu e" if "2 \<le> dec_buf_used e"
    using frame_head [OF ok assms(3)] length_pending [OF assms(1)] that assms(2,4) by fastforce
  then show ?thesis using header_pending [of e] by (auto simp: process_data_def Let_def)
qed

lemma run_errors:
  "PPD_Error \<notin> set (snd r) \<Longrightarrow> d_errors (ppd_run r w) = d_errors w"
proof -
  have "PPD_Error \<notin> set cs \<Longrightarrow> d_errors (fold ppd_apply cs w) = d_errors w" for cs w
  proof (induction cs arbitrary: w)
    case (Cons c cs)
    then show ?case by (cases c) auto
  qed simp
  then show "PPD_Error \<notin> set (snd r) \<Longrightarrow> d_errors (ppd_run r w) = d_errors w"
    by (simp add: ppd_run_def)
qed

lemma run_frame [simp]:
  "dec (ppd_run r w) = fst r" "d_fed (ppd_run r w) = d_fed w" "d_resets (ppd_run r w) = d_resets w"
  "d_out (ppd_run r w) = d_out w"
proof -
  have "dec (fold ppd_apply cs w) = dec w \<and> d_fed (fold ppd_apply cs w) = d_fed w \<and>
      d_resets (fold ppd_apply cs w) = d_resets w \<and> d_out (fold ppd_apply cs w) = d_out w" for cs w
  proof (induction cs arbitrary: w)
    case (Cons c cs)
    then show ?case by (cases c) auto
  qed simp
  then show "dec (ppd_run r w) = fst r" "d_fed (ppd_run r w) = d_fed w"
    "d_resets (ppd_run r w) = d_resets w" "d_out (ppd_run r w) = d_out w"
    by (simp_all add: ppd_run_def)
qed

lemma process_data_mtu [simp]: "dec_output_mtu (fst (process_data e)) = dec_output_mtu e"
  by (simp add: process_data_def Let_def)

lemma ppd_step_mtu: "ppd_step w w' \<Longrightarrow> dec_output_mtu (dec w') = dec_output_mtu (dec w)"
  by (induction rule: ppd_step.induct)
    (simp_all add: ppd_input_def ppd_output_def ppd_reset_def PacketProtoDecoder_input_handler_done_def
      PacketProtoDecoder_output_handler_done_def PacketProtoDecoder_Reset_def)

lemma ready_no_error:
  assumes r: "ppd_ready w" and z: "d_errors w = 0" "d_resets w = 0"
    and fed: "prefix (d_fed w) (concat (map pp_enc ps))"
    and ps: "\<forall>p\<in>set ps. int (length p) \<le> dec_output_mtu (dec w)"
  shows "d_errors (ppd_run (process_data (dec w)) w) = 0"
proof -
  have ok: "dec_ok (dec w)" and eq: "d_fed w = concat (map pp_enc (d_out w)) @ d_pending (dec w)"
    and out: "\<forall>p\<in>set (d_out w). int (length p) \<le> dec_output_mtu (dec w)"
    using r z by (simp_all add: ppd_ready_def)
  have oks: "list_all pp_ok ps" "list_all pp_ok (d_out w)"
    using ok ps out by (fastforce simp: list_all_iff pp_ok_def dec_ok_def)+
  obtain tail_bs where "concat (map pp_enc (d_out w)) @ d_pending (dec w) @ tail_bs = concat (map pp_enc ps)"
    using fed eq by (auto simp: prefix_def)
  then obtain ps' where p: "ps = d_out w @ ps'" "d_pending (dec w) @ tail_bs = concat (map pp_enc ps')"
    using framed_prefix [OF oks(2,1)] by blast
  then show ?thesis using run_errors z(1) process_data_no_error [OF ok refl p(2)] ps by simp
qed

lemma ppd_step_no_error:
  assumes st: "ppd_step w w'" and inv: "ppd_inv w" and err: "d_errors w = 0"
    and res: "d_resets w' = 0" and fed: "prefix (d_fed w') (concat (map pp_enc ps))"
    and ps: "\<forall>p\<in>set ps. int (length p) \<le> dec_output_mtu (dec w)"
  shows "d_errors w' = 0"
  using st
proof cases
  case (ppd_in d n bs)
  let ?w = "ppd_after_input d bs w"
  have f: "d_errors ?w = d_errors w" "d_resets ?w = d_resets w" "d_fed ?w = d_fed w @ bs"
    "dec_output_mtu (dec ?w) = dec_output_mtu (dec w)"
    by (simp_all add: ppd_after_input_def)
  show ?thesis
    using ready_no_error [OF ppd_input_ready [OF inv ppd_in(2,4)], of ps] f err res fed ps ppd_in(1)
    by (simp add: ppd_completion_eqs)
next
  case (ppd_out d n)
  let ?w = "ppd_after_output d n w"
  have f: "d_errors ?w = d_errors w" "d_resets ?w = d_resets w" "d_fed ?w = d_fed w" "dec ?w = dec w"
    by (simp_all add: ppd_after_output_def)
  show ?thesis
    using ready_no_error [OF ppd_output_ready [OF inv ppd_out(2)], of ps] f err res fed ps ppd_out(1)
    by (simp add: ppd_completion_eqs)
next
  case ppd_res
  then show ?thesis using res by (simp add: ppd_reset_def)
qed

lemma ppd_step_history:
  assumes "ppd_step w w'"
  shows "prefix (d_fed w) (d_fed w')" and "d_resets w \<le> d_resets w'"
  using assms
  by (induction rule: ppd_step.induct) (auto simp: ppd_input_def ppd_output_def ppd_reset_def)

lemma ppd_reach_no_error:
  assumes "ppd_reach w0 w" "ppd_inv w0" "d_errors w0 = 0" "d_resets w = 0"
    "prefix (d_fed w) (concat (map pp_enc ps))"
    "\<forall>p\<in>set ps. int (length p) \<le> dec_output_mtu (dec w0)"
  shows "d_errors w = 0 \<and> dec_output_mtu (dec w) = dec_output_mtu (dec w0)"
  using assms
proof (induction rule: ppd_reach.induct)
  case ppd_start
  then show ?case by simp
next
  case (ppd_next w w')
  note h = ppd_step_history [OF ppd_next.hyps(2)]
  have IH: "d_errors w = 0 \<and> dec_output_mtu (dec w) = dec_output_mtu (dec w0)"
    using ppd_next.IH ppd_next.prems h prefix_order.trans by (metis le_zero_eq)
  have inv: "ppd_inv w" using ppd_reach_inv ppd_next.hyps(1) ppd_next.prems(1) .
  show ?case
    using ppd_step_no_error [OF ppd_next.hyps(2) inv] ppd_step_mtu [OF ppd_next.hyps(2)] IH ppd_next.prems
    by simp
qed

section \<open>Properties\<close>

text \<open>The encoder frames a packet: given the address of a large enough buffer, it asks its producer
  to write the payload two bytes further on, and when that is done, the buffer holds the
  little-endian length followed by the payload, and the length reported is that of the frame; parsing
  the frame gives back the payload.\<close>

theorem encoder_frames:
  assumes "int (length p) \<le> PACKETPROTO_MAXPAYLOAD" "d + 2 + length p \<le> length mem"
  shows "\<exists>mem'. encode_packet mem d p = Some (mem', int (length (pp_enc p))) \<and>
     sub_bytes d (length (pp_enc p)) mem' = pp_enc p \<and> length mem' = length mem \<and>
     pp_dec (sub_bytes d (length (pp_enc p)) mem' @ rest) = Some (p, rest)"
proof -
  let ?h = "packetproto_header (int (length p))"
  let ?mem = "memcpy_at (memcpy_at mem (d + 2) p) d ?h"
  have l1: "length (memcpy_at mem (d + 2) p) = length mem"
    using assms(2) by (intro length_memcpy_at) simp
  have l2: "length ?mem = length mem" using assms(2) l1 by (simp add: length_memcpy_at)
  have e: "encode_packet mem d p = Some (?mem, int (length (pp_enc p)))"
    by (simp add: encode_packet_def PacketProtoEncoder_output_handler_recv_def pp_enc_def
        PacketProtoEncoder_input_handler_done_def PACKETPROTO_ENCLEN_def)
  have "sub_bytes d 2 ?mem = ?h"
    using assms(2) l1 by (intro sub_bytes_memcpy_same) simp_all
  moreover have "sub_bytes (d + 2) (length p) ?mem = p"
    using assms(2) l1 sub_bytes_memcpy_same [of "d + 2" p mem "length p"]
    by (subst sub_bytes_memcpy_after) simp_all
  ultimately have "sub_bytes d (2 + length p) ?mem = pp_enc p"
    by (simp only: pp_enc_def sub_bytes_add)
  then have s: "sub_bytes d (length (pp_enc p)) ?mem = pp_enc p" by (simp add: pp_enc_def)
  then show ?thesis using e l2 pp_dec_enc [of p rest] assms(1) by (auto simp: pp_ok_def)
qed

theorem encoder_frames_witness:
  "\<exists>mem'. encode_packet (replicate 10 0) 1 [7, 8, 9] = Some (mem', 5) \<and>
     sub_bytes 1 5 mem' = [3, 0, 7, 8, 9]"
proof -
  have enc: "pp_enc [7, 8, 9] = [3, 0, 7, 8, 9]"
    by (simp add: pp_enc_def packetproto_header_def store16_def)
  have len: "length (pp_enc [7, 8, 9]) = 5" by (simp add: enc)
  show ?thesis using encoder_frames [of "[7, 8, 9]" 1 "replicate 10 0" "[]", unfolded len] enc by auto
qed

text \<open>C11. The decoder is correct for every division of the stream into chunks: if the bytes received
  so far are a prefix of the frames of packets \<open>ps\<close>, each within the MTU, then no error has been
  reported, the packets passed on are a prefix of \<open>ps\<close>, and whenever the whole stream has arrived
  and the decoder waits for more, it has passed on exactly \<open>ps\<close>.\<close>

theorem decoder_correct:
  assumes "PacketProtoDecoder_Init malloc mtu = Some r" "0 \<le> mtu"
    and "\<forall>n mem. malloc n = Some mem \<longrightarrow> length mem = nat n"
    and "ppd_reach (ppd_world_init r) w" "d_resets w = 0"
    and "\<forall>p\<in>set ps. int (length p) \<le> min mtu PACKETPROTO_MAXPAYLOAD"
    and "prefix (d_fed w) (concat (map pp_enc ps))"
  shows "d_errors w = 0 \<and> prefix (d_out w) ps \<and>
     (d_fed w = concat (map pp_enc ps) \<and> d_recv w \<noteq> None \<longrightarrow> d_out w = ps)"
proof -
  note init = ppd_init_inv [OF assms(1-3)]
  have z: "d_errors (ppd_world_init r) = 0"
    using assms(1) by (auto simp: PacketProtoDecoder_Init_def Let_def ppd_world_init_def ppd_run_def split: option.splits)
  have inv: "ppd_inv w" using ppd_reach_inv [OF assms(4) init(1)] .
  have e: "d_errors w = 0" and m: "dec_output_mtu (dec w) = min mtu PACKETPROTO_MAXPAYLOAD"
    using ppd_reach_no_error [OF assms(4) init(1) z assms(5,7)] assms(6) init(2) by simp_all
  let ?qs = "d_out w @ d_sending w" and ?rest = "d_pending (dec w)"
  have fed: "d_fed w = concat (map pp_enc ?qs) @ ?rest"
    and small: "\<forall>p\<in>set ?qs. int (length p) \<le> dec_output_mtu (dec w)"
    using inv e assms(5) by (simp_all add: ppd_inv_def Let_def)
  have ok: "list_all pp_ok ?qs" "list_all pp_ok ps"
    using small m assms(6) by (fastforce simp: list_all_iff pp_ok_def)+
  obtain tail_bs where tl: "d_fed w @ tail_bs = concat (map pp_enc ps)"
    using assms(7) by (auto simp: prefix_def)
  then obtain ps' where ps': "ps = ?qs @ ps'" "?rest @ tail_bs = concat (map pp_enc ps')"
    using framed_prefix [OF ok, of ?rest tail_bs] fed by auto
  have "d_out w = ps" if all: "d_fed w = concat (map pp_enc ps)" and wait: "d_recv w \<noteq> None"
  proof -
    have st: "d_sending w = []" "pp_dec ?rest = None"
      using inv wait by (auto simp: ppd_inv_def Let_def d_sending_def)
    have rest: "?rest = concat (map pp_enc ps')" using tl all ps'(2) by simp
    show ?thesis
    proof (cases ps')
      case Nil
      then show ?thesis using ps'(1) st(1) by simp
    next
      case (Cons p ps1)
      then have "pp_dec ?rest = Some (p, concat (map pp_enc ps1))"
        using pp_dec_enc [of p "concat (map pp_enc ps1)"] ok(2) ps'(1) rest by simp
      then show ?thesis using st(2) by simp
    qed
  qed
  then show ?thesis using e ps'(1) by auto
qed

text \<open>A run for the witnesses: a decoder with MTU 4 gets the frame of \<open>[5]\<close> in two chunks.\<close>

definition demo_malloc :: "int \<Rightarrow> byte list option" where
  "demo_malloc n = Some (replicate (nat n) 0)"

definition demo_dec0 :: ppd_world where
  "demo_dec0 = ppd_world_init (the (PacketProtoDecoder_Init demo_malloc 4))"

definition demo_dec1 :: ppd_world where "demo_dec1 = ppd_input 0 [1] demo_dec0"
definition demo_dec2 :: ppd_world where "demo_dec2 = ppd_input 1 [0, 5] demo_dec1"
definition demo_dec3 :: ppd_world where "demo_dec3 = ppd_output 2 1 demo_dec2"

lemma demo_dec_facts:
  "PacketProtoDecoder_Init demo_malloc 4 = Some (the (PacketProtoDecoder_Init demo_malloc 4))"
  "d_recv demo_dec0 = Some (0, 6)" "d_recv demo_dec1 = Some (1, 5)" "d_send demo_dec2 = Some (2, 1)"
  "d_recv demo_dec3 = Some (3, 3)" "d_resets demo_dec3 = 0" "d_fed demo_dec3 = [1, 0, 5]"
  by code_simp+

lemma demo_dec_reach: "ppd_reach demo_dec0 demo_dec3"
proof -
  have "ppd_reach demo_dec0 demo_dec1" unfolding demo_dec1_def
    by (rule ppd_next [OF ppd_start ppd_in [OF demo_dec_facts(2)]]) simp_all
  then have "ppd_reach demo_dec0 demo_dec2" unfolding demo_dec2_def
    by (rule ppd_next [OF _ ppd_in [OF demo_dec_facts(3)]]) simp_all
  then show ?thesis unfolding demo_dec3_def
    by (rule ppd_next [OF _ ppd_out [OF demo_dec_facts(4)]])
qed

lemma demo_malloc_ok: "\<forall>n mem. demo_malloc n = Some mem \<longrightarrow> length mem = nat n"
  by (auto simp: demo_malloc_def)

theorem decoder_correct_witness: "d_errors demo_dec3 = 0 \<and> d_out demo_dec3 = [[5]]"
proof -
  have enc: "concat (map pp_enc [[5]]) = [1, 0, 5]"
    by (simp add: pp_enc_def packetproto_header_def store16_def)
  show ?thesis
    using decoder_correct [OF demo_dec_facts(1) _ demo_malloc_ok demo_dec_reach [unfolded demo_dec0_def]
        demo_dec_facts(6), of "[[5]]"]
    unfolding enc by (simp add: demo_dec_facts)
qed

text \<open>C21. Whatever bytes arrive, in whatever chunks, and however often the decoder is reset, it stays
  inside its buffer: a receive it issues is for at least one byte and ends inside the buffer, a packet
  it passes on lies inside the buffer and is no longer than the MTU, and it never issues a request
  while another one is outstanding on the same interface.\<close>

theorem decoder_memory_safe:
  assumes "PacketProtoDecoder_Init malloc mtu = Some r" "0 \<le> mtu"
    and "\<forall>n mem. malloc n = Some mem \<longrightarrow> length mem = nat n"
    and "ppd_reach (ppd_world_init r) w"
  shows "\<not> d_violated w \<and> (d_recv w = None) \<noteq> (d_send w = None) \<and>
     (case d_recv w of None \<Rightarrow> True
      | Some (d, n) \<Rightarrow> 0 \<le> d \<and> 0 < n \<and> d + n = int (length (dec_buf (dec w)))) \<and>
     (case d_send w of None \<Rightarrow> True
      | Some (d, n) \<Rightarrow> 0 \<le> d \<and> 0 \<le> n \<and> d + n \<le> int (length (dec_buf (dec w))) \<and>
          n \<le> dec_output_mtu (dec w))"
proof -
  have inv: "ppd_inv w" using ppd_reach_inv [OF assms(4) ppd_init_inv(1) [OF assms(1-3)]] .
  then have ok: "dec_ok (dec w)" by (simp add: ppd_inv_def Let_def)
  then have "0 \<le> dec_buf_size (dec w)" by (simp add: dec_ok_def PACKETPROTO_ENCLEN_def)
  then have "int (length (dec_buf (dec w))) = dec_buf_size (dec w)" using ok by (simp add: dec_ok_def)
  then show ?thesis using inv ok unfolding ppd_inv_def Let_def by (auto simp: dec_ok_def)
qed

theorem decoder_memory_safe_witness: "\<not> d_violated demo_dec3 \<and> (d_recv demo_dec3 = None) \<noteq> (d_send demo_dec3 = None)"
  using decoder_memory_safe [OF demo_dec_facts(1) _ demo_malloc_ok demo_dec_reach [unfolded demo_dec0_def]]
  by simp



end
