(* ===== verification/FlowAdapters.thy ===== *)
theory FlowAdapters
  imports FlowInterface
begin

text \<open>
  The small components of \<open>flow/\<close> and \<open>flowextra/\<close> that tun2socks puts between buffers and
  sockets: \<open>PacketStreamSender\<close> (packets into a stream), \<open>PacketPassConnector\<close> (an output that
  comes and goes), \<open>SinglePacketBuffer\<close>, \<open>BufferWriter\<close> and
  \<open>PacketPassInactivityMonitor\<close>. Handlers return the calls they make; each component is placed
  between its interfaces and its invariant proved over all interleavings of completions.
\<close>

section \<open>PacketStreamSender\<close>

text \<open>The pointer \<open>in\<close> is modelled by the bytes it points to: the sender of a packet leaves it
  alone until it is told that the packet is done.\<close>

record PacketStreamSender =
  pss_in_len :: int
  pss_in :: "byte list"
  pss_in_used :: int

datatype pss_call = PSS_Send int int | PSS_Done

definition PacketStreamSender_Init :: PacketStreamSender where
  "PacketStreamSender_Init = \<lparr>pss_in_len = -1, pss_in = [], pss_in_used = 0\<rparr>"

definition send_data :: "PacketStreamSender \<Rightarrow> PacketStreamSender \<times> pss_call list" where
  "send_data s =
     (if pss_in_used s < pss_in_len s
      then (s, [PSS_Send (pss_in_used s) (pss_in_len s - pss_in_used s)])
      else (s\<lparr>pss_in_len := -1\<rparr>, [PSS_Done]))"

definition PacketStreamSender_input_handler_send ::
  "byte list \<Rightarrow> int \<Rightarrow> PacketStreamSender \<Rightarrow> PacketStreamSender \<times> pss_call list" where
  "PacketStreamSender_input_handler_send data data_len s =
     send_data (s\<lparr>pss_in_len := data_len, pss_in := data, pss_in_used := 0\<rparr>)"

definition PacketStreamSender_output_handler_done ::
  "int \<Rightarrow> PacketStreamSender \<Rightarrow> PacketStreamSender \<times> pss_call list" where
  "PacketStreamSender_output_handler_done data_len s =
     send_data (s\<lparr>pss_in_used := pss_in_used s + data_len\<rparr>)"

record pss_world =
  pss :: PacketStreamSender
  pss_req :: "(int \<times> int) option"
  pss_busy :: bool
  pss_violated :: bool
  pss_stream :: "byte list"
  pss_completed :: "byte list list"

fun pss_apply :: "pss_call \<Rightarrow> pss_world \<Rightarrow> pss_world" where
  "pss_apply (PSS_Send off n) w =
     w\<lparr>pss_req := Some (off, n), pss_violated := (pss_violated w \<or> pss_req w \<noteq> None \<or> n \<le> 0)\<rparr>"
| "pss_apply PSS_Done w =
     w\<lparr>pss_busy := False, pss_violated := (pss_violated w \<or> \<not> pss_busy w),
       pss_completed := pss_completed w @ [pss_in (pss w)]\<rparr>"

definition pss_run :: "PacketStreamSender \<times> pss_call list \<Rightarrow> pss_world \<Rightarrow> pss_world" where
  "pss_run r w = fold pss_apply (snd r) (w\<lparr>pss := fst r\<rparr>)"

definition pss_world_init :: pss_world where
  "pss_world_init = \<lparr>pss = PacketStreamSender_Init, pss_req = None, pss_busy = False,
     pss_violated = False, pss_stream = [], pss_completed = []\<rparr>"

inductive pss_step :: "pss_world \<Rightarrow> pss_world \<Rightarrow> bool" where
  pss_submit: "\<not> pss_busy w \<Longrightarrow>
     pss_step w (pss_run (PacketStreamSender_input_handler_send p (int (length p)) (pss w))
                  (w\<lparr>pss_busy := True\<rparr>))"
| pss_answer: "pss_req w = Some (off, len) \<Longrightarrow> 0 < n \<Longrightarrow> n \<le> len \<Longrightarrow>
     pss_step w (pss_run (PacketStreamSender_output_handler_done n (pss w))
       (w\<lparr>pss_req := None,
          pss_stream := pss_stream w @ sub_bytes (nat off) (nat n) (pss_in (pss w))\<rparr>))"

inductive pss_reach :: "pss_world \<Rightarrow> bool" where
  pss_reach_init: "pss_reach pss_world_init"
| pss_reach_step: "pss_reach w \<Longrightarrow> pss_step w w' \<Longrightarrow> pss_reach w'"

definition pss_inv :: "pss_world \<Rightarrow> bool" where
  "pss_inv w \<longleftrightarrow>
     (let s = pss w in
      \<not> pss_violated w \<and>
      (if pss_busy w
       then pss_in_len s = int (length (pss_in s)) \<and> 0 \<le> pss_in_used s \<and> pss_in_used s < pss_in_len s \<and>
            pss_req w = Some (pss_in_used s, pss_in_len s - pss_in_used s) \<and>
            pss_stream w = concat (pss_completed w) @ take (nat (pss_in_used s)) (pss_in s)
       else pss_in_len s = -1 \<and> pss_req w = None \<and> pss_stream w = concat (pss_completed w)))"

lemma send_data_inv:
  assumes "\<not> pss_violated w" "pss_busy w" "pss_req w = None"
    "pss_in_len (pss w) = int (length (pss_in (pss w)))" "0 \<le> pss_in_used (pss w)"
    "pss_in_used (pss w) \<le> pss_in_len (pss w)"
    "pss_stream w = concat (pss_completed w) @ take (nat (pss_in_used (pss w))) (pss_in (pss w))"
  shows "pss_inv (pss_run (send_data (pss w)) w)"
  using assms by (auto simp: pss_inv_def pss_run_def send_data_def Let_def)

lemma pss_step_inv: "pss_step w w' \<Longrightarrow> pss_inv w \<Longrightarrow> pss_inv w'"
proof (induction rule: pss_step.induct)
  case (pss_submit w p)
  let ?w = "w\<lparr>pss_busy := True, pss := (pss w)\<lparr>pss_in_len := int (length p), pss_in := p, pss_in_used := 0\<rparr>\<rparr>"
  have "pss_inv (pss_run (send_data (pss ?w)) ?w)"
    using pss_submit by (intro send_data_inv) (simp_all add: pss_inv_def Let_def)
  then show ?case by (simp add: PacketStreamSender_input_handler_send_def pss_run_def)
next
  case (pss_answer w off len n)
  let ?s = "pss w"
  let ?w = "w\<lparr>pss_req := None, pss_stream := pss_stream w @ sub_bytes (nat off) (nat n) (pss_in ?s),
      pss := ?s\<lparr>pss_in_used := pss_in_used ?s + n\<rparr>\<rparr>"
  have b: "pss_busy w" "off = pss_in_used ?s" "len = pss_in_len ?s - pss_in_used ?s"
    using pss_answer by (auto simp: pss_inv_def Let_def split: if_splits)
  have "nat (pss_in_used ?s + n) = nat (pss_in_used ?s) + nat n"
    using pss_answer b(1) by (simp add: pss_inv_def Let_def nat_add_distrib)
  then have "take (nat (pss_in_used ?s)) (pss_in ?s) @ sub_bytes (nat off) (nat n) (pss_in ?s) =
      take (nat (pss_in_used ?s + n)) (pss_in ?s)"
    by (simp add: sub_bytes_def b(2) take_add)
  then have "pss_inv (pss_run (send_data (pss ?w)) ?w)"
    using pss_answer b by (intro send_data_inv) (simp_all add: pss_inv_def Let_def)
  then show ?case by (simp add: PacketStreamSender_output_handler_done_def pss_run_def)
qed

lemma pss_reach_inv: "pss_reach w \<Longrightarrow> pss_inv w"
proof (induction rule: pss_reach.induct)
  case pss_reach_init
  then show ?case by (simp add: pss_inv_def pss_world_init_def PacketStreamSender_Init_def)
qed (auto intro: pss_step_inv)

section \<open>PacketPassConnector\<close>

text \<open>\<open>'o\<close> identifies the outputs that are connected one after the other.\<close>

record ('o, 'd) PacketPassConnector =
  ppc_in_len :: int
  ppc_in :: 'd
  ppc_output :: "'o option"

datatype ('o, 'd) ppc_call = PPC_Send 'o 'd int | PPC_Done

definition PacketPassConnector_Init :: "'d \<Rightarrow> ('o, 'd) PacketPassConnector" where
  "PacketPassConnector_Init junk = \<lparr>ppc_in_len = -1, ppc_in = junk, ppc_output = None\<rparr>"

definition PacketPassConnector_input_handler_send ::
  "'d \<Rightarrow> int \<Rightarrow> ('o, 'd) PacketPassConnector \<Rightarrow> ('o, 'd) PacketPassConnector \<times> ('o, 'd) ppc_call list" where
  "PacketPassConnector_input_handler_send data len o1 =
     (let o1 = o1\<lparr>ppc_in_len := len, ppc_in := data\<rparr>
      in (o1, case ppc_output o1 of None \<Rightarrow> [] | Some out \<Rightarrow> [PPC_Send out (ppc_in o1) (ppc_in_len o1)]))"

definition PacketPassConnector_output_handler_done ::
  "('o, 'd) PacketPassConnector \<Rightarrow> ('o, 'd) PacketPassConnector \<times> ('o, 'd) ppc_call list" where
  "PacketPassConnector_output_handler_done o1 = (o1\<lparr>ppc_in_len := -1\<rparr>, [PPC_Done])"

definition PacketPassConnector_ConnectOutput ::
  "'o \<Rightarrow> ('o, 'd) PacketPassConnector \<Rightarrow> ('o, 'd) PacketPassConnector \<times> ('o, 'd) ppc_call list" where
  "PacketPassConnector_ConnectOutput out o1 =
     (let o1 = o1\<lparr>ppc_output := Some out\<rparr>
      in (o1, if ppc_in_len o1 \<ge> 0 then [PPC_Send out (ppc_in o1) (ppc_in_len o1)] else []))"

definition PacketPassConnector_DisconnectOutput ::
  "('o, 'd) PacketPassConnector \<Rightarrow> ('o, 'd) PacketPassConnector" where
  "PacketPassConnector_DisconnectOutput o1 = o1\<lparr>ppc_output := None\<rparr>"

text \<open>The connector in its surroundings. \<open>ppc_sending\<close> is the send outstanding on the connected
  output; disconnecting forgets it (the output is freed or reset by its owner).\<close>

record ('o, 'd) ppc_world =
  ppc :: "('o, 'd) PacketPassConnector"
  ppc_given :: "('d \<times> int) option"
  ppc_sending :: "('o \<times> 'd \<times> int) option"
  ppc_violated :: bool

fun ppc_apply :: "('o, 'd) ppc_call \<Rightarrow> ('o, 'd) ppc_world \<Rightarrow> ('o, 'd) ppc_world" where
  "ppc_apply (PPC_Send out d n) w =
     w\<lparr>ppc_sending := Some (out, d, n), ppc_violated := (ppc_violated w \<or> ppc_sending w \<noteq> None)\<rparr>"
| "ppc_apply PPC_Done w =
     w\<lparr>ppc_given := None, ppc_violated := (ppc_violated w \<or> ppc_given w = None)\<rparr>"

definition ppc_run ::
  "('o, 'd) PacketPassConnector \<times> ('o, 'd) ppc_call list \<Rightarrow> ('o, 'd) ppc_world \<Rightarrow> ('o, 'd) ppc_world" where
  "ppc_run r w = fold ppc_apply (snd r) (w\<lparr>ppc := fst r\<rparr>)"

inductive ppc_step :: "('o, 'd) ppc_world \<Rightarrow> ('o, 'd) ppc_world \<Rightarrow> bool" where
  ppc_submit: "ppc_given w = None \<Longrightarrow> 0 \<le> n \<Longrightarrow>
     ppc_step w (ppc_run (PacketPassConnector_input_handler_send d n (ppc w)) (w\<lparr>ppc_given := Some (d, n)\<rparr>))"
| ppc_sent: "ppc_sending w = Some (out, d, n) \<Longrightarrow>
     ppc_step w (ppc_run (PacketPassConnector_output_handler_done (ppc w)) (w\<lparr>ppc_sending := None\<rparr>))"
| ppc_connect: "ppc_output (ppc w) = None \<Longrightarrow>
     ppc_step w (ppc_run (PacketPassConnector_ConnectOutput out (ppc w)) w)"
| ppc_disconnect: "ppc_output (ppc w) \<noteq> None \<Longrightarrow>
     ppc_step w (w\<lparr>ppc := PacketPassConnector_DisconnectOutput (ppc w), ppc_sending := None\<rparr>)"

inductive ppc_reach :: "('o, 'd) ppc_world \<Rightarrow> bool" where
  ppc_reach_init: "ppc_reach \<lparr>ppc = PacketPassConnector_Init junk, ppc_given = None, ppc_sending = None,
     ppc_violated = False\<rparr>"
| ppc_reach_step: "ppc_reach w \<Longrightarrow> ppc_step w w' \<Longrightarrow> ppc_reach w'"

definition ppc_inv :: "('o, 'd) ppc_world \<Rightarrow> bool" where
  "ppc_inv w \<longleftrightarrow>
     \<not> ppc_violated w \<and>
     (case ppc_given w of
        None \<Rightarrow> ppc_in_len (ppc w) = -1 \<and> ppc_sending w = None
      | Some (d, n) \<Rightarrow> 0 \<le> n \<and> ppc_in_len (ppc w) = n \<and> ppc_in (ppc w) = d \<and>
          ppc_sending w = map_option (\<lambda>out. (out, d, n)) (ppc_output (ppc w)))"

lemma ppc_step_inv: "ppc_step w w' \<Longrightarrow> ppc_inv w \<Longrightarrow> ppc_inv w'"
  by (induction rule: ppc_step.induct)
    (auto simp: ppc_inv_def ppc_run_def PacketPassConnector_input_handler_send_def
      PacketPassConnector_output_handler_done_def PacketPassConnector_ConnectOutput_def
      PacketPassConnector_DisconnectOutput_def Let_def split: option.splits)

lemma ppc_reach_inv: "ppc_reach w \<Longrightarrow> ppc_inv w"
proof (induction rule: ppc_reach.induct)
  case (ppc_reach_init junk)
  then show ?case by (simp add: ppc_inv_def PacketPassConnector_Init_def)
qed (auto intro: ppc_step_inv)

section \<open>SinglePacketBuffer\<close>

datatype spb_call = SPB_Recv | SPB_Send int

text \<open>The only buffer is passed to both interfaces; the calls name the length only.\<close>

definition SinglePacketBuffer_Init :: "bool \<Rightarrow> spb_call list option" where
  "SinglePacketBuffer_Init allocated = (if allocated then Some [SPB_Recv] else None)"

definition SinglePacketBuffer_input_handler_done :: "int \<Rightarrow> spb_call list" where
  "SinglePacketBuffer_input_handler_done in_len = [SPB_Send in_len]"

definition SinglePacketBuffer_output_handler_done :: "spb_call list" where
  "SinglePacketBuffer_output_handler_done = [SPB_Recv]"

text \<open>A run: the packets offered one after the other, each written to the buffer when a receive is
  outstanding and read from it when the send it caused finishes.\<close>

fun spb_relay :: "byte list \<Rightarrow> spb_call list \<Rightarrow> byte list list \<Rightarrow> byte list list option" where
  "spb_relay buf [SPB_Recv] [] = Some []"
| "spb_relay buf [SPB_Recv] (p # ps) =
     (let buf = memcpy_at buf 0 p in
      case SinglePacketBuffer_input_handler_done (int (length p)) of
        [SPB_Send n] \<Rightarrow>
          map_option (Cons (sub_bytes 0 (nat n) buf))
            (spb_relay buf SinglePacketBuffer_output_handler_done ps)
      | _ \<Rightarrow> None)"
| "spb_relay _ _ _ = None"

lemma spb_relay_all:
  assumes "\<forall>p\<in>set ps. length p \<le> length buf"
  shows "spb_relay buf [SPB_Recv] ps = Some ps"
  using assms
proof (induction ps arbitrary: buf)
  case (Cons p ps)
  then have "length (memcpy_at buf 0 p) = length buf" "sub_bytes 0 (length p) (memcpy_at buf 0 p) = p"
    by (simp_all add: length_memcpy_at sub_bytes_memcpy_same)
  with Cons show ?case
    by (simp add: SinglePacketBuffer_input_handler_done_def SinglePacketBuffer_output_handler_done_def Let_def)
qed simp

section \<open>BufferWriter\<close>

record 'd BufferWriter =
  out_have :: bool
  bw_out :: 'd

definition BufferWriter_Init :: "'d \<Rightarrow> 'd BufferWriter" where
  "BufferWriter_Init junk = \<lparr>out_have = False, bw_out = junk\<rparr>"

definition BufferWriter_output_handler_recv :: "'d \<Rightarrow> 'd BufferWriter \<Rightarrow> 'd BufferWriter" where
  "BufferWriter_output_handler_recv data o1 = o1\<lparr>out_have := True, bw_out := data\<rparr>"

definition BufferWriter_StartPacket :: "'d BufferWriter \<Rightarrow> 'd option" where
  "BufferWriter_StartPacket o1 = (if \<not> out_have o1 then None else Some (bw_out o1))"

text \<open>\<open>BufferWriter_EndPacket\<close> finishes the receive with the length given.\<close>

definition BufferWriter_EndPacket :: "int \<Rightarrow> 'd BufferWriter \<Rightarrow> 'd BufferWriter \<times> int" where
  "BufferWriter_EndPacket len o1 = (o1\<lparr>out_have := False\<rparr>, len)"

section \<open>PacketPassInactivityMonitor\<close>

record PacketPassInactivityMonitor =
  im_timer :: bool
  im_has_handler :: bool

datatype im_call = IM_Send "byte list" int | IM_RequestCancel | IM_Done | IM_Handler | IM_SetTimerAfter int

definition PacketPassInactivityMonitor_Init :: "bool \<Rightarrow> PacketPassInactivityMonitor" where
  "PacketPassInactivityMonitor_Init handler = \<lparr>im_timer = True, im_has_handler = handler\<rparr>"

definition InactivityMonitor_input_handler_send ::
  "byte list \<Rightarrow> int \<Rightarrow> PacketPassInactivityMonitor \<Rightarrow> PacketPassInactivityMonitor \<times> im_call list" where
  "InactivityMonitor_input_handler_send data len o1 = (o1\<lparr>im_timer := False\<rparr>, [IM_Send data len])"

definition InactivityMonitor_input_handler_requestcancel ::
  "PacketPassInactivityMonitor \<Rightarrow> PacketPassInactivityMonitor \<times> im_call list" where
  "InactivityMonitor_input_handler_requestcancel o1 = (o1, [IM_RequestCancel])"

definition InactivityMonitor_output_handler_done ::
  "PacketPassInactivityMonitor \<Rightarrow> PacketPassInactivityMonitor \<times> im_call list" where
  "InactivityMonitor_output_handler_done o1 = (o1\<lparr>im_timer := True\<rparr>, [IM_Done])"

definition InactivityMonitor_timer_handler ::
  "PacketPassInactivityMonitor \<Rightarrow> PacketPassInactivityMonitor \<times> im_call list" where
  "InactivityMonitor_timer_handler o1 =
     (o1\<lparr>im_timer := True\<rparr>, if im_has_handler o1 then [IM_Handler] else [])"

definition PacketPassInactivityMonitor_SetHandler ::
  "bool \<Rightarrow> PacketPassInactivityMonitor \<Rightarrow> PacketPassInactivityMonitor" where
  "PacketPassInactivityMonitor_SetHandler h o1 = o1\<lparr>im_has_handler := h\<rparr>"

definition PacketPassInactivityMonitor_Force ::
  "PacketPassInactivityMonitor \<Rightarrow> PacketPassInactivityMonitor \<times> im_call list" where
  "PacketPassInactivityMonitor_Force o1 = (o1\<lparr>im_timer := True\<rparr>, [IM_SetTimerAfter 0])"

text \<open>Histories of the monitor without a forced expiry, with the output's busy state.\<close>

inductive im_reach :: "PacketPassInactivityMonitor \<Rightarrow> bool \<Rightarrow> bool" where
  im_init: "im_reach (PacketPassInactivityMonitor_Init h) False"
| im_send: "im_reach m False \<Longrightarrow> im_reach (fst (InactivityMonitor_input_handler_send d n m)) True"
| im_cancel: "im_reach m True \<Longrightarrow> im_reach (fst (InactivityMonitor_input_handler_requestcancel m)) True"
| im_done: "im_reach m True \<Longrightarrow> im_reach (fst (InactivityMonitor_output_handler_done m)) False"
| im_timer: "im_reach m b \<Longrightarrow> im_timer m \<Longrightarrow>
    im_reach (fst (InactivityMonitor_timer_handler (m\<lparr>im_timer := False\<rparr>))) b"
| im_set: "im_reach m b \<Longrightarrow> im_reach (PacketPassInactivityMonitor_SetHandler h m) b"

lemma im_timer_iff: "im_reach m busy \<Longrightarrow> im_timer m \<longleftrightarrow> \<not> busy"
  by (induction rule: im_reach.induct)
    (simp_all add: PacketPassInactivityMonitor_Init_def InactivityMonitor_input_handler_send_def
      InactivityMonitor_input_handler_requestcancel_def InactivityMonitor_output_handler_done_def
      InactivityMonitor_timer_handler_def PacketPassInactivityMonitor_SetHandler_def)

section \<open>Properties\<close>

text \<open>C29. A packet stream sender writes packets into the stream whole and in order, however the stream
  divides them: the bytes accepted by the stream are the completed packets followed by the part of
  the current packet that has been sent; it asks only for a positive number of bytes, never while
  a request is outstanding, and reports a packet as done exactly when its last byte was accepted.\<close>

theorem packet_stream_sender_correct:
  assumes "pss_reach w"
  shows "\<not> pss_violated w \<and>
     pss_stream w = concat (pss_completed w) @
       (if pss_busy w then take (nat (pss_in_used (pss w))) (pss_in (pss w)) else []) \<and>
     (if pss_busy w then pss_req w = Some (pss_in_used (pss w), int (length (pss_in (pss w))) - pss_in_used (pss w))
        \<and> pss_in_used (pss w) < int (length (pss_in (pss w)))
      else pss_req w = None)"
  using pss_reach_inv [OF assms] by (auto simp: pss_inv_def Let_def split: if_splits)

theorem packet_stream_sender_correct_witness:
  "let w = pss_run (PacketStreamSender_input_handler_send [1, 2, 3] 3 PacketStreamSender_Init)
             (pss_world_init\<lparr>pss_busy := True\<rparr>);
       w' = pss_run (PacketStreamSender_output_handler_done 2 (pss w))
             (w\<lparr>pss_req := None, pss_stream := [1, 2]\<rparr>) in
     pss_stream w' = [1, 2] \<and> pss_req w' = Some (2, 1) \<and> \<not> pss_violated w'"
proof -
  define w where "w = pss_run (PacketStreamSender_input_handler_send [1, 2, 3] 3 PacketStreamSender_Init)
    (pss_world_init\<lparr>pss_busy := True\<rparr>)"
  define w' where "w' = pss_run (PacketStreamSender_output_handler_done 2 (pss w))
    (w\<lparr>pss_req := None, pss_stream := [1, 2]\<rparr>)"
  have "pss_reach w"
    using pss_reach_step [OF pss_reach_init pss_submit [of pss_world_init "[1, 2, 3]"]]
    by (simp add: w_def pss_world_init_def)
  moreover have w: "pss_req w = Some (0, 3)" "pss_stream w = []" "pss_in (pss w) = [1, 2, 3]" "pss_in_used (pss w) = 0"
      "pss_busy w" "pss_in_len (pss w) = 3"
    by (simp_all add: w_def pss_run_def PacketStreamSender_input_handler_send_def send_data_def pss_world_init_def)
  ultimately have "pss_reach w'"
    using pss_reach_step [OF _ pss_answer [OF w(1), of 2]] by (simp add: w'_def sub_bytes_def)
  moreover have "pss_busy w'" "pss_in_used (pss w') = 2" "pss_in (pss w') = [1, 2, 3]" "pss_stream w' = [1, 2]"
    using w by (simp_all add: w'_def pss_run_def PacketStreamSender_output_handler_done_def send_data_def)
  ultimately show ?thesis
    using packet_stream_sender_correct [of w'] by (simp add: w_def w'_def Let_def)
qed

text \<open>A packet given to a connector is never lost: until the connector reports it done, it holds the
  packet unchanged, and it is being sent on whatever output is connected at the moment, also after
  the output was disconnected and another one connected; no output is used while busy.\<close>

theorem connector_keeps_packet:
  assumes "ppc_reach w"
  shows "\<not> ppc_violated w \<and>
     (case ppc_given w of
        None \<Rightarrow> ppc_sending w = None
      | Some (d, n) \<Rightarrow> ppc_sending w = map_option (\<lambda>out. (out, d, n)) (ppc_output (ppc w)))"
  using ppc_reach_inv [OF assms] by (auto simp: ppc_inv_def split: option.splits)

theorem connector_keeps_packet_witness:
  "let w0 = \<lparr>ppc = PacketPassConnector_Init 0, ppc_given = None, ppc_sending = None, ppc_violated = False\<rparr>;
       w1 = ppc_run (PacketPassConnector_input_handler_send (7::nat) 20 (ppc w0)) (w0\<lparr>ppc_given := Some (7, 20)\<rparr>);
       w2 = ppc_run (PacketPassConnector_ConnectOutput (1::nat) (ppc w1)) w1
   in \<not> ppc_violated w2 \<and> ppc_sending w2 = Some (1, 7, 20)"
proof -
  define w0 :: "(nat, nat) ppc_world" where
    "w0 = \<lparr>ppc = PacketPassConnector_Init 0, ppc_given = None, ppc_sending = None, ppc_violated = False\<rparr>"
  define w1 where "w1 = ppc_run (PacketPassConnector_input_handler_send (7::nat) 20 (ppc w0)) (w0\<lparr>ppc_given := Some (7, 20)\<rparr>)"
  define w2 where "w2 = ppc_run (PacketPassConnector_ConnectOutput (1::nat) (ppc w1)) w1"
  have "ppc_reach w0" unfolding w0_def by (rule ppc_reach_init)
  then have "ppc_reach w1" unfolding w1_def
    by (rule ppc_reach_step) (rule ppc_submit, simp_all add: w0_def)
  then have "ppc_reach w2" unfolding w2_def
    by (rule ppc_reach_step) (rule ppc_connect, simp add: w1_def w0_def ppc_run_def
        PacketPassConnector_input_handler_send_def PacketPassConnector_Init_def)
  moreover have "ppc_given w2 = Some (7, 20)" "ppc_output (ppc w2) = Some 1"
    by (simp_all add: w2_def w1_def w0_def ppc_run_def PacketPassConnector_input_handler_send_def
        PacketPassConnector_Init_def PacketPassConnector_ConnectOutput_def)
  ultimately show ?thesis
    using connector_keeps_packet [of w2] by (simp add: w0_def w1_def w2_def Let_def)
qed

end
