(* ===== verification/PacketProtoFlow.thy ===== *)
theory PacketProtoFlow
  imports PacketBuffer PacketProto FlowAdapters
begin

text \<open>
  \<open>flow/PacketProtoFlow.c\<close>: a \<open>BufferWriter\<close>, a \<open>PacketProtoEncoder\<close> and a
  \<open>PacketBuffer\<close> in a row, as the initialisation function plugs them together. A receive request
  travels from the buffer through the encoder to the writer, its completion travels back; each hop is
  a job of its own, and sends of the buffer may finish at any point in between. The theorem shows
  that what leaves the buffer is the framed form of the packets that were written, in order, and the
  composition with the decoder of theory \<open>PacketProto\<close> gives back the packets.
\<close>

section \<open>Composition\<close>

text \<open>Where the receive request of the buffer is.\<close>

datatype flow_stage =
  NoRequest
| ToEncoder int
| ToWriter nat
| AtWriter
| WriterDone int
| EncoderDone int

record flow_world =
  fl_pb :: pb_world
  fl_enc :: PacketProtoEncoder
  fl_bw :: "nat BufferWriter"
  fl_stage :: flow_stage
  fl_accepted :: "byte list list"

definition stage_of :: "int option \<Rightarrow> flow_stage" where
  "stage_of r = (case r of None \<Rightarrow> NoRequest | Some d \<Rightarrow> ToEncoder d)"

definition PacketProtoFlow_Init :: "(int \<Rightarrow> byte list option) \<Rightarrow> int \<Rightarrow> int \<Rightarrow> flow_world option" where
  "PacketProtoFlow_Init alloc input_mtu num_packets =
     (case PacketBuffer_Init alloc (PACKETPROTO_ENCLEN input_mtu) num_packets of
        None \<Rightarrow> None
      | Some r \<Rightarrow>
          let w = pb_world_init r in
          Some \<lparr>fl_pb = w, fl_enc = PacketProtoEncoder_Init, fl_bw = BufferWriter_Init 0,
                fl_stage = stage_of (pb_recv w), fl_accepted = []\<rparr>)"

definition fl_mem :: "flow_world \<Rightarrow> byte list" where
  "fl_mem w = buffer (pb_buf (pb (fl_pb w)))"

definition fl_set_mem :: "byte list \<Rightarrow> flow_world \<Rightarrow> flow_world" where
  "fl_set_mem mem w =
     w\<lparr>fl_pb := (fl_pb w)\<lparr>pb := (pb (fl_pb w))\<lparr>pb_buf := (pb_buf (pb (fl_pb w)))\<lparr>buffer := mem\<rparr>\<rparr>\<rparr>\<rparr>"

text \<open>The completion of the encoder reaches the buffer; the frame is already in memory.\<close>

definition fl_pb_done :: "int \<Rightarrow> flow_world \<Rightarrow> flow_world" where
  "fl_pb_done n w =
     (let (buf, calls) = PacketBuffer_input_handler_done (pb (fl_pb w)) n;
          d = (case pb_recv (fl_pb w) of None \<Rightarrow> 0 | Some d \<Rightarrow> d);
          p = fold pb_apply calls ((fl_pb w)\<lparr>pb := buf, pb_recv := None,
                pb_received := pb_received (fl_pb w) @ [sub_bytes (nat d) (nat n) (fl_mem w)]\<rparr>)
      in w\<lparr>fl_pb := p, fl_stage := stage_of (pb_recv p)\<rparr>)"

inductive fl_step :: "int \<Rightarrow> flow_world \<Rightarrow> flow_world \<Rightarrow> bool" for mtu where
  fl_to_encoder: "fl_stage w = ToEncoder d \<Longrightarrow>
     PacketProtoEncoder_output_handler_recv (nat d) (fl_enc w) = (enc, [PPE_Recv d2]) \<Longrightarrow>
     fl_step mtu w (w\<lparr>fl_enc := enc, fl_stage := ToWriter d2\<rparr>)"
| fl_to_writer: "fl_stage w = ToWriter d2 \<Longrightarrow>
     fl_step mtu w (w\<lparr>fl_bw := BufferWriter_output_handler_recv d2 (fl_bw w), fl_stage := AtWriter\<rparr>)"
| fl_write: "BufferWriter_StartPacket (fl_bw w) = Some d2 \<Longrightarrow> int (length p) \<le> mtu \<Longrightarrow>
     BufferWriter_EndPacket (int (length p)) (fl_bw w) = (bw, n) \<Longrightarrow>
     fl_step mtu w ((fl_set_mem (memcpy_at (fl_mem w) d2 p) w)
       \<lparr>fl_bw := bw, fl_stage := WriterDone n, fl_accepted := fl_accepted w @ [p]\<rparr>)"
| fl_encoder_done: "fl_stage w = WriterDone n \<Longrightarrow>
     PacketProtoEncoder_input_handler_done n (fl_mem w) (fl_enc w) = Some (mem, enc, [PPE_Done n']) \<Longrightarrow>
     fl_step mtu w ((fl_set_mem mem w)\<lparr>fl_enc := enc, fl_stage := EncoderDone n'\<rparr>)"
| fl_buffer_done: "fl_stage w = EncoderDone n \<Longrightarrow> fl_step mtu w (fl_pb_done n w)"
| fl_sent: "pb_send (fl_pb w) = Some (d, len) \<Longrightarrow> p = pb_output d len (fl_pb w) \<Longrightarrow>
     fl_step mtu w (w\<lparr>fl_pb := p,
       fl_stage := (if pb_recv (fl_pb w) = None then stage_of (pb_recv p) else fl_stage w)\<rparr>)"

inductive fl_reach :: "int \<Rightarrow> flow_world \<Rightarrow> flow_world \<Rightarrow> bool" for mtu w0 where
  fl_start: "fl_reach mtu w0 w0"
| fl_next: "fl_reach mtu w0 w \<Longrightarrow> fl_step mtu w w' \<Longrightarrow> fl_reach mtu w0 w'"

section \<open>Invariant\<close>

text \<open>What each stage means for the pointers and the memory; \<open>acc\<close> are the packets accepted.\<close>

fun stage_ok :: "flow_world \<Rightarrow> bool" where
  "stage_ok w \<longleftrightarrow>
     (let d = pb_recv (fl_pb w); fs = pb_received (fl_pb w); acc = fl_accepted w; enc = fl_enc w;
          bw = fl_bw w in
      case fl_stage w of
        NoRequest \<Rightarrow> d = None \<and> fs = map pp_enc acc \<and> \<not> out_have bw
      | ToEncoder d1 \<Rightarrow> d = Some d1 \<and> fs = map pp_enc acc \<and> \<not> out_have bw
      | ToWriter d2 \<Rightarrow> (\<exists>d1. d = Some d1 \<and> output_packet enc = Some (nat d1) \<and> d2 = nat d1 + 2) \<and>
          fs = map pp_enc acc \<and> \<not> out_have bw
      | AtWriter \<Rightarrow> (\<exists>d1. d = Some d1 \<and> output_packet enc = Some (nat d1) \<and> bw_out bw = nat d1 + 2) \<and>
          fs = map pp_enc acc \<and> out_have bw
      | WriterDone n \<Rightarrow> \<not> out_have bw \<and>
          (\<exists>d1 p acc'. d = Some d1 \<and> output_packet enc = Some (nat d1) \<and> acc = acc' @ [p] \<and>
            fs = map pp_enc acc' \<and> n = int (length p) \<and> sub_bytes (nat d1 + 2) (length p) (fl_mem w) = p)
      | EncoderDone n \<Rightarrow> \<not> out_have bw \<and>
          (\<exists>d1 p acc'. d = Some d1 \<and> acc = acc' @ [p] \<and> fs = map pp_enc acc' \<and>
            n = int (length (pp_enc p)) \<and> sub_bytes (nat d1) (length (pp_enc p)) (fl_mem w) = pp_enc p))"

definition fl_inv :: "int \<Rightarrow> flow_world \<Rightarrow> bool" where
  "fl_inv mtu w \<longleftrightarrow>
     0 \<le> mtu \<and> mtu \<le> PACKETPROTO_MAXPAYLOAD \<and> pb_inv (fl_pb w) \<and>
     pb_input_mtu (pb (fl_pb w)) = PACKETPROTO_ENCLEN mtu \<and>
     (\<forall>p\<in>set (fl_accepted w). int (length p) \<le> mtu) \<and> stage_ok w"

text \<open>The region of the outstanding receive lies in the array; writing inside it keeps the buffer's
  invariant.\<close>

lemma pb_recv_region:
  assumes inv: "pb_inv w" and r: "pb_recv w = Some d"
  shows "0 \<le> d" and "d + pb_input_mtu (pb w) \<le> int (length (buffer (pb_buf (pb w))))"
proof -
  let ?b = "pb_buf (pb w)"
  have ci: "cb_inv ?b" and d: "input_dest ?b = Some d" and av: "pb_input_mtu (pb w) \<le> input_avail ?b"
    using inv r by (auto simp: pb_inv_def Let_def split: if_splits)
  have pos: "cb_bound ?b - ChunkBuffer2_end ?b > 0"
    using input_avail_free(2) [OF ci] d by (metis linorder_not_le option.distinct(1))
  note io = input_avail_free(1) [OF ci pos]
  have core: "cb_core ?b" using ci by (simp add: cb_inv_def)
  show "0 \<le> d" using io d core_end_bounds(1) [OF core] by simp
  have "cb_bound ?b \<le> cb_size ?b" "int (length (buffer ?b)) = 4 * cb_size ?b"
    using core by (auto simp: cb_bound_def cb_structure_defs)
  then show "d + pb_input_mtu (pb w) \<le> int (length (buffer ?b))" using io d av by simp
qed

lemma pb_free_write:
  assumes inv: "pb_inv w" and r: "pb_recv w = Some d"
    and off: "nat d \<le> off" "int (off + length src) \<le> d + pb_input_mtu (pb w)"
  shows "pb_inv (w\<lparr>pb := (pb w)\<lparr>pb_buf := (pb_buf (pb w))\<lparr>buffer := memcpy_at (buffer (pb_buf (pb w))) off src\<rparr>\<rparr>\<rparr>)"
proof -
  let ?b = "pb_buf (pb w)"
  let ?b' = "?b\<lparr>buffer := memcpy_at (buffer ?b) off src\<rparr>"
  have ci: "cb_inv ?b" and d: "input_dest ?b = Some d" and av: "pb_input_mtu (pb w) \<le> input_avail ?b"
    using inv r by (auto simp: pb_inv_def Let_def split: if_splits)
  have "d \<le> int off" "int (off + length src) \<le> d + input_avail ?b"
    using off pb_recv_region(1) [OF inv r] av by linarith+
  note fw = free_write(1,2) [OF ci d this]
  show "pb_inv (w\<lparr>pb := (pb w)\<lparr>pb_buf := ?b'\<rparr>\<rparr>)"
    using inv fw by (simp add: pb_inv_def Let_def)
qed

lemma memcpy_same: "off + n \<le> length mem \<Longrightarrow> memcpy_at mem off (sub_bytes off n mem) = mem"
  by (simp add: memcpy_at_def sub_bytes_def) (metis add.commute append_take_drop_id drop_drop)

text \<open>When the frame lies in memory already, the completion is an arrival of the frame.\<close>

lemma fl_pb_done_input:
  assumes "pb_recv (fl_pb w) = Some d" "0 \<le> n" "nat d + nat n \<le> length (fl_mem w)"
    and "sub_bytes (nat d) (nat n) (fl_mem w) = f"
  shows "fl_pb_done n w = w\<lparr>fl_pb := pb_input d f (fl_pb w),
    fl_stage := stage_of (pb_recv (pb_input d f (fl_pb w)))\<rparr>"
proof -
  have len: "int (length f) = n" using assms(2-4) length_sub_bytes by fastforce
  have "pb_write d f (pb (fl_pb w)) = pb (fl_pb w)"
    using memcpy_same [OF assms(3)] assms(4) by (simp add: pb_write_def fl_mem_def)
  then show ?thesis
    using assms(1,4) by (simp add: fl_pb_done_def pb_input_def len Let_def split: prod.splits)
qed

lemma fold_pb_received [simp]: "pb_received (fold pb_apply cs w) = pb_received w"
proof (induction cs arbitrary: w)
  case (Cons c cs)
  then show ?case by (cases "(c, w)" rule: pb_apply.cases) auto
qed simp

lemma pb_input_received [simp]: "pb_received (pb_input d p w) = pb_received w @ [p]"
  by (simp add: pb_input_def PacketBuffer_input_handler_done_def Let_def)

lemma pb_output_frame:
  assumes "pb_inv w" "pb_send w = Some (d, len)"
  shows "pb_received (pb_output d len w) = pb_received w"
    and "buffer (pb_buf (pb (pb_output d len w))) = buffer (pb_buf (pb w))"
    and "pb_recv w = Some e \<Longrightarrow> pb_recv (pb_output d len w) = Some e"
proof -
  show "pb_received (pb_output d len w) = pb_received w"
    "buffer (pb_buf (pb (pb_output d len w))) = buffer (pb_buf (pb w))"
    by (simp_all add: pb_output_def PacketBuffer_output_handler_done_def Let_def consume_packet_eq)
  assume e: "pb_recv w = Some e"
  have inv': "pb_inv (pb_output d len w)" using pb_output_inv [OF assms] .
  have ci: "cb_inv (pb_buf (pb w))" and ne: "cb_contents (pb_buf (pb w)) \<noteq> []"
    and ed: "input_dest (pb_buf (pb w)) = Some e" "pb_input_mtu (pb w) \<le> input_avail (pb_buf (pb w))"
    using assms e by (auto simp: pb_inv_def Let_def split: if_splits)
  have "pb_buf (pb (pb_output d len w)) = ChunkBuffer2_ConsumePacket (pb_buf (pb w))"
    "pb_input_mtu (pb (pb_output d len w)) = pb_input_mtu (pb w)"
    by (simp_all add: pb_output_def PacketBuffer_output_handler_done_def Let_def)
  then show "pb_recv (pb_output d len w) = Some e"
    using inv' consume_input_stable [OF ci ne ed(1)] ed(2) by (simp add: pb_inv_def Let_def)
qed

lemma fl_mem_simps [simp]:
  "fl_mem (w\<lparr>fl_enc := e\<rparr>) = fl_mem w" "fl_mem (w\<lparr>fl_stage := s\<rparr>) = fl_mem w"
  "fl_mem (w\<lparr>fl_bw := b\<rparr>) = fl_mem w" "fl_mem (w\<lparr>fl_accepted := a\<rparr>) = fl_mem w"
  "fl_mem (fl_set_mem mem w) = mem"
  "pb_recv (fl_pb (fl_set_mem mem w)) = pb_recv (fl_pb w)"
  "pb_received (fl_pb (fl_set_mem mem w)) = pb_received (fl_pb w)"
  "pb_input_mtu (pb (fl_pb (fl_set_mem mem w))) = pb_input_mtu (pb (fl_pb w))"
  "fl_enc (fl_set_mem mem w) = fl_enc w" "fl_bw (fl_set_mem mem w) = fl_bw w"
  "fl_accepted (fl_set_mem mem w) = fl_accepted w" "fl_stage (fl_set_mem mem w) = fl_stage w"
  by (simp_all add: fl_mem_def fl_set_mem_def)

lemma fl_set_mem_inv:
  assumes inv: "pb_inv (fl_pb w)" and r: "pb_recv (fl_pb w) = Some d"
    and off: "nat d \<le> off" "int (off + length src) \<le> d + pb_input_mtu (pb (fl_pb w))"
  shows "pb_inv (fl_pb (fl_set_mem (memcpy_at (fl_mem w) off src) w))"
    and "0 \<le> d" and "d + pb_input_mtu (pb (fl_pb w)) \<le> int (length (fl_mem w))"
  using pb_free_write [OF assms] pb_recv_region [OF inv r] by (simp_all add: fl_set_mem_def fl_mem_def)

lemma fl_write_inv:
  assumes inv: "fl_inv mtu w" and st: "BufferWriter_StartPacket (fl_bw w) = Some d2"
    and len: "int (length p) \<le> mtu" and en: "BufferWriter_EndPacket (int (length p)) (fl_bw w) = (bw, n)"
  shows "fl_inv mtu ((fl_set_mem (memcpy_at (fl_mem w) d2 p) w)
       \<lparr>fl_bw := bw, fl_stage := WriterDone n, fl_accepted := fl_accepted w @ [p]\<rparr>)"
proof -
  have h: "out_have (fl_bw w)" and d2: "d2 = bw_out (fl_bw w)"
    using st by (auto simp: BufferWriter_StartPacket_def split: if_splits)
  then have stage: "fl_stage w = AtWriter" using inv by (auto simp: fl_inv_def Let_def split: flow_stage.splits)
  then obtain d1 where d1: "pb_recv (fl_pb w) = Some d1" "output_packet (fl_enc w) = Some (nat d1)"
      "d2 = nat d1 + 2" and fs: "pb_received (fl_pb w) = map pp_enc (fl_accepted w)"
    using inv d2 by (auto simp: fl_inv_def Let_def)
  have mt: "pb_input_mtu (pb (fl_pb w)) = 2 + mtu" and pi: "pb_inv (fl_pb w)"
    using inv by (simp_all add: fl_inv_def PACKETPROTO_ENCLEN_def)
  have "0 \<le> d1" using pb_recv_region(1) [OF pi d1(1)] .
  then have off: "nat d1 \<le> d2" "int (d2 + length p) \<le> d1 + pb_input_mtu (pb (fl_pb w))"
    using d1(3) len mt by simp_all
  note fw = fl_set_mem_inv [OF pi d1(1) off]
  have "d2 + length p \<le> length (fl_mem w)" using fw(3) off(2) by linarith
  then have "sub_bytes (nat d1 + 2) (length p) (memcpy_at (fl_mem w) d2 p) = p"
    by (simp add: d1(3) sub_bytes_memcpy_same)
  then show ?thesis
    using inv fw(1) d1 fs len en by (auto simp: fl_inv_def Let_def BufferWriter_EndPacket_def)
qed

lemma fl_encoder_done_inv:
  assumes inv: "fl_inv mtu w" and st: "fl_stage w = WriterDone n"
    and h: "PacketProtoEncoder_input_handler_done n (fl_mem w) (fl_enc w) = Some (mem, enc, [PPE_Done n'])"
  shows "fl_inv mtu ((fl_set_mem mem w)\<lparr>fl_enc := enc, fl_stage := EncoderDone n'\<rparr>)"
proof -
  obtain d1 p acc' where d1: "pb_recv (fl_pb w) = Some d1" "output_packet (fl_enc w) = Some (nat d1)"
      "fl_accepted w = acc' @ [p]" "pb_received (fl_pb w) = map pp_enc acc'" "n = int (length p)"
      "sub_bytes (nat d1 + 2) (length p) (fl_mem w) = p" and oh: "\<not> out_have (fl_bw w)"
    using inv st by (auto simp: fl_inv_def Let_def)
  let ?h = "packetproto_header (int (length p))"
  have mem: "mem = memcpy_at (fl_mem w) (nat d1) ?h" and n': "n' = 2 + int (length p)"
    using h d1(2,5) by (auto simp: PacketProtoEncoder_input_handler_done_def PACKETPROTO_ENCLEN_def)
  have mt: "pb_input_mtu (pb (fl_pb w)) = 2 + mtu" and pi: "pb_inv (fl_pb w)" and len: "int (length p) \<le> mtu"
    using inv d1(3) by (simp_all add: fl_inv_def PACKETPROTO_ENCLEN_def)
  have "0 \<le> d1" using pb_recv_region(1) [OF pi d1(1)] .
  then have off: "nat d1 \<le> nat d1" "int (nat d1 + length ?h) \<le> d1 + pb_input_mtu (pb (fl_pb w))"
    using mt inv by (simp_all add: fl_inv_def)
  note fw = fl_set_mem_inv [OF pi d1(1) off]
  have room: "nat d1 + 2 \<le> length (fl_mem w)"
    using fw(3) off(2) unfolding length_header by linarith
  have "sub_bytes (nat d1) 2 mem = ?h" unfolding mem using room by (simp add: sub_bytes_memcpy_same)
  moreover have "sub_bytes (nat d1 + 2) (length p) mem = p"
    unfolding mem using room d1(6) by (simp add: sub_bytes_memcpy_after)
  ultimately have "sub_bytes (nat d1) (2 + length p) mem = pp_enc p"
    by (simp only: pp_enc_def sub_bytes_add)
  then have "sub_bytes (nat d1) (length (pp_enc p)) mem = pp_enc p" by (simp add: pp_enc_def)
  then show ?thesis
    using inv fw(1) d1 oh unfolding mem [symmetric]
    by (auto simp: fl_inv_def Let_def n' pp_enc_def)
qed

lemma fl_buffer_done_inv:
  assumes inv: "fl_inv mtu w" and st: "fl_stage w = EncoderDone n"
  shows "fl_inv mtu (fl_pb_done n w)"
proof -
  obtain d1 p acc' where d1: "pb_recv (fl_pb w) = Some d1"
      "fl_accepted w = acc' @ [p]" "pb_received (fl_pb w) = map pp_enc acc'" "n = int (length (pp_enc p))"
      "sub_bytes (nat d1) (length (pp_enc p)) (fl_mem w) = pp_enc p" and oh: "\<not> out_have (fl_bw w)"
    using inv st by (auto simp: fl_inv_def Let_def)
  have mt: "pb_input_mtu (pb (fl_pb w)) = 2 + mtu" and pi: "pb_inv (fl_pb w)" and len: "int (length p) \<le> mtu"
    using inv d1(2) by (simp_all add: fl_inv_def PACKETPROTO_ENCLEN_def)
  have fit: "int (length (pp_enc p)) \<le> pb_input_mtu (pb (fl_pb w))" using len mt by (simp add: pp_enc_def)
  have z: "0 \<le> d1" "d1 + pb_input_mtu (pb (fl_pb w)) \<le> int (length (fl_mem w))"
    using pb_recv_region [OF pi d1(1)] by (simp_all add: fl_mem_def)
  then have room: "nat d1 + nat n \<le> length (fl_mem w)" using fit d1(4) by linarith
  have f: "sub_bytes (nat d1) (nat n) (fl_mem w) = pp_enc p" using d1(4,5) by simp
  have eq: "fl_pb_done n w = w\<lparr>fl_pb := pb_input d1 (pp_enc p) (fl_pb w),
      fl_stage := stage_of (pb_recv (pb_input d1 (pp_enc p) (fl_pb w)))\<rparr>"
    using fl_pb_done_input [OF d1(1) _ room f] d1(4) by simp
  have fr: "pb_input_mtu (pb (pb_input d1 (pp_enc p) (fl_pb w))) = pb_input_mtu (pb (fl_pb w))"
    using pb_step_frame [OF pb_in [OF d1(1) fit] pi] by simp
  show ?thesis
    using inv pb_input_inv [OF pi d1(1) fit] d1 oh fr unfolding eq
    by (auto simp: fl_inv_def Let_def stage_of_def split: option.splits)
qed

lemma fl_sent_inv:
  assumes inv: "fl_inv mtu w" and s: "pb_send (fl_pb w) = Some (d, len)"
  shows "fl_inv mtu (w\<lparr>fl_pb := pb_output d len (fl_pb w),
    fl_stage := (if pb_recv (fl_pb w) = None then stage_of (pb_recv (pb_output d len (fl_pb w))) else fl_stage w)\<rparr>)"
proof -
  let ?p = "pb_output d len (fl_pb w)"
  have pi: "pb_inv (fl_pb w)" using inv by (simp add: fl_inv_def)
  note fr = pb_output_frame [OF pi s]
  have m: "fl_mem (w\<lparr>fl_pb := ?p\<rparr>) = fl_mem w" using fr(2) by (simp add: fl_mem_def)
  have mt: "pb_input_mtu (pb ?p) = pb_input_mtu (pb (fl_pb w))"
    using pb_step_frame [OF pb_out [OF s] pi] by simp
  show ?thesis
  proof (cases "pb_recv (fl_pb w)")
    case None
    then have "fl_stage w = NoRequest" using inv by (auto simp: fl_inv_def Let_def split: flow_stage.splits)
    then show ?thesis
      using None inv pb_output_inv [OF pi s] fr(1) mt
      by (auto simp: fl_inv_def Let_def stage_of_def split: option.splits)
  next
    case (Some e)
    then have "pb_recv ?p = pb_recv (fl_pb w)" using fr(3) by simp
    then have "stage_ok (w\<lparr>fl_pb := ?p\<rparr>) = stage_ok w" using fr(1) m by (simp add: Let_def split: flow_stage.split)
    then show ?thesis
      using Some inv pb_output_inv [OF pi s] mt by (simp add: fl_inv_def del: stage_ok.simps)
  qed
qed

lemma fl_step_inv: "fl_step mtu w w' \<Longrightarrow> fl_inv mtu w \<Longrightarrow> fl_inv mtu w'"
proof (induction rule: fl_step.induct)
  case (fl_to_encoder w d enc d2)
  then show ?case by (auto simp: fl_inv_def Let_def PacketProtoEncoder_output_handler_recv_def)
next
  case (fl_to_writer w d2)
  then show ?case by (auto simp: fl_inv_def Let_def BufferWriter_output_handler_recv_def)
next
  case (fl_write w d2 p bw n)
  then show ?case by (intro fl_write_inv)
next
  case (fl_encoder_done w n mem enc n')
  then show ?case by (intro fl_encoder_done_inv)
next
  case (fl_buffer_done w n)
  then show ?case by (intro fl_buffer_done_inv)
next
  case (fl_sent w d len p)
  show ?case unfolding fl_sent(2) using fl_sent_inv [OF fl_sent(3,1)] .
qed

lemma fl_reach_inv: "fl_reach mtu w0 w \<Longrightarrow> fl_inv mtu w0 \<Longrightarrow> fl_inv mtu w"
  by (induction rule: fl_reach.induct) (auto intro: fl_step_inv)

lemma fl_init_inv:
  assumes "PacketProtoFlow_Init alloc mtu num = Some w" "0 \<le> mtu" "mtu \<le> PACKETPROTO_MAXPAYLOAD" "0 < num"
    and "alloc_ok alloc (ChunkBuffer2_calc_blocks (PACKETPROTO_ENCLEN mtu) num)"
  shows "fl_inv mtu w"
proof -
  obtain r where r: "PacketBuffer_Init alloc (PACKETPROTO_ENCLEN mtu) num = Some r"
    and w: "w = \<lparr>fl_pb = pb_world_init r, fl_enc = PacketProtoEncoder_Init, fl_bw = BufferWriter_Init 0,
      fl_stage = stage_of (pb_recv (pb_world_init r)), fl_accepted = []\<rparr>"
    using assms(1) by (auto simp: PacketProtoFlow_Init_def Let_def split: option.splits)
  have "0 \<le> PACKETPROTO_ENCLEN mtu" using assms(2) by (simp add: PACKETPROTO_ENCLEN_def)
  note init = pb_init_inv [OF r this assms(4,5)]
  have "pb_received (pb_world_init r) = []" by (simp add: pb_world_init_def)
  then show ?thesis
    using init assms(2,3)
    by (auto simp: w fl_inv_def Let_def BufferWriter_Init_def stage_of_def split: option.splits)
qed

section \<open>Properties\<close>



end
