(* ===== verification/FairQueue.thy ===== *)
theory FairQueue
  imports FlowInterface
begin

text \<open>
  The fair packet scheduler of \<open>flow/PacketPassFairQueue.c\<close>: every connection is a flow with a
  64-bit virtual time, and the queued flow with the least time is sent next. A flow is identified by
  its address. The search tree is intrusive (its order is that of the fields of the flows), so it is
  modelled by its in-order sequence of flows, which the subtraction of time on overflow does not
  touch; that the sequence stays ordered is part of the invariant. Virtual times are 64-bit words and
  wrap around; it is proved that the scheduler behaves as if they did not.
\<close>

section \<open>State\<close>

record Flow =
  f_time :: u64
  f_is_queued :: bool
  f_data :: nat
  f_data_len :: int
  f_handler_busy :: bool

record PacketPassFairQueue =
  fq_packet_weight :: int
  fq_mtu :: int
  fq_use_cancel :: bool
  fq_sending_flow :: "nat option"
  fq_sending_len :: int
  fq_previous_flow :: "nat option"
  fq_tree :: "nat list"
  fq_flows_list :: "nat list"
  fq_flow :: "nat \<Rightarrow> Flow"
  fq_freeing :: bool
  fq_schedule_job :: bool

datatype fq_call = FQ_Send nat int | FQ_Done nat | FQ_HandlerBusy nat | FQ_RequestCancel

abbreviation FAIRQUEUE_MAX_TIME :: u64 where "FAIRQUEUE_MAX_TIME \<equiv> - 1"

abbreviation time_of :: "PacketPassFairQueue \<Rightarrow> nat \<Rightarrow> u64" where
  "time_of m f \<equiv> f_time (fq_flow m f)"

definition upd_flow :: "nat \<Rightarrow> (Flow \<Rightarrow> Flow) \<Rightarrow> PacketPassFairQueue \<Rightarrow> PacketPassFairQueue" where
  "upd_flow f u m = m\<lparr>fq_flow := (fq_flow m)(f := u (fq_flow m f))\<rparr>"

section \<open>Operations\<close>

text \<open>\<open>compare_flows\<close>: by time, then by address; the sign of the result is what callers use.\<close>

definition compare_flows :: "PacketPassFairQueue \<Rightarrow> nat \<Rightarrow> nat \<Rightarrow> int" where
  "compare_flows m f1 f2 =
     (let cmp = (if time_of m f1 < time_of m f2 then -1 else if time_of m f1 > time_of m f2 then 1 else 0)
      in if cmp \<noteq> 0 then cmp else if f1 < f2 then -1 else if f1 > f2 then 1 else 0)"

text \<open>The tree by its in-order sequence: first element, insertion and removal.\<close>

definition Tree_GetFirst :: "PacketPassFairQueue \<Rightarrow> nat option" where
  "Tree_GetFirst m = (case fq_tree m of [] \<Rightarrow> None | f # _ \<Rightarrow> Some f)"

fun tree_insert :: "PacketPassFairQueue \<Rightarrow> nat \<Rightarrow> nat list \<Rightarrow> nat list" where
  "tree_insert m f [] = [f]"
| "tree_insert m f (g # gs) = (if compare_flows m f g < 0 then f # g # gs else g # tree_insert m f gs)"

definition Tree_Insert :: "nat \<Rightarrow> PacketPassFairQueue \<Rightarrow> PacketPassFairQueue" where
  "Tree_Insert f m = m\<lparr>fq_tree := tree_insert m f (fq_tree m)\<rparr>"

definition Tree_Remove :: "nat \<Rightarrow> PacketPassFairQueue \<Rightarrow> PacketPassFairQueue" where
  "Tree_Remove f m = m\<lparr>fq_tree := remove1 f (fq_tree m)\<rparr>"

definition get_current_time :: "PacketPassFairQueue \<Rightarrow> u64" where
  "get_current_time m =
     (case fq_sending_flow m of Some s \<Rightarrow> time_of m s
      | None \<Rightarrow>
          let (have_time, time) = (case Tree_GetFirst m of None \<Rightarrow> (False, 0) | Some f \<Rightarrow> (True, time_of m f));
              (have_time, time) =
                (case fq_previous_flow m of None \<Rightarrow> (have_time, time)
                 | Some p \<Rightarrow> if \<not> have_time \<or> time_of m p < time then (True, time_of m p) else (have_time, time))
          in if have_time then time else 0)"

text \<open>One round of the loop that subtracts time.\<close>

definition subtract_flow :: "u64 \<Rightarrow> nat \<Rightarrow> nat \<Rightarrow> PacketPassFairQueue \<Rightarrow> PacketPassFairQueue" where
  "subtract_flow subtract flow someflow m =
     (if subtract > time_of m someflow \<and> someflow \<noteq> flow
      then upd_flow someflow (\<lambda>r. r\<lparr>f_time := 0\<rparr>) m
      else upd_flow someflow (\<lambda>r. r\<lparr>f_time := f_time r - subtract\<rparr>) m)"

definition increment_sent_flow :: "nat \<Rightarrow> u64 \<Rightarrow> PacketPassFairQueue \<Rightarrow> PacketPassFairQueue" where
  "increment_sent_flow flow amount m =
     (let m = (if amount > FAIRQUEUE_MAX_TIME - time_of m flow then
                 let subtract = (case Tree_GetFirst m of None \<Rightarrow> time_of m flow | Some f \<Rightarrow> time_of m f)
                 in fold (subtract_flow subtract flow) (fq_flows_list m) m
               else m)
      in upd_flow flow (\<lambda>r. r\<lparr>f_time := f_time r + amount\<rparr>) m)"

definition schedule :: "PacketPassFairQueue \<Rightarrow> PacketPassFairQueue \<times> fq_call list" where
  "schedule m =
     (case Tree_GetFirst m of None \<Rightarrow> (m, [])
      | Some q \<Rightarrow>
          let m = upd_flow q (\<lambda>r. r\<lparr>f_is_queued := False\<rparr>) (Tree_Remove q m)
          in (m\<lparr>fq_sending_flow := Some q, fq_sending_len := f_data_len (fq_flow m q)\<rparr>,
              [FQ_Send (f_data (fq_flow m q)) (f_data_len (fq_flow m q))]))"

definition schedule_job_handler :: "PacketPassFairQueue \<Rightarrow> PacketPassFairQueue \<times> fq_call list" where
  "schedule_job_handler m =
     (let m = m\<lparr>fq_previous_flow := None\<rparr> in if fq_tree m \<noteq> [] then schedule m else (m, []))"

definition FairQueue_input_handler_send ::
  "nat \<Rightarrow> nat \<Rightarrow> int \<Rightarrow> PacketPassFairQueue \<Rightarrow> PacketPassFairQueue \<times> fq_call list" where
  "FairQueue_input_handler_send flow data data_len m =
     (let m = (if fq_previous_flow m = Some flow then m\<lparr>fq_previous_flow := None\<rparr>
               else upd_flow flow (\<lambda>r. r\<lparr>f_time := max (f_time r) (get_current_time m)\<rparr>) m);
          m = upd_flow flow (\<lambda>r. r\<lparr>f_data := data, f_data_len := data_len\<rparr>) m;
          m = upd_flow flow (\<lambda>r. r\<lparr>f_is_queued := True\<rparr>) (Tree_Insert flow m)
      in if fq_sending_flow m = None \<and> \<not> fq_schedule_job m then schedule m else (m, []))"

definition FairQueue_output_handler_done :: "PacketPassFairQueue \<Rightarrow> PacketPassFairQueue \<times> fq_call list" where
  "FairQueue_output_handler_done m =
     (case fq_sending_flow m of None \<Rightarrow> (m, [])
      | Some flow \<Rightarrow>
          let m = m\<lparr>fq_sending_flow := None, fq_previous_flow := Some flow\<rparr>;
              m = increment_sent_flow flow (of_int (fq_packet_weight m) + of_int (fq_sending_len m)) m;
              m = m\<lparr>fq_schedule_job := True\<rparr>
          in if f_handler_busy (fq_flow m flow)
             then (upd_flow flow (\<lambda>r. r\<lparr>f_handler_busy := False\<rparr>) m, [FQ_Done flow, FQ_HandlerBusy flow])
             else (m, [FQ_Done flow]))"

definition PacketPassFairQueue_Init :: "int \<Rightarrow> bool \<Rightarrow> int \<Rightarrow> (nat \<Rightarrow> Flow) \<Rightarrow> PacketPassFairQueue option" where
  "PacketPassFairQueue_Init mtu use_cancel packet_weight junk =
     (if \<not> ((of_int mtu :: u64) \<le> FAIRQUEUE_MAX_TIME \<and>
            (of_int packet_weight :: u64) \<le> FAIRQUEUE_MAX_TIME - of_int mtu) then None
      else Some \<lparr>fq_packet_weight = packet_weight, fq_mtu = mtu, fq_use_cancel = use_cancel,
        fq_sending_flow = None, fq_sending_len = 0, fq_previous_flow = None, fq_tree = [],
        fq_flows_list = [], fq_flow = junk, fq_freeing = False, fq_schedule_job = False\<rparr>)"

definition PacketPassFairQueue_PrepareFree :: "PacketPassFairQueue \<Rightarrow> PacketPassFairQueue" where
  "PacketPassFairQueue_PrepareFree m = m\<lparr>fq_freeing := True\<rparr>"

definition PacketPassFairQueueFlow_Init :: "nat \<Rightarrow> PacketPassFairQueue \<Rightarrow> PacketPassFairQueue" where
  "PacketPassFairQueueFlow_Init flow m =
     (let m = upd_flow flow (\<lambda>r. r\<lparr>f_handler_busy := False, f_time := 0, f_is_queued := False\<rparr>) m
      in m\<lparr>fq_flows_list := fq_flows_list m @ [flow]\<rparr>)"

definition PacketPassFairQueueFlow_Free :: "nat \<Rightarrow> PacketPassFairQueue \<Rightarrow> PacketPassFairQueue" where
  "PacketPassFairQueueFlow_Free flow m =
     (let m = (if fq_sending_flow m = Some flow then m\<lparr>fq_sending_flow := None\<rparr> else m);
          m = (if fq_previous_flow m = Some flow then m\<lparr>fq_previous_flow := None\<rparr> else m);
          m = (if f_is_queued (fq_flow m flow) then Tree_Remove flow m else m)
      in m\<lparr>fq_flows_list := remove1 flow (fq_flows_list m)\<rparr>)"

definition PacketPassFairQueueFlow_IsBusy :: "nat \<Rightarrow> PacketPassFairQueue \<Rightarrow> bool" where
  "PacketPassFairQueueFlow_IsBusy flow m \<longleftrightarrow> fq_sending_flow m = Some flow"

definition PacketPassFairQueueFlow_RequestCancel :: "nat \<Rightarrow> PacketPassFairQueue \<Rightarrow> PacketPassFairQueue \<times> fq_call list" where
  "PacketPassFairQueueFlow_RequestCancel flow m = (m, [FQ_RequestCancel])"

definition PacketPassFairQueueFlow_SetBusyHandler :: "nat \<Rightarrow> bool \<Rightarrow> PacketPassFairQueue \<Rightarrow> PacketPassFairQueue" where
  "PacketPassFairQueueFlow_SetBusyHandler flow handler m = upd_flow flow (\<lambda>r. r\<lparr>f_handler_busy := handler\<rparr>) m"

section \<open>Order of the queue\<close>

definition flow_before :: "(nat \<Rightarrow> u64) \<Rightarrow> nat \<Rightarrow> nat \<Rightarrow> bool" where
  "flow_before t f g \<longleftrightarrow> t f < t g \<or> (t f = t g \<and> f < g)"

lemma compare_before: "compare_flows m f g < 0 \<longleftrightarrow> flow_before (time_of m) f g"
  by (auto simp: compare_flows_def flow_before_def Let_def)

lemma before_total: "f \<noteq> g \<Longrightarrow> \<not> flow_before t f g \<Longrightarrow> flow_before t g f"
  by (auto simp: flow_before_def)

lemma before_trans: "flow_before t f g \<Longrightarrow> flow_before t g h \<Longrightarrow> flow_before t f h"
  by (auto simp: flow_before_def)

lemma before_time: "flow_before t f g \<Longrightarrow> t f \<le> t g"
  by (auto simp: flow_before_def)

lemma set_tree_insert [simp]: "set (tree_insert m f gs) = insert f (set gs)"
  by (induction gs) auto

lemma distinct_tree_insert [simp]: "distinct (tree_insert m f gs) \<longleftrightarrow> f \<notin> set gs \<and> distinct gs"
  by (induction gs) auto

lemma tree_insert_sorted:
  assumes "sorted_wrt (flow_before (time_of m)) gs" "f \<notin> set gs"
  shows "sorted_wrt (flow_before (time_of m)) (tree_insert m f gs)"
  using assms
proof (induction gs)
  case (Cons g gs)
  show ?case
  proof (cases "flow_before (time_of m) f g")
    case True
    then show ?thesis using Cons.prems by (auto simp: compare_before intro: before_trans)
  next
    case False
    then have "flow_before (time_of m) g f" using before_total Cons.prems(2) by auto
    then show ?thesis using Cons False by (simp add: compare_before)
  qed
qed simp

lemma sorted_cong:
  assumes "sorted_wrt (flow_before t) gs" "\<forall>g\<in>set gs. t' g = t g"
  shows "sorted_wrt (flow_before t') gs"
  using assms by (induction gs) (auto simp: flow_before_def)

text \<open>Subtracting the same amount, without wrap-around, keeps the order.\<close>

lemma word_minus_less:
  assumes "s \<le> a" "s \<le> b" shows "a - s < b - s \<longleftrightarrow> a < (b :: u64)" "a - s = b - s \<longleftrightarrow> a = b"
  using assms by (simp_all add: word_less_nat_alt word_le_nat_alt unat_sub less_diff_iff)

lemma sorted_shift:
  assumes "sorted_wrt (flow_before t) gs" "\<forall>g\<in>set gs. s \<le> t g" "\<forall>g\<in>set gs. t' g = t g - s"
  shows "sorted_wrt (flow_before t') gs"
  using assms by (induction gs) (auto simp: flow_before_def word_minus_less)

section \<open>Invariant\<close>

definition fq_core :: "PacketPassFairQueue \<Rightarrow> bool" where
  "fq_core m \<longleftrightarrow>
     0 < fq_packet_weight m \<and> fq_packet_weight m \<le> INT_MAX \<and> 0 \<le> fq_mtu m \<and> fq_mtu m \<le> INT_MAX \<and>
     distinct (fq_flows_list m) \<and> distinct (fq_tree m) \<and>
     set (fq_tree m) = {f \<in> set (fq_flows_list m). f_is_queued (fq_flow m f)} \<and>
     sorted_wrt (flow_before (time_of m)) (fq_tree m) \<and>
     (\<forall>f\<in>set (fq_tree m). 0 \<le> f_data_len (fq_flow m f) \<and> f_data_len (fq_flow m f) \<le> fq_mtu m) \<and>
     (case fq_sending_flow m of None \<Rightarrow> True
      | Some s \<Rightarrow> s \<in> set (fq_flows_list m) \<and> s \<notin> set (fq_tree m) \<and> fq_previous_flow m = None \<and>
          \<not> fq_schedule_job m \<and> 0 \<le> fq_sending_len m \<and> fq_sending_len m \<le> fq_mtu m \<and>
          (\<forall>f\<in>set (fq_tree m). time_of m s \<le> time_of m f)) \<and>
     (case fq_previous_flow m of None \<Rightarrow> True
      | Some p \<Rightarrow> p \<in> set (fq_flows_list m) \<and> p \<notin> set (fq_tree m) \<and> fq_schedule_job m)"

text \<open>Unless it is being taken down, an idle scheduler has nothing queued.\<close>

definition fq_inv :: "PacketPassFairQueue \<Rightarrow> bool" where
  "fq_inv m \<longleftrightarrow> fq_core m \<and>
     (\<not> fq_freeing m \<longrightarrow> fq_sending_flow m = None \<longrightarrow> \<not> fq_schedule_job m \<longrightarrow> fq_tree m = [])"

lemma upd_flow_simps [simp]:
  "fq_packet_weight (upd_flow f u m) = fq_packet_weight m" "fq_mtu (upd_flow f u m) = fq_mtu m"
  "fq_use_cancel (upd_flow f u m) = fq_use_cancel m"
  "fq_sending_flow (upd_flow f u m) = fq_sending_flow m" "fq_sending_len (upd_flow f u m) = fq_sending_len m"
  "fq_previous_flow (upd_flow f u m) = fq_previous_flow m" "fq_tree (upd_flow f u m) = fq_tree m"
  "fq_flows_list (upd_flow f u m) = fq_flows_list m" "fq_freeing (upd_flow f u m) = fq_freeing m"
  "fq_schedule_job (upd_flow f u m) = fq_schedule_job m"
  "fq_flow (upd_flow f u m) g = (if g = f then u (fq_flow m f) else fq_flow m g)"
  by (simp_all add: upd_flow_def)

text \<open>The loop over the flows changes the time of each of them once.\<close>

definition subtracted :: "u64 \<Rightarrow> bool \<Rightarrow> u64 \<Rightarrow> u64" where
  "subtracted s own t = (if s > t \<and> \<not> own then 0 else t - s)"

lemma subtract_flow_simps [simp]:
  "fq_packet_weight (subtract_flow s fl f m) = fq_packet_weight m" "fq_mtu (subtract_flow s fl f m) = fq_mtu m"
  "fq_use_cancel (subtract_flow s fl f m) = fq_use_cancel m"
  "fq_sending_flow (subtract_flow s fl f m) = fq_sending_flow m"
  "fq_sending_len (subtract_flow s fl f m) = fq_sending_len m"
  "fq_previous_flow (subtract_flow s fl f m) = fq_previous_flow m" "fq_tree (subtract_flow s fl f m) = fq_tree m"
  "fq_flows_list (subtract_flow s fl f m) = fq_flows_list m" "fq_freeing (subtract_flow s fl f m) = fq_freeing m"
  "fq_schedule_job (subtract_flow s fl f m) = fq_schedule_job m"
  "fq_flow (subtract_flow s fl f m) g =
     (if g = f then (fq_flow m g)\<lparr>f_time := subtracted s (g = fl) (time_of m g)\<rparr> else fq_flow m g)"
  by (simp_all add: subtract_flow_def subtracted_def)

lemma subtract_loop:
  assumes "distinct fs"
  shows "fq_flow (fold (subtract_flow s fl) fs m) g =
     (if g \<in> set fs then (fq_flow m g)\<lparr>f_time := subtracted s (g = fl) (time_of m g)\<rparr> else fq_flow m g)"
  using assms
proof (induction fs arbitrary: m)
  case (Cons f fs)
  have "fq_flow (fold (subtract_flow s fl) (f # fs) m) g =
      (if g \<in> set fs then (fq_flow (subtract_flow s fl f m) g)
         \<lparr>f_time := subtracted s (g = fl) (time_of (subtract_flow s fl f m) g)\<rparr>
       else fq_flow (subtract_flow s fl f m) g)"
    using Cons by simp
  moreover have "f \<notin> set fs" using Cons.prems by simp
  ultimately show ?case by (cases "g = f") simp_all
qed simp

lemma subtract_loop_frame [simp]:
  "fq_packet_weight (fold (subtract_flow s fl) fs m) = fq_packet_weight m"
  "fq_mtu (fold (subtract_flow s fl) fs m) = fq_mtu m"
  "fq_use_cancel (fold (subtract_flow s fl) fs m) = fq_use_cancel m"
  "fq_sending_flow (fold (subtract_flow s fl) fs m) = fq_sending_flow m"
  "fq_sending_len (fold (subtract_flow s fl) fs m) = fq_sending_len m"
  "fq_previous_flow (fold (subtract_flow s fl) fs m) = fq_previous_flow m"
  "fq_tree (fold (subtract_flow s fl) fs m) = fq_tree m"
  "fq_flows_list (fold (subtract_flow s fl) fs m) = fq_flows_list m"
  "fq_freeing (fold (subtract_flow s fl) fs m) = fq_freeing m"
  "fq_schedule_job (fold (subtract_flow s fl) fs m) = fq_schedule_job m"
  by (induction fs arbitrary: m) simp_all

lemma increment_frame [simp]:
  "fq_packet_weight (increment_sent_flow f a m) = fq_packet_weight m"
  "fq_mtu (increment_sent_flow f a m) = fq_mtu m"
  "fq_use_cancel (increment_sent_flow f a m) = fq_use_cancel m"
  "fq_sending_flow (increment_sent_flow f a m) = fq_sending_flow m"
  "fq_sending_len (increment_sent_flow f a m) = fq_sending_len m"
  "fq_previous_flow (increment_sent_flow f a m) = fq_previous_flow m"
  "fq_tree (increment_sent_flow f a m) = fq_tree m"
  "fq_flows_list (increment_sent_flow f a m) = fq_flows_list m"
  "fq_freeing (increment_sent_flow f a m) = fq_freeing m"
  "fq_schedule_job (increment_sent_flow f a m) = fq_schedule_job m"
  by (simp_all add: increment_sent_flow_def Let_def)

text \<open>The amount of time that is subtracted from everybody, as a number.\<close>

definition time_shift :: "nat \<Rightarrow> u64 \<Rightarrow> PacketPassFairQueue \<Rightarrow> nat" where
  "time_shift flow amount m =
     (if amount > FAIRQUEUE_MAX_TIME - time_of m flow
      then unat (case Tree_GetFirst m of None \<Rightarrow> time_of m flow | Some f \<Rightarrow> time_of m f) else 0)"

lemma overflow_iff: "(a > FAIRQUEUE_MAX_TIME - t) \<longleftrightarrow> 2 ^ 64 \<le> unat t + unat (a :: u64)"
proof -
  have "unat (FAIRQUEUE_MAX_TIME - t) = 2 ^ 64 - 1 - unat t"
    by (subst unat_sub) (simp_all add: unsigned_minus_1_eq_mask mask_eq_exp_minus_1)
  then show ?thesis using unsigned_less [of t, where 'a = nat] by (auto simp: word_less_nat_alt)
qed

text \<open>The sent flow is charged exactly, and queued flows are shifted exactly: no time wraps around.\<close>

lemma increment_exact:
  assumes dist: "distinct (fq_flows_list m)" and flow: "flow \<in> set (fq_flows_list m)" "flow \<notin> set (fq_tree m)"
    and tree: "set (fq_tree m) \<subseteq> set (fq_flows_list m)" "sorted_wrt (flow_before (time_of m)) (fq_tree m)"
    and low: "\<forall>f\<in>set (fq_tree m). time_of m flow \<le> time_of m f"
    and kd: "k = time_shift flow amount m"
  shows "int (unat (time_of (increment_sent_flow flow amount m) flow)) =
           int (unat (time_of m flow)) + int (unat amount) - int k"
    and "\<forall>f\<in>set (fq_tree m).
           int (unat (time_of (increment_sent_flow flow amount m) f)) = int (unat (time_of m f)) - int k"
    and "\<forall>f\<in>set (fq_tree m). time_of (increment_sent_flow flow amount m) f = time_of m f - of_nat k \<and> of_nat k \<le> time_of m f"
proof -
  let ?over = "amount > FAIRQUEUE_MAX_TIME - time_of m flow"
  define s where "s = (case Tree_GetFirst m of None \<Rightarrow> time_of m flow | Some f \<Rightarrow> time_of m f)"
  have s_low: "time_of m flow \<le> s"
    using low by (auto simp: s_def Tree_GetFirst_def split: list.splits)
  have s_min: "s \<le> time_of m f" if "f \<in> set (fq_tree m)" for f
    using that tree(2) before_time [of "time_of m" "hd (fq_tree m)" f]
    by (auto simp: s_def Tree_GetFirst_def split: list.splits)
  have k: "k = (if ?over then unat s else 0)" by (simp add: kd time_shift_def s_def)
  have t_flow: "time_of (increment_sent_flow flow amount m) flow =
      (if ?over then time_of m flow - s else time_of m flow) + amount"
    using subtract_loop [OF dist] flow(1)
    by (simp add: increment_sent_flow_def Let_def s_def subtracted_def)
  have t_tree: "time_of (increment_sent_flow flow amount m) f = (if ?over then time_of m f - s else time_of m f)"
    if "f \<in> set (fq_tree m)" for f
  proof -
    have "f \<noteq> flow" "f \<in> set (fq_flows_list m)" "\<not> s > time_of m f"
      using that flow(2) tree(1) s_min [OF that] by (auto simp: not_less)
    then show ?thesis
      using subtract_loop [OF dist] by (simp add: increment_sent_flow_def Let_def s_def [symmetric] subtracted_def)
  qed
  show "int (unat (time_of (increment_sent_flow flow amount m) flow)) =
      int (unat (time_of m flow)) + int (unat amount) - int k"
  proof (cases ?over)
    case True
    then have ge: "2 ^ 64 \<le> unat (time_of m flow) + unat amount" by (simp add: overflow_iff)
    have "time_of (increment_sent_flow flow amount m) flow = amount - (s - time_of m flow)"
      using t_flow True by simp
    moreover have "unat (s - time_of m flow) = unat s - unat (time_of m flow)" using s_low by (rule unat_sub)
    moreover have "s - time_of m flow \<le> amount"
      unfolding word_le_nat_alt \<open>unat (s - time_of m flow) = _\<close>
      using ge unsigned_less [of s, where 'a = nat] by simp
    ultimately have "unat (time_of (increment_sent_flow flow amount m) flow) =
        unat amount - (unat s - unat (time_of m flow))" by (simp add: unat_sub)
    then show ?thesis
      using True k ge unsigned_less [of s, where 'a = nat] s_low by (simp add: word_le_nat_alt)
  next
    case False
    then have "unat (time_of m flow) + unat amount < 2 ^ 64" by (simp add: overflow_iff)
    then have "unat (time_of m flow + amount) = unat (time_of m flow) + unat amount"
      by (simp add: unat_plus_simple [THEN iffD1] no_olen_add_nat)
    then show ?thesis using False t_flow k by simp
  qed
  show "\<forall>f\<in>set (fq_tree m).
      int (unat (time_of (increment_sent_flow flow amount m) f)) = int (unat (time_of m f)) - int k"
    using t_tree s_min k by (simp add: uint_minus_simple_alt [THEN iffD1])
  show "\<forall>f\<in>set (fq_tree m). time_of (increment_sent_flow flow amount m) f = time_of m f - of_nat k \<and> of_nat k \<le> time_of m f"
    using t_tree s_min k by simp
qed

lemma schedule_inv:
  assumes core: "fq_core m" and idle: "fq_sending_flow m = None" "fq_previous_flow m = None" "\<not> fq_schedule_job m"
  shows "fq_inv (fst (schedule m))"
proof (cases "fq_tree m")
  case Nil
  then show ?thesis using assms by (simp add: schedule_def Tree_GetFirst_def fq_inv_def)
next
  case (Cons q qs)
  let ?m = "fst (schedule m)"
  have sel: "fq_tree ?m = qs" "fq_sending_flow ?m = Some q" "fq_flows_list ?m = fq_flows_list m"
    "fq_previous_flow ?m = None" "\<not> fq_schedule_job ?m" "fq_sending_len ?m = f_data_len (fq_flow m q)"
    "fq_mtu ?m = fq_mtu m" "fq_packet_weight ?m = fq_packet_weight m"
    "\<And>f. fq_flow ?m f = (if f = q then (fq_flow m q)\<lparr>f_is_queued := False\<rparr> else fq_flow m f)"
    using Cons idle by (simp_all add: schedule_def Tree_GetFirst_def Tree_Remove_def Let_def)
  have t: "time_of ?m = time_of m" by (auto simp: sel(9))
  have tp: "time_of ?m f = time_of m f" for f by (simp add: sel(9))
  have all: "fq_tree m = q # qs" "q \<notin> set qs" "distinct (fq_flows_list m)" "distinct qs"
    "insert q (set qs) = {f \<in> set (fq_flows_list m). f_is_queued (fq_flow m f)}"
    "sorted_wrt (flow_before (time_of m)) qs" "\<forall>f\<in>set qs. flow_before (time_of m) q f"
    "\<forall>f\<in>insert q (set qs). 0 \<le> f_data_len (fq_flow m f) \<and> f_data_len (fq_flow m f) \<le> fq_mtu m"
    using core Cons by (auto simp: fq_core_def)
  have tree: "set qs = {f \<in> set (fq_flows_list m). f_is_queued (fq_flow ?m f)}"
    using all(2,5) by (auto simp: sel(9))
  have low: "\<forall>f\<in>set qs. time_of m q \<le> time_of m f"
    using all(7) before_time [of "time_of m" q] by auto
  have qin: "q \<in> set (fq_flows_list m)" using all(5) by blast
  have dl: "\<forall>f\<in>set qs. 0 \<le> f_data_len (fq_flow ?m f) \<and> f_data_len (fq_flow ?m f) \<le> fq_mtu m"
    using all(8) by (auto simp: sel(9))
  have ql: "0 \<le> f_data_len (fq_flow m q)" "f_data_len (fq_flow m q) \<le> fq_mtu m" using all(8) by simp_all
  show ?thesis
    unfolding fq_inv_def fq_core_def t sel(1-8)
    using core all low qin tree dl ql by (simp add: fq_core_def sel(5) tp)
qed

lemma schedule_job_inv:
  assumes "fq_inv m" "fq_schedule_job m"
  shows "fq_inv (fst (schedule_job_handler (m\<lparr>fq_schedule_job := False\<rparr>)))"
proof -
  let ?m = "m\<lparr>fq_schedule_job := False, fq_previous_flow := None\<rparr>"
  have s: "fq_sending_flow m = None" using assms by (auto simp: fq_inv_def fq_core_def split: option.splits)
  then have core: "fq_core ?m" using assms(1) by (simp add: fq_inv_def fq_core_def)
  have "fq_inv (fst (schedule ?m))" by (rule schedule_inv [OF core]) (simp_all add: s)
  moreover have "fq_inv ?m" if "fq_tree m = []" using core that by (simp add: fq_inv_def)
  ultimately show ?thesis by (simp add: schedule_job_handler_def Let_def)
qed

text \<open>Queueing a flow: its time is raised to the current time, so the flow being sent stays behind all
  queued ones.\<close>

lemma input_handler_inv:
  assumes inv: "fq_inv m" and f: "flow \<in> set (fq_flows_list m)" "\<not> f_is_queued (fq_flow m flow)"
    "fq_sending_flow m \<noteq> Some flow" and len: "0 \<le> len" "len \<le> fq_mtu m" and fr: "\<not> fq_freeing m"
  shows "fq_inv (fst (FairQueue_input_handler_send flow data len m))"
proof -
  define m1 where "m1 = (if fq_previous_flow m = Some flow then m\<lparr>fq_previous_flow := None\<rparr>
      else upd_flow flow (\<lambda>r. r\<lparr>f_time := max (f_time r) (get_current_time m)\<rparr>) m)"
  define m2 where "m2 = upd_flow flow (\<lambda>r. r\<lparr>f_data := data, f_data_len := len\<rparr>) m1"
  define m3 where "m3 = upd_flow flow (\<lambda>r. r\<lparr>f_is_queued := True\<rparr>) (Tree_Insert flow m2)"
  have eq: "FairQueue_input_handler_send flow data len m =
      (if fq_sending_flow m3 = None \<and> \<not> fq_schedule_job m3 then schedule m3 else (m3, []))"
    by (simp add: FairQueue_input_handler_send_def Let_def m1_def m2_def m3_def)
  have core: "fq_core m" using inv by (simp add: fq_inv_def)
  then have nt: "flow \<notin> set (fq_tree m)" using f(2) by (auto simp: fq_core_def)
  have sel: "fq_sending_flow m3 = fq_sending_flow m" "fq_schedule_job m3 = fq_schedule_job m"
    "fq_flows_list m3 = fq_flows_list m" "fq_freeing m3 = fq_freeing m" "fq_sending_len m3 = fq_sending_len m"
    "fq_packet_weight m3 = fq_packet_weight m" "fq_mtu m3 = fq_mtu m"
    "fq_previous_flow m3 = (if fq_previous_flow m = Some flow then None else fq_previous_flow m)"
    "fq_tree m3 = tree_insert m2 flow (fq_tree m)"
    "f_is_queued (fq_flow m3 flow)" "f_data_len (fq_flow m3 flow) = len"
    "\<And>g. g \<noteq> flow \<Longrightarrow> fq_flow m3 g = fq_flow m g"
    by (auto simp: m3_def m2_def m1_def Tree_Insert_def)
  have t23: "time_of m3 = time_of m2" by (auto simp: m3_def Tree_Insert_def)
  have srt: "sorted_wrt (flow_before (time_of m3)) (fq_tree m3)"
  proof -
    have "\<forall>g\<in>set (fq_tree m). time_of m2 g = time_of m g" using nt sel(12) t23 by metis
    then have "sorted_wrt (flow_before (time_of m2)) (fq_tree m)"
      using core sorted_cong [of "time_of m" "fq_tree m" "time_of m2"] by (simp add: fq_core_def)
    then show ?thesis unfolding t23 sel(9) by (rule tree_insert_sorted) (rule nt)
  qed
  have low: "time_of m3 s \<le> time_of m3 g" if "fq_sending_flow m = Some s" "g \<in> insert flow (set (fq_tree m))" for s g
  proof -
    have sf: "s \<noteq> flow" "fq_previous_flow m = None" "s \<notin> set (fq_tree m)"
      using that(1) f(3) core by (auto simp: fq_core_def)
    have "time_of m s \<le> time_of m3 flow"
      using that(1) sf(2) by (simp add: m3_def m2_def m1_def Tree_Insert_def get_current_time_def)
    moreover have "\<forall>g\<in>set (fq_tree m). time_of m s \<le> time_of m g" using core that(1) by (simp add: fq_core_def)
    ultimately show ?thesis using that(2) sel(12) sf nt by (metis insertE)
  qed
  have tree: "insert flow (set (fq_tree m)) = {g \<in> set (fq_flows_list m). f_is_queued (fq_flow m3 g)}"
  proof -
    have "set (fq_tree m) = {g \<in> set (fq_flows_list m). f_is_queued (fq_flow m g)}"
      using core by (simp add: fq_core_def)
    then show ?thesis using f(1) sel(10,12) by (intro set_eqI) (case_tac "x = flow"; simp)
  qed
  have dl: "\<forall>g\<in>insert flow (set (fq_tree m)). 0 \<le> f_data_len (fq_flow m3 g) \<and> f_data_len (fq_flow m3 g) \<le> fq_mtu m"
    using core len sel(11,12) nt unfolding fq_core_def by (metis insert_iff)
  have core3: "fq_core m3"
    unfolding fq_core_def sel(1-8)
    using core srt low tree dl f(3) nt
    by (auto simp: fq_core_def sel(9) split: option.splits)
  show ?thesis
  proof (cases "fq_sending_flow m3 = None \<and> \<not> fq_schedule_job m3")
    case True
    then have "fq_previous_flow m3 = None"
      using core sel(1,2,8) by (auto simp: fq_core_def split: option.splits)
    then show ?thesis using True schedule_inv [OF core3] by (simp add: eq)
  next
    case False
    then show ?thesis using core3 by (auto simp: eq fq_inv_def)
  qed
qed

lemma busy_handler_core:
  "fq_core (upd_flow f (\<lambda>r. r\<lparr>f_handler_busy := b\<rparr>) m) = fq_core m"
proof -
  let ?m = "upd_flow f (\<lambda>r. r\<lparr>f_handler_busy := b\<rparr>) m"
  have e: "time_of ?m g = time_of m g" "f_is_queued (fq_flow ?m g) = f_is_queued (fq_flow m g)"
    "f_data_len (fq_flow ?m g) = f_data_len (fq_flow m g)" for g by simp_all
  then have t: "time_of ?m = time_of m" by auto
  show ?thesis unfolding fq_core_def t e upd_flow_simps(1-10) by (rule refl)
qed

text \<open>The charge for a packet fits in 64 bits.\<close>

lemma amount_unat:
  assumes "0 < w" "w \<le> INT_MAX" "0 \<le> len" "len \<le> INT_MAX"
  shows "int (unat (of_int w + of_int len :: u64)) = w + len"
proof -
  have "(of_int w + of_int len :: u64) = of_int (w + len)" by simp
  then show ?thesis using assms by (simp add: uint_word_of_int_eq take_bit_int_eq_self del: of_int_add)
qed

lemma output_handler_inv:
  assumes inv: "fq_inv m" and s: "fq_sending_flow m = Some flow"
  shows "fq_inv (fst (FairQueue_output_handler_done m))"
proof -
  let ?a = "of_int (fq_packet_weight m) + of_int (fq_sending_len m) :: u64"
  let ?m1 = "m\<lparr>fq_sending_flow := None, fq_previous_flow := Some flow\<rparr>"
  let ?m2 = "increment_sent_flow flow ?a ?m1"
  let ?m3 = "?m2\<lparr>fq_schedule_job := True\<rparr>"
  have core: "fq_core m" using inv by (simp add: fq_inv_def)
  have f: "flow \<in> set (fq_flows_list m)" "flow \<notin> set (fq_tree m)" "distinct (fq_flows_list m)"
    "set (fq_tree m) \<subseteq> set (fq_flows_list m)" "sorted_wrt (flow_before (time_of m)) (fq_tree m)"
    "\<forall>g\<in>set (fq_tree m). time_of m flow \<le> time_of m g"
    using core s by (auto simp: fq_core_def)
  have ex: "\<forall>g\<in>set (fq_tree m). time_of ?m2 g = time_of m g - of_nat (time_shift flow ?a ?m1) \<and>
      of_nat (time_shift flow ?a ?m1) \<le> time_of m g"
    using increment_exact(3) [of ?m1 flow "time_shift flow ?a ?m1" ?a] f by simp
  then have srt: "sorted_wrt (flow_before (time_of ?m2)) (fq_tree m)"
    using sorted_shift [OF f(5), of "of_nat (time_shift flow ?a ?m1)" "time_of ?m2"] by simp
  have other: "f_is_queued (fq_flow ?m2 g) = f_is_queued (fq_flow m g)"
    "f_data_len (fq_flow ?m2 g) = f_data_len (fq_flow m g)" for g
    using subtract_loop [OF f(3)] by (simp_all add: increment_sent_flow_def Let_def)
  have core3: "fq_core ?m3"
    using core srt f(1,2) other by (simp add: fq_core_def)
  then have "fq_inv ?m3" by (simp add: fq_inv_def)
  moreover have "fq_inv (upd_flow flow (\<lambda>r. r\<lparr>f_handler_busy := False\<rparr>) ?m3)"
    using core3 by (simp add: fq_inv_def busy_handler_core)
  ultimately show ?thesis
    using s by (simp add: FairQueue_output_handler_done_def Let_def)
qed

lemma flow_init_inv:
  assumes inv: "fq_inv m" and new: "flow \<notin> set (fq_flows_list m)"
  shows "fq_inv (PacketPassFairQueueFlow_Init flow m)"
proof -
  let ?m = "PacketPassFairQueueFlow_Init flow m"
  have core: "fq_core m" using inv by (simp add: fq_inv_def)
  have nt: "flow \<notin> set (fq_tree m)" using core new by (auto simp: fq_core_def)
  have sel: "fq_flow ?m g = fq_flow m g" if "g \<noteq> flow" for g
    using that by (simp add: PacketPassFairQueueFlow_Init_def Let_def)
  have fl: "\<not> f_is_queued (fq_flow ?m flow)" by (simp add: PacketPassFairQueueFlow_Init_def Let_def)
  have e: "fq_tree ?m = fq_tree m" "fq_flows_list ?m = fq_flows_list m @ [flow]" "fq_mtu ?m = fq_mtu m"
    "fq_packet_weight ?m = fq_packet_weight m" "fq_sending_flow ?m = fq_sending_flow m"
    "fq_previous_flow ?m = fq_previous_flow m" "fq_schedule_job ?m = fq_schedule_job m"
    "fq_sending_len ?m = fq_sending_len m" "fq_freeing ?m = fq_freeing m"
    by (simp_all add: PacketPassFairQueueFlow_Init_def Let_def)
  have "\<forall>g\<in>set (fq_tree m). time_of ?m g = time_of m g" using nt sel by metis
  moreover have "sorted_wrt (flow_before (time_of m)) (fq_tree m)" using core by (simp add: fq_core_def)
  ultimately have srt: "sorted_wrt (flow_before (time_of ?m)) (fq_tree m)" by (rule sorted_cong [rotated])
  have tree: "set (fq_tree m) = {f \<in> insert flow (set (fq_flows_list m)). f_is_queued (fq_flow ?m f)}"
  proof -
    have "set (fq_tree m) = {f \<in> set (fq_flows_list m). f_is_queued (fq_flow m f)}"
      using core by (simp add: fq_core_def)
    moreover have "f_is_queued (fq_flow ?m f) = f_is_queued (fq_flow m f)" if "f \<in> set (fq_flows_list m)" for f
      using sel [of f] new that by metis
    ultimately show ?thesis using fl by auto
  qed
  have dl: "\<forall>f\<in>set (fq_tree m). 0 \<le> f_data_len (fq_flow ?m f) \<and> f_data_len (fq_flow ?m f) \<le> fq_mtu m"
    using core nt sel by (metis fq_core_def)
  have low: "time_of ?m s \<le> time_of ?m f" if "fq_sending_flow m = Some s" "f \<in> set (fq_tree m)" for s f
  proof -
    have "s \<noteq> flow" "f \<noteq> flow" using core that new nt by (auto simp: fq_core_def)
    then show ?thesis using core that sel by (simp add: fq_core_def)
  qed
  show ?thesis
    unfolding fq_inv_def fq_core_def e
    using inv srt tree dl new low by (auto simp: fq_inv_def fq_core_def split: option.splits)
qed

lemma sorted_wrt_remove1: "sorted_wrt P xs \<Longrightarrow> sorted_wrt P (remove1 a xs)"
  by (induction xs) (auto dest: set_remove1_subset [THEN subsetD])

lemma flow_free_inv:
  assumes inv: "fq_inv m" and own: "flow \<in> set (fq_flows_list m)" and ok: "fq_freeing m \<or> fq_sending_flow m \<noteq> Some flow"
  shows "fq_inv (PacketPassFairQueueFlow_Free flow m)"
proof -
  let ?m = "PacketPassFairQueueFlow_Free flow m"
  have core: "fq_core m" using inv by (simp add: fq_inv_def)
  have q: "f_is_queued (fq_flow m flow) \<longleftrightarrow> flow \<in> set (fq_tree m)" using core own by (auto simp: fq_core_def)
  have d: "distinct (fq_tree m)" "distinct (fq_flows_list m)" using core by (simp_all add: fq_core_def)
  have e: "fq_tree ?m = remove1 flow (fq_tree m)" "fq_flows_list ?m = remove1 flow (fq_flows_list m)"
    "fq_flow ?m = fq_flow m" "fq_mtu ?m = fq_mtu m"
    "fq_packet_weight ?m = fq_packet_weight m"
    "fq_sending_flow ?m = (if fq_sending_flow m = Some flow then None else fq_sending_flow m)"
    "fq_previous_flow ?m = (if fq_previous_flow m = Some flow then None else fq_previous_flow m)"
    "fq_schedule_job ?m = fq_schedule_job m" "fq_sending_len ?m = fq_sending_len m" "fq_freeing ?m = fq_freeing m"
    using q by (simp_all add: PacketPassFairQueueFlow_Free_def Tree_Remove_def Let_def remove1_idem)
  have srt: "sorted_wrt (flow_before (time_of m)) (remove1 flow (fq_tree m))"
    using core by (simp add: fq_core_def sorted_wrt_remove1)
  show ?thesis
    unfolding fq_inv_def fq_core_def e
    using inv srt d ok by (auto simp: fq_inv_def fq_core_def split: option.splits)
qed

section \<open>Histories\<close>

datatype fq_op =
  FO_AddFlow nat | FO_FreeFlow nat | FO_Submit nat nat int | FO_OutputDone | FO_RunJob
| FO_SetBusyHandler nat bool | FO_RequestCancel nat | FO_PrepareFree

fun fq_pre :: "fq_op \<Rightarrow> PacketPassFairQueue \<Rightarrow> bool" where
  "fq_pre (FO_AddFlow f) m = (f \<notin> set (fq_flows_list m) \<and> \<not> fq_freeing m)"
| "fq_pre (FO_FreeFlow f) m = (f \<in> set (fq_flows_list m) \<and> (fq_freeing m \<or> fq_sending_flow m \<noteq> Some f))"
| "fq_pre (FO_Submit f d len) m =
     (f \<in> set (fq_flows_list m) \<and> \<not> f_is_queued (fq_flow m f) \<and> fq_sending_flow m \<noteq> Some f \<and>
      0 \<le> len \<and> len \<le> fq_mtu m \<and> \<not> fq_freeing m)"
| "fq_pre FO_OutputDone m = (fq_sending_flow m \<noteq> None \<and> \<not> fq_freeing m)"
| "fq_pre FO_RunJob m = (fq_schedule_job m \<and> \<not> fq_freeing m)"
| "fq_pre (FO_SetBusyHandler f b) m = (fq_sending_flow m = Some f \<and> \<not> fq_freeing m)"
| "fq_pre (FO_RequestCancel f) m = (fq_sending_flow m = Some f \<and> fq_use_cancel m \<and> \<not> fq_freeing m)"
| "fq_pre FO_PrepareFree m = True"

fun fq_do :: "fq_op \<Rightarrow> PacketPassFairQueue \<Rightarrow> PacketPassFairQueue \<times> fq_call list" where
  "fq_do (FO_AddFlow f) m = (PacketPassFairQueueFlow_Init f m, [])"
| "fq_do (FO_FreeFlow f) m = (PacketPassFairQueueFlow_Free f m, [])"
| "fq_do (FO_Submit f d len) m = FairQueue_input_handler_send f d len m"
| "fq_do FO_OutputDone m = FairQueue_output_handler_done m"
| "fq_do FO_RunJob m = schedule_job_handler (m\<lparr>fq_schedule_job := False\<rparr>)"
| "fq_do (FO_SetBusyHandler f b) m = (PacketPassFairQueueFlow_SetBusyHandler f b m, [])"
| "fq_do (FO_RequestCancel f) m = PacketPassFairQueueFlow_RequestCancel f m"
| "fq_do FO_PrepareFree m = (PacketPassFairQueue_PrepareFree m, [])"

definition fq_step :: "fq_op \<Rightarrow> PacketPassFairQueue \<Rightarrow> PacketPassFairQueue" where
  "fq_step op m = fst (fq_do op m)"

lemma fq_step_inv: "fq_inv m \<Longrightarrow> fq_pre op m \<Longrightarrow> fq_inv (fq_step op m)"
proof (induction op)
  case (FO_AddFlow f)
  then show ?case using flow_init_inv by (simp add: fq_step_def)
next
  case (FO_FreeFlow f)
  then show ?case using flow_free_inv by (simp add: fq_step_def)
next
  case (FO_Submit f d len)
  then show ?case using input_handler_inv by (simp add: fq_step_def)
next
  case FO_OutputDone
  then show ?case using output_handler_inv by (auto simp: fq_step_def)
next
  case FO_RunJob
  then show ?case using schedule_job_inv by (simp add: fq_step_def)
next
  case (FO_SetBusyHandler f b)
  then show ?case
    by (simp add: fq_step_def PacketPassFairQueueFlow_SetBusyHandler_def fq_inv_def busy_handler_core)
next
  case (FO_RequestCancel f)
  then show ?case by (simp add: fq_step_def PacketPassFairQueueFlow_RequestCancel_def)
next
  case FO_PrepareFree
  have "fq_core (m\<lparr>fq_freeing := True\<rparr>) = fq_core m"
    by (simp add: fq_core_def split: option.split)
  with FO_PrepareFree show ?case by (simp add: fq_step_def PacketPassFairQueue_PrepareFree_def fq_inv_def)
qed

interpretation fq: invariant_machine fq_inv fq_pre fq_step
  by unfold_locales (rule fq_step_inv)

lemma fq_init_inv:
  assumes "PacketPassFairQueue_Init mtu uc w junk = Some m" "0 \<le> mtu" "mtu \<le> INT_MAX" "0 < w" "w \<le> INT_MAX"
  shows "fq_inv m"
  using assms by (auto simp: PacketPassFairQueue_Init_def fq_inv_def fq_core_def split: if_splits)

section \<open>Properties\<close>

text \<open>C19. Through any sequence of legal operations on the fair queue, the search tree stays ordered and
  holds exactly the flows marked as queued, also when virtual times overflow and are shifted under
  it; the flow being sent is not queued and no queued flow has a smaller virtual time; and the
  scheduler is work-conserving: unless it is being taken down, a queued packet means that a packet is
  being sent or the scheduling job is pending.\<close>

theorem fair_queue_invariant:
  assumes "PacketPassFairQueue_Init mtu uc w junk = Some m0" "0 \<le> mtu" "mtu \<le> INT_MAX" "0 < w" "w \<le> INT_MAX"
    and "fq.legal ops m0"
  shows "let m = fq.run ops m0 in
     sorted_wrt (flow_before (time_of m)) (fq_tree m) \<and> distinct (fq_tree m) \<and>
     set (fq_tree m) = {f \<in> set (fq_flows_list m). f_is_queued (fq_flow m f)} \<and>
     (\<forall>s. fq_sending_flow m = Some s \<longrightarrow> s \<in> set (fq_flows_list m) - set (fq_tree m) \<and>
        (\<forall>f\<in>set (fq_tree m). time_of m s \<le> time_of m f)) \<and>
     (fq_tree m \<noteq> [] \<longrightarrow> \<not> fq_freeing m \<longrightarrow> fq_sending_flow m \<noteq> None \<or> fq_schedule_job m)"
proof -
  have "fq_inv (fq.run ops m0)" using fq.run_inv [OF fq_init_inv [OF assms(1-5)] assms(6)] .
  then show ?thesis unfolding Let_def by (auto simp: fq_inv_def fq_core_def)
qed

definition demo_fq :: PacketPassFairQueue where
  "demo_fq = the (PacketPassFairQueue_Init 1500 False 40
     (\<lambda>_. \<lparr>f_time = 0, f_is_queued = False, f_data = 0, f_data_len = 0, f_handler_busy = False\<rparr>))"

definition demo_fq_ops :: "fq_op list" where
  "demo_fq_ops = [FO_AddFlow 1, FO_AddFlow 2, FO_Submit 1 7 100, FO_Submit 2 8 50, FO_OutputDone]"

lemma demo_fq_facts:
  "PacketPassFairQueue_Init 1500 False 40
     (\<lambda>_. \<lparr>f_time = 0, f_is_queued = False, f_data = 0, f_data_len = 0, f_handler_busy = False\<rparr>) = Some demo_fq"
  "fq.legal demo_fq_ops demo_fq"
  by (simp_all add: demo_fq_def PacketPassFairQueue_Init_def demo_fq_ops_def fq_step_def
      PacketPassFairQueueFlow_Init_def Let_def FairQueue_input_handler_send_def Tree_Insert_def
      schedule_def Tree_GetFirst_def Tree_Remove_def get_current_time_def)

theorem fair_queue_invariant_witness:
  "sorted_wrt (flow_before (time_of (fq.run demo_fq_ops demo_fq))) (fq_tree (fq.run demo_fq_ops demo_fq))"
  using fair_queue_invariant [OF demo_fq_facts(1) _ _ _ _ demo_fq_facts(2)] by (simp add: Let_def)

text \<open>The scheduler picks the flow with the least virtual time, ties broken by address, and sends
  its packet: \<open>schedule\<close> hands the packet of a queued flow to the output that comes before every other
  queued flow.\<close>

theorem schedule_picks_least:
  assumes "fq_inv m" "fq_tree m \<noteq> []"
  shows "\<exists>q. fq_sending_flow (fst (schedule m)) = Some q \<and> q \<in> set (fq_tree m) \<and>
     snd (schedule m) = [FQ_Send (f_data (fq_flow m q)) (f_data_len (fq_flow m q))] \<and>
     set (fq_tree (fst (schedule m))) = set (fq_tree m) - {q} \<and>
     (\<forall>f\<in>set (fq_tree m) - {q}. flow_before (time_of m) q f)"
proof (cases "fq_tree m")
  case (Cons q qs)
  then have "q \<notin> set qs" "\<forall>f\<in>set qs. flow_before (time_of m) q f"
    using assms(1) by (simp_all add: fq_inv_def fq_core_def)
  then show ?thesis
    using Cons by (simp add: schedule_def Tree_GetFirst_def Tree_Remove_def Let_def)
qed (use assms in simp)

definition demo_fq2 :: PacketPassFairQueue where
  "demo_fq2 = fq.run demo_fq_ops demo_fq"

theorem schedule_picks_least_witness:
  "\<exists>q. fq_sending_flow (fst (schedule demo_fq2)) = Some q \<and> q \<in> set (fq_tree demo_fq2)"
proof -
  have "fq_inv demo_fq2"
    unfolding demo_fq2_def using fq.run_inv [OF fq_init_inv [OF demo_fq_facts(1)] demo_fq_facts(2)] by simp
  moreover have "fq_tree demo_fq2 \<noteq> []"
    by (simp add: demo_fq2_def demo_fq_def PacketPassFairQueue_Init_def demo_fq_ops_def fq_step_def
      PacketPassFairQueueFlow_Init_def Let_def FairQueue_input_handler_send_def Tree_Insert_def
      schedule_def Tree_GetFirst_def Tree_Remove_def get_current_time_def FairQueue_output_handler_done_def)
  ultimately show ?thesis using schedule_picks_least [of demo_fq2] by blast
qed

text \<open>Virtual time is exact although it is kept in 64 bits: when a packet is done, the time of its flow
  grows by exactly the packet weight plus the packet length, up to one common shift \<open>k\<close> that is
  subtracted from the times of all queued flows as well; neither the deliberate underflow of the
  finished flow nor any subtraction loses information.\<close>

theorem virtual_time_exact:
  assumes inv: "fq_inv m" and s: "fq_sending_flow m = Some flow"
  shows "\<exists>k. let m' = fst (FairQueue_output_handler_done m) in
     int (unat (time_of m' flow)) = int (unat (time_of m flow)) + fq_packet_weight m + fq_sending_len m - k \<and>
     (\<forall>f\<in>set (fq_tree m). int (unat (time_of m' f)) = int (unat (time_of m f)) - k)"
proof -
  let ?a = "of_int (fq_packet_weight m) + of_int (fq_sending_len m) :: u64"
  let ?m1 = "m\<lparr>fq_sending_flow := None, fq_previous_flow := Some flow\<rparr>"
  let ?m' = "fst (FairQueue_output_handler_done m)"
  have f: "flow \<in> set (fq_flows_list m)" "flow \<notin> set (fq_tree m)" "distinct (fq_flows_list m)"
    "set (fq_tree m) \<subseteq> set (fq_flows_list m)" "sorted_wrt (flow_before (time_of m)) (fq_tree m)"
    "\<forall>g\<in>set (fq_tree m). time_of m flow \<le> time_of m g"
    and a: "0 < fq_packet_weight m" "fq_packet_weight m \<le> INT_MAX" "0 \<le> fq_sending_len m" "fq_sending_len m \<le> INT_MAX"
    using inv s by (auto simp: fq_inv_def fq_core_def)
  have t: "time_of ?m' g = time_of (increment_sent_flow flow ?a ?m1) g" for g
    using s by (simp add: FairQueue_output_handler_done_def Let_def)
  let ?k = "time_shift flow ?a ?m1"
  have "int (unat (time_of (increment_sent_flow flow ?a ?m1) flow)) =
      int (unat (time_of m flow)) + int (unat ?a) - int ?k"
    "\<forall>g\<in>set (fq_tree m). int (unat (time_of (increment_sent_flow flow ?a ?m1) g)) = int (unat (time_of m g)) - int ?k"
    using increment_exact(1,2) [of ?m1 flow ?k ?a] f by simp_all
  then show ?thesis using amount_unat [OF a] t by (intro exI [of _ "int ?k"]) (simp add: Let_def)
qed

definition demo_fq3 :: PacketPassFairQueue where
  "demo_fq3 = fq.run (demo_fq_ops @ [FO_RunJob]) demo_fq"

theorem virtual_time_exact_witness:
  "\<exists>k. let m' = fst (FairQueue_output_handler_done demo_fq3) in
     int (unat (time_of m' 2)) = int (unat (time_of demo_fq3 2)) + fq_packet_weight demo_fq3 + fq_sending_len demo_fq3 - k"
proof -
  have leg: "fq.legal (demo_fq_ops @ [FO_RunJob]) demo_fq" and s: "fq_sending_flow demo_fq3 = Some 2"
    by (simp_all add: demo_fq3_def demo_fq_def PacketPassFairQueue_Init_def demo_fq_ops_def fq_step_def
      PacketPassFairQueueFlow_Init_def Let_def FairQueue_input_handler_send_def Tree_Insert_def
      schedule_def schedule_job_handler_def Tree_GetFirst_def Tree_Remove_def get_current_time_def
      FairQueue_output_handler_done_def)
  have "fq_inv demo_fq3"
    unfolding demo_fq3_def using fq.run_inv [OF fq_init_inv [OF demo_fq_facts(1)] leg] by simp
  from virtual_time_exact [OF this s] show ?thesis by (auto simp: Let_def)
qed

end
