(* ===== verification/Bavl.thy ===== *)
theory Bavl
  imports Prelude
begin

text \<open>
  The intrusive AVL tree of \<open>structure/BAVL.h\<close>. A node is identified by its address
  (\<open>'n\<close>); the value it is ordered by lies in the object that contains it, so every
  operation takes the function \<open>key\<close> that reads it. A tree is the shape the \<open>link\<close> pointers
  span, with the stored balance factors; the \<open>parent\<close> pointers of the nodes above a position are the
  list of frames to the root, and a loop that follows them pops frames. Rebalancing is the recursion of
  \<open>_BAVL_rebalance\<close> along that list. The theorems: every operation keeps the balance
  factors right and the order, insertion and removal act on the in-order sequence, lookups find
  what is there.
\<close>

section \<open>Trees and positions\<close>

text \<open>\<open>B_COMPARE\<close> of \<open>misc/compare.h\<close>, the comparison of scalar keys.\<close>

definition B_COMPARE :: "'a::linorder \<Rightarrow> 'a \<Rightarrow> int" where
  "B_COMPARE a b = (if a > b then 1 else 0) - (if a < b then 1 else 0)"

datatype 'n BAVL =
  Lf
| Nd "'n BAVL" 'n int "'n BAVL"

text \<open>A frame: the parent of a position, which side the position is on, and the other subtree.\<close>

datatype 'n frame = Frame bool 'n int "'n BAVL"

text \<open>The fields of a node; a link of a missing node is never followed by the code.\<close>

fun bal :: "'n BAVL \<Rightarrow> int" where
  "bal (Nd l n b r) = b"
| "bal Lf = 0"

fun link :: "bool \<Rightarrow> 'n BAVL \<Rightarrow> 'n BAVL" where
  "link side (Nd l n b r) = (if side then r else l)"
| "link side Lf = Lf"

fun set_link :: "bool \<Rightarrow> 'n BAVL \<Rightarrow> 'n BAVL \<Rightarrow> 'n BAVL" where
  "set_link side t (Nd l n b r) = (if side then Nd l n b t else Nd t n b r)"
| "set_link side t Lf = Lf"

fun set_bal :: "int \<Rightarrow> 'n BAVL \<Rightarrow> 'n BAVL" where
  "set_bal b (Nd l n b' r) = Nd l n b r"
| "set_bal b Lf = Lf"

fun attach :: "'n frame \<Rightarrow> 'n BAVL \<Rightarrow> 'n BAVL" where
  "attach (Frame side n b sib) t = (if side then Nd sib n b t else Nd t n b sib)"

fun plug :: "'n frame list \<Rightarrow> 'n BAVL \<Rightarrow> 'n BAVL" where
  "plug [] t = t"
| "plug (f # fs) t = plug fs (attach f t)"

fun frame_side :: "'n frame \<Rightarrow> bool" where
  "frame_side (Frame side n b sib) = side"

section \<open>Rotation and rebalancing\<close>

definition BAVL_OPTNEG :: "int \<Rightarrow> bool \<Rightarrow> int" where
  "BAVL_OPTNEG a neg = (if neg then - a else a)"

definition BAVL_rotate :: "bool \<Rightarrow> 'n BAVL \<Rightarrow> 'n BAVL" where
  "BAVL_rotate dir r = (let nr = link (\<not> dir) r in set_link dir (set_link (\<not> dir) (link dir nr) r) nr)"

text \<open>The work of \<open>_BAVL_rebalance\<close> at one node: the new subtree and the change of its height.\<close>

definition rebalance_node :: "'n BAVL \<Rightarrow> bool \<Rightarrow> int \<Rightarrow> 'n BAVL \<times> int" where
  "rebalance_node node side deltac =
     (let delta = max deltac (BAVL_OPTNEG (bal node) side) - max 0 (BAVL_OPTNEG (bal node) side);
          node = set_bal (bal node - BAVL_OPTNEG deltac side) node
      in if bal node = 2 \<or> bal node = -2 then
           let bside = (bal node = 2); bsidef = (if bside then 1 else -1); child = link bside node
           in if bal child * bsidef = 1 then
                let t = BAVL_rotate (\<not> bside) node
                in (set_bal 0 (set_link (\<not> bside) (set_bal 0 (link (\<not> bside) t)) t), delta - 1)
              else if bal child * bsidef = 0 then
                let t = BAVL_rotate (\<not> bside) node
                in (set_bal (-1 * bsidef) (set_link (\<not> bside) (set_bal (1 * bsidef) (link (\<not> bside) t)) t), delta)
              else
                let gchild = link (\<not> bside) child;
                    t = BAVL_rotate (\<not> bside) (set_link bside (BAVL_rotate bside child) node);
                    nb = - max 0 (bal gchild * bsidef) * bsidef;
                    cb = max 0 (- bal gchild * bsidef) * bsidef;
                    t = set_link (\<not> bside) (set_bal nb (link (\<not> bside) t)) t;
                    t = set_link bside (set_bal cb (link bside t)) t
                in (set_bal 0 t, delta - 1)
         else (node, delta))"

fun BAVL_rebalance :: "'n frame list \<Rightarrow> 'n BAVL \<Rightarrow> bool \<Rightarrow> int \<Rightarrow> 'n BAVL" where
  "BAVL_rebalance [] node side deltac = (if deltac = 0 then node else fst (rebalance_node node side deltac))"
| "BAVL_rebalance (f # fs) node side deltac =
     (if deltac = 0 then plug (f # fs) node
      else let (node, delta) = rebalance_node node side deltac
           in BAVL_rebalance fs (attach f node) (frame_side f) delta)"

section \<open>Operations\<close>

definition BAVL_Init :: "'n BAVL" where
  "BAVL_Init = Lf"

text \<open>The descent of \<open>BAVL_Insert\<close> from the node \<open>c\<close> at the end of the path \<open>fs\<close>;
  \<open>None\<close> when an equal value is found.\<close>

fun insert_at :: "('k \<Rightarrow> 'k \<Rightarrow> int) \<Rightarrow> ('n \<Rightarrow> 'k) \<Rightarrow> 'n \<Rightarrow> 'n frame list \<Rightarrow> 'n BAVL \<Rightarrow> 'n BAVL option" where
  "insert_at cmp key node fs Lf = None"
| "insert_at cmp key node fs (Nd l c b r) =
     (let comp = cmp (key node) (key c) in
      if comp = 0 then None
      else if comp = 1 then
        (if r = Lf then Some (BAVL_rebalance fs (Nd l c b (Nd Lf node 0 Lf)) True 1)
         else insert_at cmp key node (Frame True c b l # fs) r)
      else
        (if l = Lf then Some (BAVL_rebalance fs (Nd (Nd Lf node 0 Lf) c b r) False 1)
         else insert_at cmp key node (Frame False c b r # fs) l))"

definition BAVL_Insert :: "('k \<Rightarrow> 'k \<Rightarrow> int) \<Rightarrow> ('n \<Rightarrow> 'k) \<Rightarrow> 'n \<Rightarrow> 'n BAVL \<Rightarrow> 'n BAVL option" where
  "BAVL_Insert cmp key node t = (if t = Lf then Some (Nd Lf node 0 Lf) else insert_at cmp key node [] t)"

fun BAVL_subtree_max :: "'n \<Rightarrow> 'n BAVL \<Rightarrow> 'n" where
  "BAVL_subtree_max n Lf = n"
| "BAVL_subtree_max _ (Nd l n b r) = BAVL_subtree_max n r"

text \<open>\<open>_BAVL_swap_nodes\<close> exchanges the links, parents and balance factors of two nodes: the two
  nodes change places, everything else stays.\<close>

definition swap_nodes :: "'n \<Rightarrow> 'n \<Rightarrow> 'n BAVL \<Rightarrow> 'n BAVL" where
  "swap_nodes n1 n2 t = map_BAVL (\<lambda>x. if x = n1 then n2 else if x = n2 then n1 else x) t"

text \<open>The position of a node: the frames its \<open>parent\<close> pointers lead through, and its subtree.\<close>

fun locate :: "'n \<Rightarrow> 'n frame list \<Rightarrow> 'n BAVL \<Rightarrow> ('n frame list \<times> 'n BAVL) option" where
  "locate n fs Lf = None"
| "locate n fs (Nd l c b r) =
     (if c = n then Some (fs, Nd l c b r)
      else case locate n (Frame False c b r # fs) l of
             Some p \<Rightarrow> Some p
           | None \<Rightarrow> locate n (Frame True c b l # fs) r)"

definition remove_at :: "'n frame list \<Rightarrow> 'n BAVL \<Rightarrow> 'n BAVL" where
  "remove_at fs t =
     (let child = (if link False t \<noteq> Lf then link False t else link True t)
      in case fs of [] \<Rightarrow> child
         | f # fs \<Rightarrow> BAVL_rebalance fs (attach f child) (frame_side f) (-1))"

definition BAVL_Remove :: "'n \<Rightarrow> 'n BAVL \<Rightarrow> 'n BAVL" where
  "BAVL_Remove node t =
     (case locate node [] t of None \<Rightarrow> t
      | Some (fs, Nd l n b r) \<Rightarrow>
          if l \<noteq> Lf \<and> r \<noteq> Lf then
            (case locate node [] (swap_nodes node (BAVL_subtree_max node l) t) of
               None \<Rightarrow> t | Some (fs, u) \<Rightarrow> remove_at fs u)
          else remove_at fs (Nd l n b r)
      | Some (fs, Lf) \<Rightarrow> t)"

definition BAVL_IsEmpty :: "'n BAVL \<Rightarrow> bool" where
  "BAVL_IsEmpty t \<longleftrightarrow> t = Lf"

fun BAVL_Lookup :: "('k \<Rightarrow> 'k \<Rightarrow> int) \<Rightarrow> ('n \<Rightarrow> 'k) \<Rightarrow> 'k \<Rightarrow> 'n BAVL \<Rightarrow> 'n option" where
  "BAVL_Lookup cmp key v Lf = None"
| "BAVL_Lookup cmp key v (Nd l c b r) =
     (let comp = cmp v (key c) in
      if comp = 0 then Some c
      else if comp = 1 then (if r = Lf then Some c else BAVL_Lookup cmp key v r)
      else (if l = Lf then Some c else BAVL_Lookup cmp key v l))"

fun BAVL_LookupExact :: "('k \<Rightarrow> 'k \<Rightarrow> int) \<Rightarrow> ('n \<Rightarrow> 'k) \<Rightarrow> 'k \<Rightarrow> 'n BAVL \<Rightarrow> 'n option" where
  "BAVL_LookupExact cmp key v Lf = None"
| "BAVL_LookupExact cmp key v (Nd l c b r) =
     (let comp = cmp v (key c) in
      if comp = 0 then Some c
      else if comp = 1 then (if r = Lf then None else BAVL_LookupExact cmp key v r)
      else (if l = Lf then None else BAVL_LookupExact cmp key v l))"

fun BAVL_GetFirst :: "'n BAVL \<Rightarrow> 'n option" where
  "BAVL_GetFirst Lf = None"
| "BAVL_GetFirst (Nd l n b r) = (if l = Lf then Some n else BAVL_GetFirst l)"

fun BAVL_GetLast :: "'n BAVL \<Rightarrow> 'n option" where
  "BAVL_GetLast Lf = None"
| "BAVL_GetLast (Nd l n b r) = (if r = Lf then Some n else BAVL_GetLast r)"

text \<open>The climb of \<open>BAVL_GetNext\<close> and \<open>BAVL_GetPrev\<close> over the frames of one side.\<close>

fun climb :: "bool \<Rightarrow> 'n frame list \<Rightarrow> 'n option" where
  "climb side [] = None"
| "climb side (Frame s n b sib # fs) = (if s = side then climb side fs else Some n)"

definition BAVL_GetNext :: "'n \<Rightarrow> 'n BAVL \<Rightarrow> 'n option" where
  "BAVL_GetNext n t =
     (case locate n [] t of None \<Rightarrow> None
      | Some (fs, u) \<Rightarrow> if link True u \<noteq> Lf then BAVL_GetFirst (link True u) else climb True fs)"

definition BAVL_GetPrev :: "'n \<Rightarrow> 'n BAVL \<Rightarrow> 'n option" where
  "BAVL_GetPrev n t =
     (case locate n [] t of None \<Rightarrow> None
      | Some (fs, u) \<Rightarrow> if link False u \<noteq> Lf then BAVL_GetLast (link False u) else climb False fs)"

text \<open>\<open>BAVL_Verify\<close>: the check that the sources run under \<open>BAVL_AUTO_VERIFY\<close>; \<open>None\<close> is a failed
  assertion, otherwise the height.\<close>

fun BAVL_assert_recurser :: "('k \<Rightarrow> 'k \<Rightarrow> int) \<Rightarrow> ('n \<Rightarrow> 'k) \<Rightarrow> 'n BAVL \<Rightarrow> int option" where
  "BAVL_assert_recurser cmp key Lf = Some 0"
| "BAVL_assert_recurser cmp key (Nd l n b r) =
     (let ok = (\<lambda>t res. case t of Lf \<Rightarrow> True | Nd _ c _ _ \<Rightarrow> cmp (key c) (key n) = res) in
      if b < -1 \<or> b > 1 \<or> \<not> ok l (-1) \<or> \<not> ok r 1 then None
      else case (BAVL_assert_recurser cmp key l, BAVL_assert_recurser cmp key r) of
             (Some hl, Some hr) \<Rightarrow> if b = hr - hl then Some (max hl hr + 1) else None
           | _ \<Rightarrow> None)"

section \<open>Balance\<close>

fun inorder :: "'n BAVL \<Rightarrow> 'n list" where
  "inorder Lf = []"
| "inorder (Nd l n b r) = inorder l @ n # inorder r"

fun ht :: "'n BAVL \<Rightarrow> int" where
  "ht Lf = 0"
| "ht (Nd l n b r) = 1 + max (ht l) (ht r)"

fun avl :: "'n BAVL \<Rightarrow> bool" where
  "avl Lf = True"
| "avl (Nd l n b r) \<longleftrightarrow> b = ht r - ht l \<and> -1 \<le> b \<and> b \<le> 1 \<and> avl l \<and> avl r"

lemma ht_nonneg [simp]: "0 \<le> ht t"
  by (induction t) auto

lemma ht_0_iff: "ht t = 0 \<longleftrightarrow> t = Lf"
proof (cases t)
  case (Nd l n b r)
  have "1 + max (ht l) (ht r) \<noteq> 0" using ht_nonneg [of l] by linarith
  then show ?thesis unfolding Nd by simp
qed simp

lemma inorder_eq_Nil [simp]: "inorder t = [] \<longleftrightarrow> t = Lf"
  by (cases t) simp_all

text \<open>A node one of whose subtrees has just grown or shrunk by one.\<close>

fun changed :: "bool \<Rightarrow> int \<Rightarrow> 'n BAVL \<Rightarrow> bool" where
  "changed side d Lf = False"
| "changed side d (Nd l n b r) \<longleftrightarrow> (d = 1 \<or> d = -1) \<and> avl l \<and> avl r \<and> -1 \<le> b \<and> b \<le> 1 \<and>
     b = (ht r - (if side then d else 0)) - (ht l - (if side then 0 else d)) \<and>
     0 \<le> ht r - (if side then d else 0) \<and> 0 \<le> ht l - (if side then 0 else d)"

fun old_ht :: "bool \<Rightarrow> int \<Rightarrow> 'n BAVL \<Rightarrow> int" where
  "old_ht side d Lf = 0"
| "old_ht side d (Nd l n b r) = 1 + max (ht l - (if side then 0 else d)) (ht r - (if side then d else 0))"

text \<open>The two ways out of balance: each transformation restores the balance, and lowers the subtree by
  one unless the child was balanced.\<close>

lemma right_heavy:
  assumes "avl l" "avl r" "ht r - ht l = 2"
  shows "\<exists>rl c rb rr. r = Nd rl c rb rr \<and>
    (rb = 1 \<and> ht rr = ht l + 1 \<and> ht rl = ht l \<or> rb = 0 \<and> ht rr = ht l + 1 \<and> ht rl = ht l + 1 \<or>
     (rb = -1 \<and> ht rr = ht l \<and> (\<exists>gl g gb gr. rl = Nd gl g gb gr \<and> gb = ht gr - ht gl \<and>
        (gb = 1 \<and> ht gr = ht l \<or> gb = 0 \<and> ht gr = ht l \<or> gb = -1 \<and> ht gr = ht l - 1))))"
proof (cases r)
  case Lf
  then show ?thesis using assms ht_nonneg [of l] by simp
next
  case r: (Nd rl c rb rr)
  have rb: "rb = ht rr - ht rl" "-1 \<le> rb" "rb \<le> 1" "avl rl" "1 + max (ht rl) (ht rr) = ht l + 2"
    using assms r by auto
  consider "rb = 1" | "rb = 0" | "rb = -1" using rb by linarith
  then show ?thesis
  proof cases
    case 3
    then have h: "ht rl = ht l + 1" "ht rr = ht l" using rb by auto
    then obtain gl g gb gr where g: "rl = Nd gl g gb gr" using ht_nonneg [of l] by (cases rl) auto
    have "gb = ht gr - ht gl" "-1 \<le> gb" "gb \<le> 1" "max (ht gl) (ht gr) = ht l" using rb(4) h(1) g by auto
    then have "gb = 1 \<and> ht gr = ht l \<or> gb = 0 \<and> ht gr = ht l \<or> gb = -1 \<and> ht gr = ht l - 1" by linarith
    then show ?thesis using 3 r g h \<open>gb = ht gr - ht gl\<close> by blast
  qed (use rb r in auto)
qed

lemma left_heavy:
  assumes "avl l" "avl r" "ht r - ht l = -2"
  shows "\<exists>ll c lb lr. l = Nd ll c lb lr \<and>
    (lb = -1 \<and> ht ll = ht r + 1 \<and> ht lr = ht r \<or> lb = 0 \<and> ht ll = ht r + 1 \<and> ht lr = ht r + 1 \<or>
     (lb = 1 \<and> ht ll = ht r \<and> (\<exists>gl g gb gr. lr = Nd gl g gb gr \<and> gb = ht gr - ht gl \<and>
        (gb = -1 \<and> ht gl = ht r \<or> gb = 0 \<and> ht gl = ht r \<or> gb = 1 \<and> ht gl = ht r - 1))))"
proof (cases l)
  case Lf
  then show ?thesis using assms ht_nonneg [of r] by simp
next
  case l: (Nd ll c lb lr)
  have lb: "lb = ht lr - ht ll" "-1 \<le> lb" "lb \<le> 1" "avl lr" "1 + max (ht ll) (ht lr) = ht r + 2"
    using assms l by auto
  consider "lb = -1" | "lb = 0" | "lb = 1" using lb by linarith
  then show ?thesis
  proof cases
    case 3
    then have h: "ht lr = ht r + 1" "ht ll = ht r" using lb by auto
    then obtain gl g gb gr where g: "lr = Nd gl g gb gr" using ht_nonneg [of r] by (cases lr) auto
    have "gb = ht gr - ht gl" "-1 \<le> gb" "gb \<le> 1" "max (ht gl) (ht gr) = ht r" using lb(4) h(1) g by auto
    then have "gb = -1 \<and> ht gl = ht r \<or> gb = 0 \<and> ht gl = ht r \<or> gb = 1 \<and> ht gl = ht r - 1" by linarith
    then show ?thesis using 3 l g h \<open>gb = ht gr - ht gl\<close> by blast
  qed (use lb l in auto)
qed

lemma rebalance_node_correct:
  assumes ch: "changed side d t" and r: "rebalance_node t side d = (t', e)"
  shows "avl t' \<and> inorder t' = inorder t \<and> ht t' = old_ht side d t + e \<and> (e = 0 \<or> e = d)"
proof -
  obtain l n b r where t: "t = Nd l n b r" using ch by (cases t) auto
  have a: "avl l" "avl r" "-1 \<le> b" "b \<le> 1" "d = 1 \<or> d = -1" using ch t by simp_all
  let ?delta = "max d (BAVL_OPTNEG b side) - max 0 (BAVL_OPTNEG b side)"
  have nb: "b - BAVL_OPTNEG d side = ht r - ht l"
    using ch t by (auto simp: BAVL_OPTNEG_def split: if_splits)
  have h: "1 + max (ht l) (ht r) = old_ht side d t + ?delta" and delta: "?delta = 0 \<or> ?delta = d"
    using ch t by (auto simp: BAVL_OPTNEG_def max_def split: if_splits)
  have "ht r - ht l \<in> {-2, -1, 0, 1, 2}"
    using ch t by (auto simp: BAVL_OPTNEG_def split: if_splits)
  then consider (ok) "ht r - ht l \<in> {-1, 0, 1}" | (right) "ht r - ht l = 2" | (left) "ht r - ht l = -2" by auto
  then show ?thesis
  proof cases
    case ok
    then have "t' = Nd l n (ht r - ht l) r" "e = ?delta"
      using r t nb by (auto simp: rebalance_node_def Let_def)
    then show ?thesis using a ok h delta t by auto
  next
    case right
    have "?delta = 0 \<and> d = -1 \<or> ?delta = 1 \<and> d = 1"
      using ch t right by (auto simp: BAVL_OPTNEG_def max_def split: if_splits)
    then show ?thesis
      using right_heavy [OF a(1,2) right] r t nb right h a(1,2)
      by (auto simp: rebalance_node_def BAVL_rotate_def Let_def)
  next
    case left
    have "?delta = 0 \<and> d = -1 \<or> ?delta = 1 \<and> d = 1"
      using ch t left by (auto simp: BAVL_OPTNEG_def max_def split: if_splits)
    then show ?thesis
      using left_heavy [OF a(1,2) left] r t nb left h a(1,2)
      by (auto simp: rebalance_node_def BAVL_rotate_def Let_def)
  qed
qed

section \<open>Positions\<close>

text \<open>The in-order sequence around a position.\<close>

fun before :: "'n frame list \<Rightarrow> 'n list" where
  "before [] = []"
| "before (Frame side n b sib # fs) = before fs @ (if side then inorder sib @ [n] else [])"

fun after :: "'n frame list \<Rightarrow> 'n list" where
  "after [] = []"
| "after (Frame side n b sib # fs) = (if side then [] else n # inorder sib) @ after fs"

lemma inorder_plug: "inorder (plug fs t) = before fs @ inorder t @ after fs"
proof (induction fs arbitrary: t)
  case (Cons f fs)
  then show ?case by (cases f) simp
qed simp

text \<open>The path of a balanced tree: every frame is balanced when a subtree of height \<open>h\<close> is put at its
  end.\<close>

fun avl_path :: "'n frame list \<Rightarrow> int \<Rightarrow> bool" where
  "avl_path [] h \<longleftrightarrow> True"
| "avl_path (Frame side n b sib # fs) h \<longleftrightarrow> avl sib \<and> -1 \<le> b \<and> b \<le> 1 \<and>
     b = (if side then h - ht sib else ht sib - h) \<and> avl_path fs (1 + max h (ht sib))"

lemma avl_plug: "avl (plug fs t) \<longleftrightarrow> avl t \<and> avl_path fs (ht t)"
proof (induction fs arbitrary: t)
  case (Cons f fs)
  then show ?case by (cases f) (auto simp: max.commute)
qed simp

lemma changed_old_ht: "changed side d t \<Longrightarrow> 1 \<le> old_ht side d t"
  by (cases t) auto

lemma rebalance_correct:
  assumes "changed side d t" "avl_path fs (old_ht side d t)"
  shows "avl (BAVL_rebalance fs t side d) \<and> inorder (BAVL_rebalance fs t side d) = before fs @ inorder t @ after fs"
  using assms
proof (induction fs arbitrary: t side d)
  case Nil
  obtain t' e where r: "rebalance_node t side d = (t', e)" by fastforce
  have "d \<noteq> 0" using Nil.prems(1) by (cases t) auto
  then show ?case using rebalance_node_correct [OF Nil.prems(1) r] r by simp
next
  case (Cons f fs)
  obtain s n b sib where f: "f = Frame s n b sib" by (cases f)
  obtain t' e where r: "rebalance_node t side d = (t', e)" by fastforce
  note c = rebalance_node_correct [OF Cons.prems(1) r]
  have d: "d = 1 \<or> d = -1" using Cons.prems(1) by (cases t) auto
  let ?t = "attach f t'"
  have io: "inorder ?t = before [f] @ inorder t @ after [f]" using c f by simp
  show ?case
  proof (cases "e = 0")
    case True
    have "avl_path (f # fs) (ht t')" using Cons.prems(2) c True by simp
    then have "avl (plug fs ?t)" using avl_plug [of "f # fs" t'] c by simp
    moreover have "BAVL_rebalance (f # fs) t side d = plug fs ?t"
      using d r True by (cases fs) (auto simp: f)
    ultimately show ?thesis using io f by (auto simp: inorder_plug)
  next
    case False
    have "changed s e ?t" "old_ht s e ?t = 1 + max (old_ht side d t) (ht sib)"
      using c False Cons.prems(2) f d ht_nonneg [of t'] changed_old_ht [OF Cons.prems(1)] by (auto simp: max.commute)
    then have "avl (BAVL_rebalance fs ?t s e) \<and>
        inorder (BAVL_rebalance fs ?t s e) = before fs @ inorder ?t @ after fs"
      using Cons.prems(2) f by (intro Cons.IH) auto
    then show ?thesis using d r io f by auto
  qed
qed

lemma locate_attach:
  assumes "n \<in> set (inorder t)" "distinct (inorder (attach f t))"
  shows "locate n gs (attach f t) = locate n (f # gs) t"
proof -
  have no: "locate n hs u = None" if "n \<notin> set (inorder u)" for hs and u :: "'a BAVL"
    using that by (induction u arbitrary: hs) auto
  have yes: "locate n hs u \<noteq> None" if "n \<in> set (inorder u)" for hs and u :: "'a BAVL"
    using that
  proof (induction u arbitrary: hs)
    case (Nd l c b r)
    then show ?case using Nd.IH(1) [of "Frame False c b r # hs"]
      by (cases "locate n (Frame False c b r # hs) l") auto
  qed simp
  obtain side m b sib where f: "f = Frame side m b sib" by (cases f)
  have "n \<notin> set (inorder sib)" "m \<noteq> n" using assms by (auto simp: f split: if_splits)
  then show ?thesis using no [of sib] yes [OF assms(1), of "f # gs"] by (auto simp: f)
qed

lemma plug_append: "plug (fs @ gs) t = plug gs (plug fs t)"
  by (induction fs arbitrary: t) simp_all

text \<open>In a tree without duplicates a node has one position.\<close>

lemma locate_plug:
  assumes "distinct (inorder (plug fs (Nd l n b r)))"
  shows "locate n gs (plug fs (Nd l n b r)) = Some (fs @ gs, Nd l n b r)"
  using assms
proof (induction fs arbitrary: gs rule: rev_induct)
  case (snoc f fs)
  let ?t = "plug fs (Nd l n b r)"
  have eq: "plug (fs @ [f]) (Nd l n b r) = attach f ?t" by (simp add: plug_append)
  have d: "distinct (inorder (attach f ?t))" using snoc.prems by (simp only: eq)
  then have "distinct (inorder ?t)" by (cases f) (auto split: if_splits)
  then show ?case
    using snoc.IH [of "f # gs"] locate_attach [OF _ d, of n gs] by (simp add: eq inorder_plug)
qed simp

lemma find_position:
  assumes "n \<in> set (inorder t)"
  obtains fs l b r where "t = plug fs (Nd l n b r)"
  using assms
proof (induction t arbitrary: thesis)
  case (Nd l c b r)
  consider "n = c" | "n \<in> set (inorder l)" | "n \<in> set (inorder r)" using Nd.prems(2) by auto
  then show ?case
  proof cases
    case 1
    then show ?thesis using Nd.prems(1) [of "[]"] by simp
  next
    case 2
    then obtain fs l' b' r' where "l = plug fs (Nd l' n b' r')" using Nd.IH(1) by blast
    then show ?thesis using Nd.prems(1) [of "fs @ [Frame False c b r]"] by (simp add: plug_append)
  next
    case 3
    then obtain fs l' b' r' where "r = plug fs (Nd l' n b' r')" using Nd.IH(2) by blast
    then show ?thesis using Nd.prems(1) [of "fs @ [Frame True c b l]"] by (simp add: plug_append)
  qed
qed simp

lemma max_position:
  assumes "t \<noteq> Lf"
  obtains fs l b where "t = plug fs (Nd l (BAVL_subtree_max x t) b Lf)" "after fs = []"
  using assms
proof (induction t arbitrary: x thesis)
  case (Nd l c b r)
  show ?case
  proof (cases "r = Lf")
    case True
    then show ?thesis using Nd.prems(1) [of "[]" l b] by simp
  next
    case False
    then obtain fs l' b' where r: "r = plug fs (Nd l' (BAVL_subtree_max c r) b' Lf)" "after fs = []"
      using Nd.IH(2) by blast
    have "after (fs @ [Frame True c b l]) = after fs" for fs
      by (induction fs) (auto, metis (full_types) after.simps(2) frame.exhaust)
    then show ?thesis
      using Nd.prems(1) [of "fs @ [Frame True c b l]" l' b'] r by (simp add: plug_append)
  qed
qed simp

section \<open>Removal\<close>

lemma remove_at_correct:
  assumes one: "l = Lf \<or> r = Lf" and avl: "avl (plug fs (Nd l n b r))"
  shows "avl (remove_at fs (Nd l n b r)) \<and>
    inorder (remove_at fs (Nd l n b r)) = before fs @ inorder l @ inorder r @ after fs"
proof -
  let ?child = "if l \<noteq> Lf then l else r"
  have u: "avl (Nd l n b r)" "avl_path fs (ht (Nd l n b r))" using avl by (simp_all only: avl_plug)
  have h: "1 \<le> ht (Nd l n b r)" by (simp add: le_max_iff_disj)
  have child: "avl ?child" "ht ?child = ht (Nd l n b r) - 1" "inorder ?child = inorder l @ inorder r"
    using one u(1) by (auto simp: max_absorb1 max_absorb2)
  show ?thesis
  proof (cases fs)
    case Nil
    then show ?thesis using child one by (auto simp: remove_at_def split: if_splits)
  next
    case (Cons f fs')
    obtain side m bm sib where f: "f = Frame side m bm sib" by (cases f)
    have "changed side (-1) (attach f ?child)"
      "old_ht side (-1) (attach f ?child) = 1 + max (ht (Nd l n b r)) (ht sib)"
      using u(2) child(1,2) Cons f h by (auto simp: max.commute simp del: ht.simps(2))
    moreover have "avl_path fs' (1 + max (ht (Nd l n b r)) (ht sib))" using u(2) Cons f by simp
    ultimately have "avl (BAVL_rebalance fs' (attach f ?child) side (-1)) \<and>
        inorder (BAVL_rebalance fs' (attach f ?child) side (-1)) = before fs' @ inorder (attach f ?child) @ after fs'"
      by (intro rebalance_correct) simp_all
    then show ?thesis using Cons f child(3) by (auto simp: remove_at_def)
  qed
qed

lemma swap_plug:
  assumes d: "distinct (inorder (plug (ms @ Frame False n b r # fs) (Nd l m c Lf)))"
  shows "swap_nodes n m (plug (ms @ Frame False n b r # fs) (Nd l m c Lf)) =
    plug (ms @ Frame False m b r # fs) (Nd l n c Lf)"
proof -
  let ?f = "\<lambda>x. if x = n then m else if x = m then n else x"
  have mp: "map_BAVL ?f (plug hs t) = plug (map (map_frame ?f) hs) (map_BAVL ?f t)" for hs t
  proof (induction hs arbitrary: t)
    case (Cons h hs)
    then show ?case by (cases h) simp
  qed simp
  have tid: "map_BAVL ?f t = t" if "n \<notin> set (inorder t)" "m \<notin> set (inorder t)" for t
    using that by (induction t) auto
  have fid: "map (map_frame ?f) hs = hs" if "n \<notin> set (before hs @ after hs)" "m \<notin> set (before hs @ after hs)" for hs
    using that
  proof (induction hs)
    case (Cons h hs)
    then show ?case by (cases h) (auto simp: tid split: if_splits)
  qed simp
  have ap: "set (before (xs @ ys) @ after (xs @ ys)) = set (before xs @ after xs) \<union> set (before ys @ after ys)" for xs ys :: "'a frame list"
  proof (induction xs)
    case (Cons x xs)
    then show ?case by (cases x) auto
  qed simp
  have dd: "distinct (before (ms @ Frame False n b r # fs) @ after (ms @ Frame False n b r # fs))"
    "m \<notin> set (before (ms @ Frame False n b r # fs) @ after (ms @ Frame False n b r # fs))" "m \<notin> set (inorder l)"
    "n \<notin> set (inorder l)"
    using d ap [of ms "Frame False n b r # fs"] by (auto simp: inorder_plug)
  have ba: "before (xs @ ys) = before ys @ before xs \<and> after (xs @ ys) = after xs @ after ys" for xs ys :: "'a frame list"
  proof (induction xs)
    case (Cons x xs)
    then show ?case by (cases x) auto
  qed simp
  have n: "n \<notin> set (before ms @ after ms)" "n \<notin> set (before fs @ after fs)" "n \<notin> set (inorder r)" "n \<noteq> m"
    "m \<notin> set (before ms @ after ms)" "m \<notin> set (before fs @ after fs)" "m \<notin> set (inorder r)"
    using dd by (auto simp: ba)
  show ?thesis
    unfolding swap_nodes_def mp using n dd(3,4) by (simp add: fid tid)
qed

lemma remove1_mid: "n \<notin> set xs \<Longrightarrow> remove1 n (xs @ n # ys) = xs @ ys"
  by (simp add: remove1_append)

lemma BAVL_Remove_correct:
  assumes avl: "avl t" and d: "distinct (inorder t)" and mem: "node \<in> set (inorder t)"
  shows "avl (BAVL_Remove node t) \<and> inorder (BAVL_Remove node t) = remove1 node (inorder t)"
proof -
  obtain fs l b r where t: "t = plug fs (Nd l node b r)" by (rule find_position [OF mem])
  have loc: "locate node [] t = Some (fs, Nd l node b r)" using locate_plug [of fs l node b r "[]"] d t by simp
  show ?thesis
  proof (cases "l \<noteq> Lf \<and> r \<noteq> Lf")
    case False
    have io: "inorder t = (before fs @ inorder l) @ node # (inorder r @ after fs)" by (simp add: t inorder_plug)
    have rm: "remove1 node (inorder t) = before fs @ inorder l @ inorder r @ after fs"
      using d unfolding io by (subst remove1_mid) auto
    show ?thesis
      using remove_at_correct [of l r fs node b] False loc avl rm by (auto simp: BAVL_Remove_def t)
  next
    case True
    let ?m = "BAVL_subtree_max node l"
    obtain ms l2 c where l: "l = plug ms (Nd l2 ?m c Lf)" "after ms = []"
      using max_position [of l node] True by blast
    let ?F = "\<lambda>x. ms @ Frame False x b r # fs"
    have t2: "t = plug (?F node) (Nd l2 ?m c Lf)" using l(1) by (simp add: t plug_append)
    have sw: "swap_nodes node ?m t = plug (?F ?m) (Nd l2 node c Lf)"
      using swap_plug [of ms node b r fs l2 ?m c] d unfolding t2 [symmetric] by simp
    have io: "inorder t = (before fs @ before ms @ inorder l2) @ [?m, node] @ (inorder r @ after fs)"
      using l by (simp add: t inorder_plug) (metis append_Cons append_Nil append_assoc inorder_plug inorder.simps)
    have ios: "inorder (swap_nodes node ?m t) = (before fs @ before ms @ inorder l2) @ [node, ?m] @ (inorder r @ after fs)"
      using l(2) by (simp add: sw plug_append inorder_plug)
    have ds: "distinct (inorder (swap_nodes node ?m t))" using d unfolding io ios by auto
    have "locate node [] (swap_nodes node ?m t) = Some (?F ?m, Nd l2 node c Lf)"
      using locate_plug [of "?F ?m" l2 node c Lf "[]"] ds unfolding sw by simp
    then have eq: "BAVL_Remove node t = remove_at (?F ?m) (Nd l2 node c Lf)"
      using loc True by (simp add: BAVL_Remove_def)
    have avl': "avl (plug (?F ?m) (Nd l2 node c Lf))"
    proof -
      have "avl_path (ms @ Frame False x b r # fs) h \<longleftrightarrow> avl_path (ms @ Frame False y b r # fs) h" for x y h
      proof (induction ms arbitrary: h)
        case (Cons f ms)
        then show ?case by (cases f) auto
      qed simp
      then show ?thesis using avl unfolding t2 avl_plug by auto
    qed
    have rm: "inorder (remove_at (?F ?m) (Nd l2 node c Lf)) = remove1 node (inorder (swap_nodes node ?m t))"
      using remove_at_correct [OF _ avl'] ds unfolding sw inorder_plug by (simp add: remove1_append)
    moreover have "remove1 node (inorder (swap_nodes node ?m t)) = remove1 node (inorder t)"
      using d unfolding io ios by (simp add: remove1_append)
    ultimately show ?thesis using remove_at_correct [OF _ avl'] eq by simp
  qed
qed

section \<open>Ordered trees\<close>

text \<open>What the code relies on of a comparator: on the values \<open>ok\<close> it is a total order, and its
  result is one of -1, 0 and 1.\<close>

locale bavl_order =
  fixes cmp :: "'k \<Rightarrow> 'k \<Rightarrow> int" and ok :: "'k \<Rightarrow> bool"
  assumes cmp_sign: "ok a \<Longrightarrow> ok b \<Longrightarrow> cmp a b = -1 \<or> cmp a b = 0 \<or> cmp a b = 1"
    and cmp_eq: "ok a \<Longrightarrow> ok b \<Longrightarrow> cmp a b = 0 \<longleftrightarrow> a = b"
    and cmp_flip: "ok a \<Longrightarrow> ok b \<Longrightarrow> cmp b a = - cmp a b"
    and cmp_trans: "ok a \<Longrightarrow> ok b \<Longrightarrow> ok c \<Longrightarrow> cmp a b = -1 \<Longrightarrow> cmp b c = -1 \<Longrightarrow> cmp a c = -1"
begin

definition lt :: "('n \<Rightarrow> 'k) \<Rightarrow> 'n \<Rightarrow> 'n \<Rightarrow> bool" where
  "lt key a b \<longleftrightarrow> cmp (key a) (key b) = -1"

definition ordered :: "('n \<Rightarrow> 'k) \<Rightarrow> 'n list \<Rightarrow> bool" where
  "ordered key ns \<longleftrightarrow> sorted_wrt (lt key) ns \<and> (\<forall>n\<in>set ns. ok (key n))"

lemma ordered_append: "ordered key (xs @ ys) \<longleftrightarrow> ordered key xs \<and> ordered key ys \<and> (\<forall>x\<in>set xs. \<forall>y\<in>set ys. lt key x y)"
  by (auto simp: ordered_def sorted_wrt_append)

lemma ordered_Cons: "ordered key (x # ys) \<longleftrightarrow> ok (key x) \<and> ordered key ys \<and> (\<forall>y\<in>set ys. lt key x y)"
  by (auto simp: ordered_def)

lemma ordered_Nil [simp]: "ordered key []"
  by (simp add: ordered_def)

lemma ordered_ok: "ordered key ns \<Longrightarrow> n \<in> set ns \<Longrightarrow> ok (key n)"
  by (simp add: ordered_def)

lemma ordered_remove: "ordered key ns \<Longrightarrow> ordered key (remove1 n ns)"
proof (induction ns)
  case (Cons a ns)
  then show ?case using notin_set_remove1 [of _ ns n] by (auto simp: ordered_Cons)
qed simp

lemma ordered_keys_distinct: "ordered key ns \<Longrightarrow> distinct (map key ns)"
proof (induction ns)
  case (Cons a ns)
  have "key a \<noteq> key n" if "n \<in> set ns" for n
    using Cons.prems that cmp_eq [of "key a" "key n"] by (auto simp: ordered_Cons lt_def dest: ordered_ok)
  then show ?case using Cons by (auto simp: ordered_Cons)
qed simp

lemma ordered_distinct: "ordered key ns \<Longrightarrow> distinct ns"
  using ordered_keys_distinct distinct_map by blast

lemma ordered_cong: "ordered key ns \<Longrightarrow> (\<And>n. n \<in> set ns \<Longrightarrow> key' n = key n) \<Longrightarrow> ordered key' ns"
  by (induction ns) (auto simp: ordered_Cons lt_def)

text \<open>A value that compares greater than the node \<open>c\<close> is greater than everything on its left, and so on.\<close>

lemma left_less:
  assumes "ordered key (xs @ c # ys)" "ok v" "cmp v (key c) = 1" "x \<in> set xs"
  shows "cmp (key x) v = -1"
proof -
  have o: "ok (key x)" "ok (key c)" "cmp (key x) (key c) = -1"
    using assms by (auto simp: ordered_append ordered_Cons lt_def dest: ordered_ok)
  then show ?thesis using cmp_trans [OF o(1,2) assms(2)] cmp_flip [OF assms(2) o(2)] assms(3) by simp
qed

lemma right_greater:
  assumes "ordered key (xs @ c # ys)" "ok v" "cmp v (key c) = -1" "y \<in> set ys"
  shows "cmp v (key y) = -1"
proof -
  have o: "ok (key y)" "ok (key c)" "cmp (key c) (key y) = -1"
    using assms by (auto simp: ordered_append ordered_Cons lt_def dest: ordered_ok)
  then show ?thesis using cmp_trans [OF assms(2) o(2,1)] assms(3) by simp
qed

lemma cmp_less_neq: "ok a \<Longrightarrow> ok b \<Longrightarrow> cmp a b = -1 \<Longrightarrow> a \<noteq> b"
  using cmp_eq [of a b] by auto

lemma lookup_exact:
  assumes "ordered key (inorder t)" "ok v"
  shows "BAVL_LookupExact cmp key v t = Some n \<longleftrightarrow> n \<in> set (inorder t) \<and> key n = v"
  using assms
proof (induction t)
  case (Nd l c b r)
  have o: "ordered key (inorder l)" "ordered key (inorder r)" "ok (key c)" "ordered key (inorder l @ c # inorder r)"
    using Nd.prems by (auto simp: ordered_append ordered_Cons)
  consider (eq) "cmp v (key c) = 0" | (gt) "cmp v (key c) = 1" | (lt) "cmp v (key c) = -1"
    using cmp_sign [OF Nd.prems(2) o(3)] by auto
  then show ?case
  proof cases
    case eq
    then have v: "v = key c" using cmp_eq [OF Nd.prems(2) o(3)] by simp
    have "inj_on key (set (inorder l @ c # inorder r))"
      using ordered_keys_distinct [OF o(4)] distinct_map by blast
    then have "n \<in> set (inorder l @ c # inorder r) \<and> key n = key c \<longleftrightarrow> n = c"
      unfolding inj_on_def by (metis in_set_conv_decomp)
    then show ?thesis using eq v by auto
  next
    case gt
    have "key n \<noteq> v" if "n \<in> set (inorder l)" for n
      using left_less [OF o(4) Nd.prems(2) gt that] cmp_less_neq [OF ordered_ok [OF o(1) that] Nd.prems(2)] by blast
    moreover have "key c \<noteq> v" using gt cmp_eq [OF Nd.prems(2) o(3)] by auto
    ultimately show ?thesis using gt Nd.IH(2) [OF o(2) Nd.prems(2)] by (cases "r = Lf") auto
  next
    case lt
    have "key n \<noteq> v" if "n \<in> set (inorder r)" for n
      using right_greater [OF o(4) Nd.prems(2) lt that] cmp_less_neq [OF Nd.prems(2) ordered_ok [OF o(2) that]] by blast
    moreover have "key c \<noteq> v" using lt cmp_eq [OF Nd.prems(2) o(3)] by auto
    ultimately show ?thesis using lt Nd.IH(1) [OF o(1) Nd.prems(2)] by (cases "l = Lf") auto
  qed
qed simp

lemma lookup_none:
  assumes "ordered key (inorder t)" "ok v"
  shows "BAVL_LookupExact cmp key v t = None \<longleftrightarrow> v \<notin> key ` set (inorder t)"
proof -
  have "(\<exists>n. BAVL_LookupExact cmp key v t = Some n) \<longleftrightarrow> v \<in> key ` set (inorder t)"
    unfolding lookup_exact [OF assms] by blast
  then show ?thesis by (cases "BAVL_LookupExact cmp key v t") simp_all
qed

text \<open>\<open>node\<close> was put at its place among the nodes \<open>ns\<close> below the path \<open>fs\<close>.\<close>

definition placed :: "('n \<Rightarrow> 'k) \<Rightarrow> 'n \<Rightarrow> 'n frame list \<Rightarrow> 'n list \<Rightarrow> 'n BAVL \<Rightarrow> bool" where
  "placed key node fs ns t' \<longleftrightarrow> avl t' \<and> (\<exists>xs ys. ns = xs @ ys \<and> inorder t' = before fs @ xs @ node # ys @ after fs \<and>
     (\<forall>x\<in>set xs. lt key x node) \<and> (\<forall>y\<in>set ys. lt key node y))"

lemma placedI:
  "avl t' \<Longrightarrow> ns = xs @ ys \<Longrightarrow> inorder t' = before fs @ xs @ node # ys @ after fs \<Longrightarrow>
   \<forall>x\<in>set xs. lt key x node \<Longrightarrow> \<forall>y\<in>set ys. lt key node y \<Longrightarrow> placed key node fs ns t'"
  unfolding placed_def by blast

lemma placedE:
  assumes "placed key node fs ns t'"
  obtains xs ys where "avl t'" "ns = xs @ ys" "inorder t' = before fs @ xs @ node # ys @ after fs"
    "\<forall>x\<in>set xs. lt key x node" "\<forall>y\<in>set ys. lt key node y"
  using assms unfolding placed_def by blast

lemma insert_at_correct:
  assumes "t \<noteq> Lf" "avl t" "avl_path fs (ht t)" "ordered key (inorder t)" "ok (key node)"
  shows "case insert_at cmp key node fs t of
      None \<Rightarrow> key node \<in> key ` set (inorder t)
    | Some t' \<Rightarrow> placed key node fs (inorder t) t'"
  using assms
proof (induction t arbitrary: fs)
  case (Nd l c b r)
  have o: "ordered key (inorder l)" "ordered key (inorder r)" "ok (key c)" "ordered key (inorder l @ c # inorder r)"
    using Nd.prems by (auto simp: ordered_append ordered_Cons)
  have a: "avl l" "avl r" "b = ht r - ht l" "-1 \<le> b" "b \<le> 1" "avl_path fs (1 + max (ht l) (ht r))"
    using Nd.prems by auto
  consider (eq) "cmp (key node) (key c) = 0" | (gt) "cmp (key node) (key c) = 1" | (less) "cmp (key node) (key c) = -1"
    using cmp_sign [OF Nd.prems(5) o(3)] by auto
  then show ?case
  proof cases
    case eq
    then have "key node = key c" using cmp_eq [OF Nd.prems(5) o(3)] by simp
    then show ?thesis using eq by simp
  next
    case gt
    have below: "\<forall>x\<in>set (inorder l @ [c]). lt key x node"
      using left_less [OF o(4) Nd.prems(5) gt] cmp_flip [OF Nd.prems(5) o(3)] gt by (auto simp: lt_def)
    show ?thesis
    proof (cases "r = Lf")
      case True
      let ?t = "Nd l c b (Nd Lf node 0 Lf)"
      have "changed True 1 ?t" "avl_path fs (old_ht True 1 ?t)" using a True by auto
      note rb = rebalance_correct [OF this]
      have "placed key node fs (inorder l @ [c]) (BAVL_rebalance fs ?t True 1)"
        by (rule placedI [of _ _ "inorder l @ [c]" "[]"]) (use rb below in simp_all)
      then show ?thesis using gt True by simp
    next
      case False
      let ?fs = "Frame True c b l # fs"
      have ap: "avl_path ?fs (ht r)" using a by (simp add: max.commute)
      have eq: "insert_at cmp key node fs (Nd l c b r) = insert_at cmp key node ?fs r" using gt False by simp
      note ih = Nd.IH(2) [OF False a(2) ap o(2) Nd.prems(5)]
      show ?thesis
      proof (cases "insert_at cmp key node ?fs r")
        case None
        then show ?thesis using ih eq by auto
      next
        case (Some t')
        with ih have "placed key node ?fs (inorder r) t'" by simp
        then obtain xs ys where x: "avl t'" "inorder r = xs @ ys" "inorder t' = before ?fs @ xs @ node # ys @ after ?fs"
          "\<forall>x\<in>set xs. lt key x node" "\<forall>y\<in>set ys. lt key node y" by (rule placedE)
        have "placed key node fs (inorder l @ c # inorder r) t'"
          by (rule placedI [of _ _ "inorder l @ c # xs" ys]) (use x below in auto)
        then show ?thesis using eq Some by simp
      qed
    qed
  next
    case less
    have above: "\<forall>y\<in>set (c # inorder r). lt key node y"
      using right_greater [OF o(4) Nd.prems(5) less] less by (auto simp: lt_def)
    show ?thesis
    proof (cases "l = Lf")
      case True
      let ?t = "Nd (Nd Lf node 0 Lf) c b r"
      have "changed False 1 ?t" "avl_path fs (old_ht False 1 ?t)" using a True by auto
      note rb = rebalance_correct [OF this]
      have "placed key node fs (c # inorder r) (BAVL_rebalance fs ?t False 1)"
        by (rule placedI [of _ _ "[]" "c # inorder r"]) (use rb above in simp_all)
      then show ?thesis using less True by simp
    next
      case False
      let ?fs = "Frame False c b r # fs"
      have ap: "avl_path ?fs (ht l)" using a by simp
      have eq: "insert_at cmp key node fs (Nd l c b r) = insert_at cmp key node ?fs l" using less False by simp
      note ih = Nd.IH(1) [OF False a(1) ap o(1) Nd.prems(5)]
      show ?thesis
      proof (cases "insert_at cmp key node ?fs l")
        case None
        then show ?thesis using ih eq by auto
      next
        case (Some t')
        with ih have "placed key node ?fs (inorder l) t'" by simp
        then obtain xs ys where x: "avl t'" "inorder l = xs @ ys" "inorder t' = before ?fs @ xs @ node # ys @ after ?fs"
          "\<forall>x\<in>set xs. lt key x node" "\<forall>y\<in>set ys. lt key node y" by (rule placedE)
        have "placed key node fs (inorder l @ c # inorder r) t'"
          by (rule placedI [of _ _ xs "ys @ c # inorder r"]) (use x above in auto)
        then show ?thesis using eq Some by simp
      qed
    qed
  qed
qed simp

text \<open>A well-formed index: balanced, in order.\<close>

definition index_ok :: "('n \<Rightarrow> 'k) \<Rightarrow> 'n BAVL \<Rightarrow> bool" where
  "index_ok key t \<longleftrightarrow> avl t \<and> ordered key (inorder t)"

lemma index_sorted: "index_ok key t \<Longrightarrow> sorted_wrt (\<lambda>a b. cmp (key a) (key b) = -1) (inorder t)"
  by (simp add: index_ok_def ordered_def lt_def [abs_def])

lemma index_cong:
  "index_ok key t \<Longrightarrow> (\<And>n. n \<in> set (inorder t) \<Longrightarrow> key' n = key n) \<Longrightarrow> index_ok key' t"
  using ordered_cong by (auto simp: index_ok_def)

lemma index_distinct: "index_ok key t \<Longrightarrow> distinct (inorder t)"
  using ordered_distinct by (auto simp: index_ok_def)

lemma index_key_ok: "index_ok key t \<Longrightarrow> n \<in> set (inorder t) \<Longrightarrow> ok (key n)"
  by (simp add: index_ok_def ordered_def)

lemma index_inj: "index_ok key t \<Longrightarrow> inj_on key (set (inorder t))"
  using ordered_keys_distinct distinct_map by (auto simp: index_ok_def)

lemma index_Init: "index_ok key BAVL_Init"
  by (simp add: index_ok_def BAVL_Init_def)

lemma index_Insert:
  assumes ix: "index_ok key t" and k: "ok (key node)"
  shows "BAVL_Insert cmp key node t = None \<longleftrightarrow> key node \<in> key ` set (inorder t)"
    and "BAVL_Insert cmp key node t = Some t' \<Longrightarrow> index_ok key t' \<and>
      (\<exists>xs ys. inorder t = xs @ ys \<and> inorder t' = xs @ node # ys)"
proof -
  have av: "avl t" and o: "ordered key (inorder t)" using ix by (simp_all add: index_ok_def)
  have main: "case BAVL_Insert cmp key node t of None \<Rightarrow> key node \<in> key ` set (inorder t)
    | Some t' \<Rightarrow> placed key node [] (inorder t) t'"
  proof (cases "t = Lf")
    case True
    have "placed key node [] [] (Nd Lf node 0 Lf)" by (rule placedI [of _ _ "[]" "[]"]) simp_all
    then show ?thesis using True by (simp add: BAVL_Insert_def)
  next
    case False
    from insert_at_correct [OF this av _ o k, of "[]"]
    show ?thesis using False by (simp add: BAVL_Insert_def)
  qed
  show "BAVL_Insert cmp key node t = Some t' \<Longrightarrow> index_ok key t' \<and>
      (\<exists>xs ys. inorder t = xs @ ys \<and> inorder t' = xs @ node # ys)"
  proof -
    assume "BAVL_Insert cmp key node t = Some t'"
    then obtain xs ys where x: "avl t'" "inorder t = xs @ ys" "inorder t' = xs @ node # ys"
      "\<forall>x\<in>set xs. lt key x node" "\<forall>y\<in>set ys. lt key node y"
      using main by (auto elim: placedE)
    then have "ordered key (inorder t')" using o k by (auto simp: ordered_append ordered_Cons)
    then show ?thesis using x by (auto simp: index_ok_def)
  qed
  have "key node \<notin> key ` set (inorder t)" if s: "BAVL_Insert cmp key node t = Some t'" for t'
  proof -
    obtain xs ys where x: "inorder t = xs @ ys" "\<forall>x\<in>set xs. lt key x node" "\<forall>y\<in>set ys. lt key node y"
      using main s by (auto elim: placedE)
    then show ?thesis using cmp_eq [OF k k] by (fastforce simp: lt_def)
  qed
  then show "BAVL_Insert cmp key node t = None \<longleftrightarrow> key node \<in> key ` set (inorder t)"
    using main by (cases "BAVL_Insert cmp key node t") auto
qed

lemma index_Remove:
  assumes "index_ok key t" "node \<in> set (inorder t)"
  shows "index_ok key (BAVL_Remove node t) \<and> inorder (BAVL_Remove node t) = remove1 node (inorder t)"
  using BAVL_Remove_correct [of t node] assms ordered_distinct ordered_remove by (fastforce simp: index_ok_def)

lemma index_lookup:
  assumes "index_ok key t" "ok v"
  shows "BAVL_LookupExact cmp key v t = Some n \<longleftrightarrow> n \<in> set (inorder t) \<and> key n = v"
    and "BAVL_LookupExact cmp key v t = None \<longleftrightarrow> v \<notin> key ` set (inorder t)"
proof -
  have "ordered key (inorder t)" using assms(1) by (simp add: index_ok_def)
  then show "BAVL_LookupExact cmp key v t = Some n \<longleftrightarrow> n \<in> set (inorder t) \<and> key n = v"
    "BAVL_LookupExact cmp key v t = None \<longleftrightarrow> v \<notin> key ` set (inorder t)"
    using assms(2) by (rule lookup_exact, rule lookup_none)
qed

text \<open>The self-check of the sources never fails on a well-formed index.\<close>

lemma index_Verify:
  assumes "index_ok key t"
  shows "BAVL_assert_recurser cmp key t = Some (ht t)"
  using assms
proof (induction t)
  case (Nd l n b r)
  have i: "index_ok key l" "index_ok key r" "b = ht r - ht l" "-1 \<le> b" "b \<le> 1" "ok (key n)"
    "\<forall>x\<in>set (inorder l). lt key x n" "\<forall>y\<in>set (inorder r). lt key n y"
    using Nd.prems by (auto simp: index_ok_def ordered_append ordered_Cons)
  have "cmp (key c) (key n) = 1" if "c \<in> set (inorder r)" for c
  proof -
    have "ordered key (inorder r)" using i(2) by (simp add: index_ok_def)
    then have "ok (key c)" using that by (rule ordered_ok)
    then show ?thesis using i(8) that cmp_flip [OF i(6)] by (simp add: lt_def)
  qed
  then show ?case
    using i Nd.IH by (auto simp: Let_def lt_def max.commute split: BAVL.splits)
qed simp

end

section \<open>Height and neighbours\<close>

lemma avl_size: "avl t \<Longrightarrow> 2 ^ (nat (ht t) div 2) \<le> length (inorder t) + 1"
proof (induction "nat (ht t)" arbitrary: t rule: less_induct)
  case less
  show ?case
  proof (cases t)
    case (Nd l n b r)
    let ?h = "nat (ht t)"
    have a: "avl l" "avl r" "ht r - ht l \<ge> -1" "ht r - ht l \<le> 1" "ht t = 1 + max (ht l) (ht r)"
      using less.prems Nd by auto
    have nn: "0 \<le> ht l" "0 \<le> ht r" by simp_all
    have lt: "nat (ht l) < ?h" "nat (ht r) < ?h" "?h - 2 \<le> nat (ht l)" "?h - 2 \<le> nat (ht r)" using a nn by linarith+
    have mono: "2 ^ ((?h - 2) div 2) \<le> (2::nat) ^ (nat (ht u) div 2)" if "?h - 2 \<le> nat (ht u)" for u :: "'a BAVL"
      using that by (intro power_increasing div_le_mono) simp_all
    have "2 ^ ((?h - 2) div 2) \<le> length (inorder l) + 1" "2 ^ ((?h - 2) div 2) \<le> length (inorder r) + 1"
      using order_trans [OF mono [OF lt(3)] less.hyps [OF lt(1) a(1)]]
        order_trans [OF mono [OF lt(4)] less.hyps [OF lt(2) a(2)]] by simp_all
    moreover have "2 ^ (?h div 2) \<le> 2 * (2::nat) ^ ((?h - 2) div 2)"
    proof (cases "?h < 2")
      case False
      then have "?h div 2 = Suc ((?h - 2) div 2)" by simp
      then show ?thesis by simp
    qed (simp add: div_less)
    ultimately show ?thesis using Nd by simp
  qed simp
qed

lemma first_is_hd: "t \<noteq> Lf \<Longrightarrow> BAVL_GetFirst t = Some (hd (inorder t))"
  by (induction t) (auto simp: hd_append)

lemma last_is_last: "t \<noteq> Lf \<Longrightarrow> BAVL_GetLast t = Some (last (inorder t))"
  by (induction t) auto

lemma climb_after: "climb True fs = (case after fs of [] \<Rightarrow> None | x # _ \<Rightarrow> Some x)"
proof (induction fs)
  case (Cons f fs)
  then show ?case by (cases f) simp
qed simp

lemma climb_before: "climb False fs = (if before fs = [] then None else Some (last (before fs)))"
proof (induction fs)
  case (Cons f fs)
  then show ?case by (cases f) auto
qed simp

lemma neighbours:
  assumes d: "distinct (inorder t)" and io: "inorder t = xs @ n # ys"
  shows "BAVL_GetNext n t = (case ys of [] \<Rightarrow> None | y # _ \<Rightarrow> Some y)"
    and "BAVL_GetPrev n t = (if xs = [] then None else Some (last xs))"
proof -
  have "n \<in> set (inorder t)" using io by simp
  then obtain fs l b r where t: "t = plug fs (Nd l n b r)" by (rule find_position)
  have loc: "locate n [] t = Some (fs, Nd l n b r)" using locate_plug [of fs l n b r "[]"] d t by simp
  have "(before fs @ inorder l) @ n # (inorder r @ after fs) = xs @ n # ys" using io by (simp add: t inorder_plug)
  moreover have "n \<notin> set (before fs @ inorder l)" "n \<notin> set (inorder r @ after fs)" using d by (auto simp: t inorder_plug)
  ultimately have eq: "xs = before fs @ inorder l" "ys = inorder r @ after fs"
    using append_Cons_eq_iff [of n "before fs @ inorder l" "inorder r @ after fs" xs ys] by simp_all
  show "BAVL_GetNext n t = (case ys of [] \<Rightarrow> None | y # _ \<Rightarrow> Some y)"
  proof (cases "r = Lf")
    case False
    then show ?thesis
      using loc eq first_is_hd [OF False] by (cases "inorder r") (simp_all add: BAVL_GetNext_def)
  qed (use loc eq in \<open>simp add: BAVL_GetNext_def climb_after\<close>)
  show "BAVL_GetPrev n t = (if xs = [] then None else Some (last xs))"
    using loc eq last_is_last [of l] by (cases "l = Lf") (simp_all add: BAVL_GetPrev_def climb_before)
qed

section \<open>Histories of a tree\<close>

text \<open>A tree is used by inserting and removing nodes; a node is removed only while it is in the tree.
  An insertion that fails leaves the tree as it was.\<close>

datatype 'n bavl_op = BInsert 'n | BRemove 'n

fun bavl_step :: "('k \<Rightarrow> 'k \<Rightarrow> int) \<Rightarrow> ('n \<Rightarrow> 'k) \<Rightarrow> 'n bavl_op \<Rightarrow> 'n BAVL \<Rightarrow> 'n BAVL" where
  "bavl_step cmp key (BInsert n) t = (case BAVL_Insert cmp key n t of None \<Rightarrow> t | Some t' \<Rightarrow> t')"
| "bavl_step cmp key (BRemove n) t = BAVL_Remove n t"

fun bavl_pre :: "'n bavl_op \<Rightarrow> 'n BAVL \<Rightarrow> bool" where
  "bavl_pre (BInsert n) t = True"
| "bavl_pre (BRemove n) t = (n \<in> set (inorder t))"

text \<open>The abstract counterpart: a set of nodes with pairwise different keys.\<close>

fun set_step :: "('n \<Rightarrow> 'k) \<Rightarrow> 'n bavl_op \<Rightarrow> 'n set \<Rightarrow> 'n set" where
  "set_step key (BInsert n) s = (if key n \<in> key ` s then s else insert n s)"
| "set_step key (BRemove n) s = s - {n}"

fun bavl_legal :: "('k \<Rightarrow> 'k \<Rightarrow> int) \<Rightarrow> ('n \<Rightarrow> 'k) \<Rightarrow> 'n bavl_op list \<Rightarrow> 'n BAVL \<Rightarrow> bool" where
  "bavl_legal cmp key [] t = True"
| "bavl_legal cmp key (op # ops) t \<longleftrightarrow> bavl_pre op t \<and> bavl_legal cmp key ops (bavl_step cmp key op t)"

context bavl_order
begin

lemma step_refines:
  assumes ix: "index_ok key t" and k: "\<forall>n. ok (key n)" and pre: "bavl_pre op t"
  shows "index_ok key (bavl_step cmp key op t) \<and>
    set (inorder (bavl_step cmp key op t)) = set_step key op (set (inorder t))"
proof (cases op)
  case (BInsert n)
  note i = index_Insert [OF ix, of n]
  show ?thesis
  proof (cases "BAVL_Insert cmp key n t")
    case None
    then show ?thesis using i(1) k ix BInsert by simp
  next
    case (Some t')
    then have "key n \<notin> key ` set (inorder t)" using i(1) k by auto
    then show ?thesis using i(2) [OF _ Some] k BInsert Some by auto
  qed
next
  case (BRemove n)
  have "distinct (inorder t)" using ix ordered_distinct by (auto simp: index_ok_def)
  then show ?thesis using index_Remove [OF ix, of n] pre BRemove by simp
qed

lemma run_refines:
  assumes "index_ok key t" "\<forall>n. ok (key n)" "bavl_legal cmp key ops t"
  shows "index_ok key (fold (bavl_step cmp key) ops t) \<and>
    set (inorder (fold (bavl_step cmp key) ops t)) = fold (set_step key) ops (set (inorder t))"
  using assms(1,3)
proof (induction ops arbitrary: t)
  case (Cons op ops)
  then show ?case using step_refines [OF Cons.prems(1) assms(2), of op] by simp
qed simp

end

text \<open>Comparing scalars with \<open>B_COMPARE\<close> is such an order.\<close>

interpretation scalar: bavl_order "B_COMPARE :: 'a::linorder \<Rightarrow> 'a \<Rightarrow> int" "\<lambda>_. True"
  by unfold_locales (auto simp: B_COMPARE_def split: if_splits)

section \<open>Properties\<close>

text \<open>C18. The tree implements a set of nodes with different keys: after any sequence of insertions and
  removals, starting from the empty tree and with any total order as comparator, the tree holds exactly the
  nodes of the set, in order, its stored balance factors are the true ones (the self-check of the
  sources, run with assertions on, would pass), and a lookup finds a node exactly when its key is in
  the set.\<close>

theorem bavl_refines_set:
  assumes "bavl_order cmp ok" "\<forall>n. ok (key n)" "bavl_legal cmp key ops BAVL_Init"
  shows "let t = fold (bavl_step cmp key) ops BAVL_Init; s = fold (set_step key) ops {} in
    set (inorder t) = s \<and> sorted_wrt (\<lambda>a b. cmp (key a) (key b) = -1) (inorder t) \<and>
    BAVL_assert_recurser cmp key t = Some (ht t) \<and>
    (\<forall>n. BAVL_LookupExact cmp key (key n) t = Some n \<longleftrightarrow> n \<in> s) \<and>
    (\<forall>n. BAVL_LookupExact cmp key (key n) t = None \<longleftrightarrow> key n \<notin> key ` s)"
proof -
  note run = bavl_order.run_refines [OF assms(1) bavl_order.index_Init [OF assms(1)] assms(2,3)]
  let ?t = "fold (bavl_step cmp key) ops BAVL_Init"
  have ix: "bavl_order.index_ok cmp ok key ?t" and s: "set (inorder ?t) = fold (set_step key) ops {}"
    using run by (simp_all add: BAVL_Init_def)
  have srt: "sorted_wrt (\<lambda>a b. cmp (key a) (key b) = -1) (inorder ?t)"
    by (rule bavl_order.index_sorted [OF assms(1) ix])
  have lk: "BAVL_LookupExact cmp key (key n) ?t = Some n \<longleftrightarrow> n \<in> set (inorder ?t)"
    "BAVL_LookupExact cmp key (key n) ?t = None \<longleftrightarrow> key n \<notin> key ` set (inorder ?t)" for n
    using bavl_order.index_lookup [OF assms(1) ix] assms(2) by auto
  show ?thesis
    using srt lk bavl_order.index_Verify [OF assms(1) ix] by (simp add: Let_def flip: s)
qed

theorem bavl_refines_set_witness:
  "let ops = [BInsert 5, BInsert 3, BInsert 4, BRemove 5]; t = fold (bavl_step B_COMPARE (\<lambda>n::int. n)) ops BAVL_Init in
     set (inorder t) = {3, 4} \<and> BAVL_LookupExact B_COMPARE (\<lambda>n. n) 4 t = Some 4"
proof -
  let ?ops = "[BInsert 5, BInsert 3, BInsert 4, BRemove (5 :: int)]"
  have "bavl_legal B_COMPARE (\<lambda>n. n) ?ops BAVL_Init" by code_simp
  moreover have "fold (set_step (\<lambda>n. n)) ?ops {} = {3, 4 :: int}" by auto
  ultimately show ?thesis
    using bavl_refines_set [OF scalar.bavl_order_axioms, of "\<lambda>n. n" ?ops] by (simp add: Let_def)
qed



text \<open>Walking the tree with \<open>BAVL_GetFirst\<close> and \<open>BAVL_GetNext\<close> (or backwards with \<open>BAVL_GetLast\<close> and
  \<open>BAVL_GetPrev\<close>) visits the nodes in order, each once, and ends: the next of a node is the one
  after it in the in-order sequence, and none after the last.\<close>

theorem bavl_walk:
  assumes "distinct (inorder t)" "inorder t = xs @ n # ys"
  shows "BAVL_GetNext n t = (case ys of [] \<Rightarrow> None | y # _ \<Rightarrow> Some y) \<and>
    BAVL_GetPrev n t = (if xs = [] then None else Some (last xs)) \<and>
    BAVL_GetFirst t = Some (hd (xs @ [n])) \<and> BAVL_GetLast t = Some (last (n # ys))"
proof -
  have ne: "t \<noteq> Lf" using assms(2) by auto
  have "hd (inorder t) = hd (xs @ [n])" "last (inorder t) = last (n # ys)"
    unfolding assms(2) by (cases xs; simp)+
  then show ?thesis using neighbours [OF assms] first_is_hd [OF ne] last_is_last [OF ne] by simp
qed

theorem bavl_walk_witness:
  "BAVL_GetNext (3::nat) (Nd (Nd Lf 3 0 Lf) 4 0 (Nd Lf 7 0 Lf)) = Some 4 \<and>
   BAVL_GetPrev (3::nat) (Nd (Nd Lf 3 0 Lf) 4 0 (Nd Lf 7 0 Lf)) = None"
  using bavl_walk [of "Nd (Nd Lf 3 0 Lf) 4 0 (Nd Lf 7 0 Lf)" "[]" "3::nat" "[4, 7]"] by simp

end
