(* ===== verification/NetAddr.thy ===== *)
theory NetAddr
  imports Bavl
begin

text \<open>
  Sizes with an overflow mark (\<open>misc/bsize.h\<close>) and network addresses (\<open>system/BAddr.h\<close>), with the order on
  addresses that indexes connections. The comparators used for indexes meet the contract of the AVL
  tree (\<open>bavl_order\<close>).
\<close>

section \<open>Sizes and addresses\<close>

text \<open>\<open>bsize_t\<close>: \<open>None\<close> is the overflow mark. \<open>SIZE_MAX\<close> of the 32-bit targets is used.\<close>

abbreviation SIZE_MAX :: nat where "SIZE_MAX \<equiv> 4294967295"

definition bsize_fromsize :: "nat \<Rightarrow> nat option" where
  "bsize_fromsize v = Some v"

definition bsize_add :: "nat option \<Rightarrow> nat option \<Rightarrow> nat option" where
  "bsize_add s1 s2 =
     (case (s1, s2) of (Some a, Some b) \<Rightarrow> if b > SIZE_MAX - a then None else Some (a + b) | _ \<Rightarrow> None)"

definition bsize_max :: "nat option \<Rightarrow> nat option \<Rightarrow> nat option" where
  "bsize_max s1 s2 =
     (case (s1, s2) of (Some a, Some b) \<Rightarrow> Some (max a b) | _ \<Rightarrow> None)"

definition bsize_mul :: "nat option \<Rightarrow> nat option \<Rightarrow> nat option" where
  "bsize_mul s1 s2 =
     (case (s1, s2) of (Some a, Some b) \<Rightarrow> if a \<noteq> 0 \<and> b > SIZE_MAX div a then None else Some (a * b) | _ \<Rightarrow> None)"

definition bsize_fromint :: "int \<Rightarrow> nat option" where
  "bsize_fromint v = (if v < 0 \<or> v > int SIZE_MAX then None else Some (nat v))"

definition bsize_toint :: "nat option \<Rightarrow> int option" where
  "bsize_toint s = (case s of None \<Rightarrow> None | Some v \<Rightarrow> if int v > INT_MAX then None else Some (int v))"

text \<open>\<open>BAddr\<close>: addresses and ports as the words stored in memory (network byte order).\<close>

datatype BAddr =
  BAddr_None
| BAddr_IPv4 u32 u16
| BAddr_IPv6 "byte list" u16

lemma bsize_simps [simp]:
  "bsize_fromsize n = Some n"
  "a + b \<le> SIZE_MAX \<Longrightarrow> bsize_add (Some a) (Some b) = Some (a + b)"
  "bsize_max (Some a) (Some b) = Some (max a b)"
  "n \<le> 255 \<Longrightarrow> bsize_mul (Some n) (Some (Suc 0)) = Some n"
  by (auto simp: bsize_fromsize_def bsize_add_def bsize_max_def bsize_mul_def div_eq_0_iff)

section \<open>Comparing addresses\<close>

fun BAddr_type :: "BAddr \<Rightarrow> int" where
  "BAddr_type BAddr_None = 0"
| "BAddr_type (BAddr_IPv4 ip port) = 1"
| "BAddr_type (BAddr_IPv6 ip port) = 2"

text \<open>\<open>memcmp\<close>: the first bytes that differ decide.\<close>

fun memcmp :: "byte list \<Rightarrow> byte list \<Rightarrow> int" where
  "memcmp (x # xs) (y # ys) = (if x = y then memcmp xs ys else int (unat x) - int (unat y))"
| "memcmp _ _ = 0"

definition BAddr_CompareOrder :: "BAddr \<Rightarrow> BAddr \<Rightarrow> int" where
  "BAddr_CompareOrder addr1 addr2 =
     (let cmp = B_COMPARE (BAddr_type addr1) (BAddr_type addr2) in
      if cmp \<noteq> 0 then cmp
      else case (addr1, addr2) of
        (BAddr_IPv4 ip1 port1, BAddr_IPv4 ip2 port2) \<Rightarrow>
          (let cmp = B_COMPARE (hton32 ip1) (hton32 ip2) in
           if cmp \<noteq> 0 then cmp else B_COMPARE (ntoh16 port1) (ntoh16 port2))
      | (BAddr_IPv6 ip1 port1, BAddr_IPv6 ip2 port2) \<Rightarrow>
          (let cmp = memcmp ip1 ip2 in
           if cmp \<noteq> 0 then B_COMPARE cmp 0 else B_COMPARE (ntoh16 port1) (ntoh16 port2))
      | _ \<Rightarrow> 0)"

definition BAddr_Compare :: "BAddr \<Rightarrow> BAddr \<Rightarrow> bool" where
  "BAddr_Compare addr1 addr2 \<longleftrightarrow>
     (case (addr1, addr2) of
        (BAddr_IPv4 ip1 port1, BAddr_IPv4 ip2 port2) \<Rightarrow> ip1 = ip2 \<and> port1 = port2
      | (BAddr_IPv6 ip1 port1, BAddr_IPv6 ip2 port2) \<Rightarrow> memcmp ip1 ip2 = 0 \<and> port1 = port2
      | _ \<Rightarrow> False)"

text \<open>An address as it occurs in memory: an IPv6 address has 16 bytes.\<close>

fun addr_wf :: "BAddr \<Rightarrow> bool" where
  "addr_wf (BAddr_IPv6 ip port) \<longleftrightarrow> length ip = 16"
| "addr_wf _ \<longleftrightarrow> True"

lemma store_load32: "store32 (load32 [a, b, c, d]) = [a, b, c, d]"
  by (auto simp: store32_def bit_simps intro!: bit_word_eqI)

lemma reverse32_involution [simp]: "badvpn_reverse32 (badvpn_reverse32 x) = x"
proof -
  have "store32 (badvpn_reverse32 x) = rev (store32 x)"
    by (simp add: badvpn_reverse32_def store32_def [of x] store_load32 del: load32.simps)
  then show ?thesis by (simp add: badvpn_reverse32_def del: load32.simps)
qed

lemma reverse32_inj [simp]: "badvpn_reverse32 x = badvpn_reverse32 y \<longleftrightarrow> x = y"
  by (metis reverse32_involution)

lemma memcmp_flip: "length xs = length ys \<Longrightarrow> memcmp ys xs = - memcmp xs ys"
  by (induction xs ys rule: list_induct2) auto

lemma memcmp_self [simp]: "memcmp xs xs = 0"
  by (induction xs) simp_all

lemma memcmp_0: "length xs = length ys \<Longrightarrow> memcmp xs ys = 0 \<longleftrightarrow> xs = ys"
  by (induction xs ys rule: list_induct2) (auto simp: word_uint_eq_iff)

lemma memcmp_trans:
  "length xs = length ys \<Longrightarrow> length ys = length zs \<Longrightarrow> memcmp xs ys < 0 \<Longrightarrow> memcmp ys zs < 0 \<Longrightarrow> memcmp xs zs < 0"
  by (induction xs ys zs rule: list_induct3) (auto split: if_splits)

lemma B_COMPARE_iff:
  "B_COMPARE a b = 0 \<longleftrightarrow> a = b" "B_COMPARE a b = -1 \<longleftrightarrow> a < b" "B_COMPARE a b = 1 \<longleftrightarrow> b < a"
  by (auto simp: B_COMPARE_def)

text \<open>The order on addresses of a kind, as a relation.\<close>

fun addr_less :: "BAddr \<Rightarrow> BAddr \<Rightarrow> bool" where
  "addr_less (BAddr_IPv4 ip1 port1) (BAddr_IPv4 ip2 port2) \<longleftrightarrow>
     hton32 ip1 < hton32 ip2 \<or> ip1 = ip2 \<and> ntoh16 port1 < ntoh16 port2"
| "addr_less (BAddr_IPv6 ip1 port1) (BAddr_IPv6 ip2 port2) \<longleftrightarrow>
     memcmp ip1 ip2 < 0 \<or> ip1 = ip2 \<and> ntoh16 port1 < ntoh16 port2"
| "addr_less a b \<longleftrightarrow> BAddr_type a < BAddr_type b"

lemma addr_less_irrefl [simp]: "\<not> addr_less a a"
  by (cases a) auto

lemma CompareOrder_sign: "BAddr_CompareOrder a b = -1 \<or> BAddr_CompareOrder a b = 0 \<or> BAddr_CompareOrder a b = 1"
  by (cases a; cases b) (auto simp: BAddr_CompareOrder_def Let_def B_COMPARE_def)

lemma CompareOrder_less: "addr_wf a \<Longrightarrow> addr_wf b \<Longrightarrow> BAddr_CompareOrder a b = -1 \<longleftrightarrow> addr_less a b"
  by (cases a; cases b) (auto simp: BAddr_CompareOrder_def Let_def B_COMPARE_iff B_COMPARE_def memcmp_0 split: if_splits)

lemma CompareOrder_eq: "addr_wf a \<Longrightarrow> addr_wf b \<Longrightarrow> BAddr_CompareOrder a b = 0 \<longleftrightarrow> a = b"
  by (cases a; cases b) (auto simp: BAddr_CompareOrder_def Let_def B_COMPARE_iff B_COMPARE_def memcmp_0 split: if_splits)

lemma CompareOrder_flip:
  assumes "addr_wf a" "addr_wf b"
  shows "BAddr_CompareOrder b a = - BAddr_CompareOrder a b"
proof -
  have neg: "B_COMPARE (- c) 0 = - B_COMPARE c (0 :: int)" for c by (simp add: B_COMPARE_def)
  have swap: "B_COMPARE y x = - B_COMPARE x y" for x y :: "'a::linorder" by (simp add: B_COMPARE_def)
  consider ip1 port1 ip2 port2 where "a = BAddr_IPv6 ip1 port1" "b = BAddr_IPv6 ip2 port2"
    | "BAddr_type a \<noteq> 2 \<or> BAddr_type b \<noteq> 2" by (cases a; cases b) auto
  then show ?thesis
  proof cases
    case 1
    have "memcmp ip2 ip1 = - memcmp ip1 ip2" using 1 assms memcmp_flip [of ip1 ip2] by simp
    then show ?thesis
      using swap [of "ntoh16 port1" "ntoh16 port2"] by (simp add: 1 BAddr_CompareOrder_def Let_def neg B_COMPARE_iff)
  next
    case 2
    then show ?thesis
      by (cases a; cases b) (auto simp: BAddr_CompareOrder_def Let_def B_COMPARE_def)
  qed
qed

lemma addr_less_trans:
  assumes "addr_wf a" "addr_wf b" "addr_wf c" "addr_less a b" "addr_less b c" shows "addr_less a c"
proof (cases "BAddr_type a = 2 \<and> BAddr_type b = 2 \<and> BAddr_type c = 2")
  case True
  then obtain ip1 p1 ip2 p2 ip3 p3 where e: "a = BAddr_IPv6 ip1 p1" "b = BAddr_IPv6 ip2 p2" "c = BAddr_IPv6 ip3 p3"
    by (cases a; cases b; cases c) auto
  have "memcmp ip1 ip2 < 0 \<Longrightarrow> memcmp ip2 ip3 < 0 \<Longrightarrow> memcmp ip1 ip3 < 0"
    using assms memcmp_trans [of ip1 ip2 ip3] by (simp add: e)
  then show ?thesis using assms(4,5) by (auto simp: e)
next
  case False
  then show ?thesis using assms(4,5) by (cases a; cases b; cases c) auto
qed

interpretation addr_order: bavl_order BAddr_CompareOrder addr_wf
proof
  fix a b c
  assume wf: "addr_wf a" "addr_wf b" "addr_wf c" and "BAddr_CompareOrder a b = -1" "BAddr_CompareOrder b c = -1"
  then show "BAddr_CompareOrder a c = -1"
    using addr_less_trans [of a b c] by (simp add: CompareOrder_less)
qed (rule CompareOrder_sign, erule (1) CompareOrder_eq, erule (1) CompareOrder_flip)

lemma BAddr_Compare_eq:
  "addr_wf a \<Longrightarrow> addr_wf b \<Longrightarrow> BAddr_Compare a b \<longleftrightarrow> a = b \<and> a \<noteq> BAddr_None"
  by (cases a; cases b) (auto simp: BAddr_Compare_def memcmp_0)

end
