(* ===== verification/UdpGwClient.thy ===== *)
theory UdpGwClient
  imports PacketProtoFlow FairQueue NetAddr
begin

text \<open>
  The udpgw client \<open>udpgw_client/UdpGwClient.c\<close>: UDP traffic is carried over one stream to a gateway; every
  pair of local and remote address is a connection with a 16-bit id. Connections are found by address
  and by id through two intrusive AVL trees and kept in a list ordered by last use; when all ids are
  taken the least recently used connection is rebound. A connection is an object on the heap,
  identified by its address (\<open>nat\<close>); it owns a framing pipeline (theory \<open>PacketProtoFlow\<close>) and a flow of the
  fair queue (theory \<open>FairQueue\<close>). Memory allocation is a parameter (\<open>malloc\<close> picks an address, \<open>alloc\<close> the
  packet memory), failing at will.
\<close>

section \<open>Wire format\<close>

text \<open>\<open>protocol/udpgw_proto.h\<close> as compiled for Android: the size reserved for the header is that of the SOCKS
  UDP header.\<close>

abbreviation UDPGW_CLIENT_FLAG_KEEPALIVE :: byte where "UDPGW_CLIENT_FLAG_KEEPALIVE \<equiv> 1"
abbreviation UDPGW_CLIENT_FLAG_REBIND :: byte where "UDPGW_CLIENT_FLAG_REBIND \<equiv> 2"
abbreviation UDPGW_CLIENT_FLAG_DNS :: byte where "UDPGW_CLIENT_FLAG_DNS \<equiv> 4"
abbreviation UDPGW_CLIENT_FLAG_IPV6 :: byte where "UDPGW_CLIENT_FLAG_IPV6 \<equiv> 8"

definition udpgw_compute_mtu :: "int \<Rightarrow> int" where
  "udpgw_compute_mtu dgram_mtu =
     (case bsize_toint (bsize_add (bsize_fromsize 4)
             (bsize_add (bsize_max (bsize_fromsize 6) (bsize_fromsize 18)) (bsize_fromint dgram_mtu))) of
        None \<Rightarrow> -1 | Some s \<Rightarrow> s)"

definition udpgw_header :: "byte \<Rightarrow> u16 \<Rightarrow> byte list" where
  "udpgw_header flags conid = flags # store16 (htol16 conid)"

fun udpgw_addr :: "BAddr \<Rightarrow> byte list" where
  "udpgw_addr (BAddr_IPv4 ip port) = store32 ip @ store16 port"
| "udpgw_addr (BAddr_IPv6 ip port) = ip @ store16 port"
| "udpgw_addr BAddr_None = []"

section \<open>State\<close>

record UdpGwClient_conaddr =
  local_addr :: BAddr
  remote_addr :: BAddr

record UdpGwClient_connection =
  con_conaddr :: UdpGwClient_conaddr
  con_first_flags :: byte
  con_first_data :: "byte list"
  con_conid :: u16
  con_first_job :: bool
  con_ppflow :: flow_world

record UdpGwClient =
  ug_udp_mtu :: int
  ug_max_connections :: int
  ug_send_buffer_size :: int
  ug_udpgw_mtu :: int
  ug_pp_mtu :: int
  ug_by_conaddr :: "nat BAVL"
  ug_by_conid :: "nat BAVL"
  ug_list :: "nat list"
  ug_num_connections :: int
  ug_next_conid :: int
  ug_con :: "nat \<Rightarrow> UdpGwClient_connection option"
  ug_send_queue :: PacketPassFairQueue
  ug_send_monitor :: PacketPassInactivityMonitor
  ug_send_connector :: "(nat, nat) PacketPassConnector"
  ug_keepalive_packet :: "byte list"
  ug_keepalive_sending :: bool
  ug_have_server :: bool
  ug_send_sender :: "PacketStreamSender option"
  ug_recv_decoder :: "PacketProtoDecoder option"

datatype ug_call =
  UG_Received BAddr BAddr "byte list"
| UG_ServerError
| UG_RecvDone
| UG_SendKeepalive "byte list"

text \<open>The object at an address; the code only follows pointers to live connections.\<close>

definition con_at :: "UdpGwClient \<Rightarrow> nat \<Rightarrow> UdpGwClient_connection" where
  "con_at o1 c = the (ug_con o1 c)"

definition upd_con :: "nat \<Rightarrow> (UdpGwClient_connection \<Rightarrow> UdpGwClient_connection) \<Rightarrow> UdpGwClient \<Rightarrow> UdpGwClient" where
  "upd_con c f o1 = o1\<lparr>ug_con := (ug_con o1)(c := map_option f (ug_con o1 c))\<rparr>"

abbreviation conaddr_of :: "UdpGwClient \<Rightarrow> nat \<Rightarrow> UdpGwClient_conaddr" where
  "conaddr_of o1 c \<equiv> con_conaddr (con_at o1 c)"

abbreviation conid_of :: "UdpGwClient \<Rightarrow> nat \<Rightarrow> u16" where
  "conid_of o1 c \<equiv> con_conid (con_at o1 c)"

text \<open>The flow of the connection at \<open>c\<close> in the fair queue; 0 is the flow of the keep-alive packets.\<close>

abbreviation flow_of :: "nat \<Rightarrow> nat" where "flow_of c \<equiv> Suc c"
abbreviation keepalive_qflow :: nat where "keepalive_qflow \<equiv> 0"

section \<open>Operations\<close>

definition uint16_comparator :: "u16 \<Rightarrow> u16 \<Rightarrow> int" where
  "uint16_comparator v1 v2 = B_COMPARE v1 v2"

definition conaddr_comparator :: "UdpGwClient_conaddr \<Rightarrow> UdpGwClient_conaddr \<Rightarrow> int" where
  "conaddr_comparator v1 v2 =
     (let r = BAddr_CompareOrder (remote_addr v1) (remote_addr v2) in
      if r \<noteq> 0 then r else BAddr_CompareOrder (local_addr v1) (local_addr v2))"

definition find_connection_by_conaddr :: "UdpGwClient \<Rightarrow> UdpGwClient_conaddr \<Rightarrow> nat option" where
  "find_connection_by_conaddr o1 conaddr =
     BAVL_LookupExact conaddr_comparator (conaddr_of o1) conaddr (ug_by_conaddr o1)"

definition find_connection_by_conid :: "UdpGwClient \<Rightarrow> u16 \<Rightarrow> nat option" where
  "find_connection_by_conid o1 conid = BAVL_LookupExact uint16_comparator (conid_of o1) conid (ug_by_conid o1)"

text \<open>The loop of \<open>find_unused_conid\<close>; it does not return when every id is used.\<close>

partial_function (option) conid_loop :: "(int \<Rightarrow> bool) \<Rightarrow> int \<Rightarrow> int \<Rightarrow> int option" where
  "conid_loop unused maxc next =
     (if unused next then Some next else conid_loop unused maxc (if next = maxc - 1 then 0 else next + 1))"

definition find_unused_conid :: "UdpGwClient \<Rightarrow> (u16 \<times> UdpGwClient) option" where
  "find_unused_conid o1 =
     (case conid_loop (\<lambda>c. find_connection_by_conid o1 (of_int c) = None) (ug_max_connections o1) (ug_next_conid o1) of
        None \<Rightarrow> None
      | Some next \<Rightarrow> Some (of_int next, o1\<lparr>ug_next_conid := next\<rparr>))"

text \<open>\<open>ASSERT_EXECUTE(BAVL_Insert(...))\<close>: the insertion, whose success is asserted.\<close>

definition exec_insert :: "'n BAVL \<Rightarrow> 'n BAVL option \<Rightarrow> 'n BAVL" where
  "exec_insert t r = (case r of None \<Rightarrow> t | Some t' \<Rightarrow> t')"

text \<open>\<open>connection_init\<close>; the outer option is the search for an id not returning.\<close>

definition connection_init ::
  "(UdpGwClient \<Rightarrow> nat option) \<Rightarrow> (int \<Rightarrow> byte list option) \<Rightarrow> UdpGwClient_conaddr \<Rightarrow> byte \<Rightarrow> byte list \<Rightarrow>
   UdpGwClient \<Rightarrow> UdpGwClient option" where
  "connection_init malloc alloc conaddr flags data o1 =
     (case malloc o1 of None \<Rightarrow> Some o1
      | Some con \<Rightarrow>
          case find_unused_conid o1 of None \<Rightarrow> None
          | Some (conid, o2) \<Rightarrow>
              let q = PacketPassFairQueueFlow_Init (flow_of con) (ug_send_queue o2) in
              case PacketProtoFlow_Init alloc (ug_udpgw_mtu o2) (ug_send_buffer_size o2) of
                None \<Rightarrow> Some (o2\<lparr>ug_send_queue := PacketPassFairQueueFlow_Free (flow_of con) q\<rparr>)
              | Some flow \<Rightarrow>
                  let o3 = o2\<lparr>ug_send_queue := q, ug_con := (ug_con o2)(con \<mapsto>
                        \<lparr>con_conaddr = conaddr, con_first_flags = flags, con_first_data = data, con_conid = conid,
                         con_first_job = True, con_ppflow = flow\<rparr>)\<rparr>;
                      o4 = o3\<lparr>ug_by_conaddr := exec_insert (ug_by_conaddr o3)
                             (BAVL_Insert conaddr_comparator (conaddr_of o3) con (ug_by_conaddr o3))\<rparr>;
                      o5 = o4\<lparr>ug_by_conid := exec_insert (ug_by_conid o4)
                             (BAVL_Insert uint16_comparator (conid_of o4) con (ug_by_conid o4))\<rparr>
                  in Some (o5\<lparr>ug_list := ug_list o5 @ [con], ug_num_connections := ug_num_connections o5 + 1\<rparr>))"

definition connection_free :: "nat \<Rightarrow> UdpGwClient \<Rightarrow> UdpGwClient" where
  "connection_free con o1 =
     o1\<lparr>ug_num_connections := ug_num_connections o1 - 1, ug_list := remove1 con (ug_list o1),
        ug_by_conid := BAVL_Remove con (ug_by_conid o1), ug_by_conaddr := BAVL_Remove con (ug_by_conaddr o1),
        ug_send_queue := PacketPassFairQueueFlow_Free (flow_of con) (ug_send_queue o1),
        ug_con := (ug_con o1)(con := None)\<rparr>"

definition is_ipv6 :: "BAddr \<Rightarrow> bool" where
  "is_ipv6 a \<longleftrightarrow> BAddr_type a = 2"

text \<open>\<open>connection_send\<close>: the packet is written where the pipeline asks for it; \<open>fl_accepted\<close> records what was
  written.\<close>

definition connection_send :: "nat \<Rightarrow> byte \<Rightarrow> byte list \<Rightarrow> UdpGwClient \<Rightarrow> UdpGwClient" where
  "connection_send con flags data o1 =
     (let c = con_at o1 con; flow = con_ppflow c; remote = remote_addr (con_conaddr c) in
      case BufferWriter_StartPacket (fl_bw flow) of None \<Rightarrow> o1
      | Some out \<Rightarrow>
          let flags = (if is_ipv6 remote then flags OR UDPGW_CLIENT_FLAG_IPV6 else flags);
              mem = memcpy_at (fl_mem flow) out (udpgw_header flags (con_conid c));
              pos = length (udpgw_header flags (con_conid c));
              mem = memcpy_at mem (out + pos) (udpgw_addr remote);
              pos = pos + length (udpgw_addr remote);
              mem = memcpy_at mem (out + pos) data;
              pos = pos + length data;
              (bw, n) = BufferWriter_EndPacket (int pos) (fl_bw flow);
              flow = (fl_set_mem mem flow)\<lparr>fl_bw := bw, fl_stage := WriterDone n,
                       fl_accepted := fl_accepted flow @ [sub_bytes out pos mem]\<rparr>
          in upd_con con (\<lambda>c. c\<lparr>con_ppflow := flow\<rparr>) o1)"

definition connection_first_job_handler :: "nat \<Rightarrow> UdpGwClient \<Rightarrow> UdpGwClient" where
  "connection_first_job_handler con o1 =
     connection_send con (UDPGW_CLIENT_FLAG_REBIND OR con_first_flags (con_at o1 con)) (con_first_data (con_at o1 con)) o1"

definition reuse_connection :: "UdpGwClient_conaddr \<Rightarrow> UdpGwClient \<Rightarrow> nat \<times> UdpGwClient" where
  "reuse_connection conaddr o1 =
     (let con = hd (ug_list o1);
          o2 = o1\<lparr>ug_by_conaddr := BAVL_Remove con (ug_by_conaddr o1)\<rparr>;
          o3 = upd_con con (\<lambda>c. c\<lparr>con_conaddr := conaddr\<rparr>) o2;
          o4 = o3\<lparr>ug_by_conaddr := exec_insert (ug_by_conaddr o3)
                 (BAVL_Insert conaddr_comparator (conaddr_of o3) con (ug_by_conaddr o3))\<rparr>
      in (con, o4))"

definition move_to_end :: "nat \<Rightarrow> UdpGwClient \<Rightarrow> UdpGwClient" where
  "move_to_end con o1 = o1\<lparr>ug_list := remove1 con (ug_list o1) @ [con]\<rparr>"

definition UdpGwClient_SubmitPacket ::
  "(UdpGwClient \<Rightarrow> nat option) \<Rightarrow> (int \<Rightarrow> byte list option) \<Rightarrow> BAddr \<Rightarrow> BAddr \<Rightarrow> bool \<Rightarrow> byte list \<Rightarrow>
   UdpGwClient \<Rightarrow> UdpGwClient option" where
  "UdpGwClient_SubmitPacket malloc alloc laddr raddr is_dns data o1 =
     (let conaddr = \<lparr>local_addr = laddr, remote_addr = raddr\<rparr>;
          con = find_connection_by_conaddr o1 conaddr;
          flags = (if is_dns then UDPGW_CLIENT_FLAG_DNS else 0);
          (con, flags, o1) =
            (if con = None \<and> ug_num_connections o1 = ug_max_connections o1
             then (let (c, o2) = reuse_connection conaddr o1 in (Some c, flags OR UDPGW_CLIENT_FLAG_REBIND, o2))
             else (con, flags, o1))
      in case con of
           None \<Rightarrow> connection_init malloc alloc conaddr flags data o1
         | Some c \<Rightarrow> Some (connection_send c flags data (move_to_end c o1)))"

definition recv_interface_handler_send :: "byte list \<Rightarrow> UdpGwClient \<Rightarrow> UdpGwClient \<times> ug_call list" where
  "recv_interface_handler_send data o1 =
     (let drop_it = (o1, [UG_RecvDone]) in
      if length data < 3 then drop_it
      else
        let flags = hd data; conid = ltoh16 (load16 (drop 1 data)); data = drop 3 data;
            parsed =
              (if flags AND UDPGW_CLIENT_FLAG_IPV6 \<noteq> 0 then
                 (if length data < 18 then None
                  else Some (BAddr_IPv6 (take 16 data) (load16 (drop 16 data)), drop 18 data))
               else
                 (if length data < 6 then None
                  else Some (BAddr_IPv4 (load32 data) (load16 (drop 4 data)), drop 6 data)))
        in case parsed of None \<Rightarrow> drop_it
           | Some (raddr, data) \<Rightarrow>
               if int (length data) > ug_udp_mtu o1 then drop_it
               else case find_connection_by_conid o1 conid of None \<Rightarrow> drop_it
                 | Some con \<Rightarrow>
                     if BAddr_CompareOrder (remote_addr (conaddr_of o1 con)) raddr \<noteq> 0 then drop_it
                     else (move_to_end con o1,
                           [UG_RecvDone, UG_Received (local_addr (conaddr_of o1 con)) (remote_addr (conaddr_of o1 con)) data]))"

definition decoder_handler_error :: "UdpGwClient \<Rightarrow> UdpGwClient \<times> ug_call list" where
  "decoder_handler_error o1 = (o1, [UG_ServerError])"

definition send_monitor_handler :: "UdpGwClient \<Rightarrow> UdpGwClient \<times> ug_call list" where
  "send_monitor_handler o1 =
     (if ug_keepalive_sending o1 then (o1, [])
      else (o1\<lparr>ug_keepalive_sending := True\<rparr>, [UG_SendKeepalive (ug_keepalive_packet o1)]))"

definition keepalive_if_handler_done :: "UdpGwClient \<Rightarrow> UdpGwClient" where
  "keepalive_if_handler_done o1 = o1\<lparr>ug_keepalive_sending := False\<rparr>"

definition UdpGwClient_Init :: "int \<Rightarrow> int \<Rightarrow> int \<Rightarrow> (nat \<Rightarrow> Flow) \<Rightarrow> UdpGwClient option" where
  "UdpGwClient_Init udp_mtu max_connections send_buffer_size junk =
     (let maxc = (if max_connections > 65535 + 1 then 65535 + 1 else max_connections);
          udpgw_mtu = udpgw_compute_mtu udp_mtu;
          pp_mtu = udpgw_mtu + 2 in
      case PacketPassFairQueue_Init pp_mtu False 1 junk of None \<Rightarrow> None
      | Some q \<Rightarrow> Some
          \<lparr>ug_udp_mtu = udp_mtu, ug_max_connections = maxc, ug_send_buffer_size = send_buffer_size,
           ug_udpgw_mtu = udpgw_mtu, ug_pp_mtu = pp_mtu, ug_by_conaddr = BAVL_Init, ug_by_conid = BAVL_Init,
           ug_list = [], ug_num_connections = 0, ug_next_conid = 0, ug_con = (\<lambda>_. None),
           ug_send_queue = PacketPassFairQueueFlow_Init keepalive_qflow q,
           ug_send_monitor = PacketPassInactivityMonitor_Init True, ug_send_connector = PacketPassConnector_Init 0,
           ug_keepalive_packet = store16 3 @ udpgw_header UDPGW_CLIENT_FLAG_KEEPALIVE 0,
           ug_keepalive_sending = False, ug_have_server = False, ug_send_sender = None, ug_recv_decoder = None\<rparr>)"

definition free_server :: "UdpGwClient \<Rightarrow> UdpGwClient" where
  "free_server o1 =
     o1\<lparr>ug_send_connector := PacketPassConnector_DisconnectOutput (ug_send_connector o1),
        ug_send_sender := None, ug_recv_decoder := None\<rparr>"

text \<open>\<open>srv\<close> identifies the sender that is connected.\<close>

definition UdpGwClient_ConnectServer ::
  "(int \<Rightarrow> byte list option) \<Rightarrow> nat \<Rightarrow> UdpGwClient \<Rightarrow> bool \<times> UdpGwClient" where
  "UdpGwClient_ConnectServer malloc srv o1 =
     (case PacketProtoDecoder_Init malloc (ug_udpgw_mtu o1) of None \<Rightarrow> (False, o1)
      | Some (rd, _) \<Rightarrow>
          (True, o1\<lparr>ug_recv_decoder := Some rd, ug_send_sender := Some PacketStreamSender_Init,
             ug_send_connector := fst (PacketPassConnector_ConnectOutput srv (ug_send_connector o1)),
             ug_have_server := True\<rparr>))"

definition UdpGwClient_DisconnectServer :: "UdpGwClient \<Rightarrow> UdpGwClient" where
  "UdpGwClient_DisconnectServer o1 = (free_server o1)\<lparr>ug_have_server := False\<rparr>"

text \<open>The loop of \<open>UdpGwClient_Free\<close> frees the connections from the front of the list.\<close>

function free_connections :: "UdpGwClient \<Rightarrow> UdpGwClient" where
  "free_connections o1 = (case ug_list o1 of [] \<Rightarrow> o1 | c # _ \<Rightarrow> free_connections (connection_free c o1))"
  by auto
termination
  by (relation "measure (\<lambda>o1. length (ug_list o1))") (auto simp: connection_free_def)

declare free_connections.simps [simp del]

definition UdpGwClient_Free :: "UdpGwClient \<Rightarrow> UdpGwClient" where
  "UdpGwClient_Free o1 =
     (let o1 = o1\<lparr>ug_send_queue := PacketPassFairQueue_PrepareFree (ug_send_queue o1)\<rparr>;
          o1 = free_connections o1;
          o1 = (if ug_have_server o1 then free_server o1 else o1)
      in o1\<lparr>ug_send_queue := PacketPassFairQueueFlow_Free keepalive_qflow (ug_send_queue o1)\<rparr>)"

section \<open>Order of the indexes\<close>

definition conaddr_wf :: "UdpGwClient_conaddr \<Rightarrow> bool" where
  "conaddr_wf a \<longleftrightarrow> addr_wf (local_addr a) \<and> addr_wf (remote_addr a)"

lemma conaddr_cmp_cases:
  assumes "conaddr_wf a" "conaddr_wf b"
  shows "conaddr_comparator a b = -1 \<longleftrightarrow> addr_less (remote_addr a) (remote_addr b) \<or>
      remote_addr a = remote_addr b \<and> addr_less (local_addr a) (local_addr b)"
  using assms CompareOrder_sign [of "remote_addr a" "remote_addr b"]
  by (auto simp: conaddr_comparator_def Let_def conaddr_wf_def CompareOrder_less CompareOrder_eq)

interpretation conaddr_order: bavl_order conaddr_comparator conaddr_wf
proof
  fix a b c
  assume wf: "conaddr_wf a" "conaddr_wf b"
  then have w: "addr_wf (remote_addr a)" "addr_wf (remote_addr b)" "addr_wf (local_addr a)" "addr_wf (local_addr b)"
    by (simp_all add: conaddr_wf_def)
  show "conaddr_comparator a b = -1 \<or> conaddr_comparator a b = 0 \<or> conaddr_comparator a b = 1"
    using CompareOrder_sign [of "remote_addr a" "remote_addr b"] CompareOrder_sign [of "local_addr a" "local_addr b"]
    by (auto simp: conaddr_comparator_def Let_def)
  show "conaddr_comparator a b = 0 \<longleftrightarrow> a = b"
    using w by (auto simp: conaddr_comparator_def Let_def CompareOrder_eq)
  show "conaddr_comparator b a = - conaddr_comparator a b"
    using w CompareOrder_flip [OF w(1,2)] CompareOrder_flip [OF w(3,4)] by (simp add: conaddr_comparator_def Let_def)
  assume wc: "conaddr_wf c" and c: "conaddr_comparator a b = -1" "conaddr_comparator b c = -1"
  then have "addr_wf (remote_addr c)" "addr_wf (local_addr c)" by (simp_all add: conaddr_wf_def)
  then show "conaddr_comparator a c = -1"
    using c wf wc w addr_less_trans [of "remote_addr a" "remote_addr b" "remote_addr c"]
      addr_less_trans [of "local_addr a" "local_addr b" "local_addr c"]
    by (auto simp: conaddr_cmp_cases)
qed

interpretation conid_order: bavl_order uint16_comparator "\<lambda>_. True"
  by unfold_locales (auto simp: uint16_comparator_def B_COMPARE_def split: if_splits)

section \<open>Invariant\<close>

text \<open>The indexes and the list agree on the live connections; ids are in range and different, the fair queue
  has a flow for each; every pipeline is in order.\<close>

definition ug_index :: "UdpGwClient \<Rightarrow> bool" where
  "ug_index o1 \<longleftrightarrow>
     distinct (ug_list o1) \<and> set (ug_list o1) = dom (ug_con o1) \<and>
     conaddr_order.index_ok (conaddr_of o1) (ug_by_conaddr o1) \<and> set (inorder (ug_by_conaddr o1)) = set (ug_list o1) \<and>
     conid_order.index_ok (conid_of o1) (ug_by_conid o1) \<and> set (inorder (ug_by_conid o1)) = set (ug_list o1)"

definition ug_sizes :: "UdpGwClient \<Rightarrow> bool" where
  "ug_sizes o1 \<longleftrightarrow>
     0 < ug_max_connections o1 \<and> ug_max_connections o1 \<le> 65536 \<and>
     0 \<le> ug_next_conid o1 \<and> ug_next_conid o1 < ug_max_connections o1 \<and>
     ug_num_connections o1 = int (length (ug_list o1)) \<and> ug_num_connections o1 \<le> ug_max_connections o1 \<and>
     (\<forall>c\<in>set (ug_list o1). uint (conid_of o1 c) < ug_max_connections o1) \<and>
     0 \<le> ug_udp_mtu o1 \<and> ug_udpgw_mtu o1 = ug_udp_mtu o1 + 22 \<and> ug_udpgw_mtu o1 \<le> PACKETPROTO_MAXPAYLOAD \<and>
     0 < ug_send_buffer_size o1"

definition ug_flows :: "UdpGwClient \<Rightarrow> bool" where
  "ug_flows o1 \<longleftrightarrow>
     (\<forall>c\<in>set (ug_list o1). fl_inv (ug_udpgw_mtu o1) (con_ppflow (con_at o1 c)) \<and>
        int (length (con_first_data (con_at o1 c))) \<le> ug_udp_mtu o1) \<and>
     fq_inv (ug_send_queue o1) \<and> \<not> fq_freeing (ug_send_queue o1) \<and>
     set (fq_flows_list (ug_send_queue o1)) = insert keepalive_qflow (Suc ` set (ug_list o1))"

definition ug_server :: "UdpGwClient \<Rightarrow> bool" where
  "ug_server o1 \<longleftrightarrow>
     (ug_send_sender o1 = None \<longleftrightarrow> \<not> ug_have_server o1) \<and> (ug_recv_decoder o1 = None \<longleftrightarrow> \<not> ug_have_server o1) \<and>
     (ppc_output (ug_send_connector o1) = None \<longleftrightarrow> \<not> ug_have_server o1)"

definition ug_inv :: "UdpGwClient \<Rightarrow> bool" where
  "ug_inv o1 \<longleftrightarrow> ug_index o1 \<and> ug_sizes o1 \<and> ug_flows o1 \<and> ug_server o1"

lemma con_wf: "ug_index o1 \<Longrightarrow> c \<in> set (ug_list o1) \<Longrightarrow> conaddr_wf (conaddr_of o1 c)"
  using conaddr_order.index_key_ok [of "conaddr_of o1" "ug_by_conaddr o1" c] by (simp add: ug_index_def)

lemma by_conaddr_iff:
  assumes "ug_index o1" "conaddr_wf a"
  shows "find_connection_by_conaddr o1 a = Some c \<longleftrightarrow> c \<in> set (ug_list o1) \<and> conaddr_of o1 c = a"
    and "find_connection_by_conaddr o1 a = None \<longleftrightarrow> a \<notin> conaddr_of o1 ` set (ug_list o1)"
  using conaddr_order.index_lookup [of "conaddr_of o1" "ug_by_conaddr o1" a] assms
  by (simp_all add: find_connection_by_conaddr_def ug_index_def)

lemma by_conid_iff:
  assumes "ug_index o1"
  shows "find_connection_by_conid o1 i = Some c \<longleftrightarrow> c \<in> set (ug_list o1) \<and> conid_of o1 c = i"
    and "find_connection_by_conid o1 i = None \<longleftrightarrow> i \<notin> conid_of o1 ` set (ug_list o1)"
  using conid_order.index_lookup [of "conid_of o1" "ug_by_conid o1" i] assms
  by (simp_all add: find_connection_by_conid_def ug_index_def)

section \<open>The search for an id\<close>

text \<open>The loop visits the ids cyclically; while one of the \<open>n\<close> ids is free it returns within \<open>n\<close> rounds.\<close>

lemma conid_loop_upward:
  assumes "unused c" "next \<le> c" "c < maxc" "0 \<le> next"
  shows "\<exists>d. conid_loop unused maxc next = Some d \<and> unused d \<and> next \<le> d \<and> d \<le> c"
  using assms
proof (induction "nat (c - next)" arbitrary: "next")
  case 0
  then have "next = c" by simp
  then show ?case using 0 by (subst conid_loop.simps) auto
next
  case (Suc k)
  show ?case
  proof (cases "unused next")
    case True
    then show ?thesis using Suc.prems by (subst conid_loop.simps) auto
  next
    case False
    then have "next \<noteq> c" using Suc.prems by auto
    then have n: "next + 1 \<le> c" "next \<noteq> maxc - 1" "k = nat (c - (next + 1))" using Suc by auto
    obtain d where "conid_loop unused maxc (next + 1) = Some d" "unused d" "next + 1 \<le> d" "d \<le> c"
      using Suc.hyps(1) [OF n(3) Suc.prems(1) n(1) Suc.prems(3)] Suc.prems(4) by auto
    then show ?thesis using False n(2) by (subst conid_loop.simps) auto
  qed
qed

lemma conid_loop_wraps:
  assumes "\<forall>c. next \<le> c \<and> c < maxc \<longrightarrow> \<not> unused c" "0 \<le> next" "next < maxc"
  shows "conid_loop unused maxc next = conid_loop unused maxc 0"
  using assms
proof (induction "nat (maxc - 1 - next)" arbitrary: "next")
  case 0
  then have n: "next = maxc - 1" by simp
  have "\<not> unused next" using 0 by simp
  then show ?case using n by (subst conid_loop.simps) simp
next
  case (Suc k)
  have u: "\<not> unused next" "next \<noteq> maxc - 1" using Suc by auto
  have "conid_loop unused maxc (next + 1) = conid_loop unused maxc 0"
    using Suc.prems Suc.hyps(2) by (intro Suc.hyps(1)) auto
  then show ?case using u by (subst conid_loop.simps) simp
qed

lemma conid_loop_returns:
  assumes "unused c" "0 \<le> c" "c < maxc" "0 \<le> next" "next < maxc"
  shows "\<exists>d. conid_loop unused maxc next = Some d \<and> unused d \<and> 0 \<le> d \<and> d < maxc"
proof (cases "\<exists>c. next \<le> c \<and> c < maxc \<and> unused c")
  case True
  then obtain e where "next \<le> e" "e < maxc" "unused e" by blast
  then show ?thesis using conid_loop_upward [of unused e "next" maxc] assms(4) by fastforce
next
  case False
  then have "conid_loop unused maxc next = conid_loop unused maxc 0" using assms(4,5) by (intro conid_loop_wraps) auto
  then show ?thesis using conid_loop_upward [of unused c 0 maxc] assms(1-3) by fastforce
qed

lemma find_unused_conid_returns:
  assumes ix: "ug_index o1" and sz: "ug_sizes o1" and room: "ug_num_connections o1 < ug_max_connections o1"
  shows "\<exists>conid n. find_unused_conid o1 = Some (conid, o1\<lparr>ug_next_conid := n\<rparr>) \<and> 0 \<le> n \<and> n < ug_max_connections o1 \<and>
    conid = of_int n \<and> uint conid = n \<and> conid \<notin> conid_of o1 ` set (ug_list o1)"
proof -
  let ?used = "(\<lambda>c. uint (conid_of o1 c)) ` set (ug_list o1)" and ?max = "ug_max_connections o1"
  have m: "0 < ?max" "?max \<le> 65536" using sz by (simp_all add: ug_sizes_def)
  have "card ?used \<le> length (ug_list o1)" by (meson card_image_le card_length finite_set order_trans)
  then have "card ?used < nat ?max" using sz room by (simp add: ug_sizes_def)
  moreover have "card {0..<?max} = nat ?max" by simp
  ultimately have "\<not> {0..<?max} \<subseteq> ?used" by (metis card_mono finite_imageI finite_set leD)
  then obtain f where "f \<in> {0..<?max}" "f \<notin> ?used" by blast
  then have f: "0 \<le> f" "f < ?max" "f \<notin> ?used" by simp_all
  let ?unused = "\<lambda>c. find_connection_by_conid o1 (of_int c) = None"
  have small: "uint (of_int c :: u16) = c" if "0 \<le> c" "c < ?max" for c
    using that m by (simp add: uint_word_of_int take_bit_int_eq_self)
  have "?unused f" unfolding by_conid_iff(2) [OF ix] using f small [of f] by auto
  then obtain d where d: "conid_loop ?unused ?max (ug_next_conid o1) = Some d" "?unused d" "0 \<le> d" "d < ?max"
    using conid_loop_returns [of ?unused f ?max "ug_next_conid o1"] f sz by (auto simp: ug_sizes_def)
  have "of_int d \<notin> conid_of o1 ` set (ug_list o1)" using d(2) unfolding by_conid_iff(2) [OF ix] .
  then show ?thesis using d small [of d] by (simp add: find_unused_conid_def)
qed

section \<open>Writing a packet\<close>

definition udpgw_packet :: "byte \<Rightarrow> u16 \<Rightarrow> BAddr \<Rightarrow> byte list \<Rightarrow> byte list" where
  "udpgw_packet flags conid remote data =
     udpgw_header (if is_ipv6 remote then flags OR UDPGW_CLIENT_FLAG_IPV6 else flags) conid @ udpgw_addr remote @ data"

lemma length_udpgw_header [simp]: "length (udpgw_header flags conid) = 3"
  by (simp add: udpgw_header_def)

lemma length_udpgw_addr: "addr_wf a \<Longrightarrow> length (udpgw_addr a) \<le> 18"
  by (cases a) simp_all

lemma length_udpgw_packet: "addr_wf a \<Longrightarrow> length (udpgw_packet flags conid a data) \<le> 21 + length data"
  using length_udpgw_addr [of a] by (simp add: udpgw_packet_def)

text \<open>The pipeline takes a packet at the writer.\<close>

definition accept :: "nat \<Rightarrow> byte list \<Rightarrow> flow_world \<Rightarrow> flow_world" where
  "accept out pkt flow =
     (fl_set_mem (memcpy_at (fl_mem flow) out pkt) flow)
       \<lparr>fl_bw := (fl_bw flow)\<lparr>out_have := False\<rparr>, fl_stage := WriterDone (int (length pkt)),
        fl_accepted := fl_accepted flow @ [pkt]\<rparr>"

lemma writer_region:
  assumes "fl_inv mtu flow" "BufferWriter_StartPacket (fl_bw flow) = Some out"
  shows "int out + mtu \<le> int (length (fl_mem flow))"
proof -
  have have_out: "out_have (fl_bw flow)" "out = bw_out (fl_bw flow)"
    using assms(2) by (auto simp: BufferWriter_StartPacket_def split: if_splits)
  then obtain d where d: "pb_recv (fl_pb flow) = Some d" "out = nat d + 2"
    using assms(1) by (auto simp: fl_inv_def Let_def split: flow_stage.splits)
  have pb: "pb_inv (fl_pb flow)" and m: "pb_input_mtu (pb (fl_pb flow)) = PACKETPROTO_ENCLEN mtu"
    using assms(1) by (simp_all add: fl_inv_def)
  show ?thesis
    using pb_recv_region [OF pb d(1)] d(2) m by (simp add: fl_mem_def PACKETPROTO_ENCLEN_def)
qed

lemma accept_step:
  assumes "BufferWriter_StartPacket (fl_bw flow) = Some out" "int (length pkt) \<le> mtu"
  shows "fl_step mtu flow (accept out pkt flow)"
  using fl_write [OF assms, of "(fl_bw flow)\<lparr>out_have := False\<rparr>" "int (length pkt)"]
  by (simp add: accept_def BufferWriter_EndPacket_def)

lemma connection_send_eq:
  assumes fl: "fl_inv (ug_udpgw_mtu o1) (con_ppflow (con_at o1 c))" and wf: "addr_wf (remote_addr (conaddr_of o1 c))"
    and len: "int (length data) + 21 \<le> ug_udpgw_mtu o1"
  shows "connection_send c flags data o1 =
    (case BufferWriter_StartPacket (fl_bw (con_ppflow (con_at o1 c))) of None \<Rightarrow> o1
     | Some out \<Rightarrow> upd_con c (\<lambda>k. k\<lparr>con_ppflow :=
         accept out (udpgw_packet flags (conid_of o1 c) (remote_addr (conaddr_of o1 c)) data) (con_ppflow (con_at o1 c))\<rparr>) o1)"
proof (cases "BufferWriter_StartPacket (fl_bw (con_ppflow (con_at o1 c)))")
  case None
  then show ?thesis by (simp add: connection_send_def Let_def)
next
  case (Some out)
  let ?r = "remote_addr (conaddr_of o1 c)" and ?flow = "con_ppflow (con_at o1 c)"
  let ?h = "udpgw_header (if is_ipv6 ?r then flags OR UDPGW_CLIENT_FLAG_IPV6 else flags) (conid_of o1 c)"
  let ?pkt = "udpgw_packet flags (conid_of o1 c) ?r data"
  have room: "out + length ?pkt \<le> length (fl_mem ?flow)"
    using writer_region [OF fl Some] length_udpgw_packet [OF wf, of flags "conid_of o1 c" data] len by linarith
  have len_pkt: "length ?pkt = 3 + length (udpgw_addr ?r) + length data" by (simp add: udpgw_packet_def)
  have m1: "memcpy_at (memcpy_at (memcpy_at (fl_mem ?flow) out ?h) (out + 3) (udpgw_addr ?r))
      (out + (3 + length (udpgw_addr ?r))) data = memcpy_at (fl_mem ?flow) out ?pkt"
    using room len_pkt by (simp add: memcpy_append udpgw_packet_def)
  have m2: "sub_bytes out (3 + length (udpgw_addr ?r) + length data) (memcpy_at (fl_mem ?flow) out ?pkt) = ?pkt"
    using room len_pkt by (intro sub_bytes_memcpy_same) simp_all
  show ?thesis
    unfolding connection_send_def Let_def length_udpgw_header
    using Some m1 m2 len_pkt by (simp add: BufferWriter_EndPacket_def accept_def)
qed

lemma upd_con_simps [simp]:
  "ug_udp_mtu (upd_con c f o1) = ug_udp_mtu o1" "ug_max_connections (upd_con c f o1) = ug_max_connections o1"
  "ug_send_buffer_size (upd_con c f o1) = ug_send_buffer_size o1" "ug_udpgw_mtu (upd_con c f o1) = ug_udpgw_mtu o1"
  "ug_by_conaddr (upd_con c f o1) = ug_by_conaddr o1" "ug_by_conid (upd_con c f o1) = ug_by_conid o1"
  "ug_list (upd_con c f o1) = ug_list o1" "ug_num_connections (upd_con c f o1) = ug_num_connections o1"
  "ug_next_conid (upd_con c f o1) = ug_next_conid o1" "ug_send_queue (upd_con c f o1) = ug_send_queue o1"
  "ug_have_server (upd_con c f o1) = ug_have_server o1" "ug_send_sender (upd_con c f o1) = ug_send_sender o1"
  "ug_recv_decoder (upd_con c f o1) = ug_recv_decoder o1" "ug_send_connector (upd_con c f o1) = ug_send_connector o1"
  "dom (ug_con (upd_con c f o1)) = dom (ug_con o1)"
  by (auto simp: upd_con_def)

lemma con_at_upd: "c \<in> dom (ug_con o1) \<Longrightarrow> con_at (upd_con c f o1) d = (if d = c then f (con_at o1 c) else con_at o1 d)"
  by (auto simp: con_at_def upd_con_def)

text \<open>Changing the pipeline of a connection, or bookkeeping fields of the client, keeps the indexes.\<close>

lemma index_keep:
  assumes "ug_index o1" "ug_by_conaddr o2 = ug_by_conaddr o1" "ug_by_conid o2 = ug_by_conid o1"
    "set (ug_list o2) = set (ug_list o1)" "distinct (ug_list o2)" "dom (ug_con o2) = dom (ug_con o1)"
    "\<And>c. c \<in> dom (ug_con o1) \<Longrightarrow> conaddr_of o2 c = conaddr_of o1 c \<and> conid_of o2 c = conid_of o1 c"
  shows "ug_index o2"
proof -
  have i: "set (ug_list o1) = dom (ug_con o1)" "conaddr_order.index_ok (conaddr_of o1) (ug_by_conaddr o1)"
    "set (inorder (ug_by_conaddr o1)) = set (ug_list o1)" "conid_order.index_ok (conid_of o1) (ug_by_conid o1)"
    "set (inorder (ug_by_conid o1)) = set (ug_list o1)" using assms(1) unfolding ug_index_def by blast+
  have "conaddr_order.index_ok (conaddr_of o2) (ug_by_conaddr o1)"
    by (rule conaddr_order.index_cong [OF i(2)]) (use assms(7) i(1,3) in blast)
  moreover have "conid_order.index_ok (conid_of o2) (ug_by_conid o1)"
    by (rule conid_order.index_cong [OF i(4)]) (use assms(7) i(1,5) in blast)
  ultimately show ?thesis unfolding ug_index_def assms(2-4,6) using i assms(5) by blast
qed

lemma sizes_keep:
  assumes "ug_sizes o1" "ug_max_connections o2 = ug_max_connections o1" "ug_udp_mtu o2 = ug_udp_mtu o1"
    "ug_udpgw_mtu o2 = ug_udpgw_mtu o1" "ug_send_buffer_size o2 = ug_send_buffer_size o1"
    "set (ug_list o2) = set (ug_list o1)" "length (ug_list o2) = length (ug_list o1)"
    "ug_num_connections o2 = ug_num_connections o1" "ug_next_conid o2 = ug_next_conid o1"
    "\<And>c. c \<in> set (ug_list o1) \<Longrightarrow> conid_of o2 c = conid_of o1 c"
  shows "ug_sizes o2"
  using assms(1,10) unfolding ug_sizes_def assms(2-9) by simp

lemma flows_keep:
  assumes "ug_flows o1" "ug_udp_mtu o2 = ug_udp_mtu o1" "ug_udpgw_mtu o2 = ug_udpgw_mtu o1"
    "set (ug_list o2) = set (ug_list o1)" "ug_send_queue o2 = ug_send_queue o1"
    "\<And>c. c \<in> set (ug_list o1) \<Longrightarrow> fl_inv (ug_udpgw_mtu o1) (con_ppflow (con_at o2 c)) \<and>
      con_first_data (con_at o2 c) = con_first_data (con_at o1 c)"
  shows "ug_flows o2"
  using assms(1,6) unfolding ug_flows_def assms(2-5) by simp

lemma server_keep:
  assumes "ug_server o1" "ug_have_server o2 = ug_have_server o1" "ug_send_sender o2 = ug_send_sender o1"
    "ug_recv_decoder o2 = ug_recv_decoder o1" "ug_send_connector o2 = ug_send_connector o1"
  shows "ug_server o2"
  using assms(1) unfolding ug_server_def assms(2-5) .

lemma connection_send_inv:
  assumes inv: "ug_inv o1" and c: "c \<in> set (ug_list o1)" and len: "int (length data) \<le> ug_udp_mtu o1"
  shows "ug_inv (connection_send c flags data o1)"
proof -
  have ix: "ug_index o1" and sz: "ug_sizes o1" and fl: "ug_flows o1" and sv: "ug_server o1"
    using inv by (simp_all add: ug_inv_def)
  let ?r = "remote_addr (conaddr_of o1 c)" and ?flow = "con_ppflow (con_at o1 c)"
  have f: "fl_inv (ug_udpgw_mtu o1) ?flow" using fl c by (simp add: ug_flows_def)
  have wf: "addr_wf ?r" using con_wf [OF ix c] by (simp add: conaddr_wf_def)
  have room: "int (length data) + 21 \<le> ug_udpgw_mtu o1" using sz len by (simp add: ug_sizes_def)
  have dm: "c \<in> dom (ug_con o1)" using ix c by (simp add: ug_index_def)
  show ?thesis
  proof (cases "BufferWriter_StartPacket (fl_bw ?flow)")
    case None
    then show ?thesis using connection_send_eq [OF f wf room] inv by simp
  next
    case (Some out)
    let ?pkt = "udpgw_packet flags (conid_of o1 c) ?r data"
    let ?o2 = "upd_con c (\<lambda>k. k\<lparr>con_ppflow := accept out ?pkt ?flow\<rparr>) o1"
    have "int (length ?pkt) \<le> ug_udpgw_mtu o1"
      using length_udpgw_packet [OF wf, of flags "conid_of o1 c" data] room by linarith
    then have "fl_inv (ug_udpgw_mtu o1) (accept out ?pkt ?flow)" using fl_step_inv [OF accept_step [OF Some] f] by simp
    then have "ug_flows ?o2"
      by (intro flows_keep [OF fl]) (use fl in \<open>simp_all add: ug_flows_def con_at_upd dm\<close>)
    moreover have "ug_index ?o2"
      by (rule index_keep [OF ix]) (use ix in \<open>simp_all add: con_at_upd dm ug_index_def\<close>)
    moreover have "ug_sizes ?o2" by (rule sizes_keep [OF sz]) (simp_all add: con_at_upd dm)
    moreover have "ug_server ?o2" by (rule server_keep [OF sv]) simp_all
    ultimately show ?thesis using connection_send_eq [OF f wf room] Some by (simp add: ug_inv_def)
  qed
qed

lemma move_to_end_inv:
  assumes "ug_inv o1" "c \<in> set (ug_list o1)"
  shows "ug_inv (move_to_end c o1)" and "set (ug_list (move_to_end c o1)) = set (ug_list o1)"
proof -
  let ?o2 = "move_to_end c o1"
  have ix: "ug_index o1" using assms by (simp add: ug_inv_def)
  have d: "distinct (ug_list o1)" using ix by (simp add: ug_index_def)
  show st: "set (ug_list ?o2) = set (ug_list o1)" using d assms(2) by (auto simp: move_to_end_def)
  have len: "length (ug_list ?o2) = length (ug_list o1)"
    using assms(2) by (simp add: move_to_end_def length_remove1) (metis Suc_pred length_pos_if_in_set)
  have at: "con_at ?o2 = con_at o1" by (rule ext) (simp add: move_to_end_def con_at_def)
  have keep: "ug_by_conaddr ?o2 = ug_by_conaddr o1" "ug_by_conid ?o2 = ug_by_conid o1" "ug_con ?o2 = ug_con o1"
    "distinct (ug_list ?o2)" using d by (simp_all add: move_to_end_def)
  have "ug_index ?o2" by (rule index_keep [OF ix]) (simp_all add: keep st at)
  moreover have "ug_sizes ?o2"
    by (rule sizes_keep [of o1]) (use assms(1) st len at in \<open>simp_all add: ug_inv_def move_to_end_def\<close>)
  moreover have "ug_flows ?o2"
    by (rule flows_keep [of o1]) (use assms(1) st at in \<open>simp_all add: ug_inv_def ug_flows_def move_to_end_def\<close>)
  moreover have "ug_server ?o2"
    by (rule server_keep [of o1]) (use assms(1) in \<open>simp_all add: ug_inv_def move_to_end_def\<close>)
  ultimately show "ug_inv ?o2" by (simp add: ug_inv_def)
qed

section \<open>Rebinding\<close>

lemma exec_insert_conaddr:
  assumes ix: "conaddr_order.index_ok key t" and k: "conaddr_wf (key c)" and fresh: "key c \<notin> key ` set (inorder t)"
  shows "conaddr_order.index_ok key (exec_insert t (BAVL_Insert conaddr_comparator key c t))"
    and "set (inorder (exec_insert t (BAVL_Insert conaddr_comparator key c t))) = insert c (set (inorder t))"
proof -
  obtain t' where t': "BAVL_Insert conaddr_comparator key c t = Some t'"
    using conaddr_order.index_Insert(1) [OF ix k] fresh by auto
  note i = conaddr_order.index_Insert(2) [OF ix k t']
  then show "conaddr_order.index_ok key (exec_insert t (BAVL_Insert conaddr_comparator key c t))"
    "set (inorder (exec_insert t (BAVL_Insert conaddr_comparator key c t))) = insert c (set (inorder t))"
    by (auto simp: exec_insert_def t')
qed

lemma exec_insert_conid:
  assumes ix: "conid_order.index_ok key t" and fresh: "key c \<notin> key ` set (inorder t)"
  shows "conid_order.index_ok key (exec_insert t (BAVL_Insert uint16_comparator key c t))"
    and "set (inorder (exec_insert t (BAVL_Insert uint16_comparator key c t))) = insert c (set (inorder t))"
proof -
  obtain t' where t': "BAVL_Insert uint16_comparator key c t = Some t'"
    using conid_order.index_Insert(1) [OF ix, of c] fresh by auto
  note i = conid_order.index_Insert(2) [OF ix TrueI t']
  then show "conid_order.index_ok key (exec_insert t (BAVL_Insert uint16_comparator key c t))"
    "set (inorder (exec_insert t (BAVL_Insert uint16_comparator key c t))) = insert c (set (inorder t))"
    by (auto simp: exec_insert_def t')
qed

lemma con_at_same:
  "con_at (o1\<lparr>ug_by_conaddr := t\<rparr>) = con_at o1" "con_at (o1\<lparr>ug_by_conid := t\<rparr>) = con_at o1"
  "con_at (o1\<lparr>ug_list := l\<rparr>) = con_at o1" "con_at (o1\<lparr>ug_num_connections := n\<rparr>) = con_at o1"
  "con_at (o1\<lparr>ug_next_conid := n\<rparr>) = con_at o1" "con_at (o1\<lparr>ug_send_queue := q\<rparr>) = con_at o1"
  by (simp_all add: con_at_def fun_eq_iff)

lemma reuse_connection_correct:
  assumes inv: "ug_inv o1" and a: "conaddr_wf a" and none: "find_connection_by_conaddr o1 a = None"
    and ne: "ug_list o1 \<noteq> []" and r: "reuse_connection a o1 = (c, o4)"
  shows "c = hd (ug_list o1)" and "ug_inv o4" and "ug_list o4 = ug_list o1"
    and "con_at o4 d = (if d = c then (con_at o1 c)\<lparr>con_conaddr := a\<rparr> else con_at o1 d)"
    and "ug_udp_mtu o4 = ug_udp_mtu o1"
proof -
  have ix: "ug_index o1" and sz: "ug_sizes o1" and fl: "ug_flows o1" and sv: "ug_server o1"
    using inv by (simp_all add: ug_inv_def)
  have i: "distinct (ug_list o1)" "set (ug_list o1) = dom (ug_con o1)" "conaddr_order.index_ok (conaddr_of o1) (ug_by_conaddr o1)"
    "set (inorder (ug_by_conaddr o1)) = set (ug_list o1)" "conid_order.index_ok (conid_of o1) (ug_by_conid o1)"
    "set (inorder (ug_by_conid o1)) = set (ug_list o1)" using ix unfolding ug_index_def by blast+
  show c: "c = hd (ug_list o1)" using r by (simp add: reuse_connection_def Let_def)
  have cl: "c \<in> set (ug_list o1)" using c ne by simp
  have dm: "c \<in> dom (ug_con o1)" using cl i(2) by simp
  define t where "t = BAVL_Remove c (ug_by_conaddr o1)"
  define o3 where "o3 = upd_con c (\<lambda>k. k\<lparr>con_conaddr := a\<rparr>) (o1\<lparr>ug_by_conaddr := t\<rparr>)"
  define t' where "t' = exec_insert t (BAVL_Insert conaddr_comparator (conaddr_of o3) c t)"
  have o4: "o4 = o3\<lparr>ug_by_conaddr := t'\<rparr>"
    using r c by (simp add: reuse_connection_def Let_def t_def o3_def t'_def)
  have at3: "con_at o3 d = (if d = c then (con_at o1 c)\<lparr>con_conaddr := a\<rparr> else con_at o1 d)" for d
    using dm by (simp add: o3_def con_at_upd con_at_same)
  show at: "con_at o4 d = (if d = c then (con_at o1 c)\<lparr>con_conaddr := a\<rparr> else con_at o1 d)" for d
    unfolding o4 con_at_same by (rule at3)
  note rm = conaddr_order.index_Remove [OF i(3), of c]
  have rs: "set (inorder t) = set (ug_list o1) - {c}"
    using rm cl i(4) conaddr_order.index_distinct [OF i(3)] by (simp add: t_def)
  have it: "conaddr_order.index_ok (conaddr_of o1) t" using rm cl i(4) by (simp add: t_def)
  have ixt: "conaddr_order.index_ok (conaddr_of o3) t"
    by (rule conaddr_order.index_cong [OF it]) (simp add: at3 rs)
  have "a \<notin> conaddr_of o1 ` set (ug_list o1)" using none by_conaddr_iff(2) [OF ix a] by simp
  then have fresh: "conaddr_of o3 c \<notin> conaddr_of o3 ` set (inorder t)" using rs at3 by auto
  have k: "conaddr_wf (conaddr_of o3 c)" using a at3 by simp
  note ins = exec_insert_conaddr [OF ixt k fresh]
  show lst: "ug_list o4 = ug_list o1" "ug_udp_mtu o4 = ug_udp_mtu o1" by (simp_all add: o4 o3_def)
  have atf: "con_at o4 = con_at o3" by (rule ext) (simp only: at at3)
  have "ug_by_conaddr o4 = t'" "set (inorder t') = set (ug_list o4)"
    using ins(2) rs cl lst by (simp_all add: o4 t'_def insert_absorb)
  moreover have "conaddr_order.index_ok (conaddr_of o4) t'" using ins(1) unfolding atf t'_def .
  moreover have "conid_order.index_ok (conid_of o4) (ug_by_conid o1)"
    by (rule conid_order.index_cong [OF i(5)]) (simp add: at)
  moreover have "ug_by_conid o4 = ug_by_conid o1" "dom (ug_con o4) = dom (ug_con o1)"
    by (simp_all add: o4 o3_def)
  ultimately have "ug_index o4" using i(1,2,6) lst by (simp add: ug_index_def)
  moreover have "ug_sizes o4"
    by (rule sizes_keep [OF sz]) (simp_all add: at, simp_all add: o4 o3_def)
  moreover have "ug_flows o4"
    by (rule flows_keep [OF fl]) (use fl cl in \<open>simp_all add: at ug_flows_def\<close>, simp_all add: o4 o3_def)
  moreover have "ug_server o4" by (rule server_keep [OF sv]) (simp_all add: o4 o3_def)
  ultimately show "ug_inv o4" by (simp add: ug_inv_def)
qed

section \<open>New connections\<close>

definition malloc_ok :: "(UdpGwClient \<Rightarrow> nat option) \<Rightarrow> bool" where
  "malloc_ok malloc \<longleftrightarrow> (\<forall>o1 c. malloc o1 = Some c \<longrightarrow> ug_con o1 c = None)"

definition mem_ok :: "(int \<Rightarrow> byte list option) \<Rightarrow> UdpGwClient \<Rightarrow> bool" where
  "mem_ok alloc o1 \<longleftrightarrow>
     alloc_ok alloc (ChunkBuffer2_calc_blocks (PACKETPROTO_ENCLEN (ug_udpgw_mtu o1)) (ug_send_buffer_size o1))"

lemma flow_init_fields:
  "fq_freeing (PacketPassFairQueueFlow_Init f q) = fq_freeing q"
  "fq_flows_list (PacketPassFairQueueFlow_Init f q) = fq_flows_list q @ [f]"
  "fq_sending_flow (PacketPassFairQueueFlow_Init f q) = fq_sending_flow q"
  by (simp_all add: PacketPassFairQueueFlow_Init_def Let_def)

lemma flow_free_fields:
  "fq_freeing (PacketPassFairQueueFlow_Free f q) = fq_freeing q"
  "fq_flows_list (PacketPassFairQueueFlow_Free f q) = remove1 f (fq_flows_list q)"
  by (simp_all add: PacketPassFairQueueFlow_Free_def Let_def Tree_Remove_def)

lemma queue_add:
  assumes "fq_inv q" "\<not> fq_freeing q" "f \<notin> set (fq_flows_list q)"
  shows "fq_inv (PacketPassFairQueueFlow_Init f q)"
  using fq_step_inv [of q "FO_AddFlow f"] assms by (simp add: fq_step_def)

lemma queue_add_free:
  assumes "fq_inv q" "\<not> fq_freeing q" "f \<notin> set (fq_flows_list q)"
  shows "fq_inv (PacketPassFairQueueFlow_Free f (PacketPassFairQueueFlow_Init f q))"
proof -
  have "fq_sending_flow q \<noteq> Some f" using assms(1,3) by (auto simp: fq_inv_def fq_core_def)
  then show ?thesis
    using fq_step_inv [OF queue_add [OF assms], of "FO_FreeFlow f"]
    by (simp add: fq_step_def flow_init_fields)
qed

lemma index_cong_dom:
  assumes "ug_index o1" "\<And>d. d \<in> dom (ug_con o1) \<Longrightarrow> con_at o2 d = con_at o1 d"
  shows "conaddr_order.index_ok (conaddr_of o2) (ug_by_conaddr o1)" "conid_order.index_ok (conid_of o2) (ug_by_conid o1)"
proof -
  have i: "set (ug_list o1) = dom (ug_con o1)" "conaddr_order.index_ok (conaddr_of o1) (ug_by_conaddr o1)"
    "set (inorder (ug_by_conaddr o1)) = set (ug_list o1)" "conid_order.index_ok (conid_of o1) (ug_by_conid o1)"
    "set (inorder (ug_by_conid o1)) = set (ug_list o1)" using assms(1) unfolding ug_index_def by blast+
  show "conaddr_order.index_ok (conaddr_of o2) (ug_by_conaddr o1)"
    by (rule conaddr_order.index_cong [OF i(2)]) (simp add: assms(2) i)
  show "conid_order.index_ok (conid_of o2) (ug_by_conid o1)"
    by (rule conid_order.index_cong [OF i(4)]) (simp add: assms(2) i)
qed

text \<open>What a successful \<open>connection_init\<close> leaves behind.\<close>

lemma connection_init_correct:
  assumes inv: "ug_inv o1" and mo: "malloc_ok malloc" "mem_ok alloc o1" and a: "conaddr_wf a"
    and none: "find_connection_by_conaddr o1 a = None" and room: "ug_num_connections o1 < ug_max_connections o1"
    and len: "int (length data) \<le> ug_udp_mtu o1"
  obtains (fail) o2 where "connection_init malloc alloc a flags data o1 = Some o2" "ug_inv o2" "ug_list o2 = ug_list o1"
      "\<And>d. con_at o2 d = con_at o1 d" "malloc o1 = None \<or> PacketProtoFlow_Init alloc (ug_udpgw_mtu o1) (ug_send_buffer_size o1) = None"
  | (new) o2 c flow where "connection_init malloc alloc a flags data o1 = Some o2" "ug_inv o2"
      "malloc o1 = Some c" "ug_list o2 = ug_list o1 @ [c]" "c \<notin> set (ug_list o1)"
      "PacketProtoFlow_Init alloc (ug_udpgw_mtu o1) (ug_send_buffer_size o1) = Some flow"
      "con_at o2 c = \<lparr>con_conaddr = a, con_first_flags = flags, con_first_data = data, con_conid = conid_of o2 c,
         con_first_job = True, con_ppflow = flow\<rparr>"
      "conid_of o2 c \<notin> conid_of o1 ` set (ug_list o1)" "\<And>d. d \<noteq> c \<Longrightarrow> con_at o2 d = con_at o1 d"
proof -
  have ix: "ug_index o1" and sz: "ug_sizes o1" and fl: "ug_flows o1" and sv: "ug_server o1"
    using inv by (simp_all add: ug_inv_def)
  have i: "distinct (ug_list o1)" "set (ug_list o1) = dom (ug_con o1)" "set (inorder (ug_by_conaddr o1)) = set (ug_list o1)"
    "set (inorder (ug_by_conid o1)) = set (ug_list o1)" using ix unfolding ug_index_def by blast+
  have q: "fq_inv (ug_send_queue o1)" "\<not> fq_freeing (ug_send_queue o1)"
    "set (fq_flows_list (ug_send_queue o1)) = insert keepalive_qflow (Suc ` set (ug_list o1))"
    using fl by (simp_all add: ug_flows_def)
  obtain conid n where n: "find_unused_conid o1 = Some (conid, o1\<lparr>ug_next_conid := n\<rparr>)" "0 \<le> n" "n < ug_max_connections o1"
    "uint conid = n" "conid \<notin> conid_of o1 ` set (ug_list o1)"
    using find_unused_conid_returns [OF ix sz room] by blast
  show thesis
  proof (cases "malloc o1")
    case None
    then show ?thesis using fail [of o1] inv by (simp add: connection_init_def)
  next
    case m: (Some c)
    have new_c: "ug_con o1 c = None" using mo(1) m by (simp add: malloc_ok_def)
    then have nc: "c \<notin> set (ug_list o1)" using i(2) by auto
    then have nf: "Suc c \<notin> set (fq_flows_list (ug_send_queue o1))" using q(3) by auto
    let ?q = "PacketPassFairQueueFlow_Init (flow_of c) (ug_send_queue o1)"
    show ?thesis
    proof (cases "PacketProtoFlow_Init alloc (ug_udpgw_mtu o1) (ug_send_buffer_size o1)")
      case None
      let ?o2 = "o1\<lparr>ug_next_conid := n, ug_send_queue := PacketPassFairQueueFlow_Free (flow_of c) ?q\<rparr>"
      have ci: "connection_init malloc alloc a flags data o1 = Some ?o2"
        using m n(1) None by (simp add: connection_init_def Let_def)
      have at: "con_at ?o2 = con_at o1" by (simp add: con_at_def fun_eq_iff)
      have "fq_flows_list (PacketPassFairQueueFlow_Free (flow_of c) ?q) = fq_flows_list (ug_send_queue o1)"
        using nf by (simp add: flow_free_fields flow_init_fields remove1_append)
      then have "ug_flows ?o2"
        using fl queue_add_free [OF q(1,2) nf]
        by (simp add: ug_flows_def flow_free_fields flow_init_fields at del: fun_upd_apply)
      moreover have "ug_index ?o2" by (rule index_keep [OF ix]) (simp_all add: at i)
      moreover have "ug_sizes ?o2" using sz n(2,3) by (simp add: ug_sizes_def at)
      moreover have "ug_server ?o2" by (rule server_keep [OF sv]) simp_all
      ultimately have "ug_inv ?o2" by (simp add: ug_inv_def)
      then show ?thesis using fail [OF ci] at None by simp
    next
      case f: (Some flow)
      define k where "k = \<lparr>con_conaddr = a, con_first_flags = flags, con_first_data = data, con_conid = conid,
          con_first_job = True, con_ppflow = flow\<rparr>"
      define o3 where "o3 = o1\<lparr>ug_next_conid := n, ug_send_queue := ?q, ug_con := (ug_con o1)(c \<mapsto> k)\<rparr>"
      define ta where "ta = exec_insert (ug_by_conaddr o1) (BAVL_Insert conaddr_comparator (conaddr_of o3) c (ug_by_conaddr o1))"
      define ti where "ti = exec_insert (ug_by_conid o1) (BAVL_Insert uint16_comparator (conid_of o3) c (ug_by_conid o1))"
      define o2 where "o2 = o3\<lparr>ug_by_conaddr := ta, ug_by_conid := ti, ug_list := ug_list o1 @ [c],
          ug_num_connections := ug_num_connections o1 + 1\<rparr>"
      have ci: "connection_init malloc alloc a flags data o1 = Some o2"
        using m n(1) f by (simp add: connection_init_def Let_def o2_def o3_def ta_def ti_def k_def con_at_same)
      have at3: "con_at o3 d = (if d = c then k else con_at o1 d)" for d by (simp add: o3_def con_at_def)
      have at: "con_at o2 = con_at o3" by (simp add: o2_def con_at_same)
      have ok3: "conaddr_order.index_ok (conaddr_of o3) (ug_by_conaddr o1)" "conid_order.index_ok (conid_of o3) (ug_by_conid o1)"
        by (rule index_cong_dom [OF ix]; use new_c at3 in auto)+
      have "a \<notin> conaddr_of o1 ` set (ug_list o1)" using none by_conaddr_iff(2) [OF ix a] by simp
      moreover have im: "(\<lambda>d. g (con_at o3 d)) ` set (ug_list o1) = (\<lambda>d. g (con_at o1 d)) ` set (ug_list o1)" for g
        using nc by (intro image_cong) (auto simp: at3)
      ultimately have fa: "conaddr_of o3 c \<notin> conaddr_of o3 ` set (inorder (ug_by_conaddr o1))"
        unfolding i(3) im by (simp add: at3 k_def)
      have fi: "conid_of o3 c \<notin> conid_of o3 ` set (inorder (ug_by_conid o1))"
        using n(5) unfolding i(4) im by (simp add: at3 k_def)
      have wf: "conaddr_wf (conaddr_of o3 c)" using a by (simp add: at3 k_def)
      note ins = exec_insert_conaddr [OF ok3(1) wf fa] exec_insert_conid [OF ok3(2) fi]
      have fld: "ug_max_connections o2 = ug_max_connections o1" "ug_next_conid o2 = n" "ug_list o2 = ug_list o1 @ [c]"
        "ug_num_connections o2 = ug_num_connections o1 + 1" "ug_udp_mtu o2 = ug_udp_mtu o1"
        "ug_udpgw_mtu o2 = ug_udpgw_mtu o1" "ug_send_buffer_size o2 = ug_send_buffer_size o1" "ug_send_queue o2 = ?q"
        "ug_by_conaddr o2 = ta" "ug_by_conid o2 = ti" "dom (ug_con o2) = insert c (dom (ug_con o1))"
        by (simp_all add: o2_def o3_def)
      have kf: "con_conid k = conid" "con_ppflow k = flow" "con_first_data k = data" by (simp_all add: k_def)
      have "ug_index o2"
        unfolding ug_index_def at fld using ins i nc by (simp add: ta_def ti_def)
      moreover have "ug_sizes o2"
        unfolding ug_sizes_def at fld using sz n(2-4) room nc by (auto simp: ug_sizes_def at3 kf)
      moreover have "ug_flows o2"
      proof -
        have "fl_inv (ug_udpgw_mtu o1) flow"
          using fl_init_inv [OF f] sz mo(2) by (simp add: ug_sizes_def mem_ok_def)
        then show ?thesis
          unfolding ug_flows_def at fld using fl len nc queue_add [OF q(1,2) nf] q
          by (auto simp: ug_flows_def at3 kf flow_init_fields)
      qed
      moreover have "ug_server o2" by (rule server_keep [OF sv]) (simp_all add: o2_def o3_def)
      ultimately have "ug_inv o2" by (simp add: ug_inv_def)
      moreover have "con_at o2 c = \<lparr>con_conaddr = a, con_first_flags = flags, con_first_data = data, con_conid = conid_of o2 c,
         con_first_job = True, con_ppflow = flow\<rparr>" "conid_of o2 c \<notin> conid_of o1 ` set (ug_list o1)"
        using n(5) by (simp_all add: at at3 k_def)
      ultimately show ?thesis
        by (intro new [OF ci _ m fld(3) nc f]) (simp_all add: at at3)
    qed
  qed
qed

section \<open>Submitting and receiving\<close>

lemma submit_correct:
  assumes inv: "ug_inv o1" and mo: "malloc_ok malloc" "mem_ok alloc o1"
    and wf: "addr_wf l" "addr_wf r" and len: "int (length data) \<le> ug_udp_mtu o1"
  shows "\<exists>o2. UdpGwClient_SubmitPacket malloc alloc l r dns data o1 = Some o2 \<and> ug_inv o2"
proof -
  let ?a = "\<lparr>local_addr = l, remote_addr = r\<rparr>"
  have a: "conaddr_wf ?a" using wf by (simp add: conaddr_wf_def)
  have ix: "ug_index o1" and sz: "ug_sizes o1" using inv by (simp_all add: ug_inv_def)
  have send: "ug_inv (connection_send c fl data (move_to_end c o2))"
    if "ug_inv o2" "c \<in> set (ug_list o2)" "ug_udp_mtu o2 = ug_udp_mtu o1" for c o2 fl
    using that move_to_end_inv [OF that(1,2)] len by (intro connection_send_inv) (simp_all add: move_to_end_def)
  show ?thesis
  proof (cases "find_connection_by_conaddr o1 ?a")
    case (Some c)
    then have "c \<in> set (ug_list o1)" using by_conaddr_iff(1) [OF ix a] by simp
    then show ?thesis using send [OF inv] Some by (simp add: UdpGwClient_SubmitPacket_def Let_def)
  next
    case none: None
    show ?thesis
    proof (cases "ug_num_connections o1 = ug_max_connections o1")
      case True
      then have ne: "ug_list o1 \<noteq> []" using sz by (auto simp: ug_sizes_def)
      obtain c o4 where r: "reuse_connection ?a o1 = (c, o4)" by fastforce
      note rc = reuse_connection_correct [OF inv a none ne r]
      have "c \<in> set (ug_list o4)" using rc(1,3) ne by simp
      then show ?thesis
        using send [OF rc(2)] rc(5) none True r by (simp add: UdpGwClient_SubmitPacket_def Let_def)
    next
      case False
      then have lt: "ug_num_connections o1 < ug_max_connections o1" using sz by (simp add: ug_sizes_def)
      have "\<exists>o2. connection_init malloc alloc ?a (if dns then UDPGW_CLIENT_FLAG_DNS else 0) data o1 = Some o2 \<and> ug_inv o2"
        by (rule connection_init_correct [OF inv mo a none lt len]) blast+
      then show ?thesis using none False by (simp add: UdpGwClient_SubmitPacket_def Let_def)
    qed
  qed
qed

lemma submit_fields:
  assumes "UdpGwClient_SubmitPacket malloc alloc l r dns data o1 = Some o2"
  shows "ug_udpgw_mtu o2 = ug_udpgw_mtu o1" "ug_send_buffer_size o2 = ug_send_buffer_size o1"
  using assms
  by (auto simp: UdpGwClient_SubmitPacket_def Let_def connection_init_def connection_send_def reuse_connection_def
      move_to_end_def find_unused_conid_def split: option.splits prod.splits if_splits)

text \<open>What the client makes of a packet from the gateway.\<close>

lemma flags_or_8 [simp]: "(flags OR 8) AND (8 :: byte) = 8"
  by (rule bit_word_eqI) (auto simp: bit_simps)

lemma recv_packet:
  assumes ix: "ug_index o1" and c: "c \<in> set (ug_list o1)" and r: "remote_addr (conaddr_of o1 c) \<noteq> BAddr_None"
    and fl: "flags AND UDPGW_CLIENT_FLAG_IPV6 = 0" and len: "int (length data) \<le> ug_udp_mtu o1"
  shows "recv_interface_handler_send (udpgw_packet flags (conid_of o1 c) (remote_addr (conaddr_of o1 c)) data) o1 =
    (move_to_end c o1, [UG_RecvDone, UG_Received (local_addr (conaddr_of o1 c)) (remote_addr (conaddr_of o1 c)) data])"
proof -
  have wf: "addr_wf (remote_addr (conaddr_of o1 c))" using con_wf [OF ix c] by (simp add: conaddr_wf_def)
  have id: "find_connection_by_conid o1 (conid_of o1 c) = Some c" using by_conid_iff(1) [OF ix] c by simp
  have eq: "BAddr_CompareOrder x x = 0" if "addr_wf x" for x using CompareOrder_eq [OF that that] by simp
  show ?thesis
  proof (cases "remote_addr (conaddr_of o1 c)")
    case BAddr_None
    then show ?thesis using r by simp
  next
    case (BAddr_IPv4 ip port)
    then show ?thesis
      using id fl len eq [OF wf]
      by (simp add: recv_interface_handler_send_def udpgw_packet_def udpgw_header_def is_ipv6_def)
  next
    case (BAddr_IPv6 ip port)
    then have "length ip = 16" using wf by simp
    then show ?thesis
      using id len eq [OF wf] BAddr_IPv6
      by (simp add: recv_interface_handler_send_def udpgw_packet_def udpgw_header_def is_ipv6_def)
  qed
qed

lemma recv_cases:
  assumes "ug_index o1"
  shows "(fst (recv_interface_handler_send data o1) = o1 \<and> snd (recv_interface_handler_send data o1) = [UG_RecvDone]) \<or>
    (\<exists>c\<in>set (ug_list o1). fst (recv_interface_handler_send data o1) = move_to_end c o1)"
  using by_conid_iff(1) [OF assms]
  by (auto simp: recv_interface_handler_send_def Let_def split: option.splits if_splits)

section \<open>Histories\<close>

text \<open>Operations of the fair queue that do not add or remove flows.\<close>

fun queue_internal :: "fq_op \<Rightarrow> bool" where
  "queue_internal (FO_AddFlow f) = False"
| "queue_internal (FO_FreeFlow f) = False"
| "queue_internal FO_PrepareFree = False"
| "queue_internal op = True"

inductive ug_step ::
  "(UdpGwClient \<Rightarrow> nat option) \<Rightarrow> (int \<Rightarrow> byte list option) \<Rightarrow> UdpGwClient \<Rightarrow> UdpGwClient \<Rightarrow> bool" for malloc alloc where
  ug_submit: "addr_wf l \<Longrightarrow> addr_wf r \<Longrightarrow> int (length data) \<le> ug_udp_mtu o1 \<Longrightarrow>
     UdpGwClient_SubmitPacket malloc alloc l r dns data o1 = Some o2 \<Longrightarrow> ug_step malloc alloc o1 o2"
| ug_first_job: "c \<in> set (ug_list o1) \<Longrightarrow> con_first_job (con_at o1 c) \<Longrightarrow>
     ug_step malloc alloc o1 (connection_first_job_handler c (upd_con c (\<lambda>k. k\<lparr>con_first_job := False\<rparr>) o1))"
| ug_receive: "ug_have_server o1 \<Longrightarrow> int (length data) \<le> ug_udpgw_mtu o1 \<Longrightarrow>
     ug_step malloc alloc o1 (fst (recv_interface_handler_send data o1))"
| ug_pipeline: "c \<in> set (ug_list o1) \<Longrightarrow> fl_step (ug_udpgw_mtu o1) (con_ppflow (con_at o1 c)) flow \<Longrightarrow>
     fl_accepted flow = fl_accepted (con_ppflow (con_at o1 c)) \<Longrightarrow>
     ug_step malloc alloc o1 (upd_con c (\<lambda>k. k\<lparr>con_ppflow := flow\<rparr>) o1)"
| ug_queue: "queue_internal op \<Longrightarrow> fq_pre op (ug_send_queue o1) \<Longrightarrow>
     ug_step malloc alloc o1 (o1\<lparr>ug_send_queue := fq_step op (ug_send_queue o1)\<rparr>)"
| ug_monitor: "ug_step malloc alloc o1 (fst (send_monitor_handler o1))"
| ug_keepalive_done: "ug_keepalive_sending o1 \<Longrightarrow> ug_step malloc alloc o1 (keepalive_if_handler_done o1)"
| ug_connect: "\<not> ug_have_server o1 \<Longrightarrow> ug_step malloc alloc o1 (snd (UdpGwClient_ConnectServer dmalloc srv o1))"
| ug_disconnect: "ug_have_server o1 \<Longrightarrow> ug_step malloc alloc o1 (UdpGwClient_DisconnectServer o1)"

inductive ug_reach :: "(UdpGwClient \<Rightarrow> nat option) \<Rightarrow> (int \<Rightarrow> byte list option) \<Rightarrow> UdpGwClient \<Rightarrow> UdpGwClient \<Rightarrow> bool"
  for malloc alloc o0 where
  ug_start: "ug_reach malloc alloc o0 o0"
| ug_next: "ug_reach malloc alloc o0 o1 \<Longrightarrow> ug_step malloc alloc o1 o2 \<Longrightarrow> ug_reach malloc alloc o0 o2"

lemma queue_internal_flows:
  "queue_internal op \<Longrightarrow> fq_flows_list (fq_step op q) = fq_flows_list q \<and> fq_freeing (fq_step op q) = fq_freeing q"
  by (cases op)
    (auto simp: fq_step_def FairQueue_input_handler_send_def FairQueue_output_handler_done_def schedule_job_handler_def
      schedule_def Tree_Insert_def Tree_Remove_def PacketPassFairQueueFlow_SetBusyHandler_def
      PacketPassFairQueueFlow_RequestCancel_def Let_def split: option.splits)

text \<open>Changing the object of one connection, its keys aside.\<close>

lemma upd_con_inv:
  assumes inv: "ug_inv o1" and c: "c \<in> set (ug_list o1)"
    and f: "con_conaddr (f (con_at o1 c)) = conaddr_of o1 c" "con_conid (f (con_at o1 c)) = conid_of o1 c"
      "con_first_data (f (con_at o1 c)) = con_first_data (con_at o1 c)"
      "fl_inv (ug_udpgw_mtu o1) (con_ppflow (f (con_at o1 c)))"
  shows "ug_inv (upd_con c f o1)"
proof -
  have ix: "ug_index o1" and sz: "ug_sizes o1" and fl: "ug_flows o1" and sv: "ug_server o1"
    using inv by (simp_all add: ug_inv_def)
  have dm: "c \<in> dom (ug_con o1)" and d: "distinct (ug_list o1)" using ix c by (simp_all add: ug_index_def)
  have "ug_index (upd_con c f o1)" by (rule index_keep [OF ix]) (simp_all add: con_at_upd dm f d)
  moreover have "ug_sizes (upd_con c f o1)" by (rule sizes_keep [OF sz]) (simp_all add: con_at_upd dm f)
  moreover have "ug_flows (upd_con c f o1)"
    by (rule flows_keep [OF fl]) (use fl in \<open>simp_all add: con_at_upd dm f ug_flows_def\<close>)
  moreover have "ug_server (upd_con c f o1)" by (rule server_keep [OF sv]) simp_all
  ultimately show ?thesis by (simp add: ug_inv_def)
qed

text \<open>Changing only the parts that concern the server or the queue.\<close>

lemma rest_inv:
  assumes inv: "ug_inv o1" and same: "ug_by_conaddr o2 = ug_by_conaddr o1" "ug_by_conid o2 = ug_by_conid o1"
    "ug_list o2 = ug_list o1" "ug_con o2 = ug_con o1" "ug_max_connections o2 = ug_max_connections o1"
    "ug_udp_mtu o2 = ug_udp_mtu o1" "ug_udpgw_mtu o2 = ug_udpgw_mtu o1" "ug_send_buffer_size o2 = ug_send_buffer_size o1"
    "ug_num_connections o2 = ug_num_connections o1" "ug_next_conid o2 = ug_next_conid o1"
    and q: "fq_inv (ug_send_queue o2)" "\<not> fq_freeing (ug_send_queue o2)"
      "fq_flows_list (ug_send_queue o2) = fq_flows_list (ug_send_queue o1)"
    and sv: "ug_server o2"
  shows "ug_inv o2"
proof -
  have at: "con_at o2 = con_at o1" using same(4) by (simp add: con_at_def fun_eq_iff)
  have "ug_index o2" using inv unfolding ug_inv_def ug_index_def same at by blast
  moreover have "ug_sizes o2" using inv unfolding ug_inv_def ug_sizes_def same at by blast
  moreover have "ug_flows o2" using inv q(1,2) unfolding ug_inv_def ug_flows_def same at q(3) by blast
  ultimately show ?thesis using sv by (simp add: ug_inv_def)
qed

lemma send_fields [simp]:
  "ug_udpgw_mtu (connection_send c flags data o1) = ug_udpgw_mtu o1"
  "ug_send_buffer_size (connection_send c flags data o1) = ug_send_buffer_size o1"
  by (simp_all add: connection_send_def Let_def split: option.split prod.split)

lemma send_keeps:
  assumes "c \<in> dom (ug_con o1)"
  shows "conaddr_of (connection_send c flags data o1) d = conaddr_of o1 d"
    and "conid_of (connection_send c flags data o1) d = conid_of o1 d"
    and "d \<noteq> c \<Longrightarrow> con_at (connection_send c flags data o1) d = con_at o1 d"
    and "ug_list (connection_send c flags data o1) = ug_list o1"
  using assms by (simp_all add: connection_send_def Let_def con_at_upd split: option.split prod.split)

lemma ug_step_inv:
  assumes "ug_step malloc alloc o1 o2" "malloc_ok malloc" "mem_ok alloc o1" "ug_inv o1"
  shows "ug_inv o2 \<and> mem_ok alloc o2"
  using assms
proof (induction rule: ug_step.induct)
  case (ug_submit l r data o1 dns o2)
  then show ?case
    using submit_correct [OF ug_submit.prems(3,1,2) ug_submit.hyps(1,2,3), of dns] submit_fields [OF ug_submit.hyps(4)]
    by (auto simp: mem_ok_def)
next
  case (ug_first_job c o1)
  let ?o2 = "upd_con c (\<lambda>k. k\<lparr>con_first_job := False\<rparr>) o1"
  have dm: "c \<in> dom (ug_con o1)" and fl: "fl_inv (ug_udpgw_mtu o1) (con_ppflow (con_at o1 c))"
    "int (length (con_first_data (con_at o1 c))) \<le> ug_udp_mtu o1"
    using ug_first_job by (auto simp: ug_inv_def ug_index_def ug_flows_def)
  have i2: "ug_inv ?o2" using ug_first_job fl by (intro upd_con_inv) simp_all
  have "ug_inv (connection_first_job_handler c ?o2)"
    unfolding connection_first_job_handler_def using ug_first_job fl dm
    by (intro connection_send_inv [OF i2]) (simp_all add: con_at_upd)
  then show ?case
    using ug_first_job(4) by (simp add: mem_ok_def connection_first_job_handler_def)
next
  case (ug_receive o1 data)
  then have "ug_index o1" by (simp add: ug_inv_def)
  then show ?case
    using recv_cases [of o1 data] move_to_end_inv(1) [OF ug_receive.prems(3)] ug_receive.prems
    by (auto simp: mem_ok_def move_to_end_def)
next
  case (ug_pipeline c o1 flow)
  have "fl_inv (ug_udpgw_mtu o1) flow"
    using ug_pipeline by (intro fl_step_inv [OF ug_pipeline.hyps(2)]) (simp add: ug_inv_def ug_flows_def)
  then show ?case using ug_pipeline by (simp add: upd_con_inv mem_ok_def)
next
  case (ug_queue op o1)
  have q: "fq_inv (ug_send_queue o1)" "\<not> fq_freeing (ug_send_queue o1)" and sv: "ug_server o1"
    using ug_queue by (simp_all add: ug_inv_def ug_flows_def)
  have "ug_server (o1\<lparr>ug_send_queue := fq_step op (ug_send_queue o1)\<rparr>)" by (rule server_keep [OF sv]) simp_all
  then have "ug_inv (o1\<lparr>ug_send_queue := fq_step op (ug_send_queue o1)\<rparr>)"
    using fq_step_inv [OF q(1) ug_queue.hyps(2)] queue_internal_flows [OF ug_queue.hyps(1)] q(2)
    by (intro rest_inv [OF ug_queue.prems(3)]) simp_all
  then show ?case using ug_queue by (simp add: mem_ok_def)
next
  case (ug_monitor o1)
  have "ug_inv (fst (send_monitor_handler o1))"
    by (rule rest_inv [OF ug_monitor(3)])
      (use ug_monitor(3) in \<open>simp_all add: send_monitor_handler_def ug_inv_def ug_flows_def ug_server_def\<close>)
  then show ?case using ug_monitor by (simp add: mem_ok_def send_monitor_handler_def)
next
  case (ug_keepalive_done o1)
  have "ug_inv (keepalive_if_handler_done o1)"
    by (rule rest_inv [OF ug_keepalive_done(4)])
      (use ug_keepalive_done(4) in \<open>simp_all add: keepalive_if_handler_done_def ug_inv_def ug_flows_def ug_server_def\<close>)
  then show ?case using ug_keepalive_done by (simp add: mem_ok_def keepalive_if_handler_done_def)
next
  case (ug_connect o1 dmalloc srv)
  have "ug_inv (snd (UdpGwClient_ConnectServer dmalloc srv o1))"
    by (rule rest_inv [OF ug_connect(4)])
      (use ug_connect(1,4) in \<open>auto simp: UdpGwClient_ConnectServer_def PacketPassConnector_ConnectOutput_def Let_def
        ug_inv_def ug_flows_def ug_server_def split: option.split\<close>)
  then show ?case using ug_connect by (simp add: mem_ok_def UdpGwClient_ConnectServer_def split: option.split)
next
  case (ug_disconnect o1)
  have "ug_inv (UdpGwClient_DisconnectServer o1)"
    by (rule rest_inv [OF ug_disconnect(4)])
      (use ug_disconnect(4) in \<open>simp_all add: UdpGwClient_DisconnectServer_def free_server_def
        PacketPassConnector_DisconnectOutput_def ug_inv_def ug_flows_def ug_server_def\<close>)
  then show ?case using ug_disconnect by (simp add: mem_ok_def UdpGwClient_DisconnectServer_def free_server_def)
qed

lemma compute_mtu:
  assumes "0 \<le> m" "0 \<le> udpgw_compute_mtu m"
  shows "udpgw_compute_mtu m = m + 22"
proof -
  have "m \<le> INT_MAX" using assms
    by (auto simp: udpgw_compute_mtu_def bsize_fromint_def bsize_add_def bsize_toint_def split: option.splits if_splits)
  then show ?thesis
    using assms by (auto simp: udpgw_compute_mtu_def bsize_fromint_def bsize_toint_def split: option.splits if_splits)
qed

lemma ug_init_inv:
  assumes i: "UdpGwClient_Init udp_mtu maxc bufsize junk = Some o1"
    and "0 \<le> udp_mtu" "0 \<le> udpgw_compute_mtu udp_mtu" "udpgw_compute_mtu udp_mtu \<le> PACKETPROTO_MAXPAYLOAD"
    and "0 < maxc" "0 < bufsize"
  shows "ug_inv o1"
proof -
  let ?m = "udpgw_compute_mtu udp_mtu"
  have m: "?m = udp_mtu + 22" using compute_mtu assms by simp
  obtain q where q: "PacketPassFairQueue_Init (?m + 2) False 1 junk = Some q"
    using i by (auto simp: UdpGwClient_Init_def Let_def split: option.splits)
  have qi: "fq_inv q" using fq_init_inv [OF q] assms m by simp
  have qf: "fq_flows_list q = []" "\<not> fq_freeing q"
    using q by (auto simp: PacketPassFairQueue_Init_def split: if_splits)
  have "ug_sizes o1"
    using i q assms m by (auto simp: UdpGwClient_Init_def Let_def ug_sizes_def split: if_splits)
  moreover have "ug_flows o1"
    using i q queue_add [OF qi qf(2), of keepalive_qflow] qf
    by (auto simp: UdpGwClient_Init_def Let_def ug_flows_def flow_init_fields)
  moreover have "ug_server o1"
    using i q by (auto simp: UdpGwClient_Init_def Let_def ug_server_def PacketPassConnector_Init_def)
  moreover have "ug_index o1"
    using i q conaddr_order.index_Init conid_order.index_Init
    by (auto simp: UdpGwClient_Init_def Let_def ug_index_def BAVL_Init_def)
  ultimately show ?thesis by (simp add: ug_inv_def)
qed

lemma ug_reach_inv:
  assumes "malloc_ok malloc" "mem_ok alloc o0" "ug_inv o0" "ug_reach malloc alloc o0 o1"
  shows "ug_inv o1 \<and> mem_ok alloc o1"
  using assms(4,1-3) by (induction rule: ug_reach.induct) (auto dest: ug_step_inv)

section \<open>Taking the client down\<close>

definition ug_free_inv :: "UdpGwClient \<Rightarrow> bool" where
  "ug_free_inv o1 \<longleftrightarrow> ug_index o1 \<and> ug_num_connections o1 = int (length (ug_list o1)) \<and>
     distinct (fq_flows_list (ug_send_queue o1)) \<and>
     set (fq_flows_list (ug_send_queue o1)) = insert keepalive_qflow (Suc ` set (ug_list o1))"

lemma connection_free_inv:
  assumes inv: "ug_free_inv o1" and l: "ug_list o1 = c # cs"
  shows "ug_free_inv (connection_free c o1)"
proof -
  have ix: "ug_index o1" using inv by (simp add: ug_free_inv_def)
  have i: "distinct (ug_list o1)" "set (ug_list o1) = dom (ug_con o1)" "conaddr_order.index_ok (conaddr_of o1) (ug_by_conaddr o1)"
    "set (inorder (ug_by_conaddr o1)) = set (ug_list o1)" "conid_order.index_ok (conid_of o1) (ug_by_conid o1)"
    "set (inorder (ug_by_conid o1)) = set (ug_list o1)" using ix unfolding ug_index_def by blast+
  have c: "c \<in> set (ug_list o1)" using l by simp
  note ra = conaddr_order.index_Remove [OF i(3), of c] and ri = conid_order.index_Remove [OF i(5), of c]
  have ta: "conaddr_order.index_ok (conaddr_of o1) (BAVL_Remove c (ug_by_conaddr o1))"
    "set (inorder (BAVL_Remove c (ug_by_conaddr o1))) = set (ug_list o1) - {c}"
    using ra c i(4) conaddr_order.index_distinct [OF i(3)] by simp_all
  have ti: "conid_order.index_ok (conid_of o1) (BAVL_Remove c (ug_by_conid o1))"
    "set (inorder (BAVL_Remove c (ug_by_conid o1))) = set (ug_list o1) - {c}"
    using ri c i(6) conid_order.index_distinct [OF i(5)] by simp_all
  let ?o2 = "connection_free c o1"
  have at: "con_at ?o2 d = con_at o1 d" if "d \<noteq> c" for d using that by (simp add: connection_free_def con_at_def)
  have "conaddr_order.index_ok (conaddr_of ?o2) (BAVL_Remove c (ug_by_conaddr o1))"
    by (rule conaddr_order.index_cong [OF ta(1)]) (use ta(2) in \<open>simp add: at\<close>)
  moreover have "conid_order.index_ok (conid_of ?o2) (BAVL_Remove c (ug_by_conid o1))"
    by (rule conid_order.index_cong [OF ti(1)]) (use ti(2) in \<open>simp add: at\<close>)
  moreover have "ug_by_conaddr ?o2 = BAVL_Remove c (ug_by_conaddr o1)" "ug_by_conid ?o2 = BAVL_Remove c (ug_by_conid o1)"
    "ug_list ?o2 = cs" "dom (ug_con ?o2) = dom (ug_con o1) - {c}" "ug_num_connections ?o2 = ug_num_connections o1 - 1"
    "fq_flows_list (ug_send_queue ?o2) = remove1 (Suc c) (fq_flows_list (ug_send_queue o1))"
    by (auto simp: connection_free_def l flow_free_fields)
  moreover have "set cs = set (ug_list o1) - {c}" "distinct cs" using i(1) l by auto
  ultimately show ?thesis
    using inv i ta ti l unfolding ug_free_inv_def ug_index_def by (auto simp: image_iff)
qed

lemma free_connections_all:
  "ug_free_inv o1 \<Longrightarrow> ug_free_inv (free_connections o1) \<and> ug_list (free_connections o1) = [] \<and>
    ug_have_server (free_connections o1) = ug_have_server o1 \<and> fq_freeing (ug_send_queue (free_connections o1)) = fq_freeing (ug_send_queue o1)"
proof (induction o1 rule: free_connections.induct)
  case (1 o1)
  show ?case
  proof (cases "ug_list o1")
    case Nil
    then show ?thesis using 1 by (simp add: free_connections.simps)
  next
    case (Cons c cs)
    then show ?thesis
      using "1.IH" [OF Cons] connection_free_inv [OF "1.prems" Cons]
      by (subst (1 2 3 4) free_connections.simps) (simp add: connection_free_def flow_free_fields)
  qed
qed

section \<open>Properties\<close>

text \<open>A client as it is set up: legal sizes, working allocation.\<close>

definition ug_setup ::
  "(UdpGwClient \<Rightarrow> nat option) \<Rightarrow> (int \<Rightarrow> byte list option) \<Rightarrow> int \<Rightarrow> int \<Rightarrow> int \<Rightarrow> UdpGwClient \<Rightarrow> bool" where
  "ug_setup malloc alloc udp_mtu maxc bufsize o0 \<longleftrightarrow>
     malloc_ok malloc \<and> mem_ok alloc o0 \<and> 0 \<le> udp_mtu \<and> 0 \<le> udpgw_compute_mtu udp_mtu \<and>
     udpgw_compute_mtu udp_mtu \<le> PACKETPROTO_MAXPAYLOAD \<and> 0 < maxc \<and> 0 < bufsize"

lemma setup_reach_inv:
  assumes "ug_setup malloc alloc udp_mtu maxc bufsize o0" "UdpGwClient_Init udp_mtu maxc bufsize junk = Some o0"
    "ug_reach malloc alloc o0 o1"
  shows "ug_inv o1 \<and> mem_ok alloc o1 \<and> malloc_ok malloc"
  using assms ug_init_inv [OF assms(2)] ug_reach_inv [of malloc alloc o0 o1] by (simp add: ug_setup_def)

text \<open>A client for one connection, before and after its first datagram.\<close>

definition malloc_demo :: "UdpGwClient \<Rightarrow> nat option" where
  "malloc_demo o1 = (if ug_con o1 (length (ug_list o1)) = None then Some (length (ug_list o1)) else None)"

definition junk_flow :: "nat \<Rightarrow> Flow" where
  "junk_flow = (\<lambda>_. \<lparr>f_time = 0, f_is_queued = False, f_data = 0, f_data_len = 0, f_handler_busy = False\<rparr>)"

definition ug_demo0 :: UdpGwClient where
  "ug_demo0 = the (UdpGwClient_Init 4 1 1 junk_flow)"

abbreviation demo_local :: BAddr where "demo_local \<equiv> BAddr_IPv4 1 2"
abbreviation demo_remote :: BAddr where "demo_remote \<equiv> BAddr_IPv4 3 4"

definition ug_demo1 :: UdpGwClient where
  "ug_demo1 = the (UdpGwClient_SubmitPacket malloc_demo demo_alloc demo_local demo_remote False [7] ug_demo0)"

lemma demo_mtu: "udpgw_compute_mtu 4 = 26"
  by (simp add: udpgw_compute_mtu_def bsize_fromsize_def bsize_fromint_def bsize_toint_def bsize_add_def bsize_max_def)

lemma demo_queue: "(28 :: u64) \<le> FAIRQUEUE_MAX_TIME \<and> (1 :: u64) \<le> FAIRQUEUE_MAX_TIME - 28"
  by code_simp

lemma demo_init_eq:
  "ug_demo0 = \<lparr>ug_udp_mtu = 4, ug_max_connections = 1, ug_send_buffer_size = 1, ug_udpgw_mtu = 26, ug_pp_mtu = 28,
     ug_by_conaddr = BAVL_Init, ug_by_conid = BAVL_Init, ug_list = [], ug_num_connections = 0, ug_next_conid = 0,
     ug_con = (\<lambda>_. None), ug_send_queue = ug_send_queue ug_demo0,
     ug_send_monitor = PacketPassInactivityMonitor_Init True, ug_send_connector = PacketPassConnector_Init 0,
     ug_keepalive_packet = store16 3 @ udpgw_header UDPGW_CLIENT_FLAG_KEEPALIVE 0,
     ug_keepalive_sending = False, ug_have_server = False, ug_send_sender = None, ug_recv_decoder = None\<rparr>"
  "UdpGwClient_Init 4 1 1 junk_flow = Some ug_demo0"
  using demo_queue by (simp_all add: ug_demo0_def UdpGwClient_Init_def demo_mtu PacketPassFairQueue_Init_def Let_def)

lemma demo_fields [simp]:
  "ug_udp_mtu ug_demo0 = 4" "ug_max_connections ug_demo0 = 1" "ug_send_buffer_size ug_demo0 = 1" "ug_udpgw_mtu ug_demo0 = 26"
  "ug_by_conaddr ug_demo0 = Lf" "ug_by_conid ug_demo0 = Lf" "ug_list ug_demo0 = []" "ug_num_connections ug_demo0 = 0"
  "ug_next_conid ug_demo0 = 0" "ug_con ug_demo0 = (\<lambda>_. None)"
  by (subst demo_init_eq(1), simp add: BAVL_Init_def)+

lemma demo_setup: "ug_setup malloc_demo demo_alloc 4 1 1 ug_demo0"
proof -
  have "alloc_ok demo_alloc (ChunkBuffer2_calc_blocks (PACKETPROTO_ENCLEN 26) 1)" by code_simp
  then show ?thesis
    by (simp add: ug_setup_def malloc_ok_def malloc_demo_def mem_ok_def demo_mtu)
qed

lemma demo_flow: "\<exists>flow. PacketProtoFlow_Init demo_alloc 26 1 = Some flow"
proof -
  have "PacketProtoFlow_Init demo_alloc 26 1 \<noteq> None" by code_simp
  then show ?thesis by blast
qed

lemma demo_submit:
  "UdpGwClient_SubmitPacket malloc_demo demo_alloc demo_local demo_remote False [7] ug_demo0 = Some ug_demo1"
  "ug_list ug_demo1 = [0]" "ug_num_connections ug_demo1 = 1" "ug_max_connections ug_demo1 = 1" "ug_udp_mtu ug_demo1 = 4"
  "con_conaddr (con_at ug_demo1 0) = \<lparr>local_addr = demo_local, remote_addr = demo_remote\<rparr>"
  "ug_by_conaddr ug_demo1 = Nd Lf 0 0 Lf"
  using demo_flow
  by (auto simp: ug_demo1_def UdpGwClient_SubmitPacket_def Let_def connection_init_def find_unused_conid_def
     conid_loop.simps [of _ _ 0] find_connection_by_conid_def find_connection_by_conaddr_def malloc_demo_def
     con_at_def BAVL_Insert_def exec_insert_def)

lemmas demo_ok = demo_setup demo_init_eq(2)

lemma demo_reach1: "ug_reach malloc_demo demo_alloc ug_demo0 ug_demo1"
  by (rule ug_next [OF ug_start ug_submit [OF _ _ _ demo_submit(1)]]) simp_all

text \<open>C32. Submitting a datagram always returns, in every state the client can reach: in particular the search for an
  unused connection id, a loop without an exit of its own, ends, because it only runs while fewer connections
  than ids exist; the id it finds is in range and in use by no other connection.\<close>

theorem udpgw_submit_returns:
  assumes "ug_setup malloc alloc udp_mtu maxc bufsize o0" "UdpGwClient_Init udp_mtu maxc bufsize junk = Some o0"
    and "ug_reach malloc alloc o0 o1" "addr_wf l" "addr_wf r" "int (length data) \<le> ug_udp_mtu o1"
  shows "(\<exists>o2. UdpGwClient_SubmitPacket malloc alloc l r dns data o1 = Some o2) \<and>
    (ug_num_connections o1 < ug_max_connections o1 \<longrightarrow>
      (\<exists>conid o2. find_unused_conid o1 = Some (conid, o2) \<and> uint conid < ug_max_connections o1 \<and>
         find_connection_by_conid o1 conid = None))"
proof -
  have inv: "ug_inv o1" "mem_ok alloc o1" "malloc_ok malloc" using setup_reach_inv [OF assms(1-3)] by simp_all
  have ix: "ug_index o1" "ug_sizes o1" using inv by (simp_all add: ug_inv_def)
  have "\<exists>o2. UdpGwClient_SubmitPacket malloc alloc l r dns data o1 = Some o2"
    using submit_correct [OF inv(1,3,2) assms(4-6)] by blast
  moreover have "\<exists>conid o2. find_unused_conid o1 = Some (conid, o2) \<and> uint conid < ug_max_connections o1 \<and>
      find_connection_by_conid o1 conid = None" if "ug_num_connections o1 < ug_max_connections o1"
    using find_unused_conid_returns [OF ix that] by_conid_iff(2) [OF ix(1)] by fastforce
  ultimately show ?thesis by blast
qed

theorem udpgw_submit_returns_witness:
  "(\<exists>o2. UdpGwClient_SubmitPacket malloc_demo demo_alloc demo_local demo_remote False [7] ug_demo0 = Some o2) \<and>
   (\<exists>conid o2. find_unused_conid ug_demo0 = Some (conid, o2) \<and> uint conid < 1)"
  using udpgw_submit_returns [OF demo_ok ug_start, where l = demo_local and r = demo_remote and data = "[7]" and dns = False]
  by auto

text \<open>C17. In every reachable state the address index, the id index, the use list and the heap of connections agree: an
  address or an id is found exactly when a live connection has it, no two connections share an address or
  an id, their number is the counter and never exceeds the maximum, and the fair queue has exactly one
  flow for each of them and one for keep-alives.\<close>

theorem udpgw_indexes_agree:
  assumes "ug_setup malloc alloc udp_mtu maxc bufsize o0" "UdpGwClient_Init udp_mtu maxc bufsize junk = Some o0"
    and "ug_reach malloc alloc o0 o1"
  shows "distinct (ug_list o1) \<and> set (ug_list o1) = dom (ug_con o1) \<and>
    ug_num_connections o1 = int (length (ug_list o1)) \<and> ug_num_connections o1 \<le> ug_max_connections o1 \<and>
    (\<forall>a c. conaddr_wf a \<longrightarrow> (find_connection_by_conaddr o1 a = Some c \<longleftrightarrow> c \<in> set (ug_list o1) \<and> conaddr_of o1 c = a)) \<and>
    (\<forall>i c. find_connection_by_conid o1 i = Some c \<longleftrightarrow> c \<in> set (ug_list o1) \<and> conid_of o1 c = i) \<and>
    inj_on (conaddr_of o1) (set (ug_list o1)) \<and> inj_on (conid_of o1) (set (ug_list o1)) \<and>
    set (fq_flows_list (ug_send_queue o1)) = insert keepalive_qflow (flow_of ` set (ug_list o1))"
proof -
  have inv: "ug_inv o1" using setup_reach_inv [OF assms] by simp
  have ix: "ug_index o1" and sz: "ug_sizes o1" and fl: "ug_flows o1" using inv by (simp_all add: ug_inv_def)
  have "inj_on (conaddr_of o1) (set (ug_list o1))" "inj_on (conid_of o1) (set (ug_list o1))"
    using conaddr_order.index_inj [of "conaddr_of o1" "ug_by_conaddr o1"] conid_order.index_inj [of "conid_of o1" "ug_by_conid o1"] ix
    by (simp_all add: ug_index_def)
  moreover have "distinct (ug_list o1)" "set (ug_list o1) = dom (ug_con o1)" using ix unfolding ug_index_def by blast+
  moreover have "ug_num_connections o1 = int (length (ug_list o1))" "ug_num_connections o1 \<le> ug_max_connections o1"
    using sz unfolding ug_sizes_def by blast+
  moreover have "set (fq_flows_list (ug_send_queue o1)) = insert keepalive_qflow (flow_of ` set (ug_list o1))"
    using fl unfolding ug_flows_def by blast
  ultimately show ?thesis using by_conaddr_iff(1) [OF ix] by_conid_iff(1) [OF ix] by blast
qed

theorem udpgw_indexes_agree_witness:
  "distinct (ug_list ug_demo1) \<and> set (fq_flows_list (ug_send_queue ug_demo1)) = {keepalive_qflow, 1}"
  using udpgw_indexes_agree [OF demo_ok demo_reach1] by (simp add: demo_submit)

text \<open>C12. The wire format is symmetric: when the pipeline of a connection is ready, sending a datagram on it hands the
  pipeline exactly one packet, of flags, connection id, remote address and data; and that packet, coming
  back from the gateway, is delivered as data from this remote address to this connection's local
  address, unchanged. When the pipeline is not ready the datagram is dropped and nothing changes.\<close>

theorem udpgw_roundtrip:
  assumes "ug_setup malloc alloc udp_mtu maxc bufsize o0" "UdpGwClient_Init udp_mtu maxc bufsize junk = Some o0"
    and "ug_reach malloc alloc o0 o1" "c \<in> set (ug_list o1)" "remote_addr (conaddr_of o1 c) \<noteq> BAddr_None"
    and "flags AND UDPGW_CLIENT_FLAG_IPV6 = 0" "int (length data) \<le> ug_udp_mtu o1"
  shows "let flow = con_ppflow (con_at o1 c); o2 = connection_send c flags data o1; flow2 = con_ppflow (con_at o2 c);
      pkt = udpgw_packet flags (conid_of o1 c) (remote_addr (conaddr_of o1 c)) data in
    (out_have (fl_bw flow) \<longrightarrow> fl_accepted flow2 = fl_accepted flow @ [pkt]) \<and>
    (\<not> out_have (fl_bw flow) \<longrightarrow> o2 = o1) \<and>
    snd (recv_interface_handler_send pkt o1) =
      [UG_RecvDone, UG_Received (local_addr (conaddr_of o1 c)) (remote_addr (conaddr_of o1 c)) data]"
proof -
  have inv: "ug_inv o1" using setup_reach_inv [OF assms(1-3)] by simp
  have ix: "ug_index o1" and sz: "ug_sizes o1" and fl: "ug_flows o1" using inv by (simp_all add: ug_inv_def)
  have f: "fl_inv (ug_udpgw_mtu o1) (con_ppflow (con_at o1 c))" using fl assms(4) by (simp add: ug_flows_def)
  have wf: "addr_wf (remote_addr (conaddr_of o1 c))" using con_wf [OF ix assms(4)] by (simp add: conaddr_wf_def)
  have room: "int (length data) + 21 \<le> ug_udpgw_mtu o1" using sz assms(7) by (simp add: ug_sizes_def)
  have dm: "c \<in> dom (ug_con o1)" using ix assms(4) by (simp add: ug_index_def)
  note snd = connection_send_eq [OF f wf room, of flags] and rcv = recv_packet [OF ix assms(4-7)]
  show ?thesis
    using snd rcv dm by (simp add: Let_def BufferWriter_StartPacket_def con_at_upd accept_def)
qed

theorem udpgw_roundtrip_witness:
  "snd (recv_interface_handler_send (udpgw_packet 4 (conid_of ug_demo1 0) demo_remote [5, 6]) ug_demo1) =
    [UG_RecvDone, UG_Received demo_local demo_remote [5, 6]]"
  using udpgw_roundtrip [OF demo_ok demo_reach1, of 0 4 "[5, 6]"] by (simp add: demo_submit Let_def)

text \<open>C33. With all connections taken, a datagram for a new address pair takes over the least recently used connection: it
  keeps its id, becomes the most recently used, is found under the new address pair and no longer under
  the old one, and no other connection is touched.\<close>

theorem udpgw_reuses_least_recent:
  assumes "ug_setup malloc alloc udp_mtu maxc bufsize o0" "UdpGwClient_Init udp_mtu maxc bufsize junk = Some o0"
    and "ug_reach malloc alloc o0 o1" "addr_wf l" "addr_wf r" "int (length data) \<le> ug_udp_mtu o1"
    and "ug_num_connections o1 = ug_max_connections o1"
    and "find_connection_by_conaddr o1 \<lparr>local_addr = l, remote_addr = r\<rparr> = None"
  shows "\<exists>o2. UdpGwClient_SubmitPacket malloc alloc l r dns data o1 = Some o2 \<and>
    (let c = hd (ug_list o1) in
      ug_list o2 = tl (ug_list o1) @ [c] \<and> conid_of o2 c = conid_of o1 c \<and>
      find_connection_by_conaddr o2 \<lparr>local_addr = l, remote_addr = r\<rparr> = Some c \<and>
      find_connection_by_conaddr o2 (conaddr_of o1 c) = None \<and>
      (\<forall>d. d \<noteq> c \<longrightarrow> con_at o2 d = con_at o1 d))"
proof -
  let ?a = "\<lparr>local_addr = l, remote_addr = r\<rparr>" and ?c = "hd (ug_list o1)"
  have inv: "ug_inv o1" "mem_ok alloc o1" "malloc_ok malloc" using setup_reach_inv [OF assms(1-3)] by simp_all
  have ix: "ug_index o1" and sz: "ug_sizes o1" using inv by (simp_all add: ug_inv_def)
  have ne: "ug_list o1 \<noteq> []" using sz assms(7) by (auto simp: ug_sizes_def)
  have a: "conaddr_wf ?a" using assms(4,5) by (simp add: conaddr_wf_def)
  obtain c o4 where r: "reuse_connection ?a o1 = (c, o4)" by fastforce
  note rc = reuse_connection_correct [OF inv(1) a assms(8) ne r]
  define flags where "flags = (if dns then UDPGW_CLIENT_FLAG_DNS else 0) OR UDPGW_CLIENT_FLAG_REBIND"
  define o2 where "o2 = connection_send c flags data (move_to_end c o4)"
  have sub: "UdpGwClient_SubmitPacket malloc alloc l r dns data o1 = Some o2"
    using assms(7,8) r by (simp add: UdpGwClient_SubmitPacket_def Let_def o2_def flags_def)
  have cl: "c \<in> set (ug_list o4)" using rc(1,3) ne by simp
  note me = move_to_end_inv [OF rc(2) cl]
  have "ug_inv o2" unfolding o2_def
    using me rc(5) cl assms(6) by (intro connection_send_inv) (simp_all add: move_to_end_def)
  then have ix2: "ug_index o2" by (simp add: ug_inv_def)
  have dm: "c \<in> dom (ug_con (move_to_end c o4))"
    using me(1) me(2) cl unfolding ug_inv_def ug_index_def by blast
  note keep = send_keeps [OF dm, where flags = flags and data = data, folded o2_def]
  have same: "con_at (move_to_end c o4) = con_at o4" "ug_list (move_to_end c o4) = remove1 c (ug_list o4) @ [c]"
    by (simp_all add: move_to_end_def con_at_same)
  note keep = keep [unfolded same]
  have dist: "conaddr_of o1 c \<noteq> ?a" using by_conaddr_iff(1) [OF ix a, of c] assms(8) cl rc(3) by auto
  have old: "conaddr_of o1 d \<noteq> conaddr_of o1 c" if "d \<in> set (ug_list o1)" "d \<noteq> c" for d
    using conaddr_order.index_inj [of "conaddr_of o1" "ug_by_conaddr o1"] that cl rc(3) ix
    by (auto simp: ug_index_def dest: inj_onD)
  have wf: "conaddr_wf (conaddr_of o1 c)" using con_wf [OF ix] cl rc(3) by simp
  have lst: "set (ug_list o2) = set (ug_list o1)" using keep(4) rc(3) cl ix by (auto simp: ug_index_def)
  have "find_connection_by_conaddr o2 ?a = Some c"
    unfolding by_conaddr_iff(1) [OF ix2 a] using keep(1) rc(3,4) cl lst by simp
  moreover have "find_connection_by_conaddr o2 (conaddr_of o1 c) = None"
    unfolding by_conaddr_iff(2) [OF ix2 wf] using keep(1) rc(4) dist old lst by (auto simp: image_iff) metis
  moreover have "ug_list o2 = tl (ug_list o1) @ [c]" using keep(4) rc(1,3) ne by (cases "ug_list o1") simp_all
  ultimately show ?thesis
    using sub keep rc by (intro exI [of _ o2]) (auto simp: Let_def)
qed

theorem udpgw_reuses_least_recent_witness:
  "\<exists>o2. UdpGwClient_SubmitPacket malloc_demo demo_alloc demo_local (BAddr_IPv4 3 5) False [7] ug_demo1 = Some o2 \<and>
    ug_list o2 = [0] \<and> find_connection_by_conaddr o2 \<lparr>local_addr = demo_local, remote_addr = BAddr_IPv4 3 5\<rparr> = Some 0 \<and>
    find_connection_by_conaddr o2 \<lparr>local_addr = demo_local, remote_addr = demo_remote\<rparr> = None"
proof -
  have "find_connection_by_conaddr ug_demo1 \<lparr>local_addr = demo_local, remote_addr = BAddr_IPv4 3 5\<rparr> = None"
    by (simp add: find_connection_by_conaddr_def demo_submit conaddr_comparator_def BAddr_CompareOrder_def B_COMPARE_def Let_def not_less order.strict_implies_order)
  with udpgw_reuses_least_recent [OF demo_ok demo_reach1, of demo_local "BAddr_IPv4 3 5" "[7]" False] show ?thesis
    by (auto simp: demo_submit Let_def)
qed

lemma distinct_singleton_list: "distinct xs \<Longrightarrow> set xs = {a} \<Longrightarrow> xs = [a]"
  by (cases xs) (auto simp: subset_singleton_iff)

lemma empty_tree: "inorder t = [] \<Longrightarrow> BAVL_IsEmpty t"
  by (cases t) (simp_all add: BAVL_IsEmpty_def)

text \<open>Taking the client down releases everything: every connection is freed, both indexes and the list are
  empty, no flow is left in the fair queue, and the loop that frees them ends.\<close>

theorem udpgw_free_releases:
  assumes "ug_setup malloc alloc udp_mtu maxc bufsize o0" "UdpGwClient_Init udp_mtu maxc bufsize junk = Some o0"
    and "ug_reach malloc alloc o0 o1"
  shows "let f = UdpGwClient_Free o1 in
    ug_con f = (\<lambda>_. None) \<and> ug_list f = [] \<and> BAVL_IsEmpty (ug_by_conaddr f) \<and> BAVL_IsEmpty (ug_by_conid f) \<and>
    ug_num_connections f = 0 \<and> fq_flows_list (ug_send_queue f) = []"
proof -
  have inv: "ug_inv o1" using setup_reach_inv [OF assms] by simp
  let ?o2 = "o1\<lparr>ug_send_queue := PacketPassFairQueue_PrepareFree (ug_send_queue o1)\<rparr>"
  have ix: "ug_index o1" and sz: "ug_sizes o1" and fl: "ug_flows o1" using inv by (simp_all add: ug_inv_def)
  have "distinct (ug_list o1)" using ix unfolding ug_index_def by blast
  then have "ug_index ?o2" using ix by - (rule index_keep [OF ix], simp_all add: con_at_same)
  moreover have "ug_num_connections o1 = int (length (ug_list o1))" using sz unfolding ug_sizes_def by blast
  moreover have "distinct (fq_flows_list (ug_send_queue o1))"
    "set (fq_flows_list (ug_send_queue o1)) = insert keepalive_qflow (Suc ` set (ug_list o1))"
    using fl unfolding ug_flows_def fq_inv_def fq_core_def by blast+
  ultimately have "ug_free_inv ?o2" by (simp add: ug_free_inv_def PacketPassFairQueue_PrepareFree_def)
  then have f: "ug_free_inv (free_connections ?o2)" "ug_list (free_connections ?o2) = []"
    using free_connections_all by blast+
  define o3 where "o3 = free_connections ?o2"
  note f = f [folded o3_def]
  have ix: "ug_index o3" using f(1) unfolding ug_free_inv_def by blast
  have "ug_con o3 = (\<lambda>_. None)" using ix f(2) by (auto simp: ug_index_def dom_eq_empty_conv)
  moreover have "inorder (ug_by_conaddr o3) = []" "inorder (ug_by_conid o3) = []"
    using ix f(2) by (simp_all add: ug_index_def)
  moreover have "ug_num_connections o3 = 0" using f by (simp add: ug_free_inv_def)
  moreover have "fq_flows_list (ug_send_queue o3) = [keepalive_qflow]"
    using f by (intro distinct_singleton_list) (simp_all add: ug_free_inv_def)
  ultimately show ?thesis
    using f(2) by (simp add: UdpGwClient_Free_def Let_def o3_def [symmetric] free_server_def empty_tree flow_free_fields)
qed

theorem udpgw_free_releases_witness:
  "ug_con (UdpGwClient_Free ug_demo1) = (\<lambda>_. None) \<and> fq_flows_list (ug_send_queue (UdpGwClient_Free ug_demo1)) = []"
  using udpgw_free_releases [OF demo_ok demo_reach1] by (simp add: Let_def)

end
