(* ===== verification/SocksUdpGw.thy ===== *)
theory SocksUdpGw
  imports UdpGwClient
begin

text \<open>
  The datagram relay \<open>tun2socks/SocksUdpGwClient.c\<close> as compiled for Android: every local address has a UDP
  socket of its own, through which its datagrams go to the SOCKS server (behind a SOCKS UDP header with
  the remote address) or, DNS queries, to the DNS gateway. Connections are found by local address in
  an AVL tree and kept in a list ordered by last use. A connection is an object on the heap, identified
  by its address; its writer and its packet buffer are the models of \<open>FlowAdapters\<close> and \<open>PacketBuffer\<close>. The
  socket and memory allocation are the environment (\<open>su_env\<close>), failing at will.
\<close>

section \<open>State\<close>

abbreviation SOCKS_ATYP_IPV4 :: byte where "SOCKS_ATYP_IPV4 \<equiv> 1"
abbreviation SOCKS_ATYP_IPV6 :: byte where "SOCKS_ATYP_IPV6 \<equiv> 4"
abbreviation CONNECTION_UDP_BUFFER_SIZE :: int where "CONNECTION_UDP_BUFFER_SIZE \<equiv> 64"

record SocksUdpGwClient_conaddr =
  su_local_addr :: BAddr
  su_remote_addr :: BAddr

text \<open>\<open>suc_writer_done\<close> is the pending completion of the writer towards the buffer, \<open>suc_accepted\<close> the history of
  the packets given to the writer; \<open>suc_recv_buffer\<close> is the request outstanding on the receiving side.\<close>

record SocksUdpGwClient_connection =
  suc_conaddr :: SocksUdpGwClient_conaddr
  suc_first_data :: "byte list"
  suc_is_dns :: bool
  suc_send_addr :: BAddr
  suc_writer :: "nat BufferWriter"
  suc_writer_done :: "int option"
  suc_buffer :: pb_world
  suc_accepted :: "byte list list"
  suc_recv_buffer :: "spb_call list"

text \<open>\<open>su_jobs\<close> are the first jobs that are pending, by connection.\<close>

record SocksUdpGwClient =
  su_udp_mtu :: int
  su_socks_server_addr :: BAddr
  su_dnsgw :: BAddr
  su_udpgw_mtu :: int
  su_num_connections :: int
  su_max_connections :: int
  su_tree :: "nat BAVL"
  su_list :: "nat list"
  su_con :: "nat \<Rightarrow> SocksUdpGwClient_connection option"
  su_jobs :: "nat list"

datatype su_call = SU_Done | SU_Received BAddr BAddr "byte list"

record su_env =
  env_malloc :: "SocksUdpGwClient \<Rightarrow> nat option"
  env_dgram_init :: bool
  env_reuse_addr :: bool
  env_alloc :: "int \<Rightarrow> byte list option"
  env_single :: bool

definition su_at :: "SocksUdpGwClient \<Rightarrow> nat \<Rightarrow> SocksUdpGwClient_connection" where
  "su_at o1 c = the (su_con o1 c)"

definition su_upd ::
  "nat \<Rightarrow> (SocksUdpGwClient_connection \<Rightarrow> SocksUdpGwClient_connection) \<Rightarrow> SocksUdpGwClient \<Rightarrow> SocksUdpGwClient" where
  "su_upd c f o1 = o1\<lparr>su_con := (su_con o1)(c := map_option f (su_con o1 c))\<rparr>"

abbreviation su_conaddr_of :: "SocksUdpGwClient \<Rightarrow> nat \<Rightarrow> SocksUdpGwClient_conaddr" where
  "su_conaddr_of o1 c \<equiv> suc_conaddr (su_at o1 c)"

abbreviation su_local_of :: "SocksUdpGwClient \<Rightarrow> nat \<Rightarrow> BAddr" where
  "su_local_of o1 c \<equiv> su_local_addr (su_conaddr_of o1 c)"

abbreviation su_mem :: "SocksUdpGwClient_connection \<Rightarrow> byte list" where
  "su_mem k \<equiv> buffer (pb_buf (pb (suc_buffer k)))"

section \<open>Operations\<close>

text \<open>\<open>dgram_handler_received\<close>: the calls are the acknowledgement of the packet and the delivery to the user.\<close>

definition dgram_parse :: "byte list \<Rightarrow> (BAddr \<times> byte list) option" where
  "dgram_parse data =
     (if length data < 4 then None
      else
        let frag = data ! 2; atyp = data ! 3; data = drop 4 data in
        if frag \<noteq> 0 then None
        else if atyp = SOCKS_ATYP_IPV6 then
          (if length data < 18 then None
           else Some (BAddr_IPv6 (take 16 data) (load16 (drop 16 data)), drop 18 data))
        else
          (if length data < 6 then None
           else Some (BAddr_IPv4 (load32 data) (load16 (drop 4 data)), drop 6 data)))"

definition dgram_handler_received :: "nat \<Rightarrow> byte list \<Rightarrow> SocksUdpGwClient \<Rightarrow> SocksUdpGwClient \<times> su_call list" where
  "dgram_handler_received c data o1 =
     (let deliver = (\<lambda>data o1. (o1, [SU_Done] @
            (if int (length data) > su_udp_mtu o1 then []
             else [SU_Received (su_local_of o1 c) (su_remote_addr (su_conaddr_of o1 c)) data]))) in
      if \<not> suc_is_dns (su_at o1 c) then
        (case dgram_parse data of
           None \<Rightarrow> (o1, [SU_Done])
         | Some (raddr, data) \<Rightarrow>
             deliver data (su_upd c (\<lambda>k. k\<lparr>suc_conaddr := (suc_conaddr k)\<lparr>su_remote_addr := raddr\<rparr>\<rparr>) o1))
      else deliver data o1)"

definition su_conaddr_comparator :: "SocksUdpGwClient_conaddr \<Rightarrow> SocksUdpGwClient_conaddr \<Rightarrow> int" where
  "su_conaddr_comparator v1 v2 = BAddr_CompareOrder (su_local_addr v1) (su_local_addr v2)"

text \<open>\<open>find_connection\<close>: the test of \<open>is_dns\<close> applies to a null pointer only, so it never rejects a connection.\<close>

definition su_find_connection :: "SocksUdpGwClient \<Rightarrow> SocksUdpGwClient_conaddr \<Rightarrow> bool \<Rightarrow> nat option" where
  "su_find_connection o1 conaddr is_dns =
     (let tree_node = BAVL_LookupExact su_conaddr_comparator (su_conaddr_of o1) conaddr (su_tree o1) in
      case tree_node of None \<Rightarrow> None
      | Some n \<Rightarrow> let con = Some n in
          if con = None \<and> suc_is_dns (su_at o1 (the con)) \<noteq> is_dns then None else con)"

definition su_connection_free :: "nat \<Rightarrow> SocksUdpGwClient \<Rightarrow> SocksUdpGwClient" where
  "su_connection_free c o1 =
     o1\<lparr>su_num_connections := su_num_connections o1 - 1, su_list := remove1 c (su_list o1),
        su_tree := BAVL_Remove c (su_tree o1), su_con := (su_con o1)(c := None)\<rparr>"

definition su_remove_lru_connection :: "SocksUdpGwClient \<Rightarrow> SocksUdpGwClient" where
  "su_remove_lru_connection o1 = su_connection_free (hd (su_list o1)) o1"

definition su_reset_connection :: "nat \<Rightarrow> SocksUdpGwClient_conaddr \<Rightarrow> bool \<Rightarrow> SocksUdpGwClient \<Rightarrow> SocksUdpGwClient" where
  "su_reset_connection c conaddr is_dns o1 = su_upd c (\<lambda>k. k\<lparr>suc_conaddr := conaddr, suc_is_dns := is_dns\<rparr>) o1"

definition socks_udp_header :: "BAddr \<Rightarrow> byte list" where
  "socks_udp_header remote =
     store16 0 @ [0, if BAddr_type remote = 1 then SOCKS_ATYP_IPV4 else SOCKS_ATYP_IPV6]"

text \<open>\<open>connection_send\<close> on the connection: the pieces are written one behind the other where the buffer asks for
  a packet. The result is 1 when it does not.\<close>

definition su_send :: "byte list \<Rightarrow> SocksUdpGwClient_connection \<Rightarrow> int \<times> SocksUdpGwClient_connection" where
  "su_send data k =
     (case BufferWriter_StartPacket (suc_writer k) of None \<Rightarrow> (1, k)
      | Some out \<Rightarrow>
          let remote = su_remote_addr (suc_conaddr k);
              (mem, pos) =
                (if \<not> suc_is_dns k then
                   (let mem = memcpy_at (su_mem k) out (socks_udp_header remote);
                        pos = length (socks_udp_header remote);
                        mem = memcpy_at mem (out + pos) (udpgw_addr remote)
                    in (mem, pos + length (udpgw_addr remote)))
                 else (su_mem k, 0));
              mem = memcpy_at mem (out + pos) data;
              pos = pos + length data;
              (bw, n) = BufferWriter_EndPacket (int pos) (suc_writer k);
              pbw = suc_buffer k
          in (0, k\<lparr>suc_writer := bw, suc_writer_done := Some n,
                   suc_buffer := pbw\<lparr>pb := (pb pbw)\<lparr>pb_buf := (pb_buf (pb pbw))\<lparr>buffer := mem\<rparr>\<rparr>\<rparr>,
                   suc_accepted := suc_accepted k @ [sub_bytes out pos mem]\<rparr>))"

definition su_connection_send :: "nat \<Rightarrow> byte list \<Rightarrow> SocksUdpGwClient \<Rightarrow> int \<times> SocksUdpGwClient" where
  "su_connection_send c data o1 =
     (let (res, k) = su_send data (su_at o1 c) in (res, su_upd c (\<lambda>_. k) o1))"

definition su_connection_first_job_handler :: "nat \<Rightarrow> SocksUdpGwClient \<Rightarrow> SocksUdpGwClient" where
  "su_connection_first_job_handler c o1 = snd (su_connection_send c (suc_first_data (su_at o1 c)) o1)"

definition su_connection_init ::
  "su_env \<Rightarrow> SocksUdpGwClient_conaddr \<Rightarrow> byte list \<Rightarrow> bool \<Rightarrow> SocksUdpGwClient \<Rightarrow> nat option \<times> SocksUdpGwClient" where
  "su_connection_init env conaddr data is_dns o1 =
     (case env_malloc env o1 of None \<Rightarrow> (None, o1)
      | Some c \<Rightarrow>
          let o2 = o1\<lparr>su_jobs := c # su_jobs o1\<rparr>;
              fail = (None, o2\<lparr>su_jobs := remove1 c (su_jobs o2)\<rparr>) in
          if \<not> env_dgram_init env then fail
          else if \<not> env_reuse_addr env then fail
          else
            let send_addr = (if is_dns then su_dnsgw o2 else su_socks_server_addr o2) in
            case PacketBuffer_Init (env_alloc env) (su_udp_mtu o2) CONNECTION_UDP_BUFFER_SIZE of
              None \<Rightarrow> fail
            | Some r \<Rightarrow>
                case SinglePacketBuffer_Init (env_single env) of None \<Rightarrow> fail
                | Some calls \<Rightarrow>
                    let o3 = o2\<lparr>su_con := (su_con o2)(c \<mapsto>
                          \<lparr>suc_conaddr = conaddr, suc_first_data = data, suc_is_dns = is_dns, suc_send_addr = send_addr,
                           suc_writer = BufferWriter_Init 0, suc_writer_done = None, suc_buffer = pb_world_init r,
                           suc_accepted = [], suc_recv_buffer = calls\<rparr>)\<rparr>;
                        o4 = o3\<lparr>su_tree := exec_insert (su_tree o3)
                               (BAVL_Insert su_conaddr_comparator (su_conaddr_of o3) c (su_tree o3))\<rparr>
                    in (Some c, o4\<lparr>su_list := su_list o4 @ [c], su_num_connections := su_num_connections o4 + 1\<rparr>))"

text \<open>\<open>num\<close> is what the field \<open>num_connections\<close> holds before; the function does not set it.\<close>

definition SocksUdpGwClient_Init :: "int \<Rightarrow> int \<Rightarrow> BAddr \<Rightarrow> BAddr \<Rightarrow> int \<Rightarrow> SocksUdpGwClient" where
  "SocksUdpGwClient_Init udp_mtu max_connections socks_server_addr dnsgw num =
     \<lparr>su_udp_mtu = udp_mtu, su_socks_server_addr = socks_server_addr, su_dnsgw = dnsgw,
      su_udpgw_mtu = udpgw_compute_mtu udp_mtu, su_num_connections = num,
      su_max_connections = (if max_connections > 65535 + 1 then 65535 + 1 else max_connections),
      su_tree = BAVL_Init, su_list = [], su_con = (\<lambda>_. None), su_jobs = []\<rparr>"

function SocksUdpGwClient_Free :: "SocksUdpGwClient \<Rightarrow> SocksUdpGwClient" where
  "SocksUdpGwClient_Free o1 =
     (case su_list o1 of [] \<Rightarrow> o1 | c # _ \<Rightarrow> SocksUdpGwClient_Free (su_connection_free c o1))"
  by auto
termination
  by (relation "measure (\<lambda>o1. length (su_list o1))") (auto simp: su_connection_free_def)

declare SocksUdpGwClient_Free.simps [simp del]

definition SocksUdpGwClient_SubmitPacket ::
  "su_env \<Rightarrow> BAddr \<Rightarrow> BAddr \<Rightarrow> bool \<Rightarrow> byte list \<Rightarrow> SocksUdpGwClient \<Rightarrow> SocksUdpGwClient" where
  "SocksUdpGwClient_SubmitPacket env laddr raddr is_dns data o1 =
     (let conaddr = \<lparr>su_local_addr = laddr, su_remote_addr = raddr\<rparr>;
          con = su_find_connection o1 conaddr is_dns;
          o1 = (if con = None \<and> su_num_connections o1 = su_max_connections o1 then su_remove_lru_connection o1 else o1)
      in case con of
           None \<Rightarrow> snd (su_connection_init env conaddr data is_dns o1)
         | Some c \<Rightarrow>
             let (res, o2) = su_connection_send c data (su_reset_connection c conaddr is_dns o1)
             in if res = 1 then o2 else o2\<lparr>su_list := remove1 c (su_list o2) @ [c]\<rparr>)"

section \<open>Histories\<close>

text \<open>The completion of the writer reaches the buffer; the packet is already in memory.\<close>

definition su_buffer_done :: "int \<Rightarrow> SocksUdpGwClient_connection \<Rightarrow> SocksUdpGwClient_connection" where
  "su_buffer_done n k =
     (let w = suc_buffer k;
          (buf, calls) = PacketBuffer_input_handler_done (pb w) n;
          d = (case pb_recv w of None \<Rightarrow> 0 | Some d \<Rightarrow> d)
      in k\<lparr>suc_writer_done := None,
           suc_buffer := fold pb_apply calls (w\<lparr>pb := buf, pb_recv := None,
             pb_received := pb_received w @ [sub_bytes (nat d) (nat n) (su_mem k)]\<rparr>)\<rparr>)"

text \<open>A datagram arrives on the socket: the packet buffer takes it, passes it on and asks for the next.\<close>

definition su_datagram_in :: "nat \<Rightarrow> byte list \<Rightarrow> SocksUdpGwClient \<Rightarrow> SocksUdpGwClient \<times> su_call list" where
  "su_datagram_in c data o1 =
     (case SinglePacketBuffer_input_handler_done (int (length data)) of
        [SPB_Send n] \<Rightarrow>
          dgram_handler_received c (take (nat n) data)
            (su_upd c (\<lambda>k. k\<lparr>suc_recv_buffer := SinglePacketBuffer_output_handler_done\<rparr>) o1)
      | _ \<Rightarrow> (o1, []))"

text \<open>A datagram as it goes to the socket.\<close>

definition su_packet :: "bool \<Rightarrow> BAddr \<Rightarrow> byte list \<Rightarrow> byte list" where
  "su_packet is_dns remote data = (if is_dns then data else socks_udp_header remote @ udpgw_addr remote @ data)"

text \<open>Steps of a connection between its job handlers, and of the client. Jobs run last set first and before
  the next event, so the first job of a connection precedes further datagrams. A datagram is to fit,
  with its header, into the packet size of the connection (see \<open>relay_oversize\<close>).\<close>

inductive suc_step :: "SocksUdpGwClient_connection \<Rightarrow> SocksUdpGwClient_connection \<Rightarrow> bool" where
  suc_request: "pb_recv (suc_buffer k) = Some d \<Longrightarrow> \<not> out_have (suc_writer k) \<Longrightarrow> suc_writer_done k = None \<Longrightarrow>
     suc_step k (k\<lparr>suc_writer := BufferWriter_output_handler_recv (nat d) (suc_writer k)\<rparr>)"
| suc_written: "suc_writer_done k = Some n \<Longrightarrow> suc_step k (su_buffer_done n k)"
| suc_sent: "pb_send (suc_buffer k) = Some (d, len) \<Longrightarrow>
     suc_step k (k\<lparr>suc_buffer := pb_output d len (suc_buffer k)\<rparr>)"

inductive su_step :: "su_env \<Rightarrow> SocksUdpGwClient \<Rightarrow> SocksUdpGwClient \<Rightarrow> bool" for env where
  su_submit: "su_jobs o1 = [] \<Longrightarrow> addr_wf l \<Longrightarrow> addr_wf r \<Longrightarrow> int (length (su_packet dns r data)) \<le> su_udp_mtu o1 \<Longrightarrow>
     su_step env o1 (SocksUdpGwClient_SubmitPacket env l r dns data o1)"
| su_first_job: "su_jobs o1 = c # js \<Longrightarrow>
     su_step env o1 (su_connection_first_job_handler c (o1\<lparr>su_jobs := js\<rparr>))"
| su_receive: "su_jobs o1 = [] \<Longrightarrow> c \<in> set (su_list o1) \<Longrightarrow> suc_recv_buffer (su_at o1 c) = [SPB_Recv] \<Longrightarrow>
     int (length data) \<le> su_udp_mtu o1 \<Longrightarrow> su_step env o1 (fst (su_datagram_in c data o1))"
| su_internal: "c \<in> set (su_list o1) \<Longrightarrow> suc_step (su_at o1 c) k \<Longrightarrow> su_step env o1 (su_upd c (\<lambda>_. k) o1)"

inductive su_reach :: "su_env \<Rightarrow> SocksUdpGwClient \<Rightarrow> SocksUdpGwClient \<Rightarrow> bool" for env o0 where
  su_start: "su_reach env o0 o0"
| su_next: "su_reach env o0 o1 \<Longrightarrow> su_step env o1 o2 \<Longrightarrow> su_reach env o0 o2"

section \<open>Connections\<close>

text \<open>Between the writer and the buffer a packet is nowhere, at the writer, or written and not yet reported.\<close>

definition suc_ok :: "int \<Rightarrow> SocksUdpGwClient_connection \<Rightarrow> bool" where
  "suc_ok mtu k \<longleftrightarrow>
     pb_inv (suc_buffer k) \<and> pb_input_mtu (pb (suc_buffer k)) = mtu \<and> suc_recv_buffer k = [SPB_Recv] \<and>
     (out_have (suc_writer k) \<longrightarrow> suc_writer_done k = None \<and>
        (\<exists>d. pb_recv (suc_buffer k) = Some d \<and> bw_out (suc_writer k) = nat d)) \<and>
     (suc_writer_done k = None \<longrightarrow> pb_received (suc_buffer k) = suc_accepted k) \<and>
     (\<forall>n. suc_writer_done k = Some n \<longrightarrow>
        (\<exists>d p. pb_recv (suc_buffer k) = Some d \<and> suc_accepted k = pb_received (suc_buffer k) @ [p] \<and>
           n = int (length p) \<and> n \<le> mtu \<and> sub_bytes (nat d) (length p) (su_mem k) = p))"

text \<open>What a send leaves behind.\<close>

definition su_accept :: "nat \<Rightarrow> byte list \<Rightarrow> SocksUdpGwClient_connection \<Rightarrow> SocksUdpGwClient_connection" where
  "su_accept out pkt k =
     k\<lparr>suc_writer := (suc_writer k)\<lparr>out_have := False\<rparr>, suc_writer_done := Some (int (length pkt)),
       suc_buffer := (suc_buffer k)\<lparr>pb := (pb (suc_buffer k))\<lparr>pb_buf :=
         (pb_buf (pb (suc_buffer k)))\<lparr>buffer := memcpy_at (su_mem k) out pkt\<rparr>\<rparr>\<rparr>,
       suc_accepted := suc_accepted k @ [pkt]\<rparr>"

lemma suc_writer_region:
  assumes "suc_ok mtu k" "BufferWriter_StartPacket (suc_writer k) = Some out"
  shows "\<exists>d. pb_recv (suc_buffer k) = Some d \<and> out = nat d \<and> 0 \<le> d \<and> int out + mtu \<le> int (length (su_mem k))"
proof -
  have "out_have (suc_writer k)" "out = bw_out (suc_writer k)"
    using assms(2) by (auto simp: BufferWriter_StartPacket_def split: if_splits)
  then obtain d where d: "pb_recv (suc_buffer k) = Some d" "out = nat d" using assms(1) by (auto simp: suc_ok_def)
  have "pb_inv (suc_buffer k)" "pb_input_mtu (pb (suc_buffer k)) = mtu" using assms(1) by (simp_all add: suc_ok_def)
  then show ?thesis using pb_recv_region [OF _ d(1)] d by simp
qed

lemma su_send_mem:
  assumes s: "BufferWriter_StartPacket (suc_writer k) = Some out"
    and p: "p = su_packet (suc_is_dns k) (su_remote_addr (suc_conaddr k)) data" and room: "out + length p \<le> length (su_mem k)"
  shows "su_send data k = (0, su_accept out p k)"
proof (cases "suc_is_dns k")
  case True
  then show ?thesis
    using s p room by (simp add: su_send_def su_accept_def su_packet_def BufferWriter_EndPacket_def sub_bytes_memcpy_same Let_def)
next
  case False
  let ?r = "su_remote_addr (suc_conaddr k)"
  let ?h = "socks_udp_header ?r" and ?a = "udpgw_addr ?r"
  have "length ?h + length ?a + length data + out \<le> length (su_mem k)"
    using p room False by (simp add: su_packet_def)
  then have "memcpy_at (memcpy_at (memcpy_at (su_mem k) out ?h) (out + length ?h) ?a) (out + (length ?h + length ?a)) data =
      memcpy_at (su_mem k) out (?h @ ?a @ data)"
    "sub_bytes out (length ?h + length ?a + length data) (memcpy_at (su_mem k) out (?h @ ?a @ data)) = ?h @ ?a @ data"
    by (simp_all add: memcpy_append sub_bytes_memcpy_same)
  then show ?thesis
    using s p False by (simp add: su_send_def su_accept_def su_packet_def BufferWriter_EndPacket_def Let_def)
qed

lemma su_send_eq:
  assumes ok: "suc_ok mtu k" and fits: "int (length (su_packet (suc_is_dns k) (su_remote_addr (suc_conaddr k)) data)) \<le> mtu"
  shows "su_send data k = (case BufferWriter_StartPacket (suc_writer k) of None \<Rightarrow> (1, k)
    | Some out \<Rightarrow> (0, su_accept out (su_packet (suc_is_dns k) (su_remote_addr (suc_conaddr k)) data) k))"
proof (cases "BufferWriter_StartPacket (suc_writer k)")
  case None
  then show ?thesis by (simp add: su_send_def)
next
  case (Some out)
  then show ?thesis using su_send_mem [OF Some refl, of data] suc_writer_region [OF ok Some] fits by auto
qed

lemma su_accept_ok:
  assumes ok: "suc_ok mtu k" and s: "BufferWriter_StartPacket (suc_writer k) = Some out" and len: "int (length pkt) \<le> mtu"
  shows "suc_ok mtu (su_accept out pkt k)"
proof -
  obtain d where d: "pb_recv (suc_buffer k) = Some d" "out = nat d" "0 \<le> d" "int out + mtu \<le> int (length (su_mem k))"
    using suc_writer_region [OF ok s] by blast
  have o: "out_have (suc_writer k)" using s by (simp add: BufferWriter_StartPacket_def split: if_splits)
  have pi: "pb_inv (suc_buffer k)" "pb_input_mtu (pb (suc_buffer k)) = mtu" using ok by (simp_all add: suc_ok_def)
  have "pb_inv ((suc_buffer k)\<lparr>pb := (pb (suc_buffer k))\<lparr>pb_buf :=
         (pb_buf (pb (suc_buffer k)))\<lparr>buffer := memcpy_at (su_mem k) out pkt\<rparr>\<rparr>\<rparr>)"
    by (rule pb_free_write [OF pi(1) d(1)]) (use d len pi(2) in simp_all)
  moreover have "sub_bytes (nat d) (length pkt) (memcpy_at (su_mem k) out pkt) = pkt"
    using d len sub_bytes_memcpy_same [of out pkt "su_mem k" "length pkt"] by simp
  ultimately show ?thesis using ok d(1) o len by (simp add: suc_ok_def su_accept_def)
qed

lemma su_buffer_done_ok:
  assumes ok: "suc_ok mtu k" and n: "suc_writer_done k = Some n"
  shows "suc_ok mtu (su_buffer_done n k)"
proof -
  let ?w = "suc_buffer k"
  obtain d p where d: "pb_recv ?w = Some d" "suc_accepted k = pb_received ?w @ [p]" "n = int (length p)" "n \<le> mtu"
    "sub_bytes (nat d) (length p) (su_mem k) = p" using ok n unfolding suc_ok_def by blast
  have pi: "pb_inv ?w" "pb_input_mtu (pb ?w) = mtu" "\<not> out_have (suc_writer k)" "suc_recv_buffer k = [SPB_Recv]"
    using ok n by (auto simp: suc_ok_def)
  have "nat d + length p \<le> length (su_mem k)" using pb_recv_region [OF pi(1) d(1)] d(3,4) pi(2) by simp
  then have "pb_write d p (pb ?w) = pb ?w" using memcpy_same [of "nat d" "length p" "su_mem k"] d(5) by (simp add: pb_write_def)
  then have e: "suc_buffer (su_buffer_done n k) = pb_input d p ?w"
    using d by (simp add: su_buffer_done_def pb_input_def Let_def split: prod.splits)
  have f: "suc_writer (su_buffer_done n k) = suc_writer k" "suc_writer_done (su_buffer_done n k) = None"
    "suc_accepted (su_buffer_done n k) = suc_accepted k" "suc_recv_buffer (su_buffer_done n k) = suc_recv_buffer k"
    by (simp_all add: su_buffer_done_def Let_def split: prod.splits)
  have "pb_inv (pb_input d p ?w)" using pb_input_inv [OF pi(1) d(1)] d(3,4) pi(2) by simp
  moreover have "pb_input_mtu (pb (pb_input d p ?w)) = mtu"
    using pb_step_frame [OF pb_in [OF d(1), of p] pi(1)] d(3,4) pi(2) by simp
  ultimately show ?thesis using pi(3,4) d(2) by (simp add: suc_ok_def e f)
qed

lemma suc_step_ok: "suc_step k k' \<Longrightarrow> suc_ok mtu k \<Longrightarrow> suc_ok mtu k'"
proof (induction rule: suc_step.induct)
  case (suc_request k d)
  then show ?case by (simp add: suc_ok_def BufferWriter_output_handler_recv_def)
next
  case (suc_written k n)
  then show ?case by (simp add: su_buffer_done_ok)
next
  case (suc_sent k d len)
  have pi: "pb_inv (suc_buffer k)" "pb_input_mtu (pb (suc_buffer k)) = mtu" using suc_sent by (simp_all add: suc_ok_def)
  note f = pb_output_frame [OF pi(1) suc_sent(1)]
  have "pb_inv (pb_output d len (suc_buffer k))" "pb_input_mtu (pb (pb_output d len (suc_buffer k))) = mtu"
    using pb_output_inv [OF pi(1) suc_sent(1)] pb_step_frame [OF pb_out [OF suc_sent(1)] pi(1)] pi(2) by simp_all
  then show ?case using suc_sent(2) f by (auto simp: suc_ok_def)
qed

lemma suc_step_frame: "suc_step k k' \<Longrightarrow> suc_conaddr k' = suc_conaddr k \<and> suc_is_dns k' = suc_is_dns k \<and> suc_first_data k' = suc_first_data k"
  by (induction rule: suc_step.induct) (simp_all add: su_buffer_done_def Let_def split: prod.splits)

section \<open>The index\<close>

text \<open>The tree compares connections by their local address only.\<close>

lemma insert_at_key:
  "insert_at su_conaddr_comparator key n fs t = insert_at BAddr_CompareOrder (\<lambda>x. su_local_addr (key x)) n fs t"
  by (induction t arbitrary: fs) (simp_all add: su_conaddr_comparator_def Let_def)

lemma insert_key:
  "BAVL_Insert su_conaddr_comparator key n t = BAVL_Insert BAddr_CompareOrder (\<lambda>x. su_local_addr (key x)) n t"
  by (simp add: BAVL_Insert_def insert_at_key)

lemma lookup_key:
  "BAVL_LookupExact su_conaddr_comparator key v t =
   BAVL_LookupExact BAddr_CompareOrder (\<lambda>x. su_local_addr (key x)) (su_local_addr v) t"
  by (induction t) (simp_all add: su_conaddr_comparator_def Let_def)

definition su_index :: "SocksUdpGwClient \<Rightarrow> bool" where
  "su_index o1 \<longleftrightarrow>
     distinct (su_list o1) \<and> set (su_list o1) = dom (su_con o1) \<and>
     addr_order.index_ok (su_local_of o1) (su_tree o1) \<and> set (inorder (su_tree o1)) = set (su_list o1)"

definition su_sizes :: "SocksUdpGwClient \<Rightarrow> bool" where
  "su_sizes o1 \<longleftrightarrow>
     0 < su_max_connections o1 \<and> su_max_connections o1 \<le> 65536 \<and> 0 \<le> su_udp_mtu o1 \<and>
     su_num_connections o1 = int (length (su_list o1)) \<and> su_num_connections o1 \<le> su_max_connections o1"

definition suc_fits :: "int \<Rightarrow> SocksUdpGwClient_connection \<Rightarrow> bool" where
  "suc_fits mtu k \<longleftrightarrow> int (length (su_packet (suc_is_dns k) (su_remote_addr (suc_conaddr k)) (suc_first_data k))) \<le> mtu"

definition su_conns :: "SocksUdpGwClient \<Rightarrow> bool" where
  "su_conns o1 \<longleftrightarrow>
     (\<forall>c\<in>set (su_list o1). suc_ok (su_udp_mtu o1) (su_at o1 c) \<and> addr_wf (su_remote_addr (su_conaddr_of o1 c))) \<and>
     distinct (su_jobs o1) \<and> (\<forall>c\<in>set (su_jobs o1). c \<in> set (su_list o1) \<and> suc_fits (su_udp_mtu o1) (su_at o1 c))"

definition su_inv :: "SocksUdpGwClient \<Rightarrow> bool" where
  "su_inv o1 \<longleftrightarrow> su_index o1 \<and> su_sizes o1 \<and> su_conns o1"

lemma su_find_iff:
  assumes "su_index o1" "addr_wf (su_local_addr a)"
  shows "su_find_connection o1 a dns = Some c \<longleftrightarrow> c \<in> set (su_list o1) \<and> su_local_of o1 c = su_local_addr a"
    and "su_find_connection o1 a dns = None \<longleftrightarrow> su_local_addr a \<notin> su_local_of o1 ` set (su_list o1)"
proof -
  have f: "su_find_connection o1 a dns = BAVL_LookupExact BAddr_CompareOrder (su_local_of o1) (su_local_addr a) (su_tree o1)"
    by (simp add: su_find_connection_def lookup_key Let_def split: option.splits)
  show "su_find_connection o1 a dns = Some c \<longleftrightarrow> c \<in> set (su_list o1) \<and> su_local_of o1 c = su_local_addr a"
    "su_find_connection o1 a dns = None \<longleftrightarrow> su_local_addr a \<notin> su_local_of o1 ` set (su_list o1)"
    using addr_order.index_lookup [of "su_local_of o1" "su_tree o1" "su_local_addr a"] assms
    unfolding f su_index_def by simp_all
qed

lemma su_upd_simps [simp]:
  "su_udp_mtu (su_upd c f o1) = su_udp_mtu o1" "su_max_connections (su_upd c f o1) = su_max_connections o1"
  "su_num_connections (su_upd c f o1) = su_num_connections o1" "su_tree (su_upd c f o1) = su_tree o1"
  "su_list (su_upd c f o1) = su_list o1" "su_jobs (su_upd c f o1) = su_jobs o1"
  "dom (su_con (su_upd c f o1)) = dom (su_con o1)"
  by (auto simp: su_upd_def)

lemma su_at_upd: "c \<in> dom (su_con o1) \<Longrightarrow> su_at (su_upd c f o1) d = (if d = c then f (su_at o1 c) else su_at o1 d)"
  by (auto simp: su_at_def su_upd_def)

lemma su_at_same:
  "su_at (o1\<lparr>su_tree := t\<rparr>) = su_at o1" "su_at (o1\<lparr>su_list := l\<rparr>) = su_at o1"
  "su_at (o1\<lparr>su_num_connections := n\<rparr>) = su_at o1" "su_at (o1\<lparr>su_jobs := js\<rparr>) = su_at o1"
  by (simp_all add: su_at_def fun_eq_iff)

text \<open>Changing a connection without moving it in the index.\<close>

lemma su_upd_inv:
  assumes inv: "su_inv o1" and c: "c \<in> set (su_list o1)"
    and k: "suc_ok (su_udp_mtu o1) (f (su_at o1 c))" "su_local_addr (suc_conaddr (f (su_at o1 c))) = su_local_of o1 c"
      "addr_wf (su_remote_addr (suc_conaddr (f (su_at o1 c))))"
    and j: "c \<in> set (su_jobs o1) \<Longrightarrow> suc_fits (su_udp_mtu o1) (f (su_at o1 c))"
  shows "su_inv (su_upd c f o1)"
proof -
  have ix: "su_index o1" and cs: "su_conns o1" using inv by (simp_all add: su_inv_def)
  have dm: "c \<in> dom (su_con o1)" using ix c by (simp add: su_index_def)
  note at = su_at_upd [OF dm, of f]
  have "addr_order.index_ok (su_local_of (su_upd c f o1)) (su_tree o1)"
    by (rule addr_order.index_cong [of "su_local_of o1"]) (use ix k(2) in \<open>simp_all add: su_index_def at\<close>)
  then have "su_index (su_upd c f o1)" using ix by (simp add: su_index_def)
  moreover have "su_conns (su_upd c f o1)" using cs k(1,3) j by (simp add: su_conns_def at)
  moreover have "su_sizes (su_upd c f o1)" using inv by (simp add: su_inv_def su_sizes_def)
  ultimately show ?thesis by (simp add: su_inv_def)
qed

lemma su_connection_send_inv:
  assumes inv: "su_inv o1" and c: "c \<in> set (su_list o1)"
    and fits: "int (length (su_packet (suc_is_dns (su_at o1 c)) (su_remote_addr (su_conaddr_of o1 c)) data)) \<le> su_udp_mtu o1"
  shows "su_inv (snd (su_connection_send c data o1))"
    and "su_list (snd (su_connection_send c data o1)) = su_list o1"
proof -
  let ?k = "su_at o1 c" and ?p = "su_packet (suc_is_dns (su_at o1 c)) (su_remote_addr (su_conaddr_of o1 c)) data"
  have ok: "suc_ok (su_udp_mtu o1) ?k" "addr_wf (su_remote_addr (suc_conaddr ?k))"
    and j: "c \<in> set (su_jobs o1) \<Longrightarrow> suc_fits (su_udp_mtu o1) ?k"
    using inv c by (auto simp: su_inv_def su_conns_def)
  obtain res k where s: "su_send data ?k = (res, k)" by fastforce
  have k: "k = ?k \<or> (\<exists>out. BufferWriter_StartPacket (suc_writer ?k) = Some out \<and> k = su_accept out ?p ?k)"
    using su_send_eq [OF ok(1) fits] s by (auto split: option.splits)
  then have "suc_ok (su_udp_mtu o1) k" using ok(1) su_accept_ok [OF ok(1) _ fits] by blast
  moreover have "suc_conaddr k = suc_conaddr ?k" "suc_is_dns k = suc_is_dns ?k" "suc_first_data k = suc_first_data ?k"
    using k by (auto simp: su_accept_def)
  ultimately have "su_inv (su_upd c (\<lambda>_. k) o1)"
    using su_upd_inv [OF inv c, of "\<lambda>_. k"] ok(2) j by (simp add: suc_fits_def)
  then show "su_inv (snd (su_connection_send c data o1))" "su_list (snd (su_connection_send c data o1)) = su_list o1"
    by (simp_all add: su_connection_send_def s)
qed

lemma su_receive_inv:
  assumes inv: "su_inv o1" and c: "c \<in> set (su_list o1)" and j: "su_jobs o1 = []"
  shows "su_inv (fst (su_datagram_in c data o1))"
proof -
  let ?o1 = "su_upd c (\<lambda>k. k\<lparr>suc_recv_buffer := SinglePacketBuffer_output_handler_done\<rparr>) o1"
  have ok: "suc_ok (su_udp_mtu o1) (su_at o1 c)" "addr_wf (su_remote_addr (su_conaddr_of o1 c))"
    using inv c by (auto simp: su_inv_def su_conns_def)
  have i1: "su_inv ?o1"
    by (rule su_upd_inv [OF inv c]) (use ok j in \<open>simp_all add: suc_ok_def SinglePacketBuffer_output_handler_done_def\<close>)
  have ok1: "suc_ok (su_udp_mtu o1) (su_at ?o1 c)" using i1 c by (simp add: su_inv_def su_conns_def)
  have up: "su_inv (su_upd c (\<lambda>k. k\<lparr>suc_conaddr := (suc_conaddr k)\<lparr>su_remote_addr := r\<rparr>\<rparr>) ?o1)" if "addr_wf r" for r
    by (rule su_upd_inv [OF i1]) (use ok1 c j that in \<open>simp_all add: suc_ok_def\<close>)
  have "addr_wf r" if "dgram_parse data = Some (r, d)" for r d
    using that by (auto simp: dgram_parse_def Let_def split: if_splits)
  then show ?thesis
    using i1 up
    by (auto simp: su_datagram_in_def SinglePacketBuffer_input_handler_done_def dgram_handler_received_def Let_def split: option.splits)
qed

lemma su_connection_free_inv:
  assumes inv: "su_inv o1" and c: "c \<in> set (su_list o1)" and j: "c \<notin> set (su_jobs o1)"
  shows "su_inv (su_connection_free c o1)" and "su_list (su_connection_free c o1) = remove1 c (su_list o1)"
    and "su_udp_mtu (su_connection_free c o1) = su_udp_mtu o1" and "su_jobs (su_connection_free c o1) = su_jobs o1"
    and "\<And>d. d \<noteq> c \<Longrightarrow> su_at (su_connection_free c o1) d = su_at o1 d"
proof -
  let ?o2 = "su_connection_free c o1"
  show fld: "su_list ?o2 = remove1 c (su_list o1)" "su_udp_mtu ?o2 = su_udp_mtu o1" "su_jobs ?o2 = su_jobs o1"
    by (simp_all add: su_connection_free_def)
  show at: "\<And>d. d \<noteq> c \<Longrightarrow> su_at ?o2 d = su_at o1 d" by (simp add: su_connection_free_def su_at_def)
  have i: "distinct (su_list o1)" "set (su_list o1) = dom (su_con o1)" "addr_order.index_ok (su_local_of o1) (su_tree o1)"
    "set (inorder (su_tree o1)) = set (su_list o1)" using inv by (auto simp: su_inv_def su_index_def)
  have rs: "set (remove1 c (su_list o1)) = set (su_list o1) - {c}" using i(1) by simp
  note rm = addr_order.index_Remove [OF i(3), of c]
  have t: "set (inorder (su_tree ?o2)) = set (su_list o1) - {c}" "addr_order.index_ok (su_local_of o1) (su_tree ?o2)"
    using rm c i(4) addr_order.index_distinct [OF i(3)] by (simp_all add: su_connection_free_def)
  have "addr_order.index_ok (su_local_of ?o2) (su_tree ?o2)"
    by (rule addr_order.index_cong [OF t(2)]) (simp add: t(1) at)
  then have "su_index ?o2"
    unfolding su_index_def fld rs using i t by (auto simp: su_connection_free_def)
  moreover have "int (length (remove1 c (su_list o1))) = int (length (su_list o1)) - 1"
    using c length_pos_if_in_set [OF c] by (simp add: length_remove1 of_nat_diff Suc_le_eq)
  then have "su_sizes ?o2" using inv by (simp add: su_inv_def su_sizes_def su_connection_free_def)
  moreover have "su_conns ?o2"
  proof -
    have "su_at ?o2 d = su_at o1 d" if "d \<in> set (su_jobs o1)" for d using at j that by metis
    then show ?thesis unfolding su_conns_def fld rs using inv j at by (auto simp: su_inv_def su_conns_def)
  qed
  ultimately show "su_inv ?o2" by (simp add: su_inv_def)
qed

definition su_env_ok :: "su_env \<Rightarrow> int \<Rightarrow> bool" where
  "su_env_ok env mtu \<longleftrightarrow>
     (\<forall>o1 c. env_malloc env o1 = Some c \<longrightarrow> su_con o1 c = None) \<and>
     alloc_ok (env_alloc env) (ChunkBuffer2_calc_blocks mtu CONNECTION_UDP_BUFFER_SIZE)"

text \<open>Adding a connection.\<close>

definition su_add :: "nat \<Rightarrow> SocksUdpGwClient_connection \<Rightarrow> SocksUdpGwClient \<Rightarrow> SocksUdpGwClient" where
  "su_add c k o1 =
     (let o3 = o1\<lparr>su_jobs := c # su_jobs o1, su_con := (su_con o1)(c \<mapsto> k)\<rparr>
      in o3\<lparr>su_tree := exec_insert (su_tree o3) (BAVL_Insert su_conaddr_comparator (su_conaddr_of o3) c (su_tree o3)),
            su_list := su_list o3 @ [c], su_num_connections := su_num_connections o3 + 1\<rparr>)"

lemma su_add_fields [simp]:
  "su_list (su_add c k o1) = su_list o1 @ [c]" "su_jobs (su_add c k o1) = c # su_jobs o1"
  "su_udp_mtu (su_add c k o1) = su_udp_mtu o1" "su_num_connections (su_add c k o1) = su_num_connections o1 + 1"
  "su_max_connections (su_add c k o1) = su_max_connections o1" "dom (su_con (su_add c k o1)) = insert c (dom (su_con o1))"
  "su_at (su_add c k o1) d = (if d = c then k else su_at o1 d)"
  by (simp_all add: su_add_def su_at_def Let_def)

lemma su_add_index:
  assumes ix: "su_index o1" and new_c: "su_con o1 c = None"
    and a: "addr_wf (su_local_addr (suc_conaddr k))" "su_local_addr (suc_conaddr k) \<notin> su_local_of o1 ` set (su_list o1)"
  shows "su_index (su_add c k o1)"
proof -
  let ?o2 = "su_add c k o1"
  have i: "distinct (su_list o1)" "set (su_list o1) = dom (su_con o1)" "addr_order.index_ok (su_local_of o1) (su_tree o1)"
    "set (inorder (su_tree o1)) = set (su_list o1)" using ix by (auto simp: su_index_def)
  have nc: "c \<notin> set (su_list o1)" using new_c i(2) by auto
  have ok: "addr_order.index_ok (su_local_of ?o2) (su_tree o1)"
    by (rule addr_order.index_cong [OF i(3)]) (use nc i(4) in auto)
  have "su_local_of ?o2 ` set (su_list o1) = su_local_of o1 ` set (su_list o1)"
    using nc by (intro image_cong) auto
  then have "su_local_of ?o2 c \<notin> su_local_of ?o2 ` set (inorder (su_tree o1))" using a(2) i(4) by simp
  then obtain t' where t': "BAVL_Insert BAddr_CompareOrder (su_local_of ?o2) c (su_tree o1) = Some t'"
    using addr_order.index_Insert(1) [OF ok, of c] a(1) by fastforce
  have "su_local_of (o1\<lparr>su_jobs := c # su_jobs o1, su_con := (su_con o1)(c \<mapsto> k)\<rparr>) = su_local_of ?o2"
    by (auto simp: fun_eq_iff su_at_def su_add_def Let_def)
  then have "su_tree ?o2 = t'" using t' by (simp add: su_add_def Let_def insert_key exec_insert_def)
  moreover have "addr_order.index_ok (su_local_of ?o2) t'" "set (inorder t') = insert c (set (su_list o1))"
    using addr_order.index_Insert(2) [OF ok _ t'] a(1) i(4) by auto
  ultimately show ?thesis unfolding su_index_def using i nc by simp
qed

definition su_new ::
  "SocksUdpGwClient_conaddr \<Rightarrow> byte list \<Rightarrow> bool \<Rightarrow> pb_world \<Rightarrow> spb_call list \<Rightarrow> SocksUdpGwClient \<Rightarrow> SocksUdpGwClient_connection" where
  "su_new a data dns w calls o1 =
     \<lparr>suc_conaddr = a, suc_first_data = data, suc_is_dns = dns,
      suc_send_addr = (if dns then su_dnsgw o1 else su_socks_server_addr o1), suc_writer = BufferWriter_Init 0,
      suc_writer_done = None, suc_buffer = w, suc_accepted = [], suc_recv_buffer = calls\<rparr>"

lemma su_connection_init_eq:
  assumes "su_jobs o1 = []"
  shows "su_connection_init env a data dns o1 =
    (case env_malloc env o1 of None \<Rightarrow> (None, o1)
     | Some c \<Rightarrow> if \<not> env_dgram_init env \<or> \<not> env_reuse_addr env then (None, o1)
       else case PacketBuffer_Init (env_alloc env) (su_udp_mtu o1) CONNECTION_UDP_BUFFER_SIZE of None \<Rightarrow> (None, o1)
         | Some b \<Rightarrow> case SinglePacketBuffer_Init (env_single env) of None \<Rightarrow> (None, o1)
           | Some calls \<Rightarrow> (Some c, su_add c (su_new a data dns (pb_world_init b) calls o1) o1))"
proof -
  have o1j: "o1\<lparr>su_jobs := []\<rparr> = o1" using assms by simp
  show ?thesis
    by (simp add: su_connection_init_def su_add_def su_new_def Let_def assms o1j split: option.split)
qed

lemma su_connection_init_inv:
  assumes inv: "su_inv o1" and env: "su_env_ok env (su_udp_mtu o1)" and j: "su_jobs o1 = []"
    and room: "su_num_connections o1 < su_max_connections o1"
    and a: "addr_wf (su_local_addr a)" "addr_wf (su_remote_addr a)" "su_find_connection o1 a dns = None"
    and fits: "int (length (su_packet dns (su_remote_addr a) data)) \<le> su_udp_mtu o1"
  obtains (fail) "su_connection_init env a data dns o1 = (None, o1)"
    | (new) c k where "su_connection_init env a data dns o1 = (Some c, su_add c k o1)" "su_inv (su_add c k o1)"
      "c \<notin> set (su_list o1)" "suc_conaddr k = a" "suc_is_dns k = dns" "suc_first_data k = data"
      "suc_send_addr k = (if dns then su_dnsgw o1 else su_socks_server_addr o1)"
proof -
  consider (failed) "su_connection_init env a data dns o1 = (None, o1)"
    | (ok) c b calls where "env_malloc env o1 = Some c"
        "su_connection_init env a data dns o1 = (Some c, su_add c (su_new a data dns (pb_world_init b) calls o1) o1)"
        "PacketBuffer_Init (env_alloc env) (su_udp_mtu o1) CONNECTION_UDP_BUFFER_SIZE = Some b"
        "SinglePacketBuffer_Init (env_single env) = Some calls"
    using su_connection_init_eq [OF j, of env a data dns] by (auto split: option.splits if_splits)
  then show thesis
  proof cases
    case failed
    then show ?thesis by (rule fail)
  next
    case (ok c b calls)
    define k where "k = su_new a data dns (pb_world_init b) calls o1"
    have k: "suc_conaddr k = a" "suc_is_dns k = dns" "suc_first_data k = data"
      "suc_send_addr k = (if dns then su_dnsgw o1 else su_socks_server_addr o1)" by (simp_all add: k_def su_new_def)
    have new_c: "su_con o1 c = None" using env ok(1) by (simp add: su_env_ok_def)
    have ix: "su_index o1" and m: "0 \<le> su_udp_mtu o1" using inv by (simp_all add: su_inv_def su_sizes_def)
    have nc: "c \<notin> set (su_list o1)" using new_c ix by (auto simp: su_index_def)
    have "su_index (su_add c k o1)"
      by (rule su_add_index [OF ix new_c]) (use a su_find_iff(2) [OF ix] in \<open>simp_all add: k\<close>)
    moreover have "su_sizes (su_add c k o1)" using inv room by (simp add: su_inv_def su_sizes_def)
    moreover have "su_conns (su_add c k o1)"
    proof -
      have "alloc_ok (env_alloc env) (ChunkBuffer2_calc_blocks (su_udp_mtu o1) CONNECTION_UDP_BUFFER_SIZE)"
        using env by (simp add: su_env_ok_def)
      note pbi = pb_init_inv [OF ok(3) m _ this]
      have "pb_received (pb_world_init b) = []" by (simp add: pb_world_init_def)
      then have "suc_ok (su_udp_mtu o1) k" "suc_fits (su_udp_mtu o1) k" "addr_wf (su_remote_addr (suc_conaddr k))"
        using pbi ok(4) fits a(2)
        by (simp_all add: suc_ok_def k_def su_new_def BufferWriter_Init_def suc_fits_def SinglePacketBuffer_Init_def split: if_splits)
      then show ?thesis using inv j by (simp add: su_conns_def su_inv_def)
    qed
    ultimately have "su_inv (su_add c k o1)" by (simp add: su_inv_def)
    then show ?thesis by (rule new [OF ok(2) [folded k_def] _ nc]) (rule k)+
  qed
qed

section \<open>Submitting\<close>

lemma su_reset_inv:
  assumes inv: "su_inv o1" and c: "c \<in> set (su_list o1)" and j: "su_jobs o1 = []"
    and a: "su_local_addr a = su_local_of o1 c" "addr_wf (su_remote_addr a)"
  shows "su_inv (su_reset_connection c a dns o1)"
    and "su_at (su_reset_connection c a dns o1) d =
      (if d = c then (su_at o1 c)\<lparr>suc_conaddr := a, suc_is_dns := dns\<rparr> else su_at o1 d)"
proof -
  have "suc_ok (su_udp_mtu o1) (su_at o1 c)" using inv c by (simp add: su_inv_def su_conns_def)
  then show "su_inv (su_reset_connection c a dns o1)"
    unfolding su_reset_connection_def by (intro su_upd_inv [OF inv c]) (use a j in \<open>simp_all add: suc_ok_def\<close>)
  have "c \<in> dom (su_con o1)" using inv c by (simp add: su_inv_def su_index_def)
  then show "su_at (su_reset_connection c a dns o1) d =
      (if d = c then (su_at o1 c)\<lparr>suc_conaddr := a, suc_is_dns := dns\<rparr> else su_at o1 d)"
    by (simp add: su_reset_connection_def su_at_upd)
qed

lemma su_move_inv:
  assumes inv: "su_inv o1" and c: "c \<in> set (su_list o1)"
  shows "su_inv (o1\<lparr>su_list := remove1 c (su_list o1) @ [c]\<rparr>)"
proof -
  let ?o2 = "o1\<lparr>su_list := remove1 c (su_list o1) @ [c]\<rparr>"
  have d: "distinct (su_list o1)" using inv by (simp add: su_inv_def su_index_def)
  have st: "set (su_list ?o2) = set (su_list o1)" "distinct (su_list ?o2)" using d c by auto
  have "length (su_list ?o2) = length (su_list o1)"
    using length_pos_if_in_set [OF c] by (simp add: length_remove1 c)
  then have "su_sizes ?o2" using inv by (simp add: su_inv_def su_sizes_def)
  moreover have "su_index ?o2" using inv st unfolding su_inv_def su_index_def su_at_same by simp
  moreover have "su_conns ?o2" using inv st unfolding su_inv_def su_conns_def su_at_same by simp
  ultimately show ?thesis by (simp add: su_inv_def)
qed

text \<open>Making room: after it the address still has no connection.\<close>

lemma su_room:
  assumes inv: "su_inv o1" and j: "su_jobs o1 = []" and a: "addr_wf (su_local_addr a)" "su_find_connection o1 a dns = None"
    and o2: "o2 = (if su_num_connections o1 = su_max_connections o1 then su_remove_lru_connection o1 else o1)"
  shows "su_inv o2" and "su_num_connections o2 < su_max_connections o2" and "su_find_connection o2 a dns = None"
    and "su_udp_mtu o2 = su_udp_mtu o1" and "su_jobs o2 = []"
proof -
  have ix: "su_index o1" and sz: "su_sizes o1" using inv by (simp_all add: su_inv_def)
  have "su_inv o2 \<and> su_num_connections o2 < su_max_connections o2 \<and> su_find_connection o2 a dns = None \<and>
    su_udp_mtu o2 = su_udp_mtu o1 \<and> su_jobs o2 = []"
  proof (cases "su_num_connections o1 = su_max_connections o1")
    case True
    let ?c = "hd (su_list o1)"
    have c: "?c \<in> set (su_list o1)" using True sz by (cases "su_list o1") (auto simp: su_sizes_def)
    have e: "o2 = su_connection_free ?c o1" using o2 True by (simp add: su_remove_lru_connection_def)
    have "?c \<notin> set (su_jobs o1)" using j by simp
    note f = su_connection_free_inv [OF inv c this, folded e]
    have d: "distinct (su_list o1)" using ix by (simp add: su_index_def)
    have "su_local_of o2 ` set (su_list o2) \<subseteq> su_local_of o1 ` set (su_list o1)" using f(2,5) d by auto
    then have "su_find_connection o2 a dns = None"
      using a su_find_iff(2) [OF ix] su_find_iff(2) [of o2 a dns] f(1) by (auto simp: su_inv_def)
    moreover have "su_num_connections o2 < su_max_connections o2" using True by (simp add: e su_connection_free_def)
    ultimately show ?thesis using f j by simp
  next
    case False
    then show ?thesis using inv sz a j o2 by (simp add: su_sizes_def)
  qed
  then show "su_inv o2" and "su_num_connections o2 < su_max_connections o2" and "su_find_connection o2 a dns = None"
    and "su_udp_mtu o2 = su_udp_mtu o1" and "su_jobs o2 = []" by auto
qed

lemma su_submit_inv:
  assumes inv: "su_inv o1" and env: "su_env_ok env (su_udp_mtu o1)" and j: "su_jobs o1 = []"
    and wf: "addr_wf l" "addr_wf r" and fits: "int (length (su_packet dns r data)) \<le> su_udp_mtu o1"
  shows "su_inv (SocksUdpGwClient_SubmitPacket env l r dns data o1) \<and>
    su_udp_mtu (SocksUdpGwClient_SubmitPacket env l r dns data o1) = su_udp_mtu o1"
proof -
  let ?a = "\<lparr>su_local_addr = l, su_remote_addr = r\<rparr>"
  have ix: "su_index o1" using inv by (simp add: su_inv_def)
  have a: "addr_wf (su_local_addr ?a)" "addr_wf (su_remote_addr ?a)" using wf by simp_all
  show ?thesis
  proof (cases "su_find_connection o1 ?a dns")
    case (Some c)
    have c: "c \<in> set (su_list o1)" "su_local_addr ?a = su_local_of o1 c"
      using Some su_find_iff(1) [OF ix a(1)] by (metis, metis)
    let ?o2 = "su_reset_connection c ?a dns o1"
    note rs = su_reset_inv [OF inv c(1) j c(2) a(2), of dns]
    have keep: "su_list ?o2 = su_list o1" "su_udp_mtu ?o2 = su_udp_mtu o1" by (simp_all add: su_reset_connection_def)
    have "int (length (su_packet (suc_is_dns (su_at ?o2 c)) (su_remote_addr (su_conaddr_of ?o2 c)) data)) \<le> su_udp_mtu ?o2"
      using fits by (simp add: rs(2) keep)
    note sd = su_connection_send_inv [OF rs(1) _ this, unfolded keep, OF c(1)]
    obtain res o3 where o3: "su_connection_send c data ?o2 = (res, o3)" by fastforce
    have "su_udp_mtu o3 = su_udp_mtu o1" using o3 keep by (auto simp: su_connection_send_def split: prod.splits)
    moreover have "su_inv o3" "su_inv (o3\<lparr>su_list := remove1 c (su_list o3) @ [c]\<rparr>)"
      using sd o3 su_move_inv [of o3 c] c(1) by simp_all
    ultimately show ?thesis using Some o3 by (simp add: SocksUdpGwClient_SubmitPacket_def Let_def)
  next
    case None
    define o2 where "o2 = (if su_num_connections o1 = su_max_connections o1 then su_remove_lru_connection o1 else o1)"
    note rm = su_room [OF inv j a(1) None o2_def]
    have e: "SocksUdpGwClient_SubmitPacket env l r dns data o1 = snd (su_connection_init env ?a data dns o2)"
      using None by (simp add: SocksUdpGwClient_SubmitPacket_def Let_def o2_def)
    have env2: "su_env_ok env (su_udp_mtu o2)" and f2: "int (length (su_packet dns (su_remote_addr ?a) data)) \<le> su_udp_mtu o2"
      using env fits rm(4) by simp_all
    show ?thesis
      by (rule su_connection_init_inv [OF rm(1) env2 rm(5,2) a rm(3) f2]) (use rm(1,4) in \<open>simp_all add: e\<close>)
  qed
qed

lemma su_step_inv:
  assumes "su_step env o1 o2" "su_inv o1" "su_env_ok env (su_udp_mtu o1)"
  shows "su_inv o2 \<and> su_udp_mtu o2 = su_udp_mtu o1"
  using assms
proof (induction rule: su_step.induct)
  case (su_submit o1 l r dns data)
  then show ?case by (intro su_submit_inv)
next
  case (su_first_job o1 c js)
  let ?o1 = "o1\<lparr>su_jobs := js\<rparr>"
  have inv: "su_inv ?o1" and c: "c \<in> set (su_list ?o1)"
    and f: "suc_fits (su_udp_mtu o1) (su_at ?o1 c)"
    using su_first_job by (auto simp: su_inv_def su_index_def su_sizes_def su_conns_def su_at_same)
  show ?case
    using su_connection_send_inv(1) [OF inv c, of "suc_first_data (su_at ?o1 c)"] f
    by (simp add: su_connection_first_job_handler_def suc_fits_def) (simp add: su_connection_send_def split: prod.splits)
next
  case (su_receive o1 c data)
  have "su_udp_mtu (fst (su_datagram_in c data o1)) = su_udp_mtu o1"
    by (auto simp: su_datagram_in_def dgram_handler_received_def SinglePacketBuffer_input_handler_done_def Let_def split: option.splits)
  then show ?case using su_receive_inv su_receive by simp
next
  case (su_internal c o1 k)
  have ok: "suc_ok (su_udp_mtu o1) (su_at o1 c)" "addr_wf (su_remote_addr (su_conaddr_of o1 c))"
    and j: "c \<in> set (su_jobs o1) \<Longrightarrow> suc_fits (su_udp_mtu o1) (su_at o1 c)"
    using su_internal by (auto simp: su_inv_def su_conns_def)
  have "su_inv (su_upd c (\<lambda>_. k) o1)"
    by (rule su_upd_inv) (use su_internal suc_step_ok [OF _ ok(1)] suc_step_frame [OF su_internal(2)] ok j in \<open>simp_all add: suc_fits_def\<close>)
  then show ?case by simp
qed

lemma su_reach_inv:
  assumes "su_reach env (SocksUdpGwClient_Init mtu maxc srv dnsgw 0) o1" "su_env_ok env mtu" "0 \<le> mtu" "0 < maxc"
  shows "su_inv o1 \<and> su_udp_mtu o1 = mtu"
  using assms
proof (induction rule: su_reach.induct)
  case su_start
  then show ?case
    by (simp add: SocksUdpGwClient_Init_def su_inv_def su_index_def su_sizes_def su_conns_def addr_order.index_Init)
      (simp add: BAVL_Init_def)
next
  case (su_next o1 o2)
  then show ?case using su_step_inv by metis
qed

lemma su_free_all:
  assumes "su_inv o1" "su_jobs o1 = []"
  shows "su_list (SocksUdpGwClient_Free o1) = [] \<and> su_con (SocksUdpGwClient_Free o1) = Map.empty \<and>
    su_num_connections (SocksUdpGwClient_Free o1) = 0 \<and> su_tree (SocksUdpGwClient_Free o1) = Lf"
  using assms
proof (induction o1 rule: SocksUdpGwClient_Free.induct)
  case (1 o1)
  show ?case
  proof (cases "su_list o1")
    case Nil
    then have "dom (su_con o1) = {}" "set (inorder (su_tree o1)) = {}" "su_num_connections o1 = 0"
      using 1(2) by (simp_all add: su_inv_def su_index_def su_sizes_def)
    then show ?thesis using Nil by (subst (1 2 3 4) SocksUdpGwClient_Free.simps) simp
  next
    case (Cons c l)
    have "su_inv (su_connection_free c o1)" "su_jobs (su_connection_free c o1) = []"
      using su_connection_free_inv [OF 1(2), of c] Cons 1(3) by simp_all
    then show ?thesis using 1(1) [OF Cons] Cons by (subst (1 2 3 4) SocksUdpGwClient_Free.simps) simp
  qed
qed

text \<open>Headers and their size.\<close>

lemma length_socks_udp_header [simp]: "length (socks_udp_header r) = 4"
  by (simp add: socks_udp_header_def)

lemma length_su_packet:
  "addr_wf r \<Longrightarrow> r \<noteq> BAddr_None \<Longrightarrow>
   length (su_packet dns r data) = (if dns then 0 else if BAddr_type r = 1 then 10 else 22) + length data"
  by (cases r) (simp_all add: su_packet_def)

lemma dgram_parse_packet:
  assumes "addr_wf r" "r \<noteq> BAddr_None"
  shows "dgram_parse (su_packet False r data) = Some (r, data)"
proof -
  have "store16 0 = [0, 0]" by (simp add: store16_def)
  then show ?thesis using assms by (cases r) (simp_all add: su_packet_def dgram_parse_def socks_udp_header_def)
qed

text \<open>A datagram for a connection that is ready, and one that arrives.\<close>

lemma relay_submit_existing:
  assumes inv: "su_inv o1" and j: "su_jobs o1 = []" and wf: "addr_wf l" "addr_wf r" "r \<noteq> BAddr_None"
    and find: "su_find_connection o1 \<lparr>su_local_addr = l, su_remote_addr = r\<rparr> dns = Some c"
    and ready: "BufferWriter_StartPacket (suc_writer (su_at o1 c)) = Some out"
    and fits: "int (length (su_packet dns r data)) \<le> su_udp_mtu o1"
    and o2: "o2 = SocksUdpGwClient_SubmitPacket env l r dns data o1"
  shows "su_at o2 c = su_accept out (su_packet dns r data)
      ((su_at o1 c)\<lparr>suc_conaddr := \<lparr>su_local_addr = l, su_remote_addr = r\<rparr>, suc_is_dns := dns\<rparr>)"
    and "c \<in> dom (su_con o2)" and "su_udp_mtu o2 = su_udp_mtu o1"
proof -
  let ?a = "\<lparr>su_local_addr = l, su_remote_addr = r\<rparr>"
  let ?k = "(su_at o1 c)\<lparr>suc_conaddr := ?a, suc_is_dns := dns\<rparr>"
  let ?p = "su_packet dns r data"
  have ix: "su_index o1" using inv by (simp add: su_inv_def)
  have c: "c \<in> set (su_list o1)" using find su_find_iff(1) [OF ix, of ?a dns c] wf by simp
  have dm: "c \<in> dom (su_con o1)" using ix c by (simp add: su_index_def)
  have ok: "suc_ok (su_udp_mtu o1) ?k" using inv c by (simp add: su_inv_def su_conns_def suc_ok_def)
  have k: "su_at (su_reset_connection c ?a dns o1) c = ?k" using dm by (simp add: su_reset_connection_def su_at_upd)
  have "su_send data ?k = (0, su_accept out ?p ?k)" using su_send_eq [OF ok, of data] ready fits by simp
  then have "o2 = (su_upd c (\<lambda>_. su_accept out ?p ?k) (su_reset_connection c ?a dns o1))
      \<lparr>su_list := remove1 c (su_list o1) @ [c]\<rparr>"
    using find by (simp add: o2 SocksUdpGwClient_SubmitPacket_def Let_def su_connection_send_def k) (simp add: su_reset_connection_def)
  then show "su_at o2 c = su_accept out ?p ?k" "c \<in> dom (su_con o2)" "su_udp_mtu o2 = su_udp_mtu o1"
    using dm by (simp_all add: su_at_same su_at_upd su_reset_connection_def)
qed

lemma relay_datagram_in:
  assumes c: "c \<in> dom (su_con o1)" and k: "\<not> suc_is_dns (su_at o1 c)" and r: "addr_wf r" "r \<noteq> BAddr_None"
    and len: "int (length data) \<le> su_udp_mtu o1"
  shows "snd (su_datagram_in c (su_packet False r data) o1) = [SU_Done, SU_Received (su_local_of o1 c) r data]"
  using c k len dgram_parse_packet [OF r, of data]
  by (simp add: su_datagram_in_def SinglePacketBuffer_input_handler_done_def dgram_handler_received_def su_at_upd Let_def)

section \<open>An example\<close>

definition demo_su_env :: su_env where
  "demo_su_env = \<lparr>env_malloc = (\<lambda>o1. if su_con o1 5 = None then Some 5 else None), env_dgram_init = True,
     env_reuse_addr = True, env_alloc = demo_alloc, env_single = True\<rparr>"

definition demo_su0 :: SocksUdpGwClient where
  "demo_su0 = SocksUdpGwClient_Init 100 2 (BAddr_IPv4 1 2) (BAddr_IPv4 3 4) 0"

definition demo_su1 :: SocksUdpGwClient where
  "demo_su1 = SocksUdpGwClient_SubmitPacket demo_su_env (BAddr_IPv4 10 20) (BAddr_IPv4 30 40) False [1, 2, 3] demo_su0"

lemma demo_su_calc: "ChunkBuffer2_calc_blocks 100 64 = 1690"
  by code_simp

lemma demo_su_env_ok: "su_env_ok demo_su_env 100"
  unfolding su_env_ok_def demo_su_calc by (simp add: demo_su_env_def alloc_ok_def demo_alloc_def)

lemma demo_su_buffer: "\<exists>b. PacketBuffer_Init demo_alloc 100 64 = Some b"
  by (simp add: PacketBuffer_Init_def demo_su_calc demo_alloc_def Let_def)

lemma demo_su1_eq:
  "\<exists>b. PacketBuffer_Init demo_alloc 100 64 = Some b \<and>
     demo_su1 = su_add 5 (su_new \<lparr>su_local_addr = BAddr_IPv4 10 20, su_remote_addr = BAddr_IPv4 30 40\<rparr> [1, 2, 3] False
       (pb_world_init b) [SPB_Recv] demo_su0) demo_su0"
proof -
  obtain b where b: "PacketBuffer_Init demo_alloc 100 64 = Some b" using demo_su_buffer by blast
  have f: "su_find_connection demo_su0 a dns = None" for a dns
    by (simp add: su_find_connection_def demo_su0_def SocksUdpGwClient_Init_def BAVL_Init_def)
  have z: "su_jobs demo_su0 = []" "su_num_connections demo_su0 \<noteq> su_max_connections demo_su0" "su_udp_mtu demo_su0 = 100"
    "su_con demo_su0 5 = None" by (simp_all add: demo_su0_def SocksUdpGwClient_Init_def)
  show ?thesis
    using b z by (auto simp: demo_su1_def SocksUdpGwClient_SubmitPacket_def f su_connection_init_eq [OF z(1)]
        demo_su_env_def SinglePacketBuffer_Init_def)
qed

lemma demo_su_reach: "su_reach demo_su_env demo_su0 demo_su1"
proof (rule su_next [OF su_start])
  show "su_step demo_su_env demo_su0 demo_su1"
    unfolding demo_su1_def by (rule su_submit) (simp_all add: demo_su0_def SocksUdpGwClient_Init_def su_packet_def)
qed

text \<open>The relay after a first datagram that found its connection not ready, and once the connection is.\<close>

definition demo_su2 :: SocksUdpGwClient where
  "demo_su2 = su_connection_first_job_handler 5 (demo_su1\<lparr>su_jobs := []\<rparr>)"

definition demo_ready :: "SocksUdpGwClient_connection \<Rightarrow> SocksUdpGwClient_connection" where
  "demo_ready k = k\<lparr>suc_writer := BufferWriter_output_handler_recv (nat (the (pb_recv (suc_buffer k)))) (suc_writer k)\<rparr>"

definition demo_su3 :: SocksUdpGwClient where
  "demo_su3 = su_upd 5 (\<lambda>_. demo_ready (su_at demo_su2 5)) demo_su2"

lemma demo_pb_recv:
  assumes "PacketBuffer_Init demo_alloc 100 64 = Some b"
  shows "\<exists>d. pb_recv (pb_world_init b) = Some d"
proof -
  have "alloc_ok demo_alloc (ChunkBuffer2_calc_blocks 100 64)" using demo_su_env_ok by (simp add: su_env_ok_def demo_su_env_def)
  then have "\<not> pb_violated (pb_world_init b)" using pb_init_inv(1) [OF assms] by (simp add: pb_inv_def Let_def)
  moreover obtain x where "snd b = [PB_Recv x]"
    using assms by (auto simp: PacketBuffer_Init_def Let_def split: if_splits option.splits)
  ultimately show ?thesis by (cases x) (simp_all add: pb_world_init_def)
qed

lemma demo_su3_facts:
  "su_reach demo_su_env demo_su0 demo_su3 \<and> su_jobs demo_su3 = [] \<and> su_local_of demo_su3 5 = BAddr_IPv4 10 20 \<and>
   5 \<in> set (su_list demo_su3) \<and> suc_accepted (su_at demo_su3 5) = [] \<and>
   (\<exists>out. BufferWriter_StartPacket (suc_writer (su_at demo_su3 5)) = Some out)"
proof -
  obtain b where b: "PacketBuffer_Init demo_alloc 100 64 = Some b" and
    o1: "demo_su1 = su_add 5 (su_new \<lparr>su_local_addr = BAddr_IPv4 10 20, su_remote_addr = BAddr_IPv4 30 40\<rparr> [1, 2, 3] False
      (pb_world_init b) [SPB_Recv] demo_su0) demo_su0" using demo_su1_eq by blast
  let ?k = "su_at demo_su1 5"
  have k: "suc_writer ?k = BufferWriter_Init 0" "suc_buffer ?k = pb_world_init b" "suc_writer_done ?k = None" "suc_accepted ?k = []"
    "su_local_addr (suc_conaddr ?k) = BAddr_IPv4 10 20" by (simp_all add: o1 su_new_def)
  have j: "su_jobs demo_su1 = [5]" "5 \<in> set (su_list demo_su1)" "5 \<in> dom (su_con demo_su1)"
    by (simp_all add: o1) (simp add: demo_su0_def SocksUdpGwClient_Init_def)
  have dm: "5 \<in> dom (su_con (demo_su1\<lparr>su_jobs := []\<rparr>))" using j(3) by simp
  have "su_send d ?k = (1, ?k)" for d by (simp add: su_send_def k BufferWriter_StartPacket_def BufferWriter_Init_def)
  then have o2: "demo_su2 = su_upd 5 (\<lambda>_. ?k) (demo_su1\<lparr>su_jobs := []\<rparr>)"
    by (simp add: demo_su2_def su_connection_first_job_handler_def su_connection_send_def su_at_same)
  have r2: "su_reach demo_su_env demo_su0 demo_su2"
    unfolding demo_su2_def by (rule su_next [OF demo_su_reach su_first_job [OF j(1)]])
  have at2: "su_at demo_su2 5 = ?k" unfolding o2 su_at_upd [OF dm] by simp
  have j2: "su_jobs demo_su2 = []" "5 \<in> set (su_list demo_su2)" "5 \<in> dom (su_con demo_su2)" using j by (simp_all add: o2)
  obtain d where d: "pb_recv (pb_world_init b) = Some d" using demo_pb_recv [OF b] by blast
  have "suc_step ?k (demo_ready ?k)"
    using suc_request [of ?k d] d k by (simp add: demo_ready_def BufferWriter_Init_def)
  then have "su_reach demo_su_env demo_su0 demo_su3"
    unfolding demo_su3_def by (intro su_next [OF r2] su_internal [OF j2(2)]) (simp add: at2)
  moreover have "su_at demo_su3 5 = demo_ready ?k" unfolding demo_su3_def su_at_upd [OF j2(3)] by (simp add: at2)
  ultimately show ?thesis
    using k j2 by (simp add: demo_su3_def demo_ready_def BufferWriter_StartPacket_def BufferWriter_output_handler_recv_def)
qed

section \<open>Properties\<close>

text \<open>C13. The bookkeeping of the relay stays consistent: after any sequence of datagrams in both directions (those
  submitted fit with their header into the packet size) and of internal steps, the index, the use list, the counter and the live connections agree, there is one
  connection per local address, their number respects the limit, pending first jobs belong to live
  connections, a lookup finds exactly the connection of the local address, and taking the relay down
  frees every connection. (The counter is not set by the initialisation: it starts at 0 because the
  object is static.)\<close>

theorem relay_consistent:
  assumes reach: "su_reach env (SocksUdpGwClient_Init mtu maxc srv dnsgw 0) o1"
    and env: "su_env_ok env mtu" "0 \<le> mtu" "0 < maxc"
  shows "distinct (su_list o1) \<and> set (su_list o1) = dom (su_con o1) \<and> set (inorder (su_tree o1)) = dom (su_con o1) \<and>
    su_num_connections o1 = int (length (su_list o1)) \<and> su_num_connections o1 \<le> su_max_connections o1 \<and>
    inj_on (su_local_of o1) (dom (su_con o1)) \<and> set (su_jobs o1) \<subseteq> dom (su_con o1) \<and>
    (\<forall>a dns c. addr_wf (su_local_addr a) \<longrightarrow>
       (su_find_connection o1 a dns = Some c \<longleftrightarrow> c \<in> dom (su_con o1) \<and> su_local_of o1 c = su_local_addr a)) \<and>
    (su_jobs o1 = [] \<longrightarrow> su_con (SocksUdpGwClient_Free o1) = Map.empty \<and> su_tree (SocksUdpGwClient_Free o1) = Lf \<and>
       su_num_connections (SocksUdpGwClient_Free o1) = 0)"
proof -
  have inv: "su_inv o1" using su_reach_inv [OF assms] by simp
  then have ix: "su_index o1" by (simp add: su_inv_def)
  have i: "distinct (su_list o1)" "set (su_list o1) = dom (su_con o1)" "addr_order.index_ok (su_local_of o1) (su_tree o1)"
    "set (inorder (su_tree o1)) = set (su_list o1)" using ix by (auto simp: su_index_def)
  have "inj_on (su_local_of o1) (dom (su_con o1))" using addr_order.index_inj [OF i(3)] unfolding i(4) i(2) .
  moreover have "set (su_jobs o1) \<subseteq> dom (su_con o1)" using inv i(2) by (auto simp: su_inv_def su_conns_def)
  moreover have "su_num_connections o1 = int (length (su_list o1))" "su_num_connections o1 \<le> su_max_connections o1"
    using inv by (simp_all add: su_inv_def su_sizes_def)
  ultimately show ?thesis
    using i su_find_iff(1) [OF ix] su_free_all [OF inv] by simp
qed

theorem relay_consistent_witness:
  "su_num_connections demo_su1 = 1 \<and> su_jobs demo_su1 = [5] \<and>
   su_find_connection demo_su1 \<lparr>su_local_addr = BAddr_IPv4 10 20, su_remote_addr = BAddr_IPv4 7 7\<rparr> True = Some 5"
proof -
  obtain w where w: "demo_su1 = su_add 5 (su_new \<lparr>su_local_addr = BAddr_IPv4 10 20, su_remote_addr = BAddr_IPv4 30 40\<rparr> [1, 2, 3] False w
    [SPB_Recv] demo_su0) demo_su0" using demo_su1_eq by blast
  have f: "su_jobs demo_su1 = [5]" "su_list demo_su1 = [5]" "5 \<in> dom (su_con demo_su1)" "su_local_of demo_su1 5 = BAddr_IPv4 10 20"
    by (simp_all add: w su_new_def) (simp_all add: demo_su0_def SocksUdpGwClient_Init_def)
  show ?thesis
    using relay_consistent [OF demo_su_reach [unfolded demo_su0_def] demo_su_env_ok] f by simp
qed





end
