(* ===== verification/SocksClient.thy ===== *)
theory SocksClient
  imports FlowInterface NetAddr
begin

text \<open>
  The SOCKS5 client \<open>socksclient/BSocksClient.c\<close>: a state machine that connects to the server,
  negotiates an authentication method, optionally sends a user name and password, requests a
  connection and then hands the raw connection to its user. The connector, the connection and the
  stream sender are its environment: a handler returns the calls it makes on them. Memory allocation
  is a parameter (\<open>realloc\<close>), failing at will; sizes are \<open>size_t\<close> values with the overflow mark
  of \<open>misc/bsize.h\<close>. The theorems relate the bytes exchanged to the conversation of RFC 1928 and 1929
  for every division of the server's answer into chunks.
\<close>

section \<open>The client\<close>

datatype socks_state =
  STATE_CONNECTING | STATE_SENDING_HELLO | STATE_SENT_HELLO | STATE_SENDING_PASSWORD
| STATE_SENT_PASSWORD | STATE_SENDING_REQUEST | STATE_SENT_REQUEST | STATE_RECEIVED_REPLY_HEADER | STATE_UP

datatype BSocksClient_auth_info =
  auth_none
| auth_password "byte list" "byte list"

datatype socks_event = EVENT_ERROR | EVENT_UP | EVENT_ERROR_CLOSED

text \<open>Calls on the environment: sending a packet, receiving to an offset of the buffer, the handler of
  the user.\<close>

datatype socks_call =
  SC_Send "byte list"
| SC_Recv nat int
| SC_Handler socks_event

record BSocksClient =
  sc_state :: socks_state
  sc_auth_info :: "BSocksClient_auth_info list"
  sc_dest_addr :: BAddr
  sc_buffer :: "byte list option"
  sc_recv_dest :: nat
  sc_recv_len :: int
  sc_recv_tot :: int
  sc_has_con :: bool
  sc_control_io :: bool
  sc_up_io :: bool
  sc_has_connector :: bool

abbreviation SOCKS_VERSION :: byte where "SOCKS_VERSION \<equiv> 5"

fun auth_type :: "BSocksClient_auth_info \<Rightarrow> byte" where
  "auth_type auth_none = 0"
| "auth_type (auth_password u p) = 2"

type_synonym realloc_fun = "byte list option \<Rightarrow> nat \<Rightarrow> byte list option"

definition init_control_io :: "BSocksClient \<Rightarrow> BSocksClient" where
  "init_control_io o1 = o1\<lparr>sc_control_io := True\<rparr>"

definition free_control_io :: "BSocksClient \<Rightarrow> BSocksClient" where
  "free_control_io o1 = o1\<lparr>sc_control_io := False\<rparr>"

definition init_up_io :: "BSocksClient \<Rightarrow> BSocksClient" where
  "init_up_io o1 = o1\<lparr>sc_up_io := True\<rparr>"

definition free_up_io :: "BSocksClient \<Rightarrow> BSocksClient" where
  "free_up_io o1 = o1\<lparr>sc_up_io := False\<rparr>"

definition reserve_buffer :: "realloc_fun \<Rightarrow> nat option \<Rightarrow> BSocksClient \<Rightarrow> BSocksClient option" where
  "reserve_buffer realloc sz o1 =
     (case sz of None \<Rightarrow> None
      | Some n \<Rightarrow> (case realloc (sc_buffer o1) n of None \<Rightarrow> None | Some b \<Rightarrow> Some (o1\<lparr>sc_buffer := Some b\<rparr>)))"

definition do_receive :: "BSocksClient \<Rightarrow> socks_call list" where
  "do_receive o1 = [SC_Recv (sc_recv_dest o1 + nat (sc_recv_len o1)) (sc_recv_tot o1 - sc_recv_len o1)]"

definition start_receive :: "nat \<Rightarrow> int \<Rightarrow> BSocksClient \<Rightarrow> BSocksClient \<times> socks_call list" where
  "start_receive dest tot o1 =
     (let o1 = o1\<lparr>sc_recv_dest := dest, sc_recv_len := 0, sc_recv_tot := tot\<rparr> in (o1, do_receive o1))"

definition sc_memcpy :: "nat \<Rightarrow> byte list \<Rightarrow> BSocksClient \<Rightarrow> BSocksClient" where
  "sc_memcpy off src o1 = o1\<lparr>sc_buffer := map_option (\<lambda>b. memcpy_at b off src) (sc_buffer o1)\<rparr>"

definition sc_bytes :: "BSocksClient \<Rightarrow> byte list" where
  "sc_bytes o1 = (case sc_buffer o1 of None \<Rightarrow> [] | Some b \<Rightarrow> b)"

text \<open>The messages as they lie in the buffer.\<close>

definition hello_header :: "nat \<Rightarrow> byte list" where
  "hello_header n = [SOCKS_VERSION, of_nat n]"

fun write_methods :: "nat \<Rightarrow> BSocksClient_auth_info list \<Rightarrow> BSocksClient \<Rightarrow> BSocksClient" where
  "write_methods i [] o1 = o1"
| "write_methods i (ai # ais) o1 = write_methods (i + 1) ais (sc_memcpy (2 + i) [auth_type ai] o1)"

definition connector_handler ::
  "realloc_fun \<Rightarrow> bool \<Rightarrow> bool \<Rightarrow> BSocksClient \<Rightarrow> BSocksClient \<times> socks_call list" where
  "connector_handler realloc con_ok is_error o1 =
     (let num = length (sc_auth_info o1) in
      if is_error then (o1, [SC_Handler EVENT_ERROR])
      else if \<not> con_ok then (o1, [SC_Handler EVENT_ERROR])
      else
        let o2 = init_control_io (o1\<lparr>sc_has_con := True\<rparr>);
            fail1 = ((free_control_io o2)\<lparr>sc_has_con := False\<rparr>, [SC_Handler EVENT_ERROR]) in
        if num = 0 \<or> num > 255 then fail1
        else
          let sz = bsize_add (bsize_fromsize 2) (bsize_mul (bsize_fromsize num) (bsize_fromsize 1)) in
          case reserve_buffer realloc sz o2 of None \<Rightarrow> fail1
          | Some o3 \<Rightarrow>
              let o4 = write_methods 0 (sc_auth_info o3) (sc_memcpy 0 (hello_header num) o3)
              in (o4\<lparr>sc_state := STATE_SENDING_HELLO\<rparr>, [SC_Send (take (the sz) (sc_bytes o4))]))"

definition connection_handler :: "bool \<Rightarrow> BSocksClient \<Rightarrow> BSocksClient \<times> socks_call list" where
  "connection_handler recvclosed o1 =
     (if sc_state o1 = STATE_UP \<and> recvclosed then (o1, [SC_Handler EVENT_ERROR_CLOSED])
      else (o1, [SC_Handler EVENT_ERROR]))"

fun socks_addr :: "BAddr \<Rightarrow> byte list" where
  "socks_addr BAddr_None = []"
| "socks_addr (BAddr_IPv4 ip port) = store32 ip @ store16 port"
| "socks_addr (BAddr_IPv6 ip port) = ip @ store16 port"

fun socks_atyp :: "BAddr \<Rightarrow> byte" where
  "socks_atyp BAddr_None = 0"
| "socks_atyp (BAddr_IPv4 ip port) = 1"
| "socks_atyp (BAddr_IPv6 ip port) = 4"

fun socks_addr_size :: "BAddr \<Rightarrow> nat" where
  "socks_addr_size BAddr_None = 0"
| "socks_addr_size (BAddr_IPv4 ip port) = 6"
| "socks_addr_size (BAddr_IPv6 ip port) = 18"

definition auth_finished :: "realloc_fun \<Rightarrow> BSocksClient \<Rightarrow> BSocksClient \<times> socks_call list" where
  "auth_finished realloc o1 =
     (let sz = bsize_add (bsize_fromsize 4) (bsize_fromsize (socks_addr_size (sc_dest_addr o1))) in
      case reserve_buffer realloc sz o1 of None \<Rightarrow> (o1, [SC_Handler EVENT_ERROR])
      | Some o2 \<Rightarrow>
          let o3 = sc_memcpy 4 (socks_addr (sc_dest_addr o2)) o2;
              o4 = sc_memcpy 0 [SOCKS_VERSION, 1, 0, socks_atyp (sc_dest_addr o2)] o3
          in (o4\<lparr>sc_state := STATE_SENDING_REQUEST\<rparr>, [SC_Send (take (the sz) (sc_bytes o4))]))"

text \<open>The loop that looks for the method the server chose.\<close>

fun find_auth :: "byte \<Rightarrow> BSocksClient_auth_info list \<Rightarrow> BSocksClient_auth_info option" where
  "find_auth m [] = None"
| "find_auth m (ai # ais) = (if auth_type ai = m then Some ai else find_auth m ais)"

definition write_password :: "byte list \<Rightarrow> byte list \<Rightarrow> BSocksClient \<Rightarrow> BSocksClient" where
  "write_password u p o1 =
     sc_memcpy (3 + length u) p (sc_memcpy (2 + length u) [of_nat (length p)]
       (sc_memcpy 2 u (sc_memcpy 1 [of_nat (length u)] (sc_memcpy 0 [1] o1))))"

definition received_hello :: "realloc_fun \<Rightarrow> BSocksClient \<Rightarrow> BSocksClient \<times> socks_call list" where
  "received_hello realloc o1 =
     (let fail = (o1, [SC_Handler EVENT_ERROR]); ver = sc_bytes o1 ! 0; method = sc_bytes o1 ! 1 in
      if ver \<noteq> SOCKS_VERSION then fail
      else case find_auth method (sc_auth_info o1) of None \<Rightarrow> fail
        | Some auth_none \<Rightarrow> auth_finished realloc o1
        | Some (auth_password u p) \<Rightarrow>
            if length u = 0 \<or> length u > 255 \<or> length p = 0 \<or> length p > 255 then fail
            else
              let sz = bsize_fromsize (1 + 1 + length u + 1 + length p) in
              case reserve_buffer realloc sz o1 of None \<Rightarrow> fail
              | Some o2 \<Rightarrow>
                  let o3 = write_password u p o2
                  in (o3\<lparr>sc_state := STATE_SENDING_PASSWORD\<rparr>, [SC_Send (take (the sz) (sc_bytes o3))]))"

definition received_reply_header :: "BSocksClient \<Rightarrow> BSocksClient \<times> socks_call list" where
  "received_reply_header o1 =
     (let fail = (o1, [SC_Handler EVENT_ERROR]); ver = sc_bytes o1 ! 0; rep = sc_bytes o1 ! 1; atyp = sc_bytes o1 ! 3 in
      if ver \<noteq> SOCKS_VERSION then fail
      else if rep \<noteq> 0 then fail
      else if atyp = 1 then
        (let (o2, calls) = start_receive 4 6 o1 in (o2\<lparr>sc_state := STATE_RECEIVED_REPLY_HEADER\<rparr>, calls))
      else if atyp = 4 then
        (let (o2, calls) = start_receive 4 18 o1 in (o2\<lparr>sc_state := STATE_RECEIVED_REPLY_HEADER\<rparr>, calls))
      else fail)"

definition recv_handler_done :: "realloc_fun \<Rightarrow> int \<Rightarrow> BSocksClient \<Rightarrow> BSocksClient \<times> socks_call list" where
  "recv_handler_done realloc data_len o1 =
     (let o1 = o1\<lparr>sc_recv_len := sc_recv_len o1 + data_len\<rparr>; fail = (o1, [SC_Handler EVENT_ERROR]) in
      if sc_recv_len o1 < sc_recv_tot o1 then (o1, do_receive o1)
      else
        case sc_state o1 of
          STATE_SENT_HELLO \<Rightarrow> received_hello realloc o1
        | STATE_SENT_REQUEST \<Rightarrow> received_reply_header o1
        | STATE_SENT_PASSWORD \<Rightarrow>
            if sc_bytes o1 ! 0 \<noteq> 1 then fail
            else if sc_bytes o1 ! 1 \<noteq> 0 then fail
            else auth_finished realloc o1
        | STATE_RECEIVED_REPLY_HEADER \<Rightarrow>
            ((init_up_io (free_control_io (o1\<lparr>sc_buffer := None\<rparr>)))\<lparr>sc_state := STATE_UP\<rparr>, [SC_Handler EVENT_UP])
        | _ \<Rightarrow> (o1, []))"

definition send_handler_done :: "realloc_fun \<Rightarrow> BSocksClient \<Rightarrow> BSocksClient \<times> socks_call list" where
  "send_handler_done realloc o1 =
     (let fail = (o1, [SC_Handler EVENT_ERROR]);
          next_recv = (\<lambda>sz tot st.
            case reserve_buffer realloc sz o1 of None \<Rightarrow> fail
            | Some o2 \<Rightarrow> (let (o3, calls) = start_receive 0 tot o2 in (o3\<lparr>sc_state := st\<rparr>, calls)))
      in case sc_state o1 of
           STATE_SENDING_HELLO \<Rightarrow> next_recv (bsize_fromsize 2) 2 STATE_SENT_HELLO
         | STATE_SENDING_REQUEST \<Rightarrow>
             next_recv (bsize_add (bsize_fromsize 4) (bsize_max (bsize_fromsize 6) (bsize_fromsize 18))) 4 STATE_SENT_REQUEST
         | STATE_SENDING_PASSWORD \<Rightarrow> next_recv (bsize_fromsize 2) 2 STATE_SENT_PASSWORD
         | _ \<Rightarrow> (o1, []))"

definition BSocksClient_Init ::
  "bool \<Rightarrow> BSocksClient_auth_info list \<Rightarrow> BAddr \<Rightarrow> BSocksClient option" where
  "BSocksClient_Init connector_ok auth dest =
     (if \<not> connector_ok then None
      else Some \<lparr>sc_state = STATE_CONNECTING, sc_auth_info = auth, sc_dest_addr = dest, sc_buffer = None,
        sc_recv_dest = 0, sc_recv_len = 0, sc_recv_tot = 0, sc_has_con = False, sc_control_io = False,
        sc_up_io = False, sc_has_connector = True\<rparr>)"

definition BSocksClient_Free :: "BSocksClient \<Rightarrow> BSocksClient" where
  "BSocksClient_Free o1 =
     (let o1 = (if sc_state o1 \<noteq> STATE_CONNECTING then
                  (let o1 = (if sc_state o1 = STATE_UP then free_up_io o1 else free_control_io o1)
                   in o1\<lparr>sc_has_con := False\<rparr>)
                else o1)
      in o1\<lparr>sc_has_connector := False, sc_buffer := None\<rparr>)"

section \<open>The conversation\<close>

text \<open>The messages of RFC 1928 and RFC 1929 that the client is to send.\<close>

definition hello_msg :: "BSocksClient_auth_info list \<Rightarrow> byte list" where
  "hello_msg auth = [SOCKS_VERSION, of_nat (length auth)] @ map auth_type auth"

definition password_msg :: "byte list \<Rightarrow> byte list \<Rightarrow> byte list" where
  "password_msg u p = [1, of_nat (length u)] @ u @ [of_nat (length p)] @ p"

definition request_msg :: "BAddr \<Rightarrow> byte list" where
  "request_msg dest = [SOCKS_VERSION, 1, 0, socks_atyp dest] @ socks_addr dest"

text \<open>A completed authentication: what the server answered and what the client sent in between.\<close>

definition auth_phase :: "BSocksClient_auth_info list \<Rightarrow> byte list \<Rightarrow> byte list \<Rightarrow> bool" where
  "auth_phase auth r s \<longleftrightarrow>
     (r = [SOCKS_VERSION, 0] \<and> s = [] \<and> find_auth 0 auth = Some auth_none) \<or>
     (\<exists>u p. r = [SOCKS_VERSION, 2, 1, 0] \<and> s = password_msg u p \<and>
        find_auth 2 auth = Some (auth_password u p) \<and>
        u \<noteq> [] \<and> length u \<le> 255 \<and> p \<noteq> [] \<and> length p \<le> 255)"

definition reply_len :: "byte \<Rightarrow> nat" where
  "reply_len atyp = (if atyp = 1 then 6 else if atyp = 4 then 18 else 0)"

record socks_world =
  sw_sc :: BSocksClient
  sw_sending :: bool
  sw_recv :: "(nat \<times> int) option"
  sw_sent :: "byte list"
  sw_rcvd :: "byte list"
  sw_events :: "socks_event list"
  sw_violated :: bool

fun sw_apply :: "socks_call \<Rightarrow> socks_world \<Rightarrow> socks_world" where
  "sw_apply (SC_Send bs) w =
     w\<lparr>sw_sending := True, sw_sent := sw_sent w @ bs, sw_violated := (sw_violated w \<or> sw_sending w)\<rparr>"
| "sw_apply (SC_Recv off n) w =
     w\<lparr>sw_recv := Some (off, n),
       sw_violated := (sw_violated w \<or> sw_recv w \<noteq> None \<or> n \<le> 0 \<or> int off + n > int (length (sc_bytes (sw_sc w))))\<rparr>"
| "sw_apply (SC_Handler e) w = w\<lparr>sw_events := sw_events w @ [e]\<rparr>"

definition sw_run :: "BSocksClient \<times> socks_call list \<Rightarrow> socks_world \<Rightarrow> socks_world" where
  "sw_run r w = fold sw_apply (snd r) (w\<lparr>sw_sc := fst r\<rparr>)"

definition sw_alive :: "socks_world \<Rightarrow> bool" where
  "sw_alive w \<longleftrightarrow> EVENT_ERROR \<notin> set (sw_events w) \<and> EVENT_ERROR_CLOSED \<notin> set (sw_events w)"

definition sw_init :: "BSocksClient \<Rightarrow> socks_world" where
  "sw_init sc = \<lparr>sw_sc = sc, sw_sending = False, sw_recv = None, sw_sent = [], sw_rcvd = [],
     sw_events = [], sw_violated = False\<rparr>"

definition sw_write :: "nat \<Rightarrow> byte list \<Rightarrow> socks_world \<Rightarrow> socks_world" where
  "sw_write off bs w = w\<lparr>sw_sc := sc_memcpy off bs (sw_sc w), sw_recv := None, sw_rcvd := sw_rcvd w @ bs\<rparr>"

inductive sw_step :: "realloc_fun \<Rightarrow> socks_world \<Rightarrow> socks_world \<Rightarrow> bool" for realloc where
  sw_connect: "sw_alive w \<Longrightarrow> sc_state (sw_sc w) = STATE_CONNECTING \<Longrightarrow>
     sw_step realloc w (sw_run (connector_handler realloc con_ok is_error (sw_sc w)) w)"
| sw_send_done: "sw_alive w \<Longrightarrow> sw_sending w \<Longrightarrow>
     sw_step realloc w (sw_run (send_handler_done realloc (sw_sc w)) (w\<lparr>sw_sending := False\<rparr>))"
| sw_receive: "sw_alive w \<Longrightarrow> sw_recv w = Some (off, n) \<Longrightarrow> bs \<noteq> [] \<Longrightarrow> int (length bs) \<le> n \<Longrightarrow>
     sw_step realloc w (sw_run (recv_handler_done realloc (int (length bs)) (sc_memcpy off bs (sw_sc w)))
       (sw_write off bs w))"
| sw_conn_event: "sw_alive w \<Longrightarrow> sc_state (sw_sc w) \<noteq> STATE_CONNECTING \<Longrightarrow>
     sw_step realloc w (sw_run (connection_handler recvclosed (sw_sc w)) w)"

inductive sw_reach :: "realloc_fun \<Rightarrow> socks_world \<Rightarrow> socks_world \<Rightarrow> bool" for realloc w0 where
  sw_start: "sw_reach realloc w0 w0"
| sw_next: "sw_reach realloc w0 w \<Longrightarrow> sw_step realloc w w' \<Longrightarrow> sw_reach realloc w0 w'"

text \<open>The client is receiving \<open>tot\<close> bytes at \<open>dest\<close> and has got \<open>got\<close> of them.\<close>

definition receiving :: "socks_world \<Rightarrow> nat \<Rightarrow> nat \<Rightarrow> byte list \<Rightarrow> bool" where
  "receiving w dest tot got \<longleftrightarrow>
     (let sc = sw_sc w in
      sc_recv_dest sc = dest \<and> sc_recv_tot sc = int tot \<and> sc_recv_len sc = int (length got) \<and> length got < tot \<and>
      sw_recv w = Some (dest + length got, int tot - int (length got)) \<and> \<not> sw_sending w \<and>
      (\<exists>b. sc_buffer sc = Some b \<and> dest + tot \<le> length b \<and> sub_bytes dest (length got) b = got))"

definition sending :: "socks_world \<Rightarrow> bool" where
  "sending w \<longleftrightarrow> sw_sending w \<and> sw_recv w = None \<and> sc_buffer (sw_sc w) \<noteq> None"

definition state_ok :: "socks_world \<Rightarrow> bool" where
  "state_ok w \<longleftrightarrow>
     (let sc = sw_sc w; auth = sc_auth_info sc; hello = hello_msg auth; req = request_msg (sc_dest_addr sc) in
      case sc_state sc of
        STATE_CONNECTING \<Rightarrow> sw_sent w = [] \<and> sw_rcvd w = [] \<and> \<not> sw_sending w \<and> sw_recv w = None
      | STATE_SENDING_HELLO \<Rightarrow> sending w \<and> sw_sent w = hello \<and> sw_rcvd w = []
      | STATE_SENT_HELLO \<Rightarrow> (\<exists>got. receiving w 0 2 got \<and> sw_sent w = hello \<and> sw_rcvd w = got)
      | STATE_SENDING_PASSWORD \<Rightarrow> (\<exists>u p. sending w \<and> auth_phase auth [SOCKS_VERSION, 2, 1, 0] (password_msg u p) \<and>
          sw_sent w = hello @ password_msg u p \<and> sw_rcvd w = [SOCKS_VERSION, 2])
      | STATE_SENT_PASSWORD \<Rightarrow> (\<exists>u p got. receiving w 0 2 got \<and>
          auth_phase auth [SOCKS_VERSION, 2, 1, 0] (password_msg u p) \<and>
          sw_sent w = hello @ password_msg u p \<and> sw_rcvd w = [SOCKS_VERSION, 2] @ got)
      | STATE_SENDING_REQUEST \<Rightarrow> (\<exists>r s. sending w \<and> auth_phase auth r s \<and> sw_sent w = hello @ s @ req \<and> sw_rcvd w = r)
      | STATE_SENT_REQUEST \<Rightarrow> (\<exists>r s got. receiving w 0 4 got \<and> auth_phase auth r s \<and>
          sw_sent w = hello @ s @ req \<and> sw_rcvd w = r @ got \<and>
          (\<forall>b. sc_buffer sc = Some b \<longrightarrow> length b = 22))
      | STATE_RECEIVED_REPLY_HEADER \<Rightarrow> (\<exists>r s rsv atyp got. receiving w 4 (reply_len atyp) got \<and> atyp \<in> {1, 4} \<and>
          auth_phase auth r s \<and> sw_sent w = hello @ s @ req \<and>
          sw_rcvd w = r @ [SOCKS_VERSION, 0, rsv, atyp] @ got)
      | STATE_UP \<Rightarrow> (\<exists>r s rsv atyp addr. atyp \<in> {1, 4} \<and> length addr = reply_len atyp \<and> auth_phase auth r s \<and>
          sw_sent w = hello @ s @ req \<and> sw_rcvd w = r @ [SOCKS_VERSION, 0, rsv, atyp] @ addr \<and>
          \<not> sw_sending w \<and> sw_recv w = None))"

definition io_ok :: "BSocksClient \<Rightarrow> bool" where
  "io_ok sc \<longleftrightarrow>
     sc_has_con sc = (sc_state sc \<noteq> STATE_CONNECTING) \<and>
     sc_control_io sc = (sc_state sc \<noteq> STATE_CONNECTING \<and> sc_state sc \<noteq> STATE_UP) \<and>
     sc_up_io sc = (sc_state sc = STATE_UP)"

definition sw_inv :: "BSocksClient_auth_info list \<Rightarrow> BAddr \<Rightarrow> socks_world \<Rightarrow> bool" where
  "sw_inv auth dest w \<longleftrightarrow>
     sc_auth_info (sw_sc w) = auth \<and> sc_dest_addr (sw_sc w) = dest \<and> io_ok (sw_sc w) \<and> \<not> sw_violated w \<and>
     (sw_alive w \<longrightarrow> state_ok w \<and> sw_events w = (if sc_state (sw_sc w) = STATE_UP then [EVENT_UP] else [])) \<and>
     (EVENT_UP \<in> set (sw_events w) \<longrightarrow> sc_state (sw_sc w) = STATE_UP \<and> state_ok w)"

definition realloc_ok :: "realloc_fun \<Rightarrow> bool" where
  "realloc_ok realloc \<longleftrightarrow> (\<forall>b n m. realloc b n = Some m \<longrightarrow> length m = n)"

definition dest_ok :: "BAddr \<Rightarrow> bool" where
  "dest_ok dest \<longleftrightarrow> (case dest of BAddr_None \<Rightarrow> False | BAddr_IPv4 _ _ \<Rightarrow> True | BAddr_IPv6 ip _ \<Rightarrow> length ip = 16)"

section \<open>The messages in the buffer\<close>

lemma sc_memcpy_simps [simp]:
  "sc_buffer (sc_memcpy off src o1) = map_option (\<lambda>b. memcpy_at b off src) (sc_buffer o1)"
  "sc_state (sc_memcpy off src o1) = sc_state o1" "sc_auth_info (sc_memcpy off src o1) = sc_auth_info o1"
  "sc_dest_addr (sc_memcpy off src o1) = sc_dest_addr o1" "sc_recv_dest (sc_memcpy off src o1) = sc_recv_dest o1"
  "sc_recv_len (sc_memcpy off src o1) = sc_recv_len o1" "sc_recv_tot (sc_memcpy off src o1) = sc_recv_tot o1"
  "sc_has_con (sc_memcpy off src o1) = sc_has_con o1" "sc_control_io (sc_memcpy off src o1) = sc_control_io o1"
  "sc_up_io (sc_memcpy off src o1) = sc_up_io o1"
  by (simp_all add: sc_memcpy_def)

lemma write_methods_frame [simp]:
  "sc_state (write_methods i ais o1) = sc_state o1" "sc_auth_info (write_methods i ais o1) = sc_auth_info o1"
  "sc_dest_addr (write_methods i ais o1) = sc_dest_addr o1"
  "sc_has_con (write_methods i ais o1) = sc_has_con o1" "sc_control_io (write_methods i ais o1) = sc_control_io o1"
  "sc_up_io (write_methods i ais o1) = sc_up_io o1"
  by (induction ais arbitrary: i o1) simp_all

lemma write_methods_buffer:
  assumes "sc_buffer o1 = Some (memcpy_at b 0 hd1)" "length hd1 = 2 + i" "2 + i + length ais \<le> length b"
  shows "sc_buffer (write_methods i ais o1) = Some (memcpy_at b 0 (hd1 @ map auth_type ais))"
  using assms
proof (induction ais arbitrary: i o1 hd1)
  case (Cons ai ais)
  have "sc_buffer (sc_memcpy (2 + i) [auth_type ai] o1) = Some (memcpy_at b 0 (hd1 @ [auth_type ai]))"
    using Cons.prems by (simp add: memcpy_append)
  from Cons.IH [OF this, of "i + 1"] show ?case using Cons.prems by simp
qed simp

lemma hello_written:
  assumes "sc_buffer o1 = Some b" "length b = 2 + length ais"
  shows "sc_buffer (write_methods 0 ais (sc_memcpy 0 (hello_header (length ais)) o1)) = Some (hello_msg ais)"
proof -
  let ?h = "hello_header (length ais)"
  have h: "length ?h = 2" by (simp add: hello_header_def)
  have "sc_buffer (write_methods 0 ais (sc_memcpy 0 ?h o1)) = Some (memcpy_at b 0 (?h @ map auth_type ais))"
    using assms h by (intro write_methods_buffer) simp_all
  then show ?thesis using assms h by (simp add: memcpy_whole hello_msg_def hello_header_def)
qed

lemma password_written:
  assumes "sc_buffer o1 = Some b" "length b = 1 + 1 + length u + 1 + length p"
  shows "sc_buffer (write_password u p o1) = Some (password_msg u p)"
proof -
  have "memcpy_at (memcpy_at (memcpy_at (memcpy_at (memcpy_at b 0 [1]) 1 [of_nat (length u)]) 2 u)
      (2 + length u) [of_nat (length p)]) (3 + length u) p = memcpy_at b 0 (password_msg u p)"
    using assms(2) by (simp add: memcpy_append password_msg_def)
  then show ?thesis using assms by (simp add: write_password_def memcpy_whole password_msg_def)
qed

lemma length_socks_addr: "dest_ok d \<Longrightarrow> length (socks_addr d) = socks_addr_size d"
  by (cases d) (simp_all add: dest_ok_def)

lemma request_written:
  assumes "length b = 4 + length a" "length h = 4"
  shows "memcpy_at (memcpy_at b 4 a) 0 h = h @ a"
  using assms by (simp add: memcpy_at_def)

lemma reserve_buffer_cases:
  assumes "realloc_ok realloc" "reserve_buffer realloc (Some n) o1 = Some o2"
  obtains b where "o2 = o1\<lparr>sc_buffer := Some b\<rparr>" "length b = n"
  using assms by (auto simp: reserve_buffer_def realloc_ok_def split: option.splits)

section \<open>Invariant\<close>

lemma sw_run_simps [simp]:
  "sw_run (o1, []) w = w\<lparr>sw_sc := o1\<rparr>"
  "sw_run (o1, [SC_Handler e]) w = w\<lparr>sw_sc := o1, sw_events := sw_events w @ [e]\<rparr>"
  "sw_run (o1, [SC_Send bs]) w =
     w\<lparr>sw_sc := o1, sw_sending := True, sw_sent := sw_sent w @ bs, sw_violated := (sw_violated w \<or> sw_sending w)\<rparr>"
  "sw_run (o1, [SC_Recv off n]) w =
     w\<lparr>sw_sc := o1, sw_recv := Some (off, n), sw_violated :=
       (sw_violated w \<or> sw_recv w \<noteq> None \<or> n \<le> 0 \<or> int off + n > int (length (sc_bytes o1)))\<rparr>"
  by (simp_all add: sw_run_def)

text \<open>Reporting an error ends the life of the client in every state but the one after success.\<close>

lemma error_inv:
  assumes inv: "sw_inv auth dest w" and a: "sw_alive w" and n: "sc_state (sw_sc w) \<noteq> STATE_UP"
    and o1: "sc_auth_info o1 = auth" "sc_dest_addr o1 = dest" "io_ok o1" and e: "e \<noteq> EVENT_UP"
    and w': "sw_events w' = sw_events w" "sw_violated w' = sw_violated w"
  shows "sw_inv auth dest (w'\<lparr>sw_sc := o1, sw_events := sw_events w' @ [e]\<rparr>)"
  using assms by (cases e) (auto simp: sw_inv_def sw_alive_def)

lemma io_ok_keep:
  "io_ok (o1\<lparr>sc_buffer := b\<rparr>) = io_ok o1" "io_ok (o1\<lparr>sc_recv_len := n\<rparr>) = io_ok o1"
  "io_ok (sc_memcpy off bs o1) = io_ok o1"
  by (simp_all add: io_ok_def)

lemma connect_inv:
  assumes r: "realloc_ok realloc" and inv: "sw_inv auth dest w" and a: "sw_alive w"
    and st: "sc_state (sw_sc w) = STATE_CONNECTING"
  shows "sw_inv auth dest (sw_run (connector_handler realloc con_ok is_error (sw_sc w)) w)"
proof -
  let ?sc = "sw_sc w" and ?n = "length auth"
  have w: "sc_auth_info ?sc = auth" "sc_dest_addr ?sc = dest" "io_ok ?sc" "\<not> sw_violated w" "sw_events w = []"
    "sw_sent w = []" "sw_rcvd w = []" "\<not> sw_sending w" "sw_recv w = None"
    using inv a st by (auto simp: sw_inv_def state_ok_def Let_def)
  let ?o2 = "init_control_io (?sc\<lparr>sc_has_con := True\<rparr>)"
  have e1: "sw_inv auth dest (w\<lparr>sw_sc := ?sc, sw_events := sw_events w @ [EVENT_ERROR]\<rparr>)"
    by (rule error_inv [OF inv a]) (use w st in simp_all)
  have e2: "sw_inv auth dest (w\<lparr>sw_sc := (free_control_io ?o2)\<lparr>sc_has_con := False\<rparr>,
      sw_events := sw_events w @ [EVENT_ERROR]\<rparr>)"
    using w st by (intro error_inv [OF inv a])
      (simp_all add: free_control_io_def init_control_io_def io_ok_def)
  show ?thesis
  proof (cases "is_error \<or> \<not> con_ok \<or> ?n = 0 \<or> ?n > 255")
    case True
    then show ?thesis using e1 e2 w(1) by (auto simp: connector_handler_def Let_def)
  next
    case False
    then have n: "?n \<le> 255" by simp
    have sz: "bsize_add (bsize_fromsize 2) (bsize_mul (bsize_fromsize ?n) (bsize_fromsize 1)) = Some (2 + ?n)"
      using n by simp
    show ?thesis
    proof (cases "reserve_buffer realloc (Some (2 + ?n)) ?o2")
      case None
      then show ?thesis using False e2 w(1) sz by (simp add: connector_handler_def Let_def)
    next
      case (Some o3)
      obtain b where o3: "o3 = ?o2\<lparr>sc_buffer := Some b\<rparr>" and lb: "length b = 2 + ?n"
        by (rule reserve_buffer_cases [OF r Some])
      let ?o4 = "write_methods 0 auth (sc_memcpy 0 (hello_header ?n) o3)"
      have buf: "sc_buffer ?o4 = Some (hello_msg auth)"
        using hello_written [of o3 b auth] lb by (simp add: o3)
      have ai: "sc_auth_info o3 = auth" using w(1) by (simp add: o3 init_control_io_def)
      have eq: "connector_handler realloc con_ok is_error ?sc =
          (?o4\<lparr>sc_state := STATE_SENDING_HELLO\<rparr>, [SC_Send (hello_msg auth)])"
        using False Some sz w(1) ai buf n
        by (simp add: connector_handler_def Let_def sc_bytes_def hello_msg_def)
      have "io_ok (?o4\<lparr>sc_state := STATE_SENDING_HELLO\<rparr>)"
        using w(3) st by (simp add: io_ok_def o3 init_control_io_def)
      then show ?thesis
        unfolding eq using w buf ai
        by (simp add: sw_inv_def sw_alive_def state_ok_def Let_def sending_def o3 init_control_io_def)
    qed
  qed
qed

lemma start_receiving:
  assumes "sc_buffer o1 = Some b" "dest + tot \<le> length b" "0 < tot" "\<not> sw_violated w" "sw_recv w = None" "\<not> sw_sending w"
    and o2: "(o2, calls) = start_receive dest (int tot) o1"
  shows "receiving (sw_run (o2\<lparr>sc_state := st\<rparr>, calls) w) dest tot []"
    and "\<not> sw_violated (sw_run (o2\<lparr>sc_state := st\<rparr>, calls) w)"
  using assms by (simp_all add: start_receive_def do_receive_def Let_def receiving_def sc_bytes_def sub_bytes_def)

lemma receiving_not_sending: "receiving w d t g \<Longrightarrow> \<not> sw_sending w"
  by (simp add: receiving_def Let_def)

lemma sending_states:
  assumes "state_ok w" "sw_sending w"
  shows "sc_state (sw_sc w) \<in> {STATE_SENDING_HELLO, STATE_SENDING_REQUEST, STATE_SENDING_PASSWORD}" and "sending w"
  using assms unfolding state_ok_def Let_def
  by (cases "sc_state (sw_sc w)"; force dest: receiving_not_sending)+

lemma send_done_inv:
  assumes r: "realloc_ok realloc" and inv: "sw_inv auth dest w" and a: "sw_alive w" and s: "sw_sending w"
  shows "sw_inv auth dest (sw_run (send_handler_done realloc (sw_sc w)) (w\<lparr>sw_sending := False\<rparr>))"
proof -
  let ?sc = "sw_sc w" and ?w = "w\<lparr>sw_sending := False\<rparr>"
  have w: "sc_auth_info ?sc = auth" "sc_dest_addr ?sc = dest" "io_ok ?sc" "\<not> sw_violated w" "state_ok w"
    using inv a by (auto simp: sw_inv_def)
  have st: "sc_state ?sc \<in> {STATE_SENDING_HELLO, STATE_SENDING_REQUEST, STATE_SENDING_PASSWORD}"
    and sn: "sending w" using sending_states [OF w(5) s] by simp_all
  have up: "sc_state ?sc \<noteq> STATE_UP" using st by auto
  have ev: "sw_events w = []" using inv a up unfolding sw_inv_def by simp
  have rc: "sw_recv w = None" using sn by (simp add: sending_def)
  have err: "sw_inv auth dest (?w\<lparr>sw_sc := ?sc, sw_events := sw_events ?w @ [EVENT_ERROR]\<rparr>)"
    by (rule error_inv [OF inv a up w(1-3)]) simp_all
  have step: "sw_inv auth dest
      (sw_run (case reserve_buffer realloc (Some n) ?sc of None \<Rightarrow> (?sc, [SC_Handler EVENT_ERROR])
         | Some o2 \<Rightarrow> (let (o3, calls) = start_receive 0 (int tot) o2 in (o3\<lparr>sc_state := st'\<rparr>, calls))) ?w)"
    if nt: "0 < tot" "tot \<le> n" and st': "st' \<notin> {STATE_CONNECTING, STATE_UP}"
      and ok: "\<And>w'. receiving w' 0 tot [] \<Longrightarrow> sc_state (sw_sc w') = st' \<Longrightarrow> sc_auth_info (sw_sc w') = auth \<Longrightarrow>
        sc_dest_addr (sw_sc w') = dest \<Longrightarrow> sw_sent w' = sw_sent w \<Longrightarrow> sw_rcvd w' = sw_rcvd w \<Longrightarrow>
        length (the (sc_buffer (sw_sc w'))) = n \<Longrightarrow> state_ok w'" for n tot st'
  proof (cases "reserve_buffer realloc (Some n) ?sc")
    case None
    then show ?thesis using err by simp
  next
    case (Some o2)
    obtain b where o2: "o2 = ?sc\<lparr>sc_buffer := Some b\<rparr>" and lb: "length b = n"
      by (rule reserve_buffer_cases [OF r Some])
    obtain o3 calls where o3: "(o3, calls) = start_receive 0 (int tot) o2" by (metis surj_pair)
    let ?w' = "sw_run (o3\<lparr>sc_state := st'\<rparr>, calls) ?w"
    have rec: "receiving ?w' 0 tot []" "\<not> sw_violated ?w'"
      using start_receiving [OF _ _ nt(1) _ _ _ o3, of b ?w st'] o2 lb nt(2) w(4) rc by simp_all
    have fr: "sw_sc ?w' = o3\<lparr>sc_state := st'\<rparr>" "sw_sent ?w' = sw_sent w" "sw_rcvd ?w' = sw_rcvd w" "sw_events ?w' = []"
      using o3 ev by (simp_all add: start_receive_def do_receive_def Let_def)
    have o3f: "sc_auth_info o3 = auth" "sc_dest_addr o3 = dest" "sc_buffer o3 = Some b"
      "sc_has_con o3 = sc_has_con ?sc" "sc_control_io o3 = sc_control_io ?sc" "sc_up_io o3 = sc_up_io ?sc"
      using o3 w(1,2) by (simp_all add: start_receive_def o2 Let_def)
    have "state_ok ?w'" by (rule ok [OF rec(1)]) (simp_all add: fr o3f lb)
    moreover have "io_ok (o3\<lparr>sc_state := st'\<rparr>)" using w(3) st st' o3f by (auto simp: io_ok_def)
    ultimately have "sw_inv auth dest ?w'" using rec(2) st' by (simp add: sw_inv_def fr o3f)
    then show ?thesis using Some o3 [symmetric] by simp
  qed
  consider (hello) "sc_state ?sc = STATE_SENDING_HELLO" | (req) "sc_state ?sc = STATE_SENDING_REQUEST"
    | (pw) "sc_state ?sc = STATE_SENDING_PASSWORD" using st by auto
  then show ?thesis
  proof cases
    case hello
    have "sw_sent w = hello_msg auth" "sw_rcvd w = []" using w hello by (simp_all add: state_ok_def Let_def)
    with step [of 2 2 STATE_SENT_HELLO, unfolded of_nat_numeral] show ?thesis
      using hello by (simp add: send_handler_done_def Let_def state_ok_def)
  next
    case req
    obtain r1 s1 where "auth_phase auth r1 s1" "sw_sent w = hello_msg auth @ s1 @ request_msg dest" "sw_rcvd w = r1"
      using w req by (auto simp: state_ok_def Let_def)
    with step [of 4 22 STATE_SENT_REQUEST, unfolded of_nat_numeral] show ?thesis
      using req by (simp add: send_handler_done_def Let_def state_ok_def) (metis append_Nil2 option.sel)
  next
    case pw
    obtain u p where "auth_phase auth [SOCKS_VERSION, 2, 1, 0] (password_msg u p)"
      "sw_sent w = hello_msg auth @ password_msg u p" "sw_rcvd w = [SOCKS_VERSION, 2]"
      using w pw by (auto simp: state_ok_def Let_def)
    with step [of 2 2 STATE_SENT_PASSWORD, unfolded of_nat_numeral] show ?thesis
      using pw by (simp add: send_handler_done_def Let_def state_ok_def) (metis)
  qed
qed

text \<open>One more chunk: either the client goes on receiving or it has all it asked for.\<close>

definition got_chunk :: "nat \<Rightarrow> byte list \<Rightarrow> BSocksClient \<Rightarrow> BSocksClient" where
  "got_chunk off bs sc = (sc_memcpy off bs sc)\<lparr>sc_recv_len := sc_recv_len sc + int (length bs)\<rparr>"

lemma receive_chunk:
  assumes rec: "receiving w dest tot got" and r: "sw_recv w = Some (off, n)" and bs: "int (length bs) \<le> n"
  defines "sc \<equiv> got_chunk off bs (sw_sc w)"
  shows "off = dest + length got" "length (got @ bs) \<le> tot"
    and "\<exists>b. sc_buffer sc = Some b \<and> length b = length (the (sc_buffer (sw_sc w))) \<and>
          dest + tot \<le> length b \<and> sub_bytes dest (length (got @ bs)) b = got @ bs \<and>
          (\<forall>k \<le> dest. take k b = take k (the (sc_buffer (sw_sc w))))"
    and "sc_recv_len sc = int (length (got @ bs))" "sc_recv_tot sc = int tot"
    and "length (got @ bs) < tot \<Longrightarrow>
      receiving (sw_run (sc, do_receive sc) (sw_write off bs w)) dest tot (got @ bs) \<and>
      sw_violated (sw_run (sc, do_receive sc) (sw_write off bs w)) = sw_violated w"
proof -
  obtain b where b: "sc_buffer (sw_sc w) = Some b" "dest + tot \<le> length b" "sub_bytes dest (length got) b = got"
    and f: "sc_recv_dest (sw_sc w) = dest" "sc_recv_tot (sw_sc w) = int tot" "sc_recv_len (sw_sc w) = int (length got)"
      "sw_recv w = Some (dest + length got, int tot - int (length got))" "\<not> sw_sending w" "length got < tot"
    using rec by (auto simp: receiving_def Let_def)
  show off: "off = dest + length got" and le: "length (got @ bs) \<le> tot" using f r bs by auto
  let ?b = "memcpy_at b off bs"
  have room: "off + length bs \<le> length b" using off le b(2) by simp
  have sub: "sub_bytes dest (length (got @ bs)) ?b = got @ bs"
    using b(3) room off sub_bytes_memcpy_before [of dest "length got" off bs b] sub_bytes_memcpy_same [of off bs b "length bs"]
    by (simp add: sub_bytes_add)
  have lb: "length ?b = length b" using room by (rule length_memcpy_at)
  have buf: "sc_buffer sc = Some ?b" using b(1) by (simp add: sc_def got_chunk_def)
  have tk: "take k ?b = take k b" if "k \<le> dest" for k
    using that off room by (simp add: memcpy_at_def)
  show "\<exists>b. sc_buffer sc = Some b \<and> length b = length (the (sc_buffer (sw_sc w))) \<and>
          dest + tot \<le> length b \<and> sub_bytes dest (length (got @ bs)) b = got @ bs \<and>
          (\<forall>k \<le> dest. take k b = take k (the (sc_buffer (sw_sc w))))"
    using buf lb b sub tk by auto
  show rl: "sc_recv_len sc = int (length (got @ bs))" and rt: "sc_recv_tot sc = int tot"
    using f by (simp_all add: sc_def got_chunk_def)
  have rd: "sc_recv_dest sc = dest" using f by (simp add: sc_def got_chunk_def)
  assume lt: "length (got @ bs) < tot"
  show "receiving (sw_run (sc, do_receive sc) (sw_write off bs w)) dest tot (got @ bs) \<and>
      sw_violated (sw_run (sc, do_receive sc) (sw_write off bs w)) = sw_violated w"
    using lt f(5) buf lb b(2) sub rl rt rd
    by (simp add: do_receive_def receiving_def Let_def sw_write_def sc_bytes_def)
qed

lemma got_chunk_frame [simp]:
  "sc_state (got_chunk off bs sc) = sc_state sc" "sc_auth_info (got_chunk off bs sc) = sc_auth_info sc"
  "sc_dest_addr (got_chunk off bs sc) = sc_dest_addr sc" "io_ok (got_chunk off bs sc) = io_ok sc"
  by (simp_all add: got_chunk_def io_ok_def)

lemma recv_handler_eq:
  "recv_handler_done realloc (int (length bs)) (sc_memcpy off bs sc) =
     (let o1 = got_chunk off bs sc; fail = (o1, [SC_Handler EVENT_ERROR]) in
      if sc_recv_len o1 < sc_recv_tot o1 then (o1, do_receive o1)
      else
        case sc_state o1 of
          STATE_SENT_HELLO \<Rightarrow> received_hello realloc o1
        | STATE_SENT_REQUEST \<Rightarrow> received_reply_header o1
        | STATE_SENT_PASSWORD \<Rightarrow>
            if sc_bytes o1 ! 0 \<noteq> 1 then fail
            else if sc_bytes o1 ! 1 \<noteq> 0 then fail
            else auth_finished realloc o1
        | STATE_RECEIVED_REPLY_HEADER \<Rightarrow>
            ((init_up_io (free_control_io (o1\<lparr>sc_buffer := None\<rparr>)))\<lparr>sc_state := STATE_UP\<rparr>, [SC_Handler EVENT_UP])
        | _ \<Rightarrow> (o1, []))"
  unfolding recv_handler_done_def got_chunk_def by simp

text \<open>The request is sent once the authentication is complete.\<close>

lemma auth_finished_inv:
  assumes r: "realloc_ok realloc" and d: "dest_ok dest"
    and o1: "sc_auth_info o1 = auth" "sc_dest_addr o1 = dest" "io_ok o1" "sc_state o1 \<notin> {STATE_CONNECTING, STATE_UP}"
    and w: "\<not> sw_violated w" "sw_events w = []" "sw_recv w = None" "\<not> sw_sending w"
    and ph: "auth_phase auth (sw_rcvd w) s" "sw_sent w = hello_msg auth @ s"
  shows "sw_inv auth dest (sw_run (auth_finished realloc o1) w)"
proof -
  let ?n = "socks_addr_size dest"
  have n: "?n \<le> 18" by (cases dest) simp_all
  have sz: "bsize_add (bsize_fromsize 4) (bsize_fromsize ?n) = Some (4 + ?n)" using n by simp
  show ?thesis
  proof (cases "reserve_buffer realloc (Some (4 + ?n)) o1")
    case None
    then show ?thesis
      using o1 w sz by (simp add: auth_finished_def Let_def sw_inv_def sw_alive_def)
  next
    case (Some o2)
    obtain b where o2: "o2 = o1\<lparr>sc_buffer := Some b\<rparr>" and lb: "length b = 4 + ?n"
      by (rule reserve_buffer_cases [OF r Some])
    let ?o4 = "sc_memcpy 0 [SOCKS_VERSION, 1, 0, socks_atyp dest] (sc_memcpy 4 (socks_addr dest) o2)"
    have buf: "sc_buffer ?o4 = Some (request_msg dest)"
      using request_written [of b "socks_addr dest" "[SOCKS_VERSION, 1, 0, socks_atyp dest]"] lb length_socks_addr [OF d]
      by (simp add: o2 request_msg_def)
    have len: "length (request_msg dest) = 4 + ?n" using length_socks_addr [OF d] by (simp add: request_msg_def)
    have eq: "auth_finished realloc o1 = (?o4\<lparr>sc_state := STATE_SENDING_REQUEST\<rparr>, [SC_Send (request_msg dest)])"
      using Some sz o1(2) buf len by (simp add: auth_finished_def Let_def sc_bytes_def o2)
    have "io_ok (?o4\<lparr>sc_state := STATE_SENDING_REQUEST\<rparr>)" using o1(3,4) by (simp add: io_ok_def o2)
    then show ?thesis
      unfolding eq using o1 w ph buf
      by (auto simp: sw_inv_def sw_alive_def state_ok_def Let_def sending_def o2)
  qed
qed

lemma find_auth_type: "find_auth m auth = Some ai \<Longrightarrow> auth_type ai = m"
  by (induction auth) (auto split: if_splits)

lemma received_hello_inv:
  assumes r: "realloc_ok realloc" and d: "dest_ok dest"
    and o1: "sc_auth_info o1 = auth" "sc_dest_addr o1 = dest" "io_ok o1" "sc_state o1 = STATE_SENT_HELLO"
    and w: "\<not> sw_violated w" "sw_events w = []" "sw_recv w = None" "\<not> sw_sending w"
    and rc: "sw_rcvd w = [sc_bytes o1 ! 0, sc_bytes o1 ! 1]" "sw_sent w = hello_msg auth"
  shows "sw_inv auth dest (sw_run (received_hello realloc o1) w)"
proof -
  have fail: "sw_inv auth dest (sw_run (o1, [SC_Handler EVENT_ERROR]) w)"
    using o1 w by (simp add: sw_inv_def sw_alive_def)
  show ?thesis
  proof (cases "sc_bytes o1 ! 0 = SOCKS_VERSION")
    case False
    then show ?thesis using fail by (simp add: received_hello_def Let_def)
  next
    case ver: True
    show ?thesis
    proof (cases "find_auth (sc_bytes o1 ! 1) auth")
      case None
      then show ?thesis using fail o1(1) ver by (simp add: received_hello_def Let_def)
    next
      case (Some ai)
      have m: "auth_type ai = sc_bytes o1 ! 1" using find_auth_type [OF Some] .
      show ?thesis
      proof (cases ai)
        case auth_none
        then have "auth_phase auth (sw_rcvd w) []" using Some m rc(1) ver by (simp add: auth_phase_def)
        then have "sw_inv auth dest (sw_run (auth_finished realloc o1) w)"
          using rc(2) by (intro auth_finished_inv [OF r d o1(1-3) _ w]) (simp_all add: o1(4))
        then show ?thesis using Some auth_none o1(1) ver by (simp add: received_hello_def Let_def)
      next
        case (auth_password u p)
        let ?n = "1 + 1 + length u + 1 + length p"
        show ?thesis
        proof (cases "length u = 0 \<or> length u > 255 \<or> length p = 0 \<or> length p > 255")
          case True
          then show ?thesis using fail Some auth_password o1(1) ver by (auto simp: received_hello_def Let_def)
        next
          case lens: False
          show ?thesis
          proof (cases "reserve_buffer realloc (Some ?n) o1")
            case None
            then show ?thesis using fail Some auth_password o1(1) ver lens by (simp add: received_hello_def Let_def)
          next
            case sm: (Some o2)
            obtain b where o2: "o2 = o1\<lparr>sc_buffer := Some b\<rparr>" and lb: "length b = ?n"
              by (rule reserve_buffer_cases [OF r sm])
            have buf: "sc_buffer (write_password u p o2) = Some (password_msg u p)"
              using password_written [of o2 b u p] lb by (simp add: o2)
            have fr: "sc_auth_info (write_password u p o2) = auth" "sc_dest_addr (write_password u p o2) = dest"
              using o1 by (simp_all add: write_password_def o2)
            have eq: "received_hello realloc o1 =
                ((write_password u p o2)\<lparr>sc_state := STATE_SENDING_PASSWORD\<rparr>, [SC_Send (password_msg u p)])"
              using Some auth_password o1(1) ver lens sm buf
              by (simp add: received_hello_def Let_def sc_bytes_def password_msg_def)
            have ph: "auth_phase auth [SOCKS_VERSION, 2, 1, 0] (password_msg u p)"
              using Some auth_password m lens by (auto simp: auth_phase_def)
            have io: "io_ok ((write_password u p o2)\<lparr>sc_state := STATE_SENDING_PASSWORD\<rparr>)"
              using o1(3,4) by (simp add: io_ok_def o2 write_password_def)
            have "sw_rcvd w = [SOCKS_VERSION, 2]" using rc(1) ver m auth_password by simp
            then show ?thesis
              unfolding eq using fr buf ph io w rc(2)
              by (auto simp: sw_inv_def sw_alive_def state_ok_def Let_def sending_def)
          qed
        qed
      qed
    qed
  qed
qed

lemma reply_state_ok:
  assumes "sc_state (sw_sc w) = STATE_RECEIVED_REPLY_HEADER" "receiving w 4 (reply_len a) got" "a \<in> {1, 4}"
    "auth_phase (sc_auth_info (sw_sc w)) r s"
    "sw_sent w = hello_msg (sc_auth_info (sw_sc w)) @ s @ request_msg (sc_dest_addr (sw_sc w))"
    "sw_rcvd w = r @ [SOCKS_VERSION, 0, rsv, a] @ got"
  shows "state_ok w"
proof -
  have "\<exists>r s rsv atyp got. receiving w 4 (reply_len atyp) got \<and> atyp \<in> {1, 4} \<and>
      auth_phase (sc_auth_info (sw_sc w)) r s \<and>
      sw_sent w = hello_msg (sc_auth_info (sw_sc w)) @ s @ request_msg (sc_dest_addr (sw_sc w)) \<and>
      sw_rcvd w = r @ [SOCKS_VERSION, 0, rsv, atyp] @ got"
    using assms(2-6) by blast
  then show ?thesis using assms(1) unfolding state_ok_def Let_def by simp
qed

lemma received_reply_inv:
  assumes o1: "sc_auth_info o1 = auth" "sc_dest_addr o1 = dest" "io_ok o1" "sc_state o1 = STATE_SENT_REQUEST"
    and b: "sc_buffer o1 = Some b" "length b = 22"
    and w: "\<not> sw_violated w" "sw_events w = []" "sw_recv w = None" "\<not> sw_sending w"
    and ph: "auth_phase auth r s" "sw_sent w = hello_msg auth @ s @ request_msg dest" "sw_rcvd w = r @ take 4 b"
  shows "sw_inv auth dest (sw_run (received_reply_header o1) w)"
proof -
  have fail: "sw_inv auth dest (sw_run (o1, [SC_Handler EVENT_ERROR]) w)"
    using o1 w by (simp add: sw_inv_def sw_alive_def)
  have by_: "sc_bytes o1 = b" using b by (simp add: sc_bytes_def)
  have tk: "take 4 b = [b ! 0, b ! 1, b ! 2, b ! 3]"
    using b(2) by (auto simp: list_eq_iff_nth_eq less_Suc_eq numeral_eq_Suc nth_Cons')
  have go: "sw_inv auth dest (sw_run (let (o2, calls) = start_receive 4 (int (reply_len a)) o1
      in (o2\<lparr>sc_state := STATE_RECEIVED_REPLY_HEADER\<rparr>, calls)) w)"
    if a: "a \<in> {1, 4}" "b ! 0 = SOCKS_VERSION" "b ! 1 = 0" "b ! 3 = a" for a
  proof -
    obtain o2 calls where o2: "(o2, calls) = start_receive 4 (int (reply_len a)) o1" by (metis surj_pair)
    let ?w = "sw_run (o2\<lparr>sc_state := STATE_RECEIVED_REPLY_HEADER\<rparr>, calls) w"
    have pos: "0 < reply_len a" "4 + reply_len a \<le> length b" using a(1) b(2) by (auto simp: reply_len_def)
    note rec = start_receiving [OF b(1) pos(2,1) w(1,3,4) o2, of STATE_RECEIVED_REPLY_HEADER]
    have fr: "sw_sc ?w = o2\<lparr>sc_state := STATE_RECEIVED_REPLY_HEADER\<rparr>" "sw_sent ?w = sw_sent w" "sw_rcvd ?w = sw_rcvd w"
      "sw_events ?w = []" "sc_auth_info o2 = auth" "sc_dest_addr o2 = dest"
      using o2 w(2) o1 by (simp_all add: start_receive_def do_receive_def Let_def)
    have io: "io_ok (o2\<lparr>sc_state := STATE_RECEIVED_REPLY_HEADER\<rparr>)"
      using o2 o1(3,4) by (simp add: start_receive_def io_ok_def Let_def)
    have rv: "sw_rcvd ?w = r @ [SOCKS_VERSION, 0, b ! 2, a] @ []" using ph(3) tk a fr(3) by simp
    have "state_ok ?w"
      using ph(1,2) fr by (intro reply_state_ok [OF _ rec(1) a(1) _ _ rv]) simp_all
    then have "sw_inv auth dest ?w" using rec(2) fr io by (simp add: sw_inv_def)
    then show ?thesis by (simp add: o2 [symmetric])
  qed
  show ?thesis
    using fail go [of 1] go [of 4] by (auto simp: received_reply_header_def Let_def by_ reply_len_def)
qed

lemma receiving_states:
  assumes "state_ok w" "sw_recv w = Some (off, n)"
  shows "sc_state (sw_sc w) \<in> {STATE_SENT_HELLO, STATE_SENT_PASSWORD, STATE_SENT_REQUEST, STATE_RECEIVED_REPLY_HEADER}"
    and "\<exists>dest tot got. receiving w dest tot got"
  using assms unfolding state_ok_def Let_def sending_def
  by (cases "sc_state (sw_sc w)"; auto)+

text \<open>The facts about the state that survive a chunk that does not complete what is awaited.\<close>

lemma state_ok_more:
  assumes ok: "state_ok w" and r: "sw_recv w = Some (off, n)" and bs: "int (length bs) \<le> n"
    and lt: "sc_recv_len (got_chunk off bs (sw_sc w)) < sc_recv_tot (got_chunk off bs (sw_sc w))"
  shows "state_ok (sw_run (got_chunk off bs (sw_sc w), do_receive (got_chunk off bs (sw_sc w))) (sw_write off bs w))"
    and "sw_violated (sw_run (got_chunk off bs (sw_sc w), do_receive (got_chunk off bs (sw_sc w))) (sw_write off bs w)) =
      sw_violated w"
proof -
  let ?sc = "got_chunk off bs (sw_sc w)"
  let ?w = "sw_run (?sc, do_receive ?sc) (sw_write off bs w)"
  have fr: "sw_sc ?w = ?sc" "sw_sent ?w = sw_sent w" "sw_rcvd ?w = sw_rcvd w @ bs"
    by (simp_all add: do_receive_def sw_write_def)
  have more: "receiving ?w d t (g @ bs) \<and> sw_violated ?w = sw_violated w \<and>
      (\<forall>b. sc_buffer ?sc = Some b \<longrightarrow> length b = length (the (sc_buffer (sw_sc w))))" if rec: "receiving w d t g" for d t g
  proof -
    note c = receive_chunk [OF rec r bs]
    have "length (g @ bs) < t" using lt c(4,5) by simp
    then show ?thesis using c(3,6) by auto
  qed
  have bufs: "receiving w d t g \<Longrightarrow> \<exists>b. sc_buffer (sw_sc w) = Some b" for d t g
    by (auto simp: receiving_def Let_def)
  show "sw_violated ?w = sw_violated w" using more receiving_states(2) [OF ok r] by blast
  consider "sc_state (sw_sc w) = STATE_SENT_HELLO" | "sc_state (sw_sc w) = STATE_SENT_PASSWORD"
    | "sc_state (sw_sc w) = STATE_SENT_REQUEST" | "sc_state (sw_sc w) = STATE_RECEIVED_REPLY_HEADER"
    using receiving_states(1) [OF ok r] by auto
  then show "state_ok ?w"
  proof cases
    case 1
    then show ?thesis using ok more unfolding state_ok_def Let_def fr by (auto simp: fr)
  next
    case 2
    then obtain u p got where g: "receiving w 0 2 got" "auth_phase (sc_auth_info (sw_sc w)) [SOCKS_VERSION, 2, 1, 0] (password_msg u p)"
      "sw_sent w = hello_msg (sc_auth_info (sw_sc w)) @ password_msg u p" "sw_rcvd w = [SOCKS_VERSION, 2] @ got"
      using ok unfolding state_ok_def Let_def by auto
    have "\<exists>u p got. receiving ?w 0 2 got \<and> auth_phase (sc_auth_info ?sc) [SOCKS_VERSION, 2, 1, 0] (password_msg u p) \<and>
        sw_sent ?w = hello_msg (sc_auth_info ?sc) @ password_msg u p \<and> sw_rcvd ?w = [SOCKS_VERSION, 2] @ got"
      by (rule exI [of _ u], rule exI [of _ p], rule exI [of _ "got @ bs"]) (use more [OF g(1)] g(2-4) fr in simp)
    then show ?thesis using 2 unfolding state_ok_def Let_def fr(1) by simp
  next
    case 3
    then obtain r1 s1 got where g: "receiving w 0 4 got" "auth_phase (sc_auth_info (sw_sc w)) r1 s1"
      "sw_sent w = hello_msg (sc_auth_info (sw_sc w)) @ s1 @ request_msg (sc_dest_addr (sw_sc w))"
      "sw_rcvd w = r1 @ got" "\<forall>b. sc_buffer (sw_sc w) = Some b \<longrightarrow> length b = 22"
      using ok unfolding state_ok_def Let_def by auto
    have "\<forall>b. sc_buffer ?sc = Some b \<longrightarrow> length b = 22" using more [OF g(1)] bufs [OF g(1)] g(5) by fastforce
    then show ?thesis using 3 more [OF g(1)] g(2-4) unfolding state_ok_def Let_def fr by auto
  next
    case 4
    then obtain r1 s1 rsv atyp got where g: "receiving w 4 (reply_len atyp) got" "atyp \<in> {1, 4}"
      "auth_phase (sc_auth_info (sw_sc w)) r1 s1"
      "sw_sent w = hello_msg (sc_auth_info (sw_sc w)) @ s1 @ request_msg (sc_dest_addr (sw_sc w))"
      "sw_rcvd w = r1 @ [SOCKS_VERSION, 0, rsv, atyp] @ got"
      using ok unfolding state_ok_def Let_def by auto
    then have rv: "sw_rcvd ?w = r1 @ [SOCKS_VERSION, 0, rsv, atyp] @ (got @ bs)" by (simp add: fr)
    show ?thesis
      using 4 more [OF g(1)] g(3,4) fr by (intro reply_state_ok [OF _ _ g(2) _ _ rv]) simp_all
  qed
qed

lemma two_bytes:
  assumes "sub_bytes 0 2 b = g" "length g = 2"
  shows "g = [b ! 0, b ! 1]"
proof -
  have g: "g = take 2 b" using assms(1) by (simp add: sub_bytes_def)
  then have "2 \<le> length b" using assms(2) by simp
  then obtain x y b' where "b = x # y # b'" by (cases b; cases "tl b"; simp)
  then show ?thesis using g by simp
qed

lemma up_state_ok:
  assumes "sc_state (sw_sc w) = STATE_UP" "a \<in> {1, 4}" "length ad = reply_len a"
    "auth_phase (sc_auth_info (sw_sc w)) r s"
    "sw_sent w = hello_msg (sc_auth_info (sw_sc w)) @ s @ request_msg (sc_dest_addr (sw_sc w))"
    "sw_rcvd w = r @ [SOCKS_VERSION, 0, rsv, a] @ ad" "\<not> sw_sending w" "sw_recv w = None"
  shows "state_ok w"
proof -
  have "\<exists>r s rsv atyp addr. atyp \<in> {1, 4} \<and> length addr = reply_len atyp \<and>
      auth_phase (sc_auth_info (sw_sc w)) r s \<and>
      sw_sent w = hello_msg (sc_auth_info (sw_sc w)) @ s @ request_msg (sc_dest_addr (sw_sc w)) \<and>
      sw_rcvd w = r @ [SOCKS_VERSION, 0, rsv, atyp] @ addr \<and> \<not> sw_sending w \<and> sw_recv w = None"
    using assms(2-8) by blast
  then show ?thesis using assms(1) unfolding state_ok_def Let_def by simp
qed

text \<open>The bytes that complete a wait.\<close>

lemma chunk_completes:
  assumes rec: "receiving w d t g" and r: "sw_recv w = Some (off, n)" and bs: "int (length bs) \<le> n"
    and ge: "\<not> sc_recv_len (got_chunk off bs (sw_sc w)) < sc_recv_tot (got_chunk off bs (sw_sc w))"
  obtains b where "sc_buffer (got_chunk off bs (sw_sc w)) = Some b"
    "length b = length (the (sc_buffer (sw_sc w)))" "sub_bytes d t b = g @ bs" "length (g @ bs) = t"
proof -
  note c = receive_chunk [OF rec r bs]
  have "length (g @ bs) = t" using c(2,4,5) ge by linarith
  then show ?thesis using c(3) that by auto
qed

text \<open>What is known when a wait is complete, state by state.\<close>

lemma completed:
  assumes ok: "state_ok w" and r: "sw_recv w = Some (off, n)" and bs: "int (length bs) \<le> n"
    and ge: "\<not> sc_recv_len (got_chunk off bs (sw_sc w)) < sc_recv_tot (got_chunk off bs (sw_sc w))"
    and auth: "sc_auth_info (sw_sc w) = auth" "sc_dest_addr (sw_sc w) = dest"
  shows "sc_state (sw_sc w) = STATE_SENT_HELLO \<Longrightarrow>
      \<exists>b. sc_buffer (got_chunk off bs (sw_sc w)) = Some b \<and> sw_rcvd w @ bs = [b ! 0, b ! 1] \<and> sw_sent w = hello_msg auth"
    and "sc_state (sw_sc w) = STATE_SENT_PASSWORD \<Longrightarrow>
      \<exists>u p b. sc_buffer (got_chunk off bs (sw_sc w)) = Some b \<and> sw_rcvd w @ bs = [SOCKS_VERSION, 2, b ! 0, b ! 1] \<and>
        auth_phase auth [SOCKS_VERSION, 2, 1, 0] (password_msg u p) \<and> sw_sent w = hello_msg auth @ password_msg u p"
    and "sc_state (sw_sc w) = STATE_SENT_REQUEST \<Longrightarrow>
      \<exists>r s b. sc_buffer (got_chunk off bs (sw_sc w)) = Some b \<and> length b = 22 \<and> sw_rcvd w @ bs = r @ take 4 b \<and>
        auth_phase auth r s \<and> sw_sent w = hello_msg auth @ s @ request_msg dest"
    and "sc_state (sw_sc w) = STATE_RECEIVED_REPLY_HEADER \<Longrightarrow>
      \<exists>r s rsv atyp addr. atyp \<in> {1, 4} \<and> length addr = reply_len atyp \<and> auth_phase auth r s \<and>
        sw_sent w = hello_msg auth @ s @ request_msg dest \<and> sw_rcvd w @ bs = r @ [SOCKS_VERSION, 0, rsv, atyp] @ addr"
proof -
  let ?o1 = "got_chunk off bs (sw_sc w)"
  note fin = chunk_completes [OF _ r bs ge]
  {
    assume "sc_state (sw_sc w) = STATE_SENT_HELLO"
    then have "\<exists>got. receiving w 0 2 got \<and> sw_sent w = hello_msg auth \<and> sw_rcvd w = got"
      using ok auth unfolding state_ok_def Let_def by simp
    then obtain g where g: "receiving w 0 2 g" "sw_sent w = hello_msg auth" "sw_rcvd w = g" by blast
    obtain b where b: "sc_buffer ?o1 = Some b" "sub_bytes 0 2 b = g @ bs" "length (g @ bs) = 2"
      using fin [OF g(1)] by metis
    then show "\<exists>b. sc_buffer ?o1 = Some b \<and> sw_rcvd w @ bs = [b ! 0, b ! 1] \<and> sw_sent w = hello_msg auth"
      using two_bytes [OF b(2,3)] g(2,3) by blast
  next
    assume "sc_state (sw_sc w) = STATE_SENT_PASSWORD"
    then have "\<exists>u p got. receiving w 0 2 got \<and> auth_phase auth [SOCKS_VERSION, 2, 1, 0] (password_msg u p) \<and>
        sw_sent w = hello_msg auth @ password_msg u p \<and> sw_rcvd w = [SOCKS_VERSION, 2] @ got"
      using ok auth unfolding state_ok_def Let_def by simp
    then obtain u p g where g: "receiving w 0 2 g" "auth_phase auth [SOCKS_VERSION, 2, 1, 0] (password_msg u p)"
      "sw_sent w = hello_msg auth @ password_msg u p" "sw_rcvd w = [SOCKS_VERSION, 2] @ g" by blast
    obtain b where b: "sc_buffer ?o1 = Some b" "sub_bytes 0 2 b = g @ bs" "length (g @ bs) = 2"
      using fin [OF g(1)] by metis
    have "sw_rcvd w @ bs = [SOCKS_VERSION, 2, b ! 0, b ! 1]" using two_bytes [OF b(2,3)] g(4) by simp
    then show "\<exists>u p b. sc_buffer ?o1 = Some b \<and> sw_rcvd w @ bs = [SOCKS_VERSION, 2, b ! 0, b ! 1] \<and>
        auth_phase auth [SOCKS_VERSION, 2, 1, 0] (password_msg u p) \<and> sw_sent w = hello_msg auth @ password_msg u p"
      using b(1) g(2,3) by blast
  next
    assume "sc_state (sw_sc w) = STATE_SENT_REQUEST"
    then have "\<exists>r1 s got. receiving w 0 4 got \<and> auth_phase auth r1 s \<and> sw_sent w = hello_msg auth @ s @ request_msg dest \<and>
        sw_rcvd w = r1 @ got \<and> (\<forall>b. sc_buffer (sw_sc w) = Some b \<longrightarrow> length b = 22)"
      using ok auth unfolding state_ok_def Let_def by simp
    then obtain r1 s g where g: "receiving w 0 4 g" "auth_phase auth r1 s"
      "sw_sent w = hello_msg auth @ s @ request_msg dest" "sw_rcvd w = r1 @ g"
      "\<forall>b. sc_buffer (sw_sc w) = Some b \<longrightarrow> length b = 22" by blast
    obtain b where b: "sc_buffer ?o1 = Some b" "length b = length (the (sc_buffer (sw_sc w)))" "sub_bytes 0 4 b = g @ bs"
      using fin [OF g(1)] by metis
    have "sc_buffer (sw_sc w) \<noteq> None" using g(1) by (auto simp: receiving_def Let_def)
    then have "length b = 22" using b(2) g(5) by auto
    moreover have "sw_rcvd w @ bs = r1 @ take 4 b" using b(3) g(4) by (simp add: sub_bytes_def)
    ultimately show "\<exists>r s b. sc_buffer ?o1 = Some b \<and> length b = 22 \<and> sw_rcvd w @ bs = r @ take 4 b \<and>
        auth_phase auth r s \<and> sw_sent w = hello_msg auth @ s @ request_msg dest"
      using b(1) g(2,3) by blast
  next
    assume "sc_state (sw_sc w) = STATE_RECEIVED_REPLY_HEADER"
    then have "\<exists>r1 s rsv atyp got. receiving w 4 (reply_len atyp) got \<and> atyp \<in> {1, 4} \<and> auth_phase auth r1 s \<and>
        sw_sent w = hello_msg auth @ s @ request_msg dest \<and> sw_rcvd w = r1 @ [SOCKS_VERSION, 0, rsv, atyp] @ got"
      using ok auth unfolding state_ok_def Let_def by simp
    then obtain r1 s rsv atyp g where g: "receiving w 4 (reply_len atyp) g" "atyp \<in> {1, 4}" "auth_phase auth r1 s"
      "sw_sent w = hello_msg auth @ s @ request_msg dest" "sw_rcvd w = r1 @ [SOCKS_VERSION, 0, rsv, atyp] @ g" by blast
    have "length (g @ bs) = reply_len atyp" using fin [OF g(1)] by metis
    moreover have "sw_rcvd w @ bs = r1 @ [SOCKS_VERSION, 0, rsv, atyp] @ (g @ bs)" using g(5) by simp
    ultimately show "\<exists>r s rsv atyp addr. atyp \<in> {1, 4} \<and> length addr = reply_len atyp \<and> auth_phase auth r s \<and>
        sw_sent w = hello_msg auth @ s @ request_msg dest \<and> sw_rcvd w @ bs = r @ [SOCKS_VERSION, 0, rsv, atyp] @ addr"
      using g(2-4) by blast
  }
qed

lemma recv_inv:
  assumes ra: "realloc_ok realloc" and d: "dest_ok dest" and inv: "sw_inv auth dest w" and a: "sw_alive w"
    and r: "sw_recv w = Some (off, n)" and bs: "int (length bs) \<le> n"
  shows "sw_inv auth dest (sw_run (recv_handler_done realloc (int (length bs)) (sc_memcpy off bs (sw_sc w)))
      (sw_write off bs w))"
proof -
  let ?o1 = "got_chunk off bs (sw_sc w)" and ?w = "sw_write off bs w"
  have w: "sc_auth_info (sw_sc w) = auth" "sc_dest_addr (sw_sc w) = dest" "io_ok (sw_sc w)" "\<not> sw_violated w" "state_ok w"
    using inv a by (auto simp: sw_inv_def)
  have o1: "sc_auth_info ?o1 = auth" "sc_dest_addr ?o1 = dest" "io_ok ?o1" using w by simp_all
  have st: "sc_state ?o1 \<in> {STATE_SENT_HELLO, STATE_SENT_PASSWORD, STATE_SENT_REQUEST, STATE_RECEIVED_REPLY_HEADER}"
    using receiving_states(1) [OF w(5) r] by simp
  then have ns: "sc_state (sw_sc w) \<noteq> STATE_UP" by auto
  have ns': "\<not> sw_sending w" using receiving_states(2) [OF w(5) r] by (auto dest: receiving_not_sending)
  have ev: "sw_events w = []" using inv a ns unfolding sw_inv_def by simp
  have w': "\<not> sw_violated ?w" "sw_events ?w = []" "sw_recv ?w = None" "\<not> sw_sending ?w"
    "sw_rcvd ?w = sw_rcvd w @ bs" "sw_sent ?w = sw_sent w"
    using w(4) ev ns' by (simp_all add: sw_write_def)
  have fail: "sw_inv auth dest (sw_run (?o1, [SC_Handler EVENT_ERROR]) ?w)"
    using o1 w' by (simp add: sw_inv_def sw_alive_def)
  show ?thesis
  proof (cases "sc_recv_len ?o1 < sc_recv_tot ?o1")
    case lt: True
    note m = state_ok_more [OF w(5) r bs lt]
    have fr: "sw_sc (sw_run (?o1, do_receive ?o1) ?w) = ?o1" "sw_events (sw_run (?o1, do_receive ?o1) ?w) = []"
      using w' by (simp_all add: do_receive_def)
    have "sw_inv auth dest (sw_run (?o1, do_receive ?o1) ?w)"
      using m w(4) o1 ns unfolding sw_inv_def fr by simp
    then show ?thesis unfolding recv_handler_eq Let_def using lt by simp
  next
    case ge: False
    note comp = completed [OF w(5) r bs ge w(1,2)]
    consider (hello) "sc_state ?o1 = STATE_SENT_HELLO" | (pw) "sc_state ?o1 = STATE_SENT_PASSWORD"
      | (req) "sc_state ?o1 = STATE_SENT_REQUEST" | (reply) "sc_state ?o1 = STATE_RECEIVED_REPLY_HEADER"
      using st by auto
    then show ?thesis
    proof cases
      case hello
      obtain b where b: "sc_buffer ?o1 = Some b" "sw_rcvd w @ bs = [b ! 0, b ! 1]" "sw_sent w = hello_msg auth"
        using comp(1) hello by auto
      then have "sw_rcvd ?w = [sc_bytes ?o1 ! 0, sc_bytes ?o1 ! 1]" using w'(5) by (simp add: sc_bytes_def)
      then show ?thesis
        unfolding recv_handler_eq Let_def using ge hello b(3) w'(6)
          received_hello_inv [OF ra d o1 hello w'(1-4)] by simp
    next
      case pw
      obtain u p b where b: "sc_buffer ?o1 = Some b" "sw_rcvd w @ bs = [SOCKS_VERSION, 2, b ! 0, b ! 1]"
        "auth_phase auth [SOCKS_VERSION, 2, 1, 0] (password_msg u p)" "sw_sent w = hello_msg auth @ password_msg u p"
        using comp(2) pw by auto
      have by_: "sc_bytes ?o1 = b" using b(1) by (simp add: sc_bytes_def)
      have "sw_inv auth dest (sw_run (auth_finished realloc ?o1) ?w)" if "b ! 0 = 1" "b ! 1 = 0"
        using that b pw w' by (intro auth_finished_inv [OF ra d o1 _ w'(1-4), of "password_msg u p"]) simp_all
      then show ?thesis unfolding recv_handler_eq Let_def using ge pw fail by (simp add: by_)
    next
      case req
      obtain r1 s b where b: "sc_buffer ?o1 = Some b" "length b = 22" "sw_rcvd w @ bs = r1 @ take 4 b"
        "auth_phase auth r1 s" "sw_sent w = hello_msg auth @ s @ request_msg dest"
        using comp(3) req by auto
      then show ?thesis
        unfolding recv_handler_eq Let_def using ge req w'(5,6)
          received_reply_inv [OF o1 req b(1,2) w'(1-4) b(4)] by simp
    next
      case reply
      then have "\<exists>r1 s rsv atyp addr. atyp \<in> {1, 4} \<and> length addr = reply_len atyp \<and> auth_phase auth r1 s \<and>
          sw_sent w = hello_msg auth @ s @ request_msg dest \<and> sw_rcvd w @ bs = r1 @ [SOCKS_VERSION, 0, rsv, atyp] @ addr"
        using comp(4) by simp
      then obtain r1 s rsv atyp ad where g: "atyp \<in> {1, 4}" "length ad = reply_len atyp" "auth_phase auth r1 s"
        "sw_sent w = hello_msg auth @ s @ request_msg dest" "sw_rcvd w @ bs = r1 @ [SOCKS_VERSION, 0, rsv, atyp] @ ad"
        by blast
      let ?up = "(init_up_io (free_control_io (?o1\<lparr>sc_buffer := None\<rparr>)))\<lparr>sc_state := STATE_UP\<rparr>"
      let ?u = "sw_run (?up, [SC_Handler EVENT_UP]) ?w"
      have fr: "sc_auth_info ?up = auth" "sc_dest_addr ?up = dest" "io_ok ?up"
        using o1 reply by (simp_all add: init_up_io_def free_control_io_def io_ok_def)
      have rv: "sw_rcvd ?u = r1 @ [SOCKS_VERSION, 0, rsv, atyp] @ ad" using w'(5) g(5) by simp
      have "state_ok ?u" using g(3,4) fr w' by (intro up_state_ok [OF _ g(1,2) _ _ rv]) simp_all
      then have "sw_inv auth dest ?u" using fr w' by (simp add: sw_inv_def)
      then show ?thesis unfolding recv_handler_eq Let_def using ge reply by simp
    qed
  qed
qed

lemma state_ok_events: "state_ok (w\<lparr>sw_sc := sw_sc w, sw_events := e\<rparr>) = state_ok w"
  by (simp add: state_ok_def Let_def receiving_def sending_def cong: socks_state.case_cong)

lemma conn_event_inv:
  assumes inv: "sw_inv auth dest w" and a: "sw_alive w"
  shows "sw_inv auth dest (sw_run (connection_handler recvclosed (sw_sc w)) w)"
proof (cases "sc_state (sw_sc w) = STATE_UP")
  case False
  have "sw_inv auth dest (w\<lparr>sw_sc := sw_sc w, sw_events := sw_events w @ [EVENT_ERROR]\<rparr>)"
    using inv by (intro error_inv [OF inv a False]) (simp_all add: sw_inv_def)
  then show ?thesis using False by (simp add: connection_handler_def)
next
  case True
  have w: "sc_auth_info (sw_sc w) = auth" "sc_dest_addr (sw_sc w) = dest" "io_ok (sw_sc w)" "\<not> sw_violated w"
    "state_ok w" using inv a by (simp_all add: sw_inv_def)
  have "sw_inv auth dest (w\<lparr>sw_sc := sw_sc w, sw_events := sw_events w @ [e]\<rparr>)"
    if e: "e \<in> {EVENT_ERROR, EVENT_ERROR_CLOSED}" for e
    unfolding sw_inv_def state_ok_events using w True e by (auto simp: sw_alive_def)
  then show ?thesis using True by (simp add: connection_handler_def)
qed

lemma sw_step_inv:
  assumes "realloc_ok realloc" "dest_ok dest" "sw_step realloc w w'" "sw_inv auth dest w"
  shows "sw_inv auth dest w'"
  using assms(3,4,1,2)
  by (cases rule: sw_step.cases) (auto intro: connect_inv send_done_inv recv_inv conn_event_inv)

lemma sw_init_inv:
  assumes "BSocksClient_Init True auth dest = Some sc"
  shows "sw_inv auth dest (sw_init sc)"
  using assms
  by (auto simp: BSocksClient_Init_def sw_inv_def sw_init_def sw_alive_def io_ok_def state_ok_def Let_def)

lemma sw_reach_inv:
  assumes "realloc_ok realloc" "dest_ok dest" "BSocksClient_Init True auth dest = Some sc"
    "sw_reach realloc (sw_init sc) w"
  shows "sw_inv auth dest w"
  using assms(4)
proof induction
  case sw_start
  show ?case using assms(3) by (rule sw_init_inv)
next
  case (sw_next w w')
  show ?case by (rule sw_step_inv [OF assms(1,2) sw_next(2,3)])
qed

section \<open>Completion\<close>

text \<open>A run in which the connection is made and kept and the server's bytes are a beginning of
  \<open>reply\<close>.\<close>

inductive sw_good :: "realloc_fun \<Rightarrow> byte list \<Rightarrow> socks_world \<Rightarrow> socks_world \<Rightarrow> bool" for realloc reply w0 where
  good_start: "sw_good realloc reply w0 w0"
| good_connect: "sw_good realloc reply w0 w \<Longrightarrow> sw_alive w \<Longrightarrow> sc_state (sw_sc w) = STATE_CONNECTING \<Longrightarrow>
     sw_good realloc reply w0 (sw_run (connector_handler realloc True False (sw_sc w)) w)"
| good_send_done: "sw_good realloc reply w0 w \<Longrightarrow> sw_alive w \<Longrightarrow> sw_sending w \<Longrightarrow>
     sw_good realloc reply w0 (sw_run (send_handler_done realloc (sw_sc w)) (w\<lparr>sw_sending := False\<rparr>))"
| good_receive: "sw_good realloc reply w0 w \<Longrightarrow> sw_alive w \<Longrightarrow> sw_recv w = Some (off, n) \<Longrightarrow> bs \<noteq> [] \<Longrightarrow>
     int (length bs) \<le> n \<Longrightarrow> prefix (sw_rcvd w @ bs) reply \<Longrightarrow>
     sw_good realloc reply w0 (sw_run (recv_handler_done realloc (int (length bs)) (sc_memcpy off bs (sw_sc w)))
       (sw_write off bs w))"

lemma good_reach: "sw_good realloc reply w0 w \<Longrightarrow> sw_reach realloc w0 w"
  by (induction rule: sw_good.induct) (auto intro: sw_reach.intros sw_step.intros)

text \<open>The answers of a server that accepts: the authentication, then a successful reply.\<close>

definition accepting_reply :: "BSocksClient_auth_info list \<Rightarrow> byte list \<Rightarrow> bool" where
  "accepting_reply auth reply \<longleftrightarrow> (\<exists>r s rsv atyp addr. auth_phase auth r s \<and> atyp \<in> {1, 4} \<and>
     length addr = reply_len atyp \<and> reply = r @ [SOCKS_VERSION, 0, rsv, atyp] @ addr)"

definition quiet :: "socks_call list \<Rightarrow> bool" where
  "quiet calls \<longleftrightarrow> SC_Handler EVENT_ERROR \<notin> set calls \<and> SC_Handler EVENT_ERROR_CLOSED \<notin> set calls"

lemma sw_apply_events: "set (sw_events (fold sw_apply calls w)) = set (sw_events w) \<union> {e. SC_Handler e \<in> set calls}"
proof (induction calls arbitrary: w)
  case (Cons c calls)
  show ?case unfolding fold_simps comp_apply Cons.IH by (cases c) auto
qed simp

lemma quiet_alive: "quiet (snd p) \<Longrightarrow> sw_alive w \<Longrightarrow> sw_alive (sw_run p w)"
  by (simp add: quiet_def sw_alive_def sw_run_def sw_apply_events)

definition never_fails :: "realloc_fun \<Rightarrow> bool" where
  "never_fails realloc \<longleftrightarrow> (\<forall>b n. realloc b n \<noteq> None)"

lemma reserve_total: "never_fails realloc \<Longrightarrow> \<exists>b. reserve_buffer realloc (Some n) o1 = Some (o1\<lparr>sc_buffer := Some b\<rparr>)"
  by (simp add: reserve_buffer_def never_fails_def split: option.split) (metis not_None_eq)

lemma auth_finished_quiet:
  assumes "never_fails realloc"
  shows "quiet (snd (auth_finished realloc o1))"
proof -
  have "socks_addr_size (sc_dest_addr o1) \<le> 18" by (cases "sc_dest_addr o1") simp_all
  then show ?thesis
    using reserve_total [OF assms, of "4 + socks_addr_size (sc_dest_addr o1)" o1]
    by (auto simp: auth_finished_def Let_def quiet_def)
qed

lemma connector_quiet:
  assumes "never_fails realloc" "sc_auth_info o1 \<noteq> []" "length (sc_auth_info o1) \<le> 255"
  shows "quiet (snd (connector_handler realloc True False o1))"
  using reserve_total [OF assms(1), of "2 + length (sc_auth_info o1)" "init_control_io (o1\<lparr>sc_has_con := True\<rparr>)"] assms(2,3)
  by (auto simp: connector_handler_def Let_def quiet_def)

lemma send_done_quiet:
  assumes "never_fails realloc"
  shows "quiet (snd (send_handler_done realloc o1))"
  using reserve_total [OF assms, of 2 o1] reserve_total [OF assms, of 22 o1]
  by (auto simp: send_handler_done_def Let_def quiet_def start_receive_def do_receive_def split: socks_state.splits)

lemma received_hello_quiet:
  assumes a: "never_fails realloc" and ph: "auth_phase (sc_auth_info o1) r s"
    and b: "sc_bytes o1 ! 0 = r ! 0" "sc_bytes o1 ! 1 = r ! 1"
  shows "quiet (snd (received_hello realloc o1))"
  using ph unfolding auth_phase_def
proof (elim disjE exE conjE)
  assume "r = [SOCKS_VERSION, 0]" "find_auth 0 (sc_auth_info o1) = Some auth_none"
  then show ?thesis using b auth_finished_quiet [OF a] by (simp add: received_hello_def Let_def)
next
  fix u p
  assume h: "r = [SOCKS_VERSION, 2, 1, 0]" "find_auth 2 (sc_auth_info o1) = Some (auth_password u p)"
    "u \<noteq> []" "length u \<le> 255" "p \<noteq> []" "length p \<le> 255"
  then show ?thesis
    using b reserve_total [OF a, of "1 + 1 + length u + 1 + length p" o1]
    by (auto simp: received_hello_def Let_def quiet_def)
qed

text \<open>The part of the reply before the header is the same for every reading of it.\<close>

lemma auth_phase_unique:
  assumes "auth_phase auth r s" "auth_phase auth r' s'" "r ! 1 = r' ! 1"
  shows "r = r'"
  using assms by (auto simp: auth_phase_def)

lemma auth_phase_len: "auth_phase auth r s \<Longrightarrow> 2 \<le> length r \<and> length r \<le> 4"
  by (auto simp: auth_phase_def)

lemma auth_part:
  assumes a: "auth_phase auth r s" "auth_phase auth r' s'" and eq: "r @ x = r' @ y"
  shows "r = r' \<and> x = y"
proof -
  have "r ! 1 = r' ! 1"
    using arg_cong [OF eq, of "\<lambda>l. l ! 1"] auth_phase_len [OF a(1)] auth_phase_len [OF a(2)] by (simp add: nth_append)
  then show ?thesis using auth_phase_unique [OF a] eq by simp
qed

lemma recv_quiet:
  assumes a: "never_fails realloc"
    and ok: "state_ok w" and r: "sw_recv w = Some (off, n)" and bs: "int (length bs) \<le> n"
    and auth: "sc_auth_info (sw_sc w) = auth" "sc_dest_addr (sw_sc w) = dest"
    and rep: "accepting_reply auth reply" "prefix (sw_rcvd w @ bs) reply"
  shows "quiet (snd (recv_handler_done realloc (int (length bs)) (sc_memcpy off bs (sw_sc w))))"
proof (cases "sc_recv_len (got_chunk off bs (sw_sc w)) < sc_recv_tot (got_chunk off bs (sw_sc w))")
  case True
  then show ?thesis unfolding recv_handler_eq Let_def by (simp add: quiet_def do_receive_def)
next
  case ge: False
  let ?o1 = "got_chunk off bs (sw_sc w)"
  note comp = completed [OF ok r bs ge auth]
  obtain r1 s1 rsv atyp ad where rp: "auth_phase auth r1 s1" "atyp \<in> {1, 4}"
    "reply = r1 @ [SOCKS_VERSION, 0, rsv, atyp] @ ad" using rep(1) unfolding accepting_reply_def by blast
  obtain zs where zs: "reply = sw_rcvd w @ bs @ zs" using rep(2) by (auto simp: prefix_def)
  consider (hello) "sc_state (sw_sc w) = STATE_SENT_HELLO" | (pw) "sc_state (sw_sc w) = STATE_SENT_PASSWORD"
    | (req) "sc_state (sw_sc w) = STATE_SENT_REQUEST" | (reply) "sc_state (sw_sc w) = STATE_RECEIVED_REPLY_HEADER"
    using receiving_states(1) [OF ok r] by auto
  then show ?thesis
  proof cases
    case hello
    obtain b where b: "sc_buffer ?o1 = Some b" "sw_rcvd w @ bs = [b ! 0, b ! 1]" using comp(1) hello by auto
    have "[b ! 0, b ! 1] @ zs = r1 @ [SOCKS_VERSION, 0, rsv, atyp] @ ad" using zs unfolding b(2) [symmetric] rp(3) by simp
    then have "b ! 0 = r1 ! 0 \<and> b ! 1 = r1 ! 1" using rp(1) by (auto simp: auth_phase_def)
    then have "quiet (snd (received_hello realloc ?o1))"
      using rp(1) auth b(1) by (intro received_hello_quiet [OF a]) (simp_all add: sc_bytes_def)
    then show ?thesis unfolding recv_handler_eq Let_def using ge hello by simp
  next
    case pw
    obtain b where b: "sc_buffer ?o1 = Some b" "sw_rcvd w @ bs = [SOCKS_VERSION, 2, b ! 0, b ! 1]" using comp(2) pw by auto
    have "[SOCKS_VERSION, 2, b ! 0, b ! 1] @ zs = r1 @ [SOCKS_VERSION, 0, rsv, atyp] @ ad"
      using zs unfolding b(2) [symmetric] rp(3) by simp
    then have "b ! 0 = 1 \<and> b ! 1 = 0" using rp(1) by (auto simp: auth_phase_def)
    then show ?thesis
      unfolding recv_handler_eq Let_def using ge pw b(1) auth_finished_quiet [OF a] by (simp add: sc_bytes_def)
  next
    case req
    obtain r2 s2 b where b: "sc_buffer ?o1 = Some b" "length b = 22" "sw_rcvd w @ bs = r2 @ take 4 b" "auth_phase auth r2 s2"
      using comp(3) req by auto
    have eq: "r2 @ take 4 b @ zs = r1 @ [SOCKS_VERSION, 0, rsv, atyp] @ ad" using zs b(3) rp(3) by (metis append_assoc)
    have "take 4 b @ zs = [SOCKS_VERSION, 0, rsv, atyp] @ ad" using auth_part [OF b(4) rp(1) eq] by simp
    then have "take 4 b = [SOCKS_VERSION, 0, rsv, atyp]"
      using append_eq_append_conv [of "take 4 b" "[SOCKS_VERSION, 0, rsv, atyp]" zs ad] b(2) by simp
    then have "b ! 0 = SOCKS_VERSION \<and> b ! 1 = 0 \<and> b ! 3 = atyp"
      using nth_take [of 0 4 b] nth_take [of 1 4 b] nth_take [of 3 4 b] by simp
    then show ?thesis
      unfolding recv_handler_eq Let_def using ge req b(1) rp(2)
      by (auto simp: received_reply_header_def Let_def sc_bytes_def start_receive_def do_receive_def quiet_def)
  next
    case reply
    then show ?thesis unfolding recv_handler_eq Let_def using ge by (simp add: quiet_def)
  qed
qed

lemma good_inv:
  assumes a: "realloc_ok realloc" "never_fails realloc" "dest_ok dest" "auth \<noteq> []" "length auth \<le> 255"
    and rep: "accepting_reply auth reply" and i: "BSocksClient_Init True auth dest = Some sc"
    and g: "sw_good realloc reply (sw_init sc) w"
  shows "sw_inv auth dest w \<and> sw_alive w \<and> prefix (sw_rcvd w) reply"
proof -
  have inv: "sw_inv auth dest w" if "sw_good realloc reply (sw_init sc) w" for w
    using sw_reach_inv [OF a(1,3) i good_reach [OF that]] .
  have rc: "sw_rcvd (sw_run p w) = sw_rcvd w" for p w
  proof -
    have "sw_rcvd (fold sw_apply cs w) = sw_rcvd w" for cs w
    proof (induction cs arbitrary: w)
      case (Cons c cs)
      show ?case unfolding fold_simps comp_apply Cons.IH by (cases c) simp_all
    qed simp
    then show ?thesis by (simp add: sw_run_def)
  qed
  have "sw_alive w \<and> prefix (sw_rcvd w) reply"
    using g
  proof induction
    case good_start
    show ?case by (simp add: sw_init_def sw_alive_def)
  next
    case (good_connect w)
    have "sc_auth_info (sw_sc w) = auth" using inv [OF good_connect(1)] by (simp add: sw_inv_def)
    then show ?case using good_connect a(4,5) connector_quiet [OF a(2), of "sw_sc w"] by (simp add: quiet_alive rc)
  next
    case (good_send_done w)
    have "sw_alive (w\<lparr>sw_sending := False\<rparr>)" using good_send_done(2) by (simp add: sw_alive_def)
    then show ?case using good_send_done(4) send_done_quiet [OF a(2)] by (simp add: quiet_alive rc)
  next
    case (good_receive w off n bs)
    have w: "state_ok w" "sc_auth_info (sw_sc w) = auth" "sc_dest_addr (sw_sc w) = dest"
      using inv [OF good_receive(1)] good_receive(2) by (simp_all add: sw_inv_def)
    have "sw_alive (sw_write off bs w)" using good_receive(2) by (simp add: sw_alive_def sw_write_def)
    then show ?case
      using recv_quiet [OF a(2) w(1) good_receive(3,5) w(2,3) rep good_receive(6)] good_receive(6)
      by (simp add: quiet_alive rc) (simp add: sw_write_def)
  qed
  then show ?thesis using inv [OF g] by simp
qed

lemma complete_reply_up:
  assumes ok: "state_ok w" and rep: "accepting_reply (sc_auth_info (sw_sc w)) (sw_rcvd w)"
  shows "sc_state (sw_sc w) = STATE_UP"
proof -
  let ?auth = "sc_auth_info (sw_sc w)"
  obtain r1 s1 rsv atyp ad where rp: "auth_phase ?auth r1 s1" "atyp \<in> {1, 4}" "length ad = reply_len atyp"
    "sw_rcvd w = r1 @ [SOCKS_VERSION, 0, rsv, atyp] @ ad" using rep unfolding accepting_reply_def by blast
  have len: "length (sw_rcvd w) \<ge> 12" using rp auth_phase_len [OF rp(1)] by (auto simp: reply_len_def)
  have early: False if "length (sw_rcvd w) < 12" using that len by simp
  have after: "x = [SOCKS_VERSION, 0, rsv, atyp] @ ad" if "auth_phase ?auth r s" "sw_rcvd w = r @ x" for r s x
    using auth_part [OF that(1) rp(1)] that(2) rp(4) by simp
  have got: "length g < t" if "receiving w d t g" for d t g using that by (simp add: receiving_def Let_def)
  show ?thesis
  proof (cases "sc_state (sw_sc w)")
    case STATE_RECEIVED_REPLY_HEADER
    then obtain r s rsv' atyp' g where g: "receiving w 4 (reply_len atyp') g" "auth_phase ?auth r s"
      "sw_rcvd w = r @ [SOCKS_VERSION, 0, rsv', atyp'] @ g"
      using ok unfolding state_ok_def Let_def by auto
    then show ?thesis using after [OF g(2,3)] rp(3) got [OF g(1)] by simp
  next
    case STATE_SENT_REQUEST
    then obtain r s g where g: "receiving w 0 4 g" "auth_phase ?auth r s" "sw_rcvd w = r @ g"
      using ok unfolding state_ok_def Let_def by auto
    then show ?thesis using after [OF g(2,3)] got [OF g(1)] by simp
  next
    case STATE_SENDING_REQUEST
    then show ?thesis using ok early unfolding state_ok_def Let_def by (auto dest!: auth_phase_len)
  qed (use ok early got in \<open>fastforce simp: state_ok_def Let_def\<close>)+
qed

lemma up_reply:
  assumes "state_ok w" "sc_state (sw_sc w) = STATE_UP"
  obtains r s rsv atyp addr where "atyp \<in> {1, 4}" "length addr = reply_len atyp" "auth_phase (sc_auth_info (sw_sc w)) r s"
    "sw_sent w = hello_msg (sc_auth_info (sw_sc w)) @ s @ request_msg (sc_dest_addr (sw_sc w))"
    "sw_rcvd w = r @ [SOCKS_VERSION, 0, rsv, atyp] @ addr"
proof -
  have "\<exists>r s rsv atyp addr. atyp \<in> {1, 4} \<and> length addr = reply_len atyp \<and> auth_phase (sc_auth_info (sw_sc w)) r s \<and>
      sw_sent w = hello_msg (sc_auth_info (sw_sc w)) @ s @ request_msg (sc_dest_addr (sw_sc w)) \<and>
      sw_rcvd w = r @ [SOCKS_VERSION, 0, rsv, atyp] @ addr \<and> \<not> sw_sending w \<and> sw_recv w = None"
    using assms unfolding state_ok_def Let_def by simp
  then show ?thesis using that by blast
qed

lemma up_complete:
  assumes ok: "state_ok w" "sc_state (sw_sc w) = STATE_UP"
    and rep: "accepting_reply (sc_auth_info (sw_sc w)) reply" "prefix (sw_rcvd w) reply"
  shows "sw_rcvd w = reply"
proof -
  let ?auth = "sc_auth_info (sw_sc w)"
  obtain r s rsv atyp ad where u: "length ad = reply_len atyp" "auth_phase ?auth r s"
    "sw_rcvd w = r @ [SOCKS_VERSION, 0, rsv, atyp] @ ad" by (rule up_reply [OF ok])
  obtain r1 s1 rsv1 atyp1 ad1 where rp: "auth_phase ?auth r1 s1" "length ad1 = reply_len atyp1"
    "reply = r1 @ [SOCKS_VERSION, 0, rsv1, atyp1] @ ad1" using rep(1) unfolding accepting_reply_def by blast
  obtain zs where zs: "reply = sw_rcvd w @ zs" using rep(2) by (auto simp: prefix_def)
  then have "r @ ([SOCKS_VERSION, 0, rsv, atyp] @ ad @ zs) = r1 @ ([SOCKS_VERSION, 0, rsv1, atyp1] @ ad1)"
    using u(3) rp(3) by simp
  from auth_part [OF u(2) rp(1) this] have "atyp = atyp1" "ad @ zs = ad1" by simp_all
  then have "zs = []" using u(1) rp(2) by (metis append_self_conv length_append add_cancel_right_right length_0_conv)
  then show ?thesis using zs by simp
qed

lemma waiting:
  assumes "state_ok w" "sc_state (sw_sc w) \<notin> {STATE_CONNECTING, STATE_UP}"
  shows "sw_sending w \<or> (\<exists>off n. sw_recv w = Some (off, n) \<and> 0 < n)"
proof -
  have rec: "\<exists>off n. sw_recv w = Some (off, n) \<and> 0 < n" if "receiving w d t g" for d t g
    using that by (auto simp: receiving_def Let_def)
  show ?thesis
    using assms rec unfolding state_ok_def Let_def sending_def by (cases "sc_state (sw_sc w)") auto
qed

section \<open>Properties of the client\<close>

text \<open>C15. When the client reports that the connection is up, it has sent exactly the messages of the SOCKS5
  conversation (greeting, the authentication the server chose, the request for the destination) and has read exactly
  the server's answers to them: not one byte of the stream that follows the reply has been consumed, however
  the answers were divided into chunks and whichever allocations failed before. No send or receive is
  ever started while another is outstanding, and no receive reaches beyond the buffer.\<close>

theorem socks_conversation:
  assumes "realloc_ok realloc" "dest_ok dest" "BSocksClient_Init True auth dest = Some sc"
    and "sw_reach realloc (sw_init sc) w"
  shows "\<not> sw_violated w \<and>
    (EVENT_UP \<in> set (sw_events w) \<longrightarrow>
      (\<exists>r s rsv atyp addr. auth_phase auth r s \<and> atyp \<in> {1, 4} \<and> length addr = reply_len atyp \<and>
         sw_sent w = hello_msg auth @ s @ request_msg dest \<and>
         sw_rcvd w = r @ [SOCKS_VERSION, 0, rsv, atyp] @ addr))"
proof -
  have inv: "sw_inv auth dest w" by (rule sw_reach_inv [OF assms])
  then have w: "sc_auth_info (sw_sc w) = auth" "sc_dest_addr (sw_sc w) = dest" "\<not> sw_violated w" by (simp_all add: sw_inv_def)
  have "\<exists>r s rsv atyp addr. auth_phase auth r s \<and> atyp \<in> {1, 4} \<and> length addr = reply_len atyp \<and>
         sw_sent w = hello_msg auth @ s @ request_msg dest \<and> sw_rcvd w = r @ [SOCKS_VERSION, 0, rsv, atyp] @ addr"
    if "EVENT_UP \<in> set (sw_events w)"
  proof -
    have "state_ok w" "sc_state (sw_sc w) = STATE_UP" using inv that by (simp_all add: sw_inv_def)
    then show ?thesis by (rule up_reply) (use w(1,2) in blast)
  qed
  then show ?thesis using w(3) by blast
qed

text \<open>C30. Against a server that accepts (an authentication method the client offered, then a successful
  reply) on a connection that is made and not lost, and with allocation succeeding, the client never reports an
  error; it reports success exactly when the whole answer has been received; and until then it is
  connecting, sending, or waiting for a positive number of bytes.\<close>

theorem socks_completes:
  assumes "realloc_ok realloc" "never_fails realloc" "dest_ok dest" "auth \<noteq> []" "length auth \<le> 255"
    and "accepting_reply auth reply" "BSocksClient_Init True auth dest = Some sc"
    and "sw_good realloc reply (sw_init sc) w"
  shows "EVENT_ERROR \<notin> set (sw_events w) \<and> EVENT_ERROR_CLOSED \<notin> set (sw_events w) \<and>
    (EVENT_UP \<in> set (sw_events w) \<longleftrightarrow> sw_rcvd w = reply) \<and>
    (sw_rcvd w \<noteq> reply \<longrightarrow> sc_state (sw_sc w) = STATE_CONNECTING \<or> sw_sending w \<or>
       (\<exists>off n. sw_recv w = Some (off, n) \<and> 0 < n))"
proof -
  have g: "sw_inv auth dest w" "sw_alive w" "prefix (sw_rcvd w) reply" using good_inv [OF assms] by simp_all
  have ok: "state_ok w" "sc_auth_info (sw_sc w) = auth"
    and ev: "sw_events w = (if sc_state (sw_sc w) = STATE_UP then [EVENT_UP] else [])"
    using g(1,2) unfolding sw_inv_def by blast+
  have up: "sc_state (sw_sc w) = STATE_UP \<longleftrightarrow> sw_rcvd w = reply"
  proof
    assume "sc_state (sw_sc w) = STATE_UP"
    then show "sw_rcvd w = reply" by (rule up_complete [OF ok(1)]) (simp_all add: ok(2) assms(6) g(3))
  next
    assume "sw_rcvd w = reply"
    then show "sc_state (sw_sc w) = STATE_UP" using assms(6) ok(2) by (intro complete_reply_up [OF ok(1)]) simp
  qed
  show ?thesis
  proof (cases "sc_state (sw_sc w) = STATE_UP")
    case True
    then show ?thesis using ev up by simp
  next
    case False
    then have "sw_events w = []" "sw_rcvd w \<noteq> reply" using ev up by simp_all
    then show ?thesis using False waiting [OF ok(1)] by fastforce
  qed
qed

text \<open>Freeing the client in any state it can be in releases the connector, the connection, its interfaces
  and the buffer; the parts released are exactly the ones that were set up.\<close>

theorem socks_free_releases:
  assumes "realloc_ok realloc" "dest_ok dest" "BSocksClient_Init True auth dest = Some sc"
    and "sw_reach realloc (sw_init sc) w"
  shows "(let o1 = sw_sc w; f = BSocksClient_Free o1 in
      \<not> sc_has_con f \<and> \<not> sc_control_io f \<and> \<not> sc_up_io f \<and> \<not> sc_has_connector f \<and> sc_buffer f = None \<and>
      (sc_has_con o1 \<longleftrightarrow> sc_state o1 \<noteq> STATE_CONNECTING) \<and> (sc_up_io o1 \<longleftrightarrow> sc_state o1 = STATE_UP) \<and>
      (sc_control_io o1 \<longleftrightarrow> sc_has_con o1 \<and> \<not> sc_up_io o1))"
proof -
  have "io_ok (sw_sc w)" using sw_reach_inv [OF assms] by (simp add: sw_inv_def)
  then show ?thesis
    by (auto simp: io_ok_def BSocksClient_Free_def Let_def free_up_io_def free_control_io_def)
qed

section \<open>A conversation\<close>

definition sdemo_socks_realloc :: realloc_fun where
  "sdemo_socks_realloc b n = Some (replicate n 0)"

definition sdemo_auth :: "BSocksClient_auth_info list" where
  "sdemo_auth = [auth_none]"

definition sdemo_dest :: BAddr where
  "sdemo_dest = BAddr_IPv4 0x0100007f 0x5000"

definition sdemo_reply :: "byte list" where
  "sdemo_reply = [5, 0, 5, 0, 0, 1, 9, 9, 9, 9, 0, 80]"

definition sdemo_connect :: "socks_world \<Rightarrow> socks_world" where
  "sdemo_connect w = sw_run (connector_handler sdemo_socks_realloc True False (sw_sc w)) w"

definition sdemo_sent :: "socks_world \<Rightarrow> socks_world" where
  "sdemo_sent w = sw_run (send_handler_done sdemo_socks_realloc (sw_sc w)) (w\<lparr>sw_sending := False\<rparr>)"

definition sdemo_recv :: "byte list \<Rightarrow> socks_world \<Rightarrow> socks_world" where
  "sdemo_recv bs w = (case sw_recv w of Some (off, n) \<Rightarrow>
     sw_run (recv_handler_done sdemo_socks_realloc (int (length bs)) (sc_memcpy off bs (sw_sc w))) (sw_write off bs w))"

definition sdemo_sc :: BSocksClient where
  "sdemo_sc = the (BSocksClient_Init True sdemo_auth sdemo_dest)"

definition sdemo_w :: socks_world where
  "sdemo_w = sdemo_sent (sdemo_recv [5, 0] (sdemo_sent (sdemo_connect (sw_init sdemo_sc))))"

definition sdemo_up :: socks_world where
  "sdemo_up = sdemo_recv [9, 9, 0, 80] (sdemo_recv [9, 9] (sdemo_recv [5, 0, 0, 1] sdemo_w))"

lemma sdemo_good_connect:
  "sw_good sdemo_socks_realloc r w0 w \<Longrightarrow> sw_alive w \<and> sc_state (sw_sc w) = STATE_CONNECTING \<Longrightarrow>
    sw_good sdemo_socks_realloc r w0 (sdemo_connect w)"
  by (auto simp: sdemo_connect_def intro: good_connect)

lemma sdemo_good_sent:
  "sw_good sdemo_socks_realloc r w0 w \<Longrightarrow> sw_alive w \<and> sw_sending w \<Longrightarrow> sw_good sdemo_socks_realloc r w0 (sdemo_sent w)"
  by (auto simp: sdemo_sent_def intro: good_send_done)

lemma sdemo_good_recv:
  "sw_good sdemo_socks_realloc r w0 w \<Longrightarrow>
    sw_alive w \<and> bs \<noteq> [] \<and> (case sw_recv w of None \<Rightarrow> False | Some (off, n) \<Rightarrow> int (length bs) \<le> n) \<and>
    prefix (sw_rcvd w @ bs) r \<Longrightarrow> sw_good sdemo_socks_realloc r w0 (sdemo_recv bs w)"
  by (auto simp: sdemo_recv_def intro: good_receive split: option.splits)

lemma sdemo_realloc_ok: "realloc_ok sdemo_socks_realloc" "never_fails sdemo_socks_realloc"
  by (simp_all add: realloc_ok_def never_fails_def sdemo_socks_realloc_def)

lemma sdemo_init: "BSocksClient_Init True sdemo_auth sdemo_dest = Some sdemo_sc"
  by (simp add: sdemo_sc_def BSocksClient_Init_def)

lemma sdemo_dest_ok: "dest_ok sdemo_dest"
  by (simp add: sdemo_dest_def dest_ok_def)

lemma sdemo_accepting: "accepting_reply sdemo_auth sdemo_reply"
  unfolding accepting_reply_def
  by (rule exI [of _ "[5, 0]"], rule exI [of _ "[]"], rule exI [of _ 0], rule exI [of _ 1],
      rule exI [of _ "[9, 9, 9, 9, 0, 80]"])
    (simp add: auth_phase_def sdemo_auth_def sdemo_reply_def reply_len_def)


lemmas sdemo_defs = sdemo_up_def sdemo_w_def sdemo_sent_def sdemo_recv_def sdemo_connect_def sdemo_sc_def sdemo_auth_def sdemo_dest_def
  sdemo_reply_def sdemo_socks_realloc_def BSocksClient_Init_def sw_init_def connector_handler_def Let_def
  init_control_io_def reserve_buffer_def sc_memcpy_def sc_bytes_def hello_header_def memcpy_at_def send_handler_done_def
  start_receive_def do_receive_def recv_handler_done_def received_hello_def auth_finished_def received_reply_header_def
  init_up_io_def free_control_io_def sw_write_def sw_alive_def

lemma sdemo_good: "sw_good sdemo_socks_realloc sdemo_reply (sw_init sdemo_sc) sdemo_up"
  unfolding sdemo_up_def sdemo_w_def
  by (intro sdemo_good_connect sdemo_good_sent sdemo_good_recv good_start; simp add: sdemo_defs)

lemma sdemo_up_facts: "EVENT_UP \<in> set (sw_events sdemo_up)" "sw_rcvd sdemo_up = sdemo_reply" "sc_state (sw_sc sdemo_up) = STATE_UP"
  by (simp_all add: sdemo_defs)

theorem socks_conversation_witness:
  "EVENT_UP \<in> set (sw_events sdemo_up) \<and> (\<exists>r s rsv atyp addr. auth_phase sdemo_auth r s \<and> atyp \<in> {1, 4} \<and>
     length addr = reply_len atyp \<and> sw_sent sdemo_up = hello_msg sdemo_auth @ s @ request_msg sdemo_dest \<and>
     sw_rcvd sdemo_up = r @ [SOCKS_VERSION, 0, rsv, atyp] @ addr)"
  using socks_conversation [OF sdemo_realloc_ok(1) sdemo_dest_ok sdemo_init good_reach [OF sdemo_good]] sdemo_up_facts(1) by blast

theorem socks_completes_witness:
  "EVENT_UP \<in> set (sw_events sdemo_up) \<and> sw_rcvd sdemo_up = sdemo_reply"
  using socks_completes [OF sdemo_realloc_ok sdemo_dest_ok _ _ sdemo_accepting sdemo_init sdemo_good] sdemo_up_facts(2)
  by (simp add: sdemo_auth_def)

theorem socks_free_releases_witness:
  "sc_up_io (sw_sc sdemo_up) \<and> \<not> sc_up_io (BSocksClient_Free (sw_sc sdemo_up)) \<and> \<not> sc_has_con (BSocksClient_Free (sw_sc sdemo_up))"
  using socks_free_releases [OF sdemo_realloc_ok(1) sdemo_dest_ok sdemo_init good_reach [OF sdemo_good]] sdemo_up_facts(3)
  by (simp add: Let_def)

end
