(* ===== verification/NetProto.thy ===== *)
theory NetProto
  imports NetAddr
begin

text \<open>
  The Internet protocol headers \<open>misc/ipv4_proto.h\<close>, \<open>misc/ipv6_proto.h\<close> and \<open>misc/udp_proto.h\<close>: the packed structs as
  records with their layout in memory, the checks that parse a packet, and the checksums. Fields of
  more than one byte hold the words as loaded from memory. The checksums, 32-bit sums whose carries are
  folded at the end, are compared with the definition of the Internet checksum by end-around-carry
  additions of 16-bit words.
\<close>

section \<open>Headers\<close>

record ipv4_header =
  version4_ihl4 :: byte
  ip_ds :: byte
  total_length :: u16
  identification :: u16
  flags3_fragmentoffset13 :: u16
  ttl :: byte
  protocol :: byte
  ip_checksum :: u16
  source_address :: u32
  destination_address :: u32

definition ipv4_bytes :: "ipv4_header \<Rightarrow> byte list" where
  "ipv4_bytes h = [version4_ihl4 h, ip_ds h] @ store16 (total_length h) @ store16 (identification h) @
     store16 (flags3_fragmentoffset13 h) @ [ttl h, protocol h] @ store16 (ip_checksum h) @
     store32 (source_address h) @ store32 (destination_address h)"

definition ipv4_load :: "byte list \<Rightarrow> ipv4_header" where
  "ipv4_load p = \<lparr>version4_ihl4 = p ! 0, ip_ds = p ! 1, total_length = load16 (drop 2 p), identification = load16 (drop 4 p),
     flags3_fragmentoffset13 = load16 (drop 6 p), ttl = p ! 8, protocol = p ! 9, ip_checksum = load16 (drop 10 p),
     source_address = load32 (drop 12 p), destination_address = load32 (drop 16 p)\<rparr>"

record ipv6_header =
  version4_tc4 :: byte
  tc4_fl4 :: byte
  fl :: u16
  payload_length :: u16
  next_header :: byte
  hop_limit :: byte
  source_address6 :: "byte list"
  destination_address6 :: "byte list"

definition ipv6_bytes :: "ipv6_header \<Rightarrow> byte list" where
  "ipv6_bytes h = [version4_tc4 h, tc4_fl4 h] @ store16 (fl h) @ store16 (payload_length h) @
     [next_header h, hop_limit h] @ source_address6 h @ destination_address6 h"

definition ipv6_load :: "byte list \<Rightarrow> ipv6_header" where
  "ipv6_load p = \<lparr>version4_tc4 = p ! 0, tc4_fl4 = p ! 1, fl = load16 (drop 2 p), payload_length = load16 (drop 4 p),
     next_header = p ! 6, hop_limit = p ! 7, source_address6 = sub_bytes 8 16 p, destination_address6 = sub_bytes 24 16 p\<rparr>"

record udp_header =
  source_port :: u16
  dest_port :: u16
  udp_length :: u16
  udp_check_field :: u16

definition udp_bytes :: "udp_header \<Rightarrow> byte list" where
  "udp_bytes h = store16 (source_port h) @ store16 (dest_port h) @ store16 (udp_length h) @ store16 (udp_check_field h)"

definition udp_load :: "byte list \<Rightarrow> udp_header" where
  "udp_load p = \<lparr>source_port = load16 p, dest_port = load16 (drop 2 p), udp_length = load16 (drop 4 p),
     udp_check_field = load16 (drop 6 p)\<rparr>"

abbreviation IPV4_PROTOCOL_UDP :: byte where "IPV4_PROTOCOL_UDP \<equiv> 17"
abbreviation IPV6_NEXT_UDP :: byte where "IPV6_NEXT_UDP \<equiv> 17"

definition IPV4_GET_VERSION :: "ipv4_header \<Rightarrow> byte" where
  "IPV4_GET_VERSION h = drop_bit 4 (version4_ihl4 h AND 0xF0)"

definition IPV4_GET_IHL :: "ipv4_header \<Rightarrow> byte" where
  "IPV4_GET_IHL h = drop_bit 0 (version4_ihl4 h AND 0x0F)"

definition IPV4_MAKE_VERSION_IHL :: "nat \<Rightarrow> byte" where
  "IPV4_MAKE_VERSION_IHL n = of_nat (n div 4 + push_bit 4 4)"

section \<open>Checksums\<close>

text \<open>The summing loops: \<open>n\<close> big-endian words from \<open>p\<close> on are added to \<open>t\<close>, in 32 bits.\<close>

fun be16_sum :: "byte list \<Rightarrow> nat \<Rightarrow> u32 \<Rightarrow> u32" where
  "be16_sum p 0 t = t"
| "be16_sum p (Suc n) t = be16_sum (drop 2 p) n (t + ucast (badvpn_read_be16 p))"

text \<open>The carries of the sum are added back until none is left.\<close>

function checksum_fold :: "u32 \<Rightarrow> u32" where
  "checksum_fold t = (if drop_bit 16 t \<noteq> 0 then checksum_fold ((t AND 0xFFFF) + drop_bit 16 t) else t)"
  by auto

lemma unat_drop_bit_16: "unat (drop_bit 16 t :: u32) = unat t div 65536"
  by (simp add: drop_bit_eq_div unat_div)

lemma fold_step_unat:
  "unat ((t AND 0xFFFF) + drop_bit 16 t :: u32) = unat t mod 65536 + unat t div 65536"
proof -
  have m: "(0xFFFF :: u32) = mask 16" by (simp add: mask_eq_exp_minus_1)
  have lo: "unat (t AND 0xFFFF) = unat t mod 65536"
    unfolding m by (simp add: take_bit_eq_mod unat_mod flip: take_bit_eq_mask)
  note hi = unat_drop_bit_16 [of t]
  have t: "unat t < 2 ^ 32" using unsigned_less [of t] by simp
  then have "unat t mod 65536 + unat t div 65536 < 2 ^ 32" by simp
  then show ?thesis using lo hi by (simp add: unat_word_ariths)
qed

termination checksum_fold
proof (relation "measure unat")
  fix t :: u32
  assume "drop_bit 16 t \<noteq> 0"
  then have "unat (drop_bit 16 t) \<noteq> 0" by (simp add: unat_eq_0)
  then have "unat t div 65536 \<noteq> 0" unfolding unat_drop_bit_16 .
  moreover have "unat t mod 65536 + 65536 * (unat t div 65536) = unat t" by simp
  ultimately have "unat t mod 65536 + unat t div 65536 < unat t" by linarith
  then show "((t AND 0xFFFF) + drop_bit 16 t, t) \<in> measure unat" by (simp add: fold_step_unat)
qed simp

declare checksum_fold.simps [simp del]

definition ipv4_checksum :: "ipv4_header \<Rightarrow> byte list \<Rightarrow> nat \<Rightarrow> u16" where
  "ipv4_checksum header extra extra_len =
     (let t = be16_sum (ipv4_bytes header) (20 div 2) 0;
          t = be16_sum extra (extra_len div 2) t;
          t = checksum_fold t
      in hton16 (ucast (NOT t)))"

definition udp_checksum_summer :: "byte list \<Rightarrow> nat \<Rightarrow> u32" where
  "udp_checksum_summer data len = be16_sum data (len div 2) 0"

text \<open>The payload, whose last byte is padded with a zero when its length is odd.\<close>

definition payload_sum :: "byte list \<Rightarrow> nat \<Rightarrow> u32" where
  "payload_sum payload payload_len =
     (if payload_len mod 2 = 0 then udp_checksum_summer payload payload_len
      else udp_checksum_summer payload (payload_len - 1) +
        udp_checksum_summer (store16 (hton16 (push_bit 8 (ucast (payload ! (payload_len - 1)))))) 2)"

text \<open>The end of both UDP checksums; \<open>t\<close> is a 32-bit variable when it is compared with 0.\<close>

definition checksum_finish :: "u32 \<Rightarrow> u16" where
  "checksum_finish t =
     (let t = checksum_fold t; t = NOT t; t = (if t = 0 then 0xFFFF else t) in hton16 (ucast t))"

definition udp_checksum :: "udp_header \<Rightarrow> byte list \<Rightarrow> nat \<Rightarrow> u32 \<Rightarrow> u32 \<Rightarrow> u16" where
  "udp_checksum header payload payload_len source_addr dest_addr =
     checksum_finish (udp_checksum_summer (store32 source_addr) 4 + udp_checksum_summer (store32 dest_addr) 4 +
       udp_checksum_summer (store16 (hton16 (ucast IPV4_PROTOCOL_UDP))) 2 +
       udp_checksum_summer (store16 (hton16 (of_nat (8 + payload_len)))) 2 +
       udp_checksum_summer (udp_bytes header) 8 + payload_sum payload payload_len)"

definition udp_ip6_checksum :: "udp_header \<Rightarrow> byte list \<Rightarrow> nat \<Rightarrow> byte list \<Rightarrow> byte list \<Rightarrow> u16" where
  "udp_ip6_checksum header payload payload_len source_addr dest_addr =
     checksum_finish (udp_checksum_summer source_addr 16 + udp_checksum_summer dest_addr 16 +
       udp_checksum_summer (store32 (hton32 (of_nat (8 + payload_len)))) 4 +
       udp_checksum_summer (store32 (hton32 (ucast IPV6_NEXT_UDP))) 4 +
       udp_checksum_summer (udp_bytes header) 8 + payload_sum payload payload_len)"

section \<open>Parsing\<close>

text \<open>The packet is the list of its \<open>data_len\<close> bytes. A check returns the header and the payload.\<close>

definition ipv4_check :: "byte list \<Rightarrow> (ipv4_header \<times> byte list) option" where
  "ipv4_check data =
     (if length data < 20 then None
      else let h = ipv4_load data in
        if IPV4_GET_VERSION h \<noteq> 4 then None
        else let header_len = unat (IPV4_GET_IHL h) * 4 in
          if header_len < 20 then None
          else if header_len > length data then None
          else let total_len = unat (ntoh16 (total_length h)) in
            if total_len < header_len then None
            else if total_len > length data then None
            else let checksum_in_packet = ip_checksum h;
                     checksum_computed = ipv4_checksum (h\<lparr>ip_checksum := hton16 0\<rparr>) (drop 20 data) (header_len - 20) in
              if checksum_in_packet \<noteq> checksum_computed then None
              else Some (h, take (total_len - header_len) (drop header_len data)))"

definition ipv6_check :: "byte list \<Rightarrow> (ipv6_header \<times> byte list) option" where
  "ipv6_check data =
     (if length data < 40 then None
      else let h = ipv6_load data in
        if drop_bit 4 (version4_tc4 h) \<noteq> 6 then None
        else let payload_len = unat (ntoh16 (payload_length h)) in
          if payload_len > length data - 40 then None
          else Some (h, take payload_len (drop 40 data)))"

definition udp_check :: "byte list \<Rightarrow> (udp_header \<times> byte list) option" where
  "udp_check data =
     (if length data < 8 then None
      else let h = udp_load data; data = drop 8 data; udp_len = unat (ntoh16 (udp_length h)) in
        if udp_len < 8 then None
        else if udp_len > 8 + length data then None
        else Some (h, take (udp_len - 8) data))"

section \<open>The Internet checksum\<close>

text \<open>The definition of RFC 1071: the 16-bit words of the data, an odd last byte padded with a zero, are
  added in one's complement (the carry of each addition is added at the other end).\<close>

fun be_words :: "byte list \<Rightarrow> nat list" where
  "be_words (a # b # r) = (256 * unat a + unat b) # be_words r"
| "be_words [a] = [256 * unat a]"
| "be_words [] = []"

definition ones_add :: "nat \<Rightarrow> nat \<Rightarrow> nat" where
  "ones_add a b = (if a + b > 65535 then a + b - 65535 else a + b)"

definition internet_checksum :: "byte list \<Rightarrow> u16" where
  "internet_checksum bs = NOT (of_nat (foldl ones_add 0 (be_words bs)))"

text \<open>The sum of the words, and the number in \<open>0..65535\<close> that a sum is folded to: 0 only for 0.\<close>

abbreviation wsum :: "byte list \<Rightarrow> nat" where
  "wsum bs \<equiv> sum_list (be_words bs)"

definition ones_norm :: "nat \<Rightarrow> nat" where
  "ones_norm s = (if s = 0 then 0 else (s - 1) mod 65535 + 1)"

lemma unat_byte_le: "unat (a :: byte) \<le> 255"
proof -
  have "unat a < 2 ^ LENGTH(8)" by (rule unsigned_less)
  then show ?thesis by simp
qed

lemma be_words_bound: "w \<in> set (be_words bs) \<Longrightarrow> w \<le> 65535"
proof (induction bs rule: be_words.induct)
  case (1 a b r)
  have "unat a \<le> 255" "unat b \<le> 255" by (rule unat_byte_le)+
  then show ?case using 1 by auto
next
  case (2 a)
  have "unat a \<le> 255" by (rule unat_byte_le)
  then show ?case using 2 by auto
qed simp

lemma be_words_append: "even (length xs) \<Longrightarrow> be_words (xs @ ys) = be_words xs @ be_words ys"
  by (induction xs rule: be_words.induct) simp_all

lemma length_be_words: "length (be_words bs) = (length bs + 1) div 2"
  by (induction bs rule: be_words.induct) simp_all

lemma sum_list_le_count: "(\<And>w. w \<in> set ws \<Longrightarrow> w \<le> m) \<Longrightarrow> sum_list ws \<le> m * length (ws :: nat list)"
  by (induction ws) (auto simp: add_mono)

lemma wsum_bound: "wsum bs \<le> 65535 * ((length bs + 1) div 2)"
  using sum_list_le_count [of "be_words bs" 65535] be_words_bound by (simp add: length_be_words)

lemma ones_norm_small: "s \<le> 65535 \<Longrightarrow> ones_norm s = s"
  by (auto simp: ones_norm_def)

lemma ones_norm_le: "ones_norm s \<le> 65535"
  using mod_less_divisor [of 65535 "s - 1"] by (simp add: ones_norm_def del: mod_less_divisor)

lemma ones_norm_shift: "0 < s \<Longrightarrow> ones_norm (s + 65535 * k) = ones_norm s"
proof -
  assume "0 < s"
  then have "s + 65535 * k - 1 = (s - 1) + 65535 * k" by simp
  then have "(s + 65535 * k - 1) mod 65535 = (s - 1) mod 65535" by (simp only: mod_mult_self2)
  then show ?thesis using \<open>0 < s\<close> by (simp add: ones_norm_def)
qed

lemma ones_norm_split: "\<exists>k. s = ones_norm s + 65535 * k"
proof (cases "s = 0")
  case False
  have "s = (s - 1) mod 65535 + 1 + 65535 * ((s - 1) div 65535)" using False mod_mult_div_eq [of "s - 1" 65535] by linarith
  then have "s = ones_norm s + 65535 * ((s - 1) div 65535)" using False by (simp only: ones_norm_def if_False)
  then show ?thesis by (rule exI)
qed (simp add: ones_norm_def)

lemma ones_norm_add: "ones_norm (ones_norm s + w) = ones_norm (s + w)"
proof -
  define n where "n = ones_norm s"
  have z: "n = 0 \<Longrightarrow> s = 0" by (simp add: n_def ones_norm_def split: if_splits)
  obtain k where k: "s = n + 65535 * k" using ones_norm_split [of s] unfolding n_def by blast
  have "ones_norm (n + w) = ones_norm (s + w)"
  proof (cases "n + w = 0")
    case True
    then show ?thesis using z by simp
  next
    case False
    then show ?thesis using ones_norm_shift [of "n + w" k] unfolding k by (simp add: ac_simps)
  qed
  then show ?thesis unfolding n_def .
qed

lemma ones_add_norm: "w \<le> 65535 \<Longrightarrow> ones_add (ones_norm s) w = ones_norm (s + w)"
proof -
  assume w: "w \<le> 65535"
  define n where "n = ones_norm s"
  have n: "n \<le> 65535" unfolding n_def by (rule ones_norm_le)
  have "ones_norm (n + w) = ones_add n w"
  proof (cases "n + w > 65535")
    case True
    then have "ones_norm (n + w) = ones_norm (n + w - 65535)"
      using ones_norm_shift [of "n + w - 65535" 1] by simp
    then show ?thesis using True n w by (simp add: ones_add_def ones_norm_small)
  qed (simp add: ones_add_def ones_norm_small)
  then show ?thesis unfolding n_def by (simp add: ones_norm_add)
qed

lemma foldl_ones_add: "(\<And>w. w \<in> set ws \<Longrightarrow> w \<le> 65535) \<Longrightarrow> foldl ones_add (ones_norm s) ws = ones_norm (s + sum_list ws)"
  by (induction ws arbitrary: s) (auto simp: ones_add_norm add.assoc)

lemma internet_checksum_norm: "internet_checksum bs = NOT (of_nat (ones_norm (wsum bs)))"
  using foldl_ones_add [of "be_words bs" 0] be_words_bound by (simp add: internet_checksum_def ones_norm_def [of 0])

lemma checksum_fold_norm: "checksum_fold t = of_nat (ones_norm (unat t))"
proof (induction t rule: checksum_fold.induct)
  case (1 t)
  show ?case
  proof (cases "drop_bit 16 t = 0")
    case True
    then have "unat (drop_bit 16 t) = 0" by simp
    then have "unat t \<le> 65535" unfolding unat_drop_bit_16 by (simp add: div_eq_0_iff)
    then show ?thesis using True by (subst checksum_fold.simps) (simp add: ones_norm_small)
  next
    case False
    let ?s = "unat t mod 65536 + unat t div 65536"
    have "unat (drop_bit 16 t) \<noteq> 0" using False by (simp add: unat_eq_0)
    then have p: "unat t div 65536 \<noteq> 0" unfolding unat_drop_bit_16 .
    have "unat t = ?s + 65535 * (unat t div 65536)" using mod_mult_div_eq [of "unat t" 65536] by linarith
    moreover have "0 < ?s" using p by simp
    ultimately have "ones_norm (unat t) = ones_norm ?s" using ones_norm_shift by metis
    moreover have "checksum_fold t = of_nat (ones_norm (unat ((t AND 0xFFFF) + drop_bit 16 t)))"
      using 1 [OF False] False by (subst checksum_fold.simps) simp
    ultimately show ?thesis unfolding fold_step_unat by simp
  qed
qed

lemma unat_ucast_up [simp]:
  "unat (ucast (a :: byte) :: u16) = unat a" "unat (ucast (a :: byte) :: u32) = unat a" "unat (ucast (w :: u16) :: u32) = unat w"
proof -
  have "unat w < 2 ^ LENGTH(16)" by (rule unsigned_less)
  then show "unat (ucast w :: u32) = unat w" by (simp add: unsigned_ucast_eq take_bit_nat_eq_self)
  show "unat (ucast a :: u16) = unat a" "unat (ucast a :: u32) = unat a"
    using unat_byte_le [of a] by (simp_all add: unsigned_ucast_eq take_bit_nat_eq_self)
qed

lemma unat_read_be16: "unat (badvpn_read_be16 (a # b # r)) = 256 * unat a + unat b"
proof -
  have "push_bit 8 (ucast a :: u16) OR ucast b = push_bit 8 (ucast a) + ucast b"
    by (rule disjunctive_add_eq_or [symmetric], rule bit_word_eqI) (auto simp: bit_simps)
  then have "badvpn_read_be16 (a # b # r) = 256 * ucast a + ucast b" by (simp add: push_bit_eq_mult mult.commute)
  moreover have "256 * unat a + unat b < 65536" using unat_byte_le [of a] unat_byte_le [of b] by linarith
  ultimately show ?thesis by (simp add: unat_word_ariths)
qed

lemma be16_sum_unat:
  assumes "2 * n \<le> length p" "unat t + 65535 * n < 2 ^ 32"
  shows "unat (be16_sum p n t) = unat t + wsum (take (2 * n) p)"
  using assms
proof (induction n arbitrary: p t)
  case (Suc n)
  then obtain a b r where p: "p = a # b # r" by (cases p rule: be_words.cases) auto
  let ?w = "256 * unat a + unat b"
  have w: "?w \<le> 65535" using unat_byte_le [of a] unat_byte_le [of b] by linarith
  have u: "unat (ucast (badvpn_read_be16 p) :: u32) = ?w"
    unfolding p by (simp only: unat_ucast_up unat_read_be16)
  have t: "unat (t + ucast (badvpn_read_be16 p)) = unat t + ?w"
    using Suc.prems(2) w u by (simp add: unat_word_ariths)
  have "unat (be16_sum r n (t + ucast (badvpn_read_be16 p))) = unat t + ?w + wsum (take (2 * n) r)"
    using Suc.IH [of r "t + ucast (badvpn_read_be16 p)"] Suc.prems p w unfolding t by simp
  then show ?case unfolding p by (simp add: numeral_2_eq_2)
qed simp

section \<open>The checksums of the code\<close>

lemma ucast_not_norm: "ucast (NOT (of_nat m :: u32)) = (NOT (of_nat m) :: u16)"
  by (rule bit_word_eqI) (simp add: bit_simps)

lemma not_norm_nonzero: "m \<le> 65535 \<Longrightarrow> NOT (of_nat m :: u32) \<noteq> 0"
proof
  assume m: "m \<le> 65535" and "NOT (of_nat m :: u32) = 0"
  then have "(of_nat m :: u32) = NOT 0" by (metis bit.double_compl)
  then have "unat (of_nat m :: u32) = unat (- 1 :: u32)" by simp
  then show False using m by (simp add: unsigned_of_nat take_bit_nat_eq_self unsigned_minus_1_eq_mask mask_eq_exp_minus_1)
qed

lemma checksum_finish_norm: "checksum_finish t = hton16 (NOT (of_nat (ones_norm (unat t))))"
  using not_norm_nonzero [OF ones_norm_le [of "unat t"]]
  by (simp add: checksum_finish_def Let_def checksum_fold_norm ucast_not_norm)

lemma summer_unat:
  assumes "even n" "n \<le> length d" "n \<le> 65535"
  shows "unat (udp_checksum_summer d n) = wsum (take n d)"
proof -
  have "2 * (n div 2) = n" using assms(1) by simp
  then show ?thesis using be16_sum_unat [of "n div 2" d 0] assms by (simp add: udp_checksum_summer_def)
qed

lemma store16_be: "store16 (hton16 w) = [ucast (drop_bit 8 w), ucast w]"
  unfolding store16_reverse by (simp add: store16_def)

lemma payload_sum_unat:
  assumes "n = length payload" "n \<le> 65527"
  shows "unat (payload_sum payload n) = wsum payload"
proof (cases "even n")
  case True
  then show ?thesis using summer_unat [of n payload] assms by (simp add: payload_sum_def even_iff_mod_2_eq_zero)
next
  case False
  then obtain xs b where p: "payload = xs @ [b]" using assms(1) by (cases payload rule: rev_cases) auto
  have n: "n - 1 = length xs" "even (length xs)" using False assms(1) p by auto
  have "ucast (drop_bit 8 (push_bit 8 (ucast b :: u16))) = b" "ucast (push_bit 8 (ucast b :: u16)) = (0 :: byte)"
    by (rule bit_word_eqI, simp add: bit_simps)+
  then have b: "store16 (hton16 (push_bit 8 (ucast b))) = [b, 0]" by (simp add: store16_be)
  have "unat (udp_checksum_summer (xs @ [b]) (length xs)) = wsum xs"
    using summer_unat [of "length xs" "xs @ [b]"] n assms by simp
  moreover have "unat (udp_checksum_summer [b, 0] 2) = 256 * unat b"
    using summer_unat [of 2 "[b, 0]"] by simp
  moreover have "wsum xs \<le> 65535 * 32768" using wsum_bound [of xs] n assms(2) by (auto elim!: order_trans)
  moreover have "unat b \<le> 255" by (rule unat_byte_le)
  ultimately have "unat (payload_sum payload n) = wsum xs + 256 * unat b"
    using False p n b by (simp add: payload_sum_def even_iff_mod_2_eq_zero unat_word_ariths)
  then show ?thesis using n by (simp add: p be_words_append)
qed

lemma unat_add_small: "unat a + unat b < 2 ^ 32 \<Longrightarrow> unat (a + b :: u32) = unat a + unat b"
  by (simp add: unat_word_ariths)

text \<open>The pseudo headers that UDP checksums cover, byte by byte.\<close>

definition pseudo4 :: "u32 \<Rightarrow> u32 \<Rightarrow> nat \<Rightarrow> byte list" where
  "pseudo4 src dst len = store32 src @ store32 dst @ [0, 17, of_nat (len div 256), of_nat len]"

definition pseudo6 :: "byte list \<Rightarrow> byte list \<Rightarrow> nat \<Rightarrow> byte list" where
  "pseudo6 src dst len = src @ dst @ [0, 0, of_nat (len div 256), of_nat len, 0, 0, 0, 17]"

lemma length_headers [simp]: "length (ipv4_bytes h4) = 20" "length (udp_bytes u) = 8"
  by (simp_all add: ipv4_bytes_def udp_bytes_def)

lemma nat_div_256: "n div 256 = drop_bit 8 (n :: nat)"
  by (simp add: drop_bit_eq_div)

lemma be_len: "store16 (hton16 (of_nat len)) = [of_nat (len div 256), of_nat len :: byte]"
proof -
  have "ucast (drop_bit 8 (of_nat len :: u16)) = (of_nat (drop_bit 8 len) :: byte)"
    by (rule bit_word_eqI) (simp add: bit_simps)
  moreover have "ucast (of_nat len :: u16) = (of_nat len :: byte)" by (rule bit_word_eqI) (simp add: bit_simps)
  ultimately show ?thesis by (simp add: store16_be nat_div_256)
qed

lemma store32_be: "store32 (hton32 w) = [ucast (drop_bit 24 w), ucast (drop_bit 16 w), ucast (drop_bit 8 w), ucast w]"
  by (simp add: badvpn_reverse32_def store32_def [of w] store_load32 del: load32.simps)

lemma be_len32: "len < 65536 \<Longrightarrow> store32 (hton32 (of_nat len)) = [0, 0, of_nat (len div 256), of_nat len :: byte]"
proof -
  assume len: "len < 65536"
  then have t: "take_bit 16 len = len" by (simp add: take_bit_nat_eq_self)
  have high: "\<not> bit len n" if "16 \<le> n" for n
    using that bit_take_bit_iff [of 16 len n] unfolding t by simp
  have "ucast (drop_bit 24 (of_nat len :: u32)) = (0 :: byte)" "ucast (drop_bit 16 (of_nat len :: u32)) = (0 :: byte)"
    "ucast (drop_bit 8 (of_nat len :: u32)) = (of_nat (drop_bit 8 len) :: byte)"
    "ucast (of_nat len :: u32) = (of_nat len :: byte)"
    using high by (auto intro!: bit_word_eqI simp: bit_simps)
  then show ?thesis by (simp add: store32_be nat_div_256)
qed

lemma ipv4_checksum_eq:
  assumes "even n" "n \<le> length extra" "n \<le> 65535"
  shows "ipv4_checksum h extra n = hton16 (internet_checksum (ipv4_bytes h @ take n extra))"
proof -
  have a: "unat (be16_sum (ipv4_bytes h) 10 0) = wsum (ipv4_bytes h)" using be16_sum_unat [of 10 "ipv4_bytes h" 0] by simp
  have "wsum (ipv4_bytes h) \<le> 65535 * 10" using wsum_bound [of "ipv4_bytes h"] by simp
  then have "unat (be16_sum extra (n div 2) (be16_sum (ipv4_bytes h) 10 0)) = wsum (ipv4_bytes h) + wsum (take (2 * (n div 2)) extra)"
    using be16_sum_unat [of "n div 2" extra "be16_sum (ipv4_bytes h) 10 0"] assms a by simp
  also have "2 * (n div 2) = n" using assms(1) by simp
  finally show ?thesis
    by (simp add: ipv4_checksum_def Let_def checksum_fold_norm ucast_not_norm internet_checksum_norm be_words_append)
qed

text \<open>Both UDP checksums add up the parts of their pseudo header, the UDP header and the payload.\<close>

lemma unat_sum_list: "sum_list (map unat ws) < 2 ^ 32 \<Longrightarrow> unat (sum_list ws :: u32) = sum_list (map unat ws)"
  by (induction ws) (simp_all add: unat_word_ariths)

lemma wsum_concat: "(\<And>d. d \<in> set ds \<Longrightarrow> even (length d)) \<Longrightarrow> wsum (concat ds @ p) = sum_list (map wsum ds) + wsum p"
  by (induction ds) (simp_all add: be_words_append)

lemma finish_parts:
  assumes "list_all (\<lambda>d. even (length d) \<and> length d \<le> 16) ds" "length ds \<le> 8" "length payload \<le> 65527"
  shows "checksum_finish (sum_list (map (\<lambda>d. udp_checksum_summer d (length d)) ds) + payload_sum payload (length payload)) =
    hton16 (internet_checksum (concat ds @ payload))"
proof -
  let ?ws = "map (\<lambda>d. udp_checksum_summer d (length d)) ds"
  have ds: "even (length d) \<and> length d \<le> 16" if "d \<in> set ds" for d using assms(1) that by (simp add: list_all_iff)
  have eq: "map unat ?ws = map wsum ds" using ds summer_unat [OF _ order_refl] by fastforce
  have "wsum d \<le> 65535 * 8" if "d \<in> set ds" for d
    using wsum_bound [of d] ds [OF that] by (auto elim!: order_trans)
  then have "sum_list (map wsum ds) \<le> 65535 * 8 * length (map wsum ds)" by (intro sum_list_le_count) auto
  then have small: "sum_list (map wsum ds) \<le> 65535 * 64" using assms(2) by simp
  moreover have "wsum payload \<le> 65535 * 32764" using wsum_bound [of payload] assms(3) by (auto elim!: order_trans)
  moreover have "unat (sum_list ?ws) = sum_list (map wsum ds)" using unat_sum_list [of ?ws] small unfolding eq by simp
  moreover have "unat (payload_sum payload (length payload)) = wsum payload" using assms(3) by (intro payload_sum_unat) simp_all
  ultimately have "unat (sum_list ?ws + payload_sum payload (length payload)) = wsum (concat ds @ payload)"
    using ds by (simp add: unat_add_small wsum_concat)
  then show ?thesis by (simp add: checksum_finish_norm internet_checksum_norm)
qed

lemma udp_checksum_eq:
  assumes "length payload \<le> 65527"
  shows "udp_checksum h payload (length payload) src dst =
    hton16 (internet_checksum (pseudo4 src dst (8 + length payload) @ udp_bytes h @ payload))"
proof -
  let ?ds = "[store32 src, store32 dst, store16 (hton16 (ucast IPV4_PROTOCOL_UDP)),
     store16 (hton16 (of_nat (8 + length payload))), udp_bytes h]"
  have "store16 (hton16 (ucast IPV4_PROTOCOL_UDP)) = [0, 17]" using be_len [of 17] by simp
  then have "concat ?ds @ payload = pseudo4 src dst (8 + length payload) @ udp_bytes h @ payload"
    by (simp only: pseudo4_def be_len concat.simps append.simps append_assoc append_Nil2)
  moreover have "udp_checksum h payload (length payload) src dst = hton16 (internet_checksum (concat ?ds @ payload))"
    unfolding udp_checksum_def using finish_parts [of ?ds payload] assms by (simp add: add.assoc)
  ultimately show ?thesis by (simp only:)
qed

lemma udp_ip6_checksum_eq:
  assumes "length payload \<le> 65527" "length src = 16" "length dst = 16"
  shows "udp_ip6_checksum h payload (length payload) src dst =
    hton16 (internet_checksum (pseudo6 src dst (8 + length payload) @ udp_bytes h @ payload))"
proof -
  let ?ds = "[src, dst, store32 (hton32 (of_nat (8 + length payload))), store32 (hton32 (ucast IPV6_NEXT_UDP)), udp_bytes h]"
  have "store32 (hton32 (ucast IPV6_NEXT_UDP)) = [0, 0, 0, 17]" using be_len32 [of 17] by simp
  moreover have "store32 (hton32 (of_nat (8 + length payload))) =
      [0, 0, of_nat ((8 + length payload) div 256), of_nat (8 + length payload)]"
    using assms(1) by (intro be_len32) simp
  ultimately have "concat ?ds @ payload = pseudo6 src dst (8 + length payload) @ udp_bytes h @ payload"
    by (simp only: pseudo6_def concat.simps append.simps append_assoc append_Nil2)
  moreover have "udp_ip6_checksum h payload (length payload) src dst = hton16 (internet_checksum (concat ?ds @ payload))"
    unfolding udp_ip6_checksum_def using finish_parts [of ?ds payload] assms by (simp add: add.assoc)
  ultimately show ?thesis by (simp only:)
qed

text \<open>C23. The checksums of IPv4 headers and of UDP over IPv4 and IPv6 are the Internet checksum of RFC 1071: summing the
  words in 32 bits and folding the carries afterwards (a loop that terminates) gives the same as
  end-around-carry additions, for every header length and payload a packet can have, odd lengths
  included; no sum overflows. In particular the UDP checksum 0 stays 0: the replacement by
  \<open>0xFFFF\<close> that follows the complement in the code compares the 32-bit complement with 0 and never applies.\<close>

theorem checksums_internet:
  assumes "even n" "n \<le> length extra" "n \<le> 65535" "length payload \<le> 65527" "length src6 = 16" "length dst6 = 16"
  shows "ipv4_checksum h extra n = hton16 (internet_checksum (ipv4_bytes h @ take n extra)) \<and>
    udp_checksum u payload (length payload) src dst =
      hton16 (internet_checksum (pseudo4 src dst (8 + length payload) @ udp_bytes u @ payload)) \<and>
    udp_ip6_checksum u payload (length payload) src6 dst6 =
      hton16 (internet_checksum (pseudo6 src6 dst6 (8 + length payload) @ udp_bytes u @ payload))"
  using ipv4_checksum_eq [OF assms(1-3)] udp_checksum_eq [OF assms(4)] udp_ip6_checksum_eq [OF assms(4-6)] by simp

theorem checksums_internet_witness:
  "udp_checksum \<lparr>source_port = 0, dest_port = 0, udp_length = 0, udp_check_field = 0\<rparr> [255, 228] 2 0 0 =
     hton16 (internet_checksum (pseudo4 0 0 10 @ [0, 0, 0, 0, 0, 0, 0, 0, 255, 228])) \<and>
   udp_checksum \<lparr>source_port = 0, dest_port = 0, udp_length = 0, udp_check_field = 0\<rparr> [255, 228] 2 0 0 = 0"
proof -
  let ?u = "\<lparr>source_port = 0, dest_port = 0, udp_length = 0, udp_check_field = 0\<rparr>"
  have "udp_checksum ?u [255, 228] 2 0 0 = hton16 (internet_checksum (pseudo4 0 0 10 @ [0, 0, 0, 0, 0, 0, 0, 0, 255, 228]))"
    using checksums_internet [of 0 "[]" "[255, 228]" "replicate 16 0" "replicate 16 0" _ ?u 0 0]
    by (simp add: udp_bytes_def store16_def numeral_2_eq_2)
  moreover have "internet_checksum (pseudo4 0 0 10 @ [0, 0, 0, 0, 0, 0, 0, 0, 255, 228]) = 0"
    by (simp add: internet_checksum_def pseudo4_def store32_def ones_add_def)
  moreover have "hton16 0 = 0" by (simp add: badvpn_reverse16_def store16_def)
  ultimately show ?thesis by simp
qed

section \<open>Damaged headers\<close>

lemma store_load_take:
  "2 \<le> length p \<Longrightarrow> store16 (load16 p) = take 2 p" "4 \<le> length p \<Longrightarrow> store32 (load32 p) = take 4 p"
proof -
  show "2 \<le> length p \<Longrightarrow> store16 (load16 p) = take 2 p"
    using store_load16_length [of "take 2 p"] by (simp add: load16_take)
  show "4 \<le> length p \<Longrightarrow> store32 (load32 p) = take 4 p"
    by (cases p rule: load32.cases) (use store_load32 in auto)
qed

lemma pair_take: "Suc n < length p \<Longrightarrow> [p ! n, p ! Suc n] = take 2 (drop n p)"
  by (simp add: Cons_nth_drop_Suc [symmetric] numeral_2_eq_2)

lemma take_20:
  "take 20 p = take 2 p @ take 2 (drop 2 p) @ take 2 (drop 4 p) @ take 2 (drop 6 p) @ take 2 (drop 8 p) @ take 2 (drop 10 p) @
    take 4 (drop 12 p) @ take 4 (drop 16 p)"
  using take_add [of 2 18 p] take_add [of 2 16 "drop 2 p"] take_add [of 2 14 "drop 4 p"] take_add [of 2 12 "drop 6 p"]
    take_add [of 2 10 "drop 8 p"] take_add [of 2 8 "drop 10 p"] take_add [of 4 4 "drop 12 p"] by simp

lemma ipv4_bytes_load:
  assumes "20 \<le> length p"
  shows "ipv4_bytes (ipv4_load p) = take 20 p"
proof -
  have "[p ! 0, p ! 1] = take 2 p" "[p ! 8, p ! 9] = take 2 (drop 8 p)" using pair_take [of 0 p] pair_take [of 8 p] assms by simp_all
  then show ?thesis using assms
    by (simp add: ipv4_bytes_def ipv4_load_def store_load_take take_20 del: load16.simps load32.simps flip: append_Cons)
qed

text \<open>The bytes the header checksum covers: the header with its checksum field cleared.\<close>

definition cleared :: "nat \<Rightarrow> byte list \<Rightarrow> byte list" where
  "cleared hl data = (take hl data)[10 := 0, 11 := 0]"

lemma ipv4_bytes_cleared:
  assumes "20 \<le> hl" "hl \<le> length p"
  shows "ipv4_bytes ((ipv4_load p)\<lparr>ip_checksum := hton16 0\<rparr>) @ take (hl - 20) (drop 20 p) = cleared hl p"
proof -
  have z: "store16 (hton16 0) = [0, 0]" by (simp add: store16_be)
  have t10: "take 10 p = take 2 p @ take 2 (drop 2 p) @ take 2 (drop 4 p) @ take 2 (drop 6 p) @ take 2 (drop 8 p)"
    using take_add [of 2 8 p] take_add [of 2 6 "drop 2 p"] take_add [of 2 4 "drop 4 p"] take_add [of 2 2 "drop 6 p"] by simp
  have "[p ! 0, p ! 1] = take 2 p" "[p ! 8, p ! 9] = take 2 (drop 8 p)" using pair_take [of 0 p] pair_take [of 8 p] assms by simp_all
  then have "ipv4_bytes ((ipv4_load p)\<lparr>ip_checksum := hton16 0\<rparr>) = take 10 p @ [0, 0] @ take 4 (drop 12 p) @ take 4 (drop 16 p)"
    using assms z t10 by (simp add: ipv4_bytes_def ipv4_load_def store_load_take del: load16.simps load32.simps flip: append_Cons)
  also have "take 4 (drop 12 p) @ take 4 (drop 16 p) = take 8 (drop 12 p)" using take_add [of 4 4 "drop 12 p"] by simp
  finally have "ipv4_bytes ((ipv4_load p)\<lparr>ip_checksum := hton16 0\<rparr>) @ take (hl - 20) (drop 20 p) =
      take 10 p @ [0, 0] @ take (hl - 12) (drop 12 p)"
    using take_add [of 8 "hl - 20" "drop 12 p"] assms by simp
  also have "\<dots> = cleared hl p"
    unfolding cleared_def using assms
    by (intro nth_equalityI) (auto simp: nth_append nth_list_update nth_Cons split: nat.splits intro!: arg_cong [where f = "(!) p"])
  finally show ?thesis .
qed

lemma wsum_update:
  "i < length xs \<Longrightarrow> wsum (xs[i := v]) + (if even i then 256 else 1) * unat (xs ! i) = wsum xs + (if even i then 256 else 1) * unat v"
proof (induction xs arbitrary: i rule: be_words.induct)
  case (1 a b r)
  show ?case
  proof (cases i)
    case (Suc j)
    show ?thesis
    proof (cases j)
      case (Suc k)
      then show ?thesis using 1 \<open>i = Suc j\<close> by (auto split: if_splits)
    qed (simp add: Suc)
  qed simp
qed simp_all

lemma ones_norm_mod: "ones_norm a = ones_norm b \<Longrightarrow> (int a - int b) mod 65535 = 0"
proof -
  assume eq: "ones_norm a = ones_norm b"
  define n where "n = ones_norm b"
  obtain j k where "a = n + 65535 * j" "b = n + 65535 * k"
    using ones_norm_split [of a] ones_norm_split [of b] unfolding eq n_def by blast
  then have "int a - int b = 65535 * (int j - int k)" by simp
  then show ?thesis by simp
qed

lemma internet_checksum_detects:
  assumes "i < length xs" "internet_checksum (xs[i := v]) = internet_checksum xs"
  shows "v = xs ! i"
proof -
  have "(of_nat (ones_norm (wsum (xs[i := v]))) :: u16) = of_nat (ones_norm (wsum xs))"
    using assms(2) unfolding internet_checksum_norm by (metis bit.double_compl)
  then have "ones_norm (wsum (xs[i := v])) = ones_norm (wsum xs)"
    using ones_norm_le [of "wsum (xs[i := v])"] ones_norm_le [of "wsum xs"]
    by (simp add: word_of_nat_eq_iff take_bit_nat_eq_self)
  then have m: "(int (wsum (xs[i := v])) - int (wsum xs)) mod 65535 = 0" by (rule ones_norm_mod)
  define c :: int where "c = (if even i then 256 else 1)"
  have c: "c = 256 \<or> c = 1" by (simp add: c_def)
  have "int (wsum (xs[i := v])) - int (wsum xs) = c * (int (unat v) - int (unat (xs ! i)))"
    using arg_cong [OF wsum_update [OF assms(1), of v], of int] unfolding c_def by (simp add: algebra_simps split: if_splits)
  with m have d: "c * (int (unat v) - int (unat (xs ! i))) mod 65535 = 0" by simp
  define x y where xy: "x = unat v" "y = unat (xs ! i)"
  have "x \<le> 255" "y \<le> 255" unfolding xy by (rule unat_byte_le)+
  then have "\<bar>c * (int x - int y)\<bar> < 65535" using c by auto
  moreover have "65535 dvd c * (int x - int y)" using d unfolding xy [symmetric] by (rule mod_0_imp_dvd)
  ultimately have "c * (int x - int y) = 0" using dvd_imp_le_int [of "c * (int x - int y)" 65535] by linarith
  then have "unat v = unat (xs ! i)" using c unfolding xy [symmetric] by auto
  then show ?thesis by (simp add: word_unat_eq_iff)
qed

text \<open>What a header must meet, and that the check tests exactly this.\<close>

definition ipv4_accepts :: "nat \<Rightarrow> byte list \<Rightarrow> bool" where
  "ipv4_accepts hl p \<longleftrightarrow> 20 \<le> length p \<and> IPV4_GET_VERSION (ipv4_load p) = 4 \<and> 20 \<le> hl \<and> hl \<le> length p \<and>
     hl \<le> unat (ntoh16 (total_length (ipv4_load p))) \<and> unat (ntoh16 (total_length (ipv4_load p))) \<le> length p \<and>
     ip_checksum (ipv4_load p) = hton16 (internet_checksum (cleared hl p))"

lemma ihl_bound: "unat (IPV4_GET_IHL h) \<le> 15"
proof -
  have "IPV4_GET_IHL h \<le> 15" by (simp add: IPV4_GET_IHL_def word_and_le1)
  then show ?thesis by (simp add: word_le_nat_alt)
qed

lemma ipv4_check_iff:
  assumes "hl = unat (IPV4_GET_IHL (ipv4_load p)) * 4"
  shows "ipv4_check p = (if ipv4_accepts hl p
    then Some (ipv4_load p, take (unat (ntoh16 (total_length (ipv4_load p))) - hl) (drop hl p)) else None)"
proof (cases "20 \<le> hl \<and> hl \<le> length p")
  case True
  then have "even (hl - 20)" "hl - 20 \<le> length (drop 20 p)" "hl - 20 \<le> 65535"
    using assms ihl_bound [of "ipv4_load p"] by auto
  then have "ipv4_checksum ((ipv4_load p)\<lparr>ip_checksum := hton16 0\<rparr>) (drop 20 p) (hl - 20) = hton16 (internet_checksum (cleared hl p))"
    using ipv4_checksum_eq [of "hl - 20" "drop 20 p"] ipv4_bytes_cleared [of hl p] True by simp
  then show ?thesis using True by (simp add: ipv4_check_def ipv4_accepts_def Let_def assms [symmetric])
next
  case False
  then show ?thesis by (auto simp: ipv4_check_def ipv4_accepts_def Let_def assms [symmetric])
qed

text \<open>C34. A damaged IPv4 header is not accepted: when a packet passes the check, changing any single byte of its header (options
  and checksum included, the byte with the version and the header length aside) to any other value makes
  the check fail.\<close>

theorem ipv4_damage_detected:
  assumes "ipv4_check data = Some (h, payload)" "0 < i" "i < unat (IPV4_GET_IHL h) * 4" "v \<noteq> data ! i"
  shows "ipv4_check (data[i := v]) = None"
proof -
  define hl where "hl = unat (IPV4_GET_IHL (ipv4_load data)) * 4"
  have acc: "ipv4_accepts hl data" and h: "h = ipv4_load data"
    using assms(1) ipv4_check_iff [OF hl_def] by (auto split: if_splits)
  then have i: "i < hl" "20 \<le> hl" "hl \<le> length data" using assms(3) by (simp_all add: hl_def ipv4_accepts_def)
  have "version4_ihl4 (ipv4_load (data[i := v])) = version4_ihl4 (ipv4_load data)" using assms(2) by (simp add: ipv4_load_def)
  then have "hl = unat (IPV4_GET_IHL (ipv4_load (data[i := v]))) * 4" by (simp add: hl_def IPV4_GET_IHL_def)
  note chk = ipv4_check_iff [OF this]
  have sum: "ip_checksum (ipv4_load data) = hton16 (internet_checksum (cleared hl data))" using acc by (simp add: ipv4_accepts_def)
  have "ip_checksum (ipv4_load (data[i := v])) \<noteq> hton16 (internet_checksum (cleared hl (data[i := v])))"
  proof (cases "i = 10 \<or> i = 11")
    case True
    have "cleared hl (data[i := v]) = cleared hl data"
      using True i by (intro nth_equalityI) (auto simp: cleared_def nth_list_update)
    moreover have "take 2 (drop 10 (data[i := v])) ! (i - 10) \<noteq> take 2 (drop 10 data) ! (i - 10)"
      using True i assms(4) by auto
    then have "store16 (load16 (drop 10 (data[i := v]))) \<noteq> store16 (load16 (drop 10 data))"
      using i by (auto simp: store_load_take)
    ultimately show ?thesis using sum by (simp add: ipv4_load_def)
  next
    case False
    have "cleared hl (data[i := v]) = (cleared hl data)[i := v]"
      using False i by (intro nth_equalityI) (auto simp: cleared_def nth_list_update)
    moreover have "cleared hl data ! i = data ! i" "i < length (cleared hl data)" using False i by (auto simp: cleared_def)
    ultimately have "internet_checksum (cleared hl (data[i := v])) \<noteq> internet_checksum (cleared hl data)"
      using internet_checksum_detects [of i "cleared hl data" v] assms(4) by auto
    moreover have "load16 (drop 10 (data[i := v])) = load16 (drop 10 data)"
    proof -
      have "take 2 (drop 10 (data[i := v])) = take 2 (drop 10 data)"
        using False i by (intro nth_equalityI) (auto simp: nth_list_update)
      then show ?thesis using load16_take [of 2 "drop 10 data"] load16_take [of 2 "drop 10 (data[i := v])"] by simp
    qed
    ultimately show ?thesis using sum by (simp add: ipv4_load_def)
  qed
  then show ?thesis unfolding chk by (simp add: ipv4_accepts_def)
qed

theorem ipv4_damage_detected_witness:
  "ipv4_check ([0x45, 0, 0, 20, 0, 0, 0, 0, 64, 17, 0x7A, 0xDA] @ [0, 0, 0, 0, 0, 0, 0, 7]) = None"
proof -
  let ?p = "[0x45, 0, 0, 20, 0, 0, 0, 0, 64, 17, 0x7A, 0xDA] @ [0, 0, 0, 0, 0, 0, 0, 0] :: byte list"
  have "ipv4_check ?p = Some (ipv4_load ?p, [])" "unat (IPV4_GET_IHL (ipv4_load ?p)) = 5" by code_simp+
  then show ?thesis using ipv4_damage_detected [of ?p "ipv4_load ?p" "[]" 19 7] by simp
qed

end
