(* ===== verification/TunUdp.thy ===== *)
theory TunUdp
  imports NetProto
begin

text \<open>
  The packet side of \<open>tun2socks/tun2socks.c\<close>: what happens to a packet read from the virtual device (UDP is
  recognised, checked and submitted to the UDP client, everything else is handed to the TCP/IP stack), how a
  datagram from the UDP client becomes a packet for the device, and how packets of the stack are written
  to the device. The TCP/IP stack (lwip) is outside the model: its \<open>pbuf\<close> chains are lists of segments,
  allocation and input are parameters.
\<close>

section \<open>State and calls\<close>

text \<open>The options the code tests, the MTU of the UDP client and of the device.\<close>

record t2s_config =
  opt_udpgw_remote_server_addr :: bool
  opt_dnsgw :: bool
  opt_netif_ip6addr :: bool
  udp_mtu :: int
  tap_mtu :: int
  quitting :: bool

text \<open>\<open>DnsHeader\<close>: 12 bytes; \<open>qr\<close> is the top bit of the third, \<open>rcode\<close> the low half of the fourth.\<close>

definition dns_query :: "byte list \<Rightarrow> bool" where
  "dns_query data \<longleftrightarrow>
     drop_bit 7 (data ! 2) = 0 \<and> data ! 3 AND 0x0F = 0 \<and> load16 (drop 6 data) = 0 \<and> load16 (drop 8 data) = 0"

definition is_dns_packet :: "t2s_config \<Rightarrow> u16 \<Rightarrow> byte list \<Rightarrow> bool" where
  "is_dns_packet c dport data \<longleftrightarrow>
     (let is_dns = opt_dnsgw c \<and> dport = hton16 53 in
      if is_dns then (if length data < 12 then False else dns_query data) else False)"

text \<open>\<open>process_device_udp_packet\<close>: what is submitted to the UDP client, \<open>None\<close> for the result 0.\<close>

definition process_udp4 :: "t2s_config \<Rightarrow> byte list \<Rightarrow> (BAddr \<times> BAddr \<times> bool \<times> byte list) option" where
  "process_udp4 c data =
     (if length data < 20 \<or> data ! 9 \<noteq> IPV4_PROTOCOL_UDP then None
      else case ipv4_check data of None \<Rightarrow> None
      | Some (iph, data) \<Rightarrow>
          case udp_check data of None \<Rightarrow> None
          | Some (udph, data) \<Rightarrow>
              let checksum_in_packet = udp_check_field udph; udph = udph\<lparr>udp_check_field := 0\<rparr>;
                  checksum_computed = udp_checksum udph data (length data) (source_address iph) (destination_address iph) in
              if checksum_in_packet \<noteq> checksum_computed then None
              else Some (BAddr_IPv4 (source_address iph) (source_port udph),
                         BAddr_IPv4 (destination_address iph) (dest_port udph),
                         is_dns_packet c (dest_port udph) data, data))"

definition process_udp6 :: "t2s_config \<Rightarrow> byte list \<Rightarrow> (BAddr \<times> BAddr \<times> bool \<times> byte list) option" where
  "process_udp6 c data =
     (if \<not> opt_netif_ip6addr c then None
      else if length data < 40 \<or> data ! 6 \<noteq> IPV6_NEXT_UDP then None
      else case ipv6_check data of None \<Rightarrow> None
      | Some (iph, data) \<Rightarrow>
          case udp_check data of None \<Rightarrow> None
          | Some (udph, data) \<Rightarrow>
              let checksum_in_packet = udp_check_field udph; udph = udph\<lparr>udp_check_field := 0\<rparr>;
                  checksum_computed = udp_ip6_checksum udph data (length data) (source_address6 iph) (destination_address6 iph) in
              if checksum_in_packet \<noteq> checksum_computed then None
              else Some (BAddr_IPv6 (source_address6 iph) (source_port udph),
                         BAddr_IPv6 (destination_address6 iph) (dest_port udph), False, data))"

definition process_device_udp_packet :: "t2s_config \<Rightarrow> byte list \<Rightarrow> (BAddr \<times> BAddr \<times> bool \<times> byte list) option" where
  "process_device_udp_packet c data =
     (if \<not> opt_udpgw_remote_server_addr c then None
      else let ip_version = (if length data > 0 then drop_bit 4 (data ! 0) else 0);
               r = (if ip_version = 4 then process_udp4 c data else if ip_version = 6 then process_udp6 c data else None)
           in case r of None \<Rightarrow> None
              | Some (l, rem, dns, payload) \<Rightarrow> if int (length payload) > udp_mtu c then None else Some (l, rem, dns, payload))"

datatype t2s_call =
  T2S_ReadDone
| T2S_Submit BAddr BAddr bool "byte list"
| T2S_Input "byte list"
| T2S_PbufFree "byte list"
| T2S_Send "byte list"

text \<open>\<open>netif_input_func\<close>, the input function of the interface; the result of the stack's own input functions
  is a parameter, and so is whether a \<open>pbuf\<close> could be allocated.\<close>

definition netif_input_func :: "(byte list \<Rightarrow> bool) \<Rightarrow> t2s_config \<Rightarrow> byte list \<Rightarrow> bool \<times> t2s_call list" where
  "netif_input_func ip_input c p =
     (let ip_version = (if length p > 0 then drop_bit 4 (p ! 0) else 0) in
      if ip_version = 4 then (ip_input p, [T2S_Input p])
      else if ip_version = 6 \<and> opt_netif_ip6addr c then (ip_input p, [T2S_Input p])
      else (True, [T2S_PbufFree p]))"

definition device_read_handler_send :: "bool \<Rightarrow> (byte list \<Rightarrow> bool) \<Rightarrow> t2s_config \<Rightarrow> byte list \<Rightarrow> t2s_call list" where
  "device_read_handler_send pbuf_alloc ip_input c data =
     T2S_ReadDone #
       (case process_device_udp_packet c data of
          Some (l, r, dns, payload) \<Rightarrow> [T2S_Submit l r dns payload]
        | None \<Rightarrow>
            if length data > 65535 then []
            else if \<not> pbuf_alloc then []
            else let (ok, calls) = netif_input_func ip_input c data in
              if \<not> ok then calls @ [T2S_PbufFree data] else calls)"

text \<open>\<open>common_netif_output\<close>: a chain of one segment is sent as it is, a longer one is gathered in
  \<open>device_write_buf\<close>.\<close>

fun gather :: "int \<Rightarrow> byte list list \<Rightarrow> byte list \<Rightarrow> int \<Rightarrow> byte list \<times> int option" where
  "gather mtu [] buf len = (buf, Some len)"
| "gather mtu (p # ps) buf len =
     (if int (length p) > mtu - len then (buf, None)
      else gather mtu ps (memcpy_at buf (nat len) p) (len + int (length p)))"

definition common_netif_output :: "t2s_config \<Rightarrow> byte list \<Rightarrow> byte list list \<Rightarrow> byte list \<times> t2s_call list" where
  "common_netif_output c buf chain =
     (if quitting c then (buf, [])
      else case chain of
        [p] \<Rightarrow> if int (length p) > tap_mtu c then (buf, []) else (buf, [T2S_Send p])
      | _ \<Rightarrow> (case gather (tap_mtu c) chain buf 0 of
          (buf, None) \<Rightarrow> (buf, [])
        | (buf, Some len) \<Rightarrow> (buf, [T2S_Send (sub_bytes 0 (nat len) buf)])))"

text \<open>\<open>udpgw_client_handler_received\<close>: the packet is built in \<open>device_write_buf\<close>. The two addresses are of one family,
  which the code asserts.\<close>

definition build_udp4 :: "u32 \<Rightarrow> u16 \<Rightarrow> u32 \<Rightarrow> u16 \<Rightarrow> byte list \<Rightarrow> ipv4_header \<times> udp_header" where
  "build_udp4 lip lport rip rport data =
     (let iph = \<lparr>version4_ihl4 = IPV4_MAKE_VERSION_IHL 20, ip_ds = 0, total_length = hton16 (of_nat (20 + 8 + length data)),
            identification = hton16 0, flags3_fragmentoffset13 = hton16 0, ttl = 64, protocol = IPV4_PROTOCOL_UDP,
            ip_checksum = hton16 0, source_address = rip, destination_address = lip\<rparr>;
          iph = iph\<lparr>ip_checksum := ipv4_checksum iph [] 0\<rparr>;
          udph = \<lparr>source_port = rport, dest_port = lport, udp_length = hton16 (of_nat (8 + length data)), udp_check_field = hton16 0\<rparr>;
          udph = udph\<lparr>udp_check_field := udp_checksum udph data (length data) (source_address iph) (destination_address iph)\<rparr>
      in (iph, udph))"

definition build_udp6 :: "byte list \<Rightarrow> u16 \<Rightarrow> byte list \<Rightarrow> u16 \<Rightarrow> byte list \<Rightarrow> ipv6_header \<times> udp_header" where
  "build_udp6 lip lport rip rport data =
     (let iph = \<lparr>version4_tc4 = push_bit 4 6, tc4_fl4 = 0, fl = hton16 0, payload_length = hton16 (of_nat (8 + length data)),
            next_header = IPV6_NEXT_UDP, hop_limit = 64, source_address6 = rip, destination_address6 = lip\<rparr>;
          udph = \<lparr>source_port = rport, dest_port = lport, udp_length = hton16 (of_nat (8 + length data)), udp_check_field = hton16 0\<rparr>;
          udph = udph\<lparr>udp_check_field := udp_ip6_checksum udph data (length data) (source_address6 iph) (destination_address6 iph)\<rparr>
      in (iph, udph))"

text \<open>The packet is written header by header and the whole is sent.\<close>

definition write_packet :: "byte list \<Rightarrow> byte list \<Rightarrow> byte list \<Rightarrow> byte list \<Rightarrow> byte list \<times> t2s_call list" where
  "write_packet buf iph udph data =
     (let buf = memcpy_at buf 0 iph;
          buf = memcpy_at buf (length iph) udph;
          buf = memcpy_at buf (length iph + length udph) data;
          packet_length = length iph + length udph + length data
      in (buf, [T2S_Send (sub_bytes 0 packet_length buf)]))"

fun udpgw_client_handler_received :: "t2s_config \<Rightarrow> byte list \<Rightarrow> BAddr \<Rightarrow> BAddr \<Rightarrow> byte list \<Rightarrow> byte list \<times> t2s_call list" where
  "udpgw_client_handler_received c buf (BAddr_IPv4 lip lport) (BAddr_IPv4 rip rport) data =
     (if int (length data) > 65535 - (20 + 8) \<or> int (length data) > tap_mtu c - (20 + 8) then (buf, [])
      else let (iph, udph) = build_udp4 lip lport rip rport data in write_packet buf (ipv4_bytes iph) (udp_bytes udph) data)"
| "udpgw_client_handler_received c buf (BAddr_IPv6 lip lport) (BAddr_IPv6 rip rport) data =
     (if \<not> opt_netif_ip6addr c then (buf, [])
      else if int (length data) > 65535 - 8 \<or> int (length data) > tap_mtu c - (40 + 8) then (buf, [])
      else let (iph, udph) = build_udp6 lip lport rip rport data in write_packet buf (ipv6_bytes iph) (udp_bytes udph) data)"
| "udpgw_client_handler_received c buf _ _ data = (buf, [])"

section \<open>Layout\<close>

lemma udp_load_bytes [simp]: "udp_load (udp_bytes h @ r) = h"
  by (simp add: udp_load_def udp_bytes_def)

lemma ipv4_load_bytes [simp]: "ipv4_load (ipv4_bytes h @ r) = h"
  by (simp add: ipv4_load_def ipv4_bytes_def nth_append)

lemma ipv6_load_bytes:
  "length (source_address6 h) = 16 \<Longrightarrow> length (destination_address6 h) = 16 \<Longrightarrow> ipv6_load (ipv6_bytes h @ r) = h"
  by (simp add: ipv6_load_def ipv6_bytes_def nth_append sub_bytes_def)

lemma unat_len: "n < 65536 \<Longrightarrow> unat (of_nat n :: u16) = n"
  by (simp add: unsigned_of_nat take_bit_nat_eq_self)

lemma udp_check_bytes:
  assumes "udp_length h = hton16 (of_nat (8 + length data))" "length data \<le> 65527"
  shows "udp_check (udp_bytes h @ data) = Some (h, data)"
  using assms unat_len [of "8 + length data"] by (simp add: udp_check_def Let_def)

lemma make_version_ihl:
  "version4_ihl4 h = IPV4_MAKE_VERSION_IHL 20 \<Longrightarrow> IPV4_GET_VERSION h = 4 \<and> unat (IPV4_GET_IHL h) = 5"
  by (simp add: IPV4_MAKE_VERSION_IHL_def IPV4_GET_VERSION_def IPV4_GET_IHL_def push_bit_nat_def)

lemma ipv4_check_bytes:
  assumes "version4_ihl4 h = IPV4_MAKE_VERSION_IHL 20" "total_length h = hton16 (of_nat (20 + length data))"
    and "length data \<le> 65515" "ip_checksum h = ipv4_checksum (h\<lparr>ip_checksum := hton16 0\<rparr>) [] 0"
  shows "ipv4_check (ipv4_bytes h @ data) = Some (h, data)"
proof -
  let ?p = "ipv4_bytes h @ data"
  have ihl: "20 = unat (IPV4_GET_IHL (ipv4_load ?p)) * 4" using make_version_ihl [OF assms(1)] by simp
  have "cleared 20 ?p = ipv4_bytes (h\<lparr>ip_checksum := hton16 0\<rparr>)" using ipv4_bytes_cleared [of 20 ?p] by simp
  then have "ip_checksum h = hton16 (internet_checksum (cleared 20 ?p))"
    using assms(4) ipv4_checksum_eq [of 0 "[]"] by simp
  then have "ipv4_accepts 20 ?p"
    using make_version_ihl [OF assms(1)] assms(2,3) unat_len [of "20 + length data"] by (simp add: ipv4_accepts_def)
  then show ?thesis
    using ipv4_check_iff [OF ihl] assms(2,3) unat_len [of "20 + length data"] by simp
qed

lemma ipv6_check_bytes:
  assumes "version4_tc4 h = push_bit 4 6" "payload_length h = hton16 (of_nat (length data))" "length data \<le> 65535"
    and "length (source_address6 h) = 16" "length (destination_address6 h) = 16"
  shows "ipv6_check (ipv6_bytes h @ data) = Some (h, data)"
proof -
  have "length (ipv6_bytes h) = 40" using assms by (simp add: ipv6_bytes_def)
  then show ?thesis
    using assms unat_len [of "length data"] by (simp add: ipv6_check_def Let_def ipv6_load_bytes)
qed

lemma write_packet_eq:
  assumes "length iph + length udph + length data \<le> length buf"
  shows "snd (write_packet buf iph udph data) = [T2S_Send (iph @ udph @ data)]"
    and "length (fst (write_packet buf iph udph data)) = length buf"
proof -
  have "memcpy_at (memcpy_at (memcpy_at buf 0 iph) (length iph) udph) (length iph + length udph) data = memcpy_at buf 0 (iph @ udph @ data)"
    using assms by (simp add: memcpy_append)
  then have w: "write_packet buf iph udph data = (memcpy_at buf 0 (iph @ udph @ data),
      [T2S_Send (sub_bytes 0 (length iph + length udph + length data) (memcpy_at buf 0 (iph @ udph @ data)))])"
    by (simp add: write_packet_def Let_def)
  then show "snd (write_packet buf iph udph data) = [T2S_Send (iph @ udph @ data)]"
    using assms by (simp add: sub_bytes_memcpy_same)
  show "length (fst (write_packet buf iph udph data)) = length buf" unfolding w using assms by (simp add: length_memcpy_at)
qed

section \<open>Building and reading packets\<close>

lemma process_built4:
  assumes "length data \<le> 65507" "build_udp4 lip lport rip rport data = (iph, udph)"
  shows "process_udp4 c (ipv4_bytes iph @ udp_bytes udph @ data) =
    Some (BAddr_IPv4 rip rport, BAddr_IPv4 lip lport, is_dns_packet c lport data, data)"
    and "drop_bit 4 ((ipv4_bytes iph @ udp_bytes udph @ data) ! 0) = 4"
proof -
  have v: "version4_ihl4 iph = IPV4_MAKE_VERSION_IHL 20" and f: "protocol iph = 17" "source_address iph = rip" "destination_address iph = lip"
    and u: "source_port udph = rport" "dest_port udph = lport" "udp_length udph = hton16 (of_nat (8 + length data))"
      "udp_check_field udph = udp_checksum (udph\<lparr>udp_check_field := 0\<rparr>) data (length data) rip lip"
    and t: "total_length iph = hton16 (of_nat (20 + length (udp_bytes udph @ data)))"
      "ip_checksum iph = ipv4_checksum (iph\<lparr>ip_checksum := hton16 0\<rparr>) [] 0"
    using assms(2) by (auto simp: build_udp4_def Let_def badvpn_reverse16_def store16_def)
  show "drop_bit 4 ((ipv4_bytes iph @ udp_bytes udph @ data) ! 0) = 4"
    using v by (simp add: ipv4_bytes_def IPV4_MAKE_VERSION_IHL_def push_bit_nat_def)
  have "(ipv4_bytes iph @ udp_bytes udph @ data) ! 9 = 17" using f by (simp add: ipv4_bytes_def nth_append)
  moreover have "ipv4_check (ipv4_bytes iph @ udp_bytes udph @ data) = Some (iph, udp_bytes udph @ data)"
    using v t assms(1) by (intro ipv4_check_bytes) simp_all
  moreover have "udp_check (udp_bytes udph @ data) = Some (udph, data)" using u assms(1) by (intro udp_check_bytes) simp_all
  ultimately show "process_udp4 c (ipv4_bytes iph @ udp_bytes udph @ data) =
      Some (BAddr_IPv4 rip rport, BAddr_IPv4 lip lport, is_dns_packet c lport data, data)"
    using u f by (simp add: process_udp4_def Let_def)
qed

lemma process_built6:
  assumes "length data \<le> 65527" "build_udp6 lip lport rip rport data = (iph, udph)" "length lip = 16" "length rip = 16"
    and "opt_netif_ip6addr c"
  shows "process_udp6 c (ipv6_bytes iph @ udp_bytes udph @ data) = Some (BAddr_IPv6 rip rport, BAddr_IPv6 lip lport, False, data)"
    and "drop_bit 4 ((ipv6_bytes iph @ udp_bytes udph @ data) ! 0) = 6"
proof -
  have v: "version4_tc4 iph = push_bit 4 6" and f: "next_header iph = 17" "source_address6 iph = rip" "destination_address6 iph = lip"
    and u: "source_port udph = rport" "dest_port udph = lport" "udp_length udph = hton16 (of_nat (8 + length data))"
      "udp_check_field udph = udp_ip6_checksum (udph\<lparr>udp_check_field := 0\<rparr>) data (length data) rip lip"
    and t: "payload_length iph = hton16 (of_nat (length (udp_bytes udph @ data)))"
    using assms(2) by (auto simp: build_udp6_def Let_def badvpn_reverse16_def store16_def)
  show "drop_bit 4 ((ipv6_bytes iph @ udp_bytes udph @ data) ! 0) = 6" using v by (simp add: ipv6_bytes_def)
  have "(ipv6_bytes iph @ udp_bytes udph @ data) ! 6 = 17" using f by (simp add: ipv6_bytes_def nth_append)
  moreover have "40 \<le> length (ipv6_bytes iph @ udp_bytes udph @ data)" using f assms(3,4) by (simp add: ipv6_bytes_def)
  moreover have "ipv6_check (ipv6_bytes iph @ udp_bytes udph @ data) = Some (iph, udp_bytes udph @ data)"
    using v t f assms by (intro ipv6_check_bytes) simp_all
  moreover have "udp_check (udp_bytes udph @ data) = Some (udph, data)" using u assms(1) by (intro udp_check_bytes) simp_all
  ultimately show "process_udp6 c (ipv6_bytes iph @ udp_bytes udph @ data) =
      Some (BAddr_IPv6 rip rport, BAddr_IPv6 lip lport, False, data)"
    using u f assms(5) by (simp add: process_udp6_def Let_def)
qed

text \<open>The headers in front of a payload, and the largest payload a packet can have.\<close>

definition header_room :: "BAddr \<Rightarrow> int" where
  "header_room a = (if BAddr_type a = 2 then 48 else 28)"

definition payload_room :: "t2s_config \<Rightarrow> BAddr \<Rightarrow> int" where
  "payload_room c a = min (tap_mtu c - header_room a) (if BAddr_type a = 2 then 65527 else 65507)"

lemma received_built:
  assumes "addr_wf l" "addr_wf r" "BAddr_type l = BAddr_type r" "l \<noteq> BAddr_None" "BAddr_type l = 2 \<longrightarrow> opt_netif_ip6addr c"
    and "tap_mtu c = int (length buf)" "int (length data) \<le> payload_room c l"
  shows "\<exists>pkt dns. snd (udpgw_client_handler_received c buf l r data) = [T2S_Send pkt] \<and>
    int (length pkt) = header_room l + int (length data) \<and>
    (if drop_bit 4 (pkt ! 0) = 4 then process_udp4 c pkt
     else if drop_bit 4 (pkt ! 0) = 6 then process_udp6 c pkt else None) = Some (r, l, dns, data) \<and> pkt \<noteq> []"
proof (cases l)
  case (BAddr_IPv4 lip lport)
  then obtain rip rport where r: "r = BAddr_IPv4 rip rport" using assms(3) by (cases r) auto
  obtain iph udph where b: "build_udp4 lip lport rip rport data = (iph, udph)" by fastforce
  have len: "length data \<le> 65507" "28 + length data \<le> length buf"
    using assms(6,7) by (simp_all add: payload_room_def header_room_def BAddr_IPv4)
  have "snd (udpgw_client_handler_received c buf l r data) = [T2S_Send (ipv4_bytes iph @ udp_bytes udph @ data)]"
    using len b r assms(6) write_packet_eq(1) [of "ipv4_bytes iph" "udp_bytes udph" data buf] by (simp add: BAddr_IPv4)
  moreover have "ipv4_bytes iph @ udp_bytes udph @ data \<noteq> []" by (simp add: ipv4_bytes_def)
  ultimately show ?thesis
    using process_built4(1) [OF len(1) b, of c] process_built4(2) [OF len(1) b] BAddr_IPv4 r by (simp add: header_room_def)
next
  case (BAddr_IPv6 lip lport)
  then obtain rip rport where r: "r = BAddr_IPv6 rip rport" using assms(3) by (cases r) auto
  obtain iph udph where b: "build_udp6 lip lport rip rport data = (iph, udph)" by fastforce
  have len: "length data \<le> 65527" "48 + length data \<le> length buf" "length lip = 16" "length rip = 16" "opt_netif_ip6addr c"
    using assms r by (simp_all add: payload_room_def header_room_def BAddr_IPv6)
  have "source_address6 iph = rip" "destination_address6 iph = lip" using b by (auto simp: build_udp6_def Let_def)
  then have h: "length (ipv6_bytes iph) = 40" using len by (simp add: ipv6_bytes_def)
  have "snd (udpgw_client_handler_received c buf l r data) = [T2S_Send (ipv6_bytes iph @ udp_bytes udph @ data)]"
    using len b r h assms(6) write_packet_eq(1) [of "ipv6_bytes iph" "udp_bytes udph" data buf] by (simp add: BAddr_IPv6)
  moreover have "ipv6_bytes iph @ udp_bytes udph @ data \<noteq> []" using h by auto
  ultimately show ?thesis
    using process_built6 [OF len(1) b len(3,4,5)] BAddr_IPv6 r h
    by (intro exI [of _ "ipv6_bytes iph @ udp_bytes udph @ data"] exI [of _ False]) (simp add: header_room_def)
qed (use assms(4) in simp)

text \<open>C14. A datagram from the gateway reaches the device as a packet the program itself would take for that datagram: the packet
  is sent exactly when it fits the device and the protocol's length fields, it lies within the write
  buffer, and reading it back from the device passes every check (version, lengths, header checksum, UDP
  checksum) and yields the same payload with source and destination exchanged, for IPv4 and IPv6.\<close>

theorem device_udp_roundtrip:
  assumes "addr_wf l" "addr_wf r" "BAddr_type l = BAddr_type r" "l \<noteq> BAddr_None" "BAddr_type l = 2 \<longrightarrow> opt_netif_ip6addr c"
    and "tap_mtu c = int (length buf)"
  shows "(int (length data) > payload_room c l \<longrightarrow> udpgw_client_handler_received c buf l r data = (buf, [])) \<and>
    (int (length data) \<le> payload_room c l \<longrightarrow>
      (\<exists>pkt. snd (udpgw_client_handler_received c buf l r data) = [T2S_Send pkt] \<and>
        int (length pkt) = header_room l + int (length data) \<and> int (length pkt) \<le> tap_mtu c \<and>
        (opt_udpgw_remote_server_addr c \<and> int (length data) \<le> udp_mtu c \<longrightarrow>
          (\<exists>dns. process_device_udp_packet c pkt = Some (r, l, dns, data)))))"
proof (intro conjI impI)
  assume "int (length data) > payload_room c l"
  then show "udpgw_client_handler_received c buf l r data = (buf, [])"
    using assms(3,4) by (cases l; cases r) (auto simp: payload_room_def header_room_def)
next
  assume fits: "int (length data) \<le> payload_room c l"
  obtain pkt dns where p: "snd (udpgw_client_handler_received c buf l r data) = [T2S_Send pkt]"
    "int (length pkt) = header_room l + int (length data)"
    "(if drop_bit 4 (pkt ! 0) = 4 then process_udp4 c pkt
     else if drop_bit 4 (pkt ! 0) = 6 then process_udp6 c pkt else None) = Some (r, l, dns, data)" "pkt \<noteq> []"
    using received_built [OF assms fits] by blast
  have "process_device_udp_packet c pkt = Some (r, l, dns, data)"
    if "opt_udpgw_remote_server_addr c" "int (length data) \<le> udp_mtu c"
    using p(3,4) that by (simp add: process_device_udp_packet_def)
  moreover have "int (length pkt) \<le> tap_mtu c" using p(2) fits by (simp add: payload_room_def)
  ultimately show "\<exists>pkt. snd (udpgw_client_handler_received c buf l r data) = [T2S_Send pkt] \<and>
        int (length pkt) = header_room l + int (length data) \<and> int (length pkt) \<le> tap_mtu c \<and>
        (opt_udpgw_remote_server_addr c \<and> int (length data) \<le> udp_mtu c \<longrightarrow>
          (\<exists>dns. process_device_udp_packet c pkt = Some (r, l, dns, data)))"
    using p(1,2) by blast
qed

definition demo_config :: t2s_config where
  "demo_config = \<lparr>opt_udpgw_remote_server_addr = True, opt_dnsgw = True, opt_netif_ip6addr = True, udp_mtu = 12,
     tap_mtu = 60, quitting = False\<rparr>"

theorem device_udp_roundtrip_witness:
  "\<exists>pkt dns. snd (udpgw_client_handler_received demo_config (replicate 60 0) (BAddr_IPv4 1 2) (BAddr_IPv4 3 4) [5, 6, 7]) = [T2S_Send pkt] \<and>
    length pkt = 31 \<and> process_device_udp_packet demo_config pkt = Some (BAddr_IPv4 3 4, BAddr_IPv4 1 2, dns, [5, 6, 7])"
  using device_udp_roundtrip [of "BAddr_IPv4 1 2" "BAddr_IPv4 3 4" demo_config "replicate 60 0" "[5, 6, 7]"]
  by (auto simp: demo_config_def payload_room_def header_room_def)

section \<open>What is taken for a datagram\<close>

lemma process_device_addrs:
  assumes "process_device_udp_packet cfg p = Some (l, r, dns, data)"
  shows "addr_wf l \<and> addr_wf r \<and> BAddr_type l = BAddr_type r \<and> l \<noteq> BAddr_None \<and> r \<noteq> BAddr_None \<and>
    (BAddr_type l = 2 \<longrightarrow> opt_netif_ip6addr cfg) \<and> int (length data) \<le> udp_mtu cfg"
proof -
  have m: "int (length data) \<le> udp_mtu cfg"
    using assms by (auto simp: process_device_udp_packet_def Let_def split: if_splits option.splits)
  consider "process_udp4 cfg p = Some (l, r, dns, data)" | "process_udp6 cfg p = Some (l, r, dns, data)"
    using assms by (auto simp: process_device_udp_packet_def Let_def split: if_splits option.splits)
  then show ?thesis
  proof cases
    case 1
    then show ?thesis using m by (auto simp: process_udp4_def Let_def split: if_splits option.splits)
  next
    case 2
    then obtain iph q where h: "ipv6_check p = Some (iph, q)" and p: "40 \<le> length p" "opt_netif_ip6addr cfg"
      by (auto simp: process_udp6_def split: if_splits option.splits)
    then have "length (source_address6 iph) = 16" "length (destination_address6 iph) = 16"
      by (auto simp: ipv6_check_def ipv6_load_def sub_bytes_def Let_def split: if_splits)
    then show ?thesis using 2 h p m by (auto simp: process_udp6_def Let_def split: if_splits option.splits)
  qed
qed

lemma udp_check_Some:
  assumes "udp_check p = Some (h, payload)"
  shows "\<exists>trail. p = udp_bytes h @ payload @ trail" "unat (ntoh16 (udp_length h)) = 8 + length payload"
proof -
  let ?n = "unat (ntoh16 (udp_length h))"
  have f: "8 \<le> length p" "h = udp_load p" "8 \<le> ?n" "?n \<le> 8 + length (drop 8 p)" "payload = take (?n - 8) (drop 8 p)"
    using assms by (auto simp: udp_check_def Let_def split: if_splits)
  have "take 8 p = take 2 p @ take 2 (drop 2 p) @ take 2 (drop 4 p) @ take 2 (drop 6 p)"
    using take_add [of 2 6 p] take_add [of 2 4 "drop 2 p"] take_add [of 2 2 "drop 4 p"] by simp
  then have "udp_bytes h = take 8 p"
    using f(1,2) by (simp add: udp_bytes_def udp_load_def store_load_take del: load16.simps)
  then have "p = udp_bytes h @ payload @ drop (?n - 8) (drop 8 p)" using f(5) by (simp del: drop_drop)
  then show "\<exists>trail. p = udp_bytes h @ payload @ trail" by blast
  show "?n = 8 + length payload" using f(3-5) by simp
qed

text \<open>Only a well-formed UDP datagram over IPv4 is taken from the device: when a packet is submitted as a datagram between IPv4
  addresses, it starts with a header of version 4 for protocol 17 whose Internet checksum is right and
  whose total length fits the packet; behind it follow the UDP header with the ports and a length field
  that matches the payload, and the payload, whose UDP checksum over the pseudo header is right; the
  payload is at most the UDP client's MTU.\<close>

theorem device_udp4_well_formed:
  assumes "process_device_udp_packet c p = Some (BAddr_IPv4 src sport, BAddr_IPv4 dst dport, dns, payload)"
  shows "\<exists>iph udph trail hl. hl = unat (IPV4_GET_IHL iph) * 4 \<and> iph = ipv4_load p \<and> IPV4_GET_VERSION iph = 4 \<and> protocol iph = 17 \<and>
    source_address iph = src \<and> destination_address iph = dst \<and> source_port udph = sport \<and> dest_port udph = dport \<and>
    p = take hl p @ udp_bytes udph @ payload @ trail \<and> 20 \<le> hl \<and> hl \<le> length p \<and>
    ip_checksum iph = hton16 (internet_checksum (cleared hl p)) \<and>
    hl + 8 + length payload \<le> unat (ntoh16 (total_length iph)) \<and> unat (ntoh16 (total_length iph)) \<le> length p \<and>
    unat (ntoh16 (udp_length udph)) = 8 + length payload \<and>
    udp_check_field udph = hton16 (internet_checksum
      (pseudo4 src dst (8 + length payload) @ udp_bytes (udph\<lparr>udp_check_field := 0\<rparr>) @ payload)) \<and>
    int (length payload) \<le> udp_mtu c"
proof -
  have "process_udp4 c p = Some (BAddr_IPv4 src sport, BAddr_IPv4 dst dport, dns, payload)"
    and mtu: "int (length payload) \<le> udp_mtu c"
    using assms
    by (auto simp: process_device_udp_packet_def process_udp6_def Let_def split: if_splits option.splits prod.splits)
  then obtain iph q udph where ip: "ipv4_check p = Some (iph, q)" and udp: "udp_check q = Some (udph, payload)" and p9: "p ! 9 = 17"
    and sum: "udp_check_field udph = udp_checksum (udph\<lparr>udp_check_field := 0\<rparr>) payload (length payload) src dst"
    and eq: "source_address iph = src" "destination_address iph = dst" "source_port udph = sport" "dest_port udph = dport"
    by (auto simp: process_udp4_def Let_def split: if_splits option.splits prod.splits)
  define hl where "hl = unat (IPV4_GET_IHL (ipv4_load p)) * 4"
  let ?t = "unat (ntoh16 (total_length iph))"
  have acc: "ipv4_accepts hl p" and h: "iph = ipv4_load p" and q: "q = take (?t - hl) (drop hl p)"
    using ip ipv4_check_iff [OF hl_def] by (auto split: if_splits)
  obtain trail where tr: "q = udp_bytes udph @ payload @ trail" using udp_check_Some(1) [OF udp] by blast
  have a: "20 \<le> hl" "hl \<le> ?t" "?t \<le> length p" "IPV4_GET_VERSION iph = 4"
      "ip_checksum iph = hton16 (internet_checksum (cleared hl p))"
    using acc h by (simp_all add: ipv4_accepts_def)
  have len: "8 + length payload + length trail = ?t - hl" using arg_cong [OF tr, of length] q a by simp
  have "p = take hl p @ q @ drop ?t p" using q a by (metis append.assoc append_take_drop_id drop_drop le_add_diff_inverse2)
  then have parts: "p = take hl p @ udp_bytes udph @ payload @ trail @ drop ?t p" unfolding tr by simp
  have small: "length payload \<le> 65527"
  proof -
    have "?t < 2 ^ LENGTH(16)" by (rule unsigned_less)
    then show ?thesis using len by simp
  qed
  have "protocol iph = 17" using h p9 by (simp add: ipv4_load_def)
  then show ?thesis
    using a h eq mtu len parts sum udp_checksum_eq [OF small] udp_check_Some(2) [OF udp] hl_def
    by (intro exI [of _ iph] exI [of _ udph] exI [of _ "trail @ drop ?t p"] exI [of _ hl]) simp
qed

definition demo_packet :: "byte list" where
  "demo_packet = (let (iph, udph) = build_udp4 1 2 3 4 [5, 6, 7] in ipv4_bytes iph @ udp_bytes udph @ [5, 6, 7])"

theorem device_udp4_well_formed_witness:
  "IPV4_GET_VERSION (ipv4_load demo_packet) = 4 \<and> protocol (ipv4_load demo_packet) = 17 \<and>
   source_address (ipv4_load demo_packet) = 3 \<and> length demo_packet = 31"
proof -
  obtain iph udph where b: "build_udp4 1 2 3 4 [5, 6, 7] = (iph, udph)" by fastforce
  have p: "demo_packet = ipv4_bytes iph @ udp_bytes udph @ [5, 6, 7]" by (simp add: demo_packet_def b)
  have "process_device_udp_packet demo_config demo_packet =
      Some (BAddr_IPv4 3 4, BAddr_IPv4 1 2, is_dns_packet demo_config 2 [5, 6, 7], [5, 6, 7])"
    using process_built4(1) [OF _ b, of demo_config] process_built4(2) [OF _ b]
    by (simp add: p process_device_udp_packet_def demo_config_def)
  from device_udp4_well_formed [OF this] have "IPV4_GET_VERSION (ipv4_load demo_packet) = 4 \<and>
      protocol (ipv4_load demo_packet) = 17 \<and> source_address (ipv4_load demo_packet) = 3" by auto
  then show ?thesis by (simp add: p)
qed

section \<open>Writing packets of the stack\<close>

lemma gather_eq:
  assumes "mtu \<le> int (length buf)" "0 \<le> len" "len \<le> mtu"
  shows "gather mtu ps buf len =
    (if len + int (length (concat ps)) \<le> mtu then (memcpy_at buf (nat len) (concat ps), Some (len + int (length (concat ps))))
     else (fst (gather mtu ps buf len), None)) \<and> length (fst (gather mtu ps buf len)) = length buf"
  using assms
proof (induction ps arbitrary: buf len)
  case (Cons p ps)
  show ?case
  proof (cases "int (length p) > mtu - len")
    case False
    let ?b = "memcpy_at buf (nat len) p"
    have l: "length ?b = length buf" using Cons.prems False by (simp add: length_memcpy_at nat_plus_le)
    have "memcpy_at ?b (nat (len + int (length p))) (concat ps) = memcpy_at buf (nat len) (p @ concat ps)"
      if "len + int (length p) + int (length (concat ps)) \<le> mtu"
      using that Cons.prems by (intro memcpy_append) (simp_all add: nat_add_distrib)
    then show ?thesis
      using Cons.IH [of ?b "len + int (length p)"] Cons.prems False l by (auto simp: add.assoc)
  qed auto
qed (simp add: memcpy_at_def)

lemma gather_cases:
  assumes "mtu = int (length buf)"
  obtains (fits) "int (length (concat ps)) \<le> mtu" "gather mtu ps buf 0 = (memcpy_at buf 0 (concat ps), Some (int (length (concat ps))))"
    "length (memcpy_at buf 0 (concat ps)) = length buf"
  | (fails) buf2 where "int (length (concat ps)) > mtu" "gather mtu ps buf 0 = (buf2, None)" "length buf2 = length buf"
proof (cases "int (length (concat ps)) \<le> mtu")
  case True
  then show ?thesis using gather_eq [of mtu buf 0 ps] assms by (intro fits) (simp_all add: length_memcpy_at)
next
  case False
  obtain b r where g: "gather mtu ps buf 0 = (b, r)" by fastforce
  have "r = None" "length b = length buf" using gather_eq [of mtu buf 0 ps] assms False unfolding g by simp_all
  then show ?thesis using False g fails [of b] by simp
qed

text \<open>A packet of the TCP/IP stack is written to the device whole or not at all: whatever its division into segments, the bytes
  sent are the segments in order, exactly when they fit the device's MTU, and gathering them never writes
  past the write buffer.\<close>

theorem netif_output_gathers:
  assumes "tap_mtu c = int (length buf)" "chain \<noteq> []"
  shows "snd (common_netif_output c buf chain) =
      (if \<not> quitting c \<and> int (length (concat chain)) \<le> tap_mtu c then [T2S_Send (concat chain)] else []) \<and>
    length (fst (common_netif_output c buf chain)) = length buf"
proof (cases "\<exists>p. chain = [p]")
  case True
  then show ?thesis by (auto simp: common_netif_output_def)
next
  case False
  then have c: "(case chain of [p] \<Rightarrow> x p | _ \<Rightarrow> y) = y" for x :: "byte list \<Rightarrow> byte list \<times> t2s_call list" and y
    by (auto split: list.splits)
  show ?thesis
  proof (rule gather_cases [OF assms(1), of chain])
    assume "int (length (concat chain)) \<le> tap_mtu c"
      "gather (tap_mtu c) chain buf 0 = (memcpy_at buf 0 (concat chain), Some (int (length (concat chain))))"
      "length (memcpy_at buf 0 (concat chain)) = length buf"
    then show ?thesis unfolding common_netif_output_def c using assms(1) by (simp add: sub_bytes_memcpy_same)
  next
    fix buf2
    assume "int (length (concat chain)) > tap_mtu c" "gather (tap_mtu c) chain buf 0 = (buf2, None)" "length buf2 = length buf"
    then show ?thesis unfolding common_netif_output_def c by simp
  qed
qed

theorem netif_output_gathers_witness:
  "snd (common_netif_output demo_config (replicate 60 0) [[1, 2], [3], [4, 5, 6]]) = [T2S_Send [1, 2, 3, 4, 5, 6]]"
  using netif_output_gathers [of demo_config "replicate 60 0" "[[1, 2], [3], [4, 5, 6]]"] by (simp add: demo_config_def)

end
