(* ===== verification/TcpClient.thy ===== *)
theory TcpClient
  imports Prelude
begin

text \<open>
  The TCP clients of \<open>tun2socks/tun2socks.c\<close>: a connection that the TCP/IP stack accepts from the device is
  coupled with a SOCKS connection, data is passed both ways through two buffers, and each side may close
  first. The stack (lwip) and the SOCKS client are the environment: what a handler asks of them is
  recorded as calls, in program order, and what they answer (whether closing, writing and sending
  worked, how much room there is) is a parameter of the handler. Work that the code does while it
  synchronises with the event loop (\<open>SYNC_COMMIT\<close>) are further events.
\<close>

section \<open>State\<close>

datatype tc_call =
  Tcp_err bool
| Tcp_recv bool
| Tcp_sent bool
| Tcp_close bool
| Tcp_abort
| Tcp_recved int
| Tcp_write "byte list" bool
| Tcp_output bool
| Socks_Free
| Socks_Send "byte list"
| Socks_Recv int
| Client_free

text \<open>\<open>struct tcp_client\<close>. \<open>tc_dead\<close> is the value seen through \<open>dead_aborted\<close>; \<open>tc_calls\<close> collects the calls of the
  handler that runs.\<close>

record tcp_client =
  tc_aborted :: bool
  tc_dead :: int
  tc_client_closed :: bool
  tc_buf :: "byte list"
  tc_buf_used :: int
  tc_socks_up :: bool
  tc_socks_closed :: bool
  tc_socks_recv_buf :: "byte list"
  tc_socks_recv_buf_used :: int
  tc_socks_recv_buf_sent :: int
  tc_socks_recv_waiting :: bool
  tc_socks_recv_tcp_pending :: int
  tc_calls :: "tc_call list"

text \<open>What the stack answers while a handler runs: whether \<open>tcp_close\<close> and \<open>tcp_output\<close> work, and in the \<open>k\<close>-th round of
  the writing loop the room for data and the result of \<open>tcp_write\<close>.\<close>

datatype write_result = Write_OK | Write_MEM | Write_Error

record lwip_env =
  ev_close_ok :: bool
  ev_output_ok :: bool
  ev_sndbuf :: "nat \<Rightarrow> nat"
  ev_write :: "nat \<Rightarrow> write_result"

definition emit :: "tc_call \<Rightarrow> tcp_client \<Rightarrow> tcp_client" where
  "emit k c = c\<lparr>tc_calls := tc_calls c @ [k]\<rparr>"

definition remove_callbacks :: "tcp_client \<Rightarrow> tcp_client" where
  "remove_callbacks c = emit (Tcp_sent False) (emit (Tcp_recv False) (emit (Tcp_err False) c))"

section \<open>Closing\<close>

definition client_dealloc :: "tcp_client \<Rightarrow> tcp_client" where
  "client_dealloc c =
     (let c = (if \<not> tc_aborted c then c\<lparr>tc_dead := -1\<rparr> else c) in emit Client_free c)"

definition client_abort_pcb :: "tcp_client \<Rightarrow> tcp_client" where
  "client_abort_pcb c = (emit Tcp_abort c)\<lparr>tc_aborted := True, tc_dead := 1\<rparr>"

text \<open>The two sides close each other: \<open>client_handle_freed_client\<close>, \<open>client_free_client\<close> and \<open>client_free_socks\<close> call each
  other, at most once around.\<close>

function (sequential) client_handle_freed_client :: "lwip_env \<Rightarrow> tcp_client \<Rightarrow> tcp_client"
  and client_free_client :: "lwip_env \<Rightarrow> tcp_client \<Rightarrow> tcp_client"
  and client_free_socks :: "lwip_env \<Rightarrow> tcp_client \<Rightarrow> tcp_client" where
  "client_handle_freed_client e c =
     (let c = c\<lparr>tc_client_closed := True\<rparr> in
      if tc_buf_used c > 0 \<and> \<not> tc_socks_closed c then c
      else if \<not> tc_socks_closed c then client_free_socks e c
      else client_dealloc c)"
| "client_free_client e c =
     (let c = remove_callbacks c;
          c = emit (Tcp_close (ev_close_ok e)) c;
          c = (if \<not> ev_close_ok e then client_abort_pcb c else c)
      in client_handle_freed_client e c)"
| "client_free_socks e c =
     (let c = (if tc_socks_up c \<and> \<not> tc_client_closed c then emit (Tcp_recv False) c else c);
          c = emit Socks_Free c;
          c = c\<lparr>tc_socks_closed := True\<rparr>
      in if tc_socks_up c \<and> (tc_socks_recv_buf_used c \<ge> 0 \<or> tc_socks_recv_tcp_pending c > 0) \<and> \<not> tc_client_closed c then c
         else if \<not> tc_client_closed c then client_free_client e c
         else client_dealloc c)"
  by pat_completeness auto
termination
  by (relation "measure (case_sum (\<lambda>(e, c). if tc_socks_closed c then 0 else 1 :: nat)
        (case_sum (\<lambda>(e, c). if tc_socks_closed c then 1 else 2) (\<lambda>(e, c). if tc_client_closed c then 0 else 3)))")
    (auto simp: remove_callbacks_def emit_def client_abort_pcb_def Let_def)

declare client_handle_freed_client.simps [simp del] client_free_client.simps [simp del] client_free_socks.simps [simp del]

definition client_abort_client :: "lwip_env \<Rightarrow> tcp_client \<Rightarrow> tcp_client" where
  "client_abort_client e c = client_handle_freed_client e (client_abort_pcb (remove_callbacks c))"

definition client_murder :: "tcp_client \<Rightarrow> tcp_client" where
  "client_murder c =
     (let c = (if \<not> tc_client_closed c then (client_abort_pcb (remove_callbacks c))\<lparr>tc_client_closed := True\<rparr> else c);
          c = (if \<not> tc_socks_closed c then (emit Socks_Free c)\<lparr>tc_socks_closed := True\<rparr> else c)
      in client_dealloc c)"

definition client_err_func :: "lwip_env \<Rightarrow> tcp_client \<Rightarrow> tcp_client" where
  "client_err_func e c = client_handle_freed_client e c"

section \<open>From the device to SOCKS\<close>

definition client_send_to_socks :: "tcp_client \<Rightarrow> tcp_client" where
  "client_send_to_socks c = emit (Socks_Send (sub_bytes 0 (nat (tc_buf_used c)) (tc_buf c))) c"

datatype err_t = ERR_OK | ERR_MEM | ERR_ABRT

text \<open>\<open>client_recv_func\<close>: \<open>None\<close> is the end of the stream, otherwise the data of the \<open>pbuf\<close> chain. The result \<open>ERR_ABRT\<close> tells
  the stack that the connection was aborted by this callback.\<close>

definition client_recv_func :: "lwip_env \<Rightarrow> byte list option \<Rightarrow> tcp_client \<Rightarrow> tcp_client \<times> err_t" where
  "client_recv_func e p c =
     (let c = c\<lparr>tc_dead := 0\<rparr> in
      case p of
        None \<Rightarrow> (let c = client_free_client e c in (c, if tc_dead c > 0 then ERR_ABRT else ERR_OK))
      | Some d \<Rightarrow>
          if int (length d) > int (length (tc_buf c)) - tc_buf_used c then (c, ERR_MEM)
          else
            let c = c\<lparr>tc_buf := memcpy_at (tc_buf c) (nat (tc_buf_used c)) d, tc_buf_used := tc_buf_used c + int (length d)\<rparr>;
                c = (if tc_buf_used c = int (length d) \<and> tc_socks_up c then client_send_to_socks c else c)
            in (c, if tc_dead c > 0 then ERR_ABRT else ERR_OK))"

definition client_socks_send_handler_done :: "lwip_env \<Rightarrow> int \<Rightarrow> tcp_client \<Rightarrow> tcp_client" where
  "client_socks_send_handler_done e data_len c =
     (let c = c\<lparr>tc_buf := memcpy_at (tc_buf c) 0 (sub_bytes (nat data_len) (nat (tc_buf_used c - data_len)) (tc_buf c)),
               tc_buf_used := tc_buf_used c - data_len\<rparr>;
          c = (if \<not> tc_client_closed c then emit (Tcp_recved data_len) c else c)
      in if tc_buf_used c > 0 then client_send_to_socks c
         else if tc_client_closed c then client_free_socks e c
         else c)"

section \<open>From SOCKS to the device\<close>

definition client_socks_recv_initiate :: "tcp_client \<Rightarrow> tcp_client" where
  "client_socks_recv_initiate c = emit (Socks_Recv (int (length (tc_socks_recv_buf c)))) c"

text \<open>The loop of \<open>client_socks_recv_send_out\<close>; \<open>True\<close> when writing failed for good. The code leaves the loop when there is
  nothing to write; less than nothing is excluded by its assertions.\<close>

function write_out :: "lwip_env \<Rightarrow> nat \<Rightarrow> tcp_client \<Rightarrow> tcp_client \<times> bool" where
  "write_out e k c =
     (let to_write = min (tc_socks_recv_buf_used c - tc_socks_recv_buf_sent c) (int (ev_sndbuf e k)) in
      if to_write \<le> 0 then (c, False)
      else let d = sub_bytes (nat (tc_socks_recv_buf_sent c)) (nat to_write) (tc_socks_recv_buf c) in
        case ev_write e k of
          Write_MEM \<Rightarrow> (emit (Tcp_write d False) c, False)
        | Write_Error \<Rightarrow> (emit (Tcp_write d False) c, True)
        | Write_OK \<Rightarrow>
            let c = (emit (Tcp_write d True) c)\<lparr>tc_socks_recv_buf_sent := tc_socks_recv_buf_sent c + to_write,
                  tc_socks_recv_tcp_pending := tc_socks_recv_tcp_pending c + to_write\<rparr>
            in if tc_socks_recv_buf_sent c < tc_socks_recv_buf_used c then write_out e (Suc k) c else (c, False))"
  by auto
termination
  by (relation "measure (\<lambda>(e, k, c). nat (tc_socks_recv_buf_used c - tc_socks_recv_buf_sent c))") (auto simp: emit_def)

declare write_out.simps [simp del]

text \<open>The result is \<open>False\<close> for -1: the connection was aborted.\<close>

definition client_socks_recv_send_out :: "lwip_env \<Rightarrow> tcp_client \<Rightarrow> tcp_client \<times> bool" where
  "client_socks_recv_send_out e c =
     (let (c, failed) = write_out e 0 c in
      if failed then (client_abort_client e c, False)
      else
        let c = emit (Tcp_output (ev_output_ok e)) c in
        if \<not> ev_output_ok e then (client_abort_client e c, False)
        else if tc_socks_recv_buf_sent c < tc_socks_recv_buf_used c then
          (if tc_socks_recv_tcp_pending c = 0 then (client_abort_client e c, False)
           else (c\<lparr>tc_socks_recv_waiting := True\<rparr>, True))
        else (c\<lparr>tc_socks_recv_buf_used := -1\<rparr>, True))"

text \<open>\<open>client_socks_recv_handler_done\<close>: the data was received into \<open>socks_recv_buf\<close>.\<close>

definition client_socks_recv_handler_done :: "lwip_env \<Rightarrow> byte list \<Rightarrow> tcp_client \<Rightarrow> tcp_client" where
  "client_socks_recv_handler_done e d c =
     (let c = c\<lparr>tc_socks_recv_buf := memcpy_at (tc_socks_recv_buf c) 0 d\<rparr> in
      if tc_client_closed c then c
      else
        let c = c\<lparr>tc_socks_recv_buf_used := int (length d), tc_socks_recv_buf_sent := 0, tc_socks_recv_waiting := False\<rparr>;
            (c, up) = client_socks_recv_send_out e c
        in if \<not> up then c
           else if tc_socks_recv_buf_used c = -1 then client_socks_recv_initiate c
           else c)"

definition client_sent_func :: "lwip_env \<Rightarrow> int \<Rightarrow> tcp_client \<Rightarrow> tcp_client \<times> err_t" where
  "client_sent_func e len c =
     (let c = c\<lparr>tc_dead := 0, tc_socks_recv_tcp_pending := tc_socks_recv_tcp_pending c - len\<rparr>;
          c = (if tc_socks_recv_buf_used c > 0 then
                 (let (c, up) = client_socks_recv_send_out e (c\<lparr>tc_socks_recv_waiting := False\<rparr>) in
                  if up \<and> tc_socks_recv_buf_used c = -1 \<and> \<not> tc_socks_closed c then client_socks_recv_initiate c else c)
               else if tc_socks_closed c \<and> tc_socks_recv_tcp_pending c = 0 then client_free_client e c
               else c)
      in (c, if tc_dead c > 0 then ERR_ABRT else ERR_OK))"

section \<open>Start\<close>

datatype socks_ev = EVENT_ERROR | EVENT_UP | EVENT_ERROR_CLOSED

definition client_socks_handler :: "lwip_env \<Rightarrow> socks_ev \<Rightarrow> tcp_client \<Rightarrow> tcp_client" where
  "client_socks_handler e ev c =
     (case ev of
        EVENT_ERROR \<Rightarrow> client_free_socks e c
      | EVENT_UP \<Rightarrow>
          (let c = c\<lparr>tc_socks_recv_buf_used := -1, tc_socks_recv_tcp_pending := 0\<rparr>;
               c = (if \<not> tc_client_closed c then emit (Tcp_sent True) c else c);
               c = c\<lparr>tc_socks_up := True\<rparr>;
               c = (if tc_buf_used c > 0 then client_send_to_socks c else c)
           in if \<not> tc_client_closed c then client_socks_recv_initiate c else c)
      | EVENT_ERROR_CLOSED \<Rightarrow> client_free_socks e c)"

text \<open>\<open>listener_accept_func\<close>, given the uninitialised memory of the new client and whether the SOCKS client could
  be initialised; \<open>None\<close> for the result \<open>ERR_MEM\<close>.\<close>

definition listener_accept_func :: "bool \<Rightarrow> tcp_client \<Rightarrow> tcp_client option" where
  "listener_accept_func socks_init junk =
     (if \<not> socks_init then None
      else Some (emit (Tcp_recv True) (emit (Tcp_err True) (junk\<lparr>tc_calls := []\<rparr>))
             \<lparr>tc_aborted := False, tc_dead := 0, tc_client_closed := False, tc_buf_used := 0, tc_socks_up := False,
              tc_socks_closed := False\<rparr>))"

section \<open>The environment\<close>

text \<open>What the stack and the SOCKS client know: whether the connection (\<open>pcb\<close>) exists and which callbacks are set, whether the
  SOCKS client exists and what was asked of it, how many bytes were written and not acknowledged, and the
  four byte streams. \<open>w_ok\<close> is lost when a call is made that its receiver does not allow: using a connection or
  SOCKS client that is gone, releasing a connection with callbacks left to a client, asking twice, or
  freeing the client while something still refers to it.\<close>

record tc_world =
  w_client :: "tcp_client option"
  w_pcb :: bool
  w_err_cb :: bool
  w_recv_cb :: bool
  w_sent_cb :: bool
  w_socks :: bool
  w_sending :: "byte list option"
  w_receiving :: bool
  w_unacked :: int
  w_from_client :: "byte list"
  w_to_socks :: "byte list"
  w_from_socks :: "byte list"
  w_to_client :: "byte list"
  w_recved :: int
  w_ok :: bool

definition no_callbacks :: "tc_world \<Rightarrow> bool" where
  "no_callbacks w \<longleftrightarrow> \<not> w_err_cb w \<and> \<not> w_recv_cb w \<and> \<not> w_sent_cb w"

fun tc_apply :: "tc_call \<Rightarrow> tc_world \<Rightarrow> tc_world" where
  "tc_apply (Tcp_err b) w = w\<lparr>w_ok := w_ok w \<and> w_pcb w, w_err_cb := b\<rparr>"
| "tc_apply (Tcp_recv b) w = w\<lparr>w_ok := w_ok w \<and> w_pcb w, w_recv_cb := b\<rparr>"
| "tc_apply (Tcp_sent b) w = w\<lparr>w_ok := w_ok w \<and> w_pcb w, w_sent_cb := b\<rparr>"
| "tc_apply (Tcp_close r) w = w\<lparr>w_ok := w_ok w \<and> w_pcb w \<and> no_callbacks w, w_pcb := \<not> r\<rparr>"
| "tc_apply Tcp_abort w = w\<lparr>w_ok := w_ok w \<and> w_pcb w \<and> no_callbacks w, w_pcb := False\<rparr>"
| "tc_apply (Tcp_recved n) w = w\<lparr>w_ok := w_ok w \<and> w_pcb w \<and> 0 < n, w_recved := w_recved w + n\<rparr>"
| "tc_apply (Tcp_write d r) w = (if r then w\<lparr>w_ok := w_ok w \<and> w_pcb w, w_to_client := w_to_client w @ d, w_unacked := w_unacked w + int (length d)\<rparr>
     else w\<lparr>w_ok := w_ok w \<and> w_pcb w\<rparr>)"
| "tc_apply (Tcp_output r) w = w\<lparr>w_ok := w_ok w \<and> w_pcb w\<rparr>"
| "tc_apply Socks_Free w = w\<lparr>w_ok := w_ok w \<and> w_socks w, w_socks := False, w_sending := None, w_receiving := False\<rparr>"
| "tc_apply (Socks_Send d) w = w\<lparr>w_ok := w_ok w \<and> w_socks w \<and> w_sending w = None \<and> d \<noteq> [], w_sending := Some d\<rparr>"
| "tc_apply (Socks_Recv n) w = w\<lparr>w_ok := w_ok w \<and> w_socks w \<and> \<not> w_receiving w \<and> 0 < n, w_receiving := True\<rparr>"
| "tc_apply Client_free w = w\<lparr>w_ok := w_ok w \<and> w_client w \<noteq> None \<and> \<not> w_pcb w \<and> \<not> w_socks w, w_client := None\<rparr>"

text \<open>A handler has run: its calls take effect, and the client is as it left it unless it was freed.\<close>

definition tc_env :: "tcp_client \<Rightarrow> tc_world \<Rightarrow> tc_world" where
  "tc_env c w = fold tc_apply (tc_calls c) w"

definition tc_run :: "tcp_client \<Rightarrow> tc_world \<Rightarrow> tc_world" where
  "tc_run c w =
     (let v = tc_env c w in if w_client v = None then v else v\<lparr>w_client := Some (c\<lparr>tc_calls := []\<rparr>)\<rparr>)"

text \<open>The assertions at the start of the handlers.\<close>

definition send_done_assert :: "int \<Rightarrow> tcp_client \<Rightarrow> bool" where
  "send_done_assert n c \<longleftrightarrow> \<not> tc_socks_closed c \<and> tc_socks_up c \<and> tc_buf_used c > 0 \<and> n > 0 \<and> n \<le> tc_buf_used c"

definition recv_done_assert :: "int \<Rightarrow> tcp_client \<Rightarrow> bool" where
  "recv_done_assert n c \<longleftrightarrow> n > 0 \<and> n \<le> int (length (tc_socks_recv_buf c)) \<and> \<not> tc_socks_closed c \<and> tc_socks_up c \<and>
     tc_socks_recv_buf_used c = -1"

definition sent_assert :: "int \<Rightarrow> tcp_client \<Rightarrow> bool" where
  "sent_assert n c \<longleftrightarrow> \<not> tc_client_closed c \<and> tc_socks_up c \<and> n > 0 \<and> n \<le> tc_socks_recv_tcp_pending c \<and>
     (tc_socks_recv_buf_used c > 0 \<longrightarrow> tc_socks_recv_waiting c \<and> tc_socks_recv_buf_sent c < tc_socks_recv_buf_used c)"

text \<open>The events. The stack calls a callback only while it is set; it reports an error after it has released the
  connection; it delivers no more data than the window allows, that is the size of the client's buffer
  less what is not yet confirmed; it acknowledges only what was written. The SOCKS client answers
  what was asked of it.\<close>

inductive tc_step :: "tc_world \<Rightarrow> tc_world \<Rightarrow> bool" where
  tc_err: "w_client w = Some c \<Longrightarrow> w_pcb w \<Longrightarrow> w_err_cb w \<Longrightarrow>
     tc_step w (tc_run (client_err_func e c) (w\<lparr>w_pcb := False, w_err_cb := False, w_recv_cb := False, w_sent_cb := False\<rparr>))"
| tc_eof: "w_client w = Some c \<Longrightarrow> w_pcb w \<Longrightarrow> w_recv_cb w \<Longrightarrow> tc_step w (tc_run (fst (client_recv_func e None c)) w)"
| tc_data: "w_client w = Some c \<Longrightarrow> w_pcb w \<Longrightarrow> w_recv_cb w \<Longrightarrow> d \<noteq> [] \<Longrightarrow>
     int (length (w_from_client w)) + int (length d) - w_recved w \<le> int (length (tc_buf c)) \<Longrightarrow>
     tc_step w (tc_run (fst (client_recv_func e (Some d) c)) (w\<lparr>w_from_client := w_from_client w @ d\<rparr>))"
| tc_sent: "w_client w = Some c \<Longrightarrow> w_pcb w \<Longrightarrow> w_sent_cb w \<Longrightarrow> 0 < n \<Longrightarrow> n \<le> w_unacked w \<Longrightarrow>
     tc_step w (tc_run (fst (client_sent_func e n c)) (w\<lparr>w_unacked := w_unacked w - n\<rparr>))"
| tc_up: "w_client w = Some c \<Longrightarrow> w_socks w \<Longrightarrow> \<not> tc_socks_up c \<Longrightarrow> tc_step w (tc_run (client_socks_handler e EVENT_UP c) w)"
| tc_socks_error: "w_client w = Some c \<Longrightarrow> w_socks w \<Longrightarrow> tc_step w (tc_run (client_socks_handler e EVENT_ERROR c) w)"
| tc_socks_end: "w_client w = Some c \<Longrightarrow> w_socks w \<Longrightarrow> tc_socks_up c \<Longrightarrow>
     tc_step w (tc_run (client_socks_handler e EVENT_ERROR_CLOSED c) w)"
| tc_send_done: "w_client w = Some c \<Longrightarrow> w_socks w \<Longrightarrow> w_sending w = Some d \<Longrightarrow> 0 < n \<Longrightarrow> n \<le> length d \<Longrightarrow>
     tc_step w (tc_run (client_socks_send_handler_done e (int n) c) (w\<lparr>w_sending := None, w_to_socks := w_to_socks w @ take n d\<rparr>))"
| tc_recv_done: "w_client w = Some c \<Longrightarrow> w_socks w \<Longrightarrow> w_receiving w \<Longrightarrow> d \<noteq> [] \<Longrightarrow> length d \<le> length (tc_socks_recv_buf c) \<Longrightarrow>
     tc_step w (tc_run (client_socks_recv_handler_done e d c) (w\<lparr>w_receiving := False, w_from_socks := w_from_socks w @ d\<rparr>))"
| tc_murder: "w_client w = Some c \<Longrightarrow> tc_step w (tc_run (client_murder c) w)"

definition tc_start :: "tcp_client \<Rightarrow> tc_world" where
  "tc_start c = tc_run c \<lparr>w_client = Some c, w_pcb = True, w_err_cb = False, w_recv_cb = False, w_sent_cb = False, w_socks = True,
     w_sending = None, w_receiving = False, w_unacked = 0, w_from_client = [], w_to_socks = [], w_from_socks = [],
     w_to_client = [], w_recved = 0, w_ok = True\<rparr>"

inductive tc_reach :: "tc_world \<Rightarrow> tc_world \<Rightarrow> bool" for w0 where
  tc_init: "tc_reach w0 w0"
| tc_next: "tc_reach w0 w \<Longrightarrow> tc_step w w' \<Longrightarrow> tc_reach w0 w'"

section \<open>Invariant\<close>

text \<open>Who is alive, which callbacks are set, and why a half-closed client still exists: data is left to be sent.\<close>

definition link_ok :: "tcp_client \<Rightarrow> tc_world \<Rightarrow> bool" where
  "link_ok c v \<longleftrightarrow>
     w_ok v \<and> tc_client_closed c = (\<not> w_pcb v) \<and> tc_socks_closed c = (\<not> w_socks v) \<and>
     (w_pcb v \<longrightarrow> w_err_cb v \<and> w_recv_cb v = w_socks v \<and> w_sent_cb v = tc_socks_up c \<and>
        int (length (w_from_client v)) - w_recved v = tc_buf_used c) \<and>
     (w_pcb v \<and> \<not> w_socks v \<longrightarrow> tc_socks_up c \<and> tc_socks_recv_tcp_pending c > 0) \<and>
     (\<not> w_pcb v \<longrightarrow> w_socks v \<and> tc_buf_used c > 0)"

text \<open>The buffer towards SOCKS.\<close>

definition down_ok :: "tcp_client \<Rightarrow> tc_world \<Rightarrow> bool" where
  "down_ok c v \<longleftrightarrow>
     0 \<le> tc_buf_used c \<and> tc_buf_used c \<le> int (length (tc_buf c)) \<and>
     w_from_client v = w_to_socks v @ take (nat (tc_buf_used c)) (tc_buf c) \<and>
     (w_sending v = None \<longrightarrow> \<not> (tc_socks_up c \<and> w_socks v \<and> tc_buf_used c > 0)) \<and>
     (\<forall>d. w_sending v = Some d \<longrightarrow> d \<noteq> [] \<and> prefix d (take (nat (tc_buf_used c)) (tc_buf c)) \<and> tc_socks_up c)"

text \<open>The buffer towards the device.\<close>

definition up_rest :: "tcp_client \<Rightarrow> byte list" where
  "up_rest c = sub_bytes (nat (tc_socks_recv_buf_sent c)) (nat (tc_socks_recv_buf_used c - tc_socks_recv_buf_sent c)) (tc_socks_recv_buf c)"

definition up_idle :: "tcp_client \<Rightarrow> tc_world \<Rightarrow> bool" where
  "up_idle c v \<longleftrightarrow> tc_socks_recv_buf_used c = -1 \<and> w_from_socks v = w_to_client v \<and> (w_socks v \<longrightarrow> w_receiving v)"

definition up_waits :: "tcp_client \<Rightarrow> tc_world \<Rightarrow> bool" where
  "up_waits c v \<longleftrightarrow> 0 \<le> tc_socks_recv_buf_sent c \<and> tc_socks_recv_buf_sent c < tc_socks_recv_buf_used c \<and>
     tc_socks_recv_buf_used c \<le> int (length (tc_socks_recv_buf c)) \<and>
     tc_socks_recv_waiting c \<and> tc_socks_recv_tcp_pending c > 0 \<and> \<not> w_receiving v \<and> w_from_socks v = w_to_client v @ up_rest c"

definition up_weak :: "tcp_client \<Rightarrow> tc_world \<Rightarrow> bool" where
  "up_weak c v \<longleftrightarrow>
     prefix (w_to_client v) (w_from_socks v) \<and> tc_socks_recv_buf c \<noteq> [] \<and>
     (w_receiving v \<longrightarrow> tc_socks_up c \<and> w_socks v \<and> tc_socks_recv_buf_used c = -1) \<and>
     (\<not> tc_socks_up c \<longrightarrow> w_from_socks v = [] \<and> w_to_client v = [] \<and> w_unacked v = 0)"

definition up_ok :: "tcp_client \<Rightarrow> tc_world \<Rightarrow> bool" where
  "up_ok c v \<longleftrightarrow> up_weak c v \<and>
     (w_pcb v \<and> tc_socks_up c \<longrightarrow> 0 \<le> tc_socks_recv_tcp_pending c \<and> w_unacked v = tc_socks_recv_tcp_pending c \<and>
        (up_idle c v \<or> up_waits c v))"

definition tc_inv :: "tc_world \<Rightarrow> bool" where
  "tc_inv w \<longleftrightarrow>
     (case w_client w of
        None \<Rightarrow> w_ok w \<and> \<not> w_pcb w \<and> \<not> w_socks w \<and> prefix (w_to_socks w) (w_from_client w) \<and> prefix (w_to_client w) (w_from_socks w)
      | Some c \<Rightarrow> tc_calls c = [] \<and> link_ok c w \<and> down_ok c w \<and> up_ok c w)"

lemma tc_env_emit [simp]: "tc_env (emit k c) w = tc_apply k (tc_env c w)"
  by (simp add: tc_env_def emit_def)

lemma emit_fields [simp]:
  "tc_aborted (emit k c) = tc_aborted c" "tc_dead (emit k c) = tc_dead c" "tc_client_closed (emit k c) = tc_client_closed c"
  "tc_buf (emit k c) = tc_buf c" "tc_buf_used (emit k c) = tc_buf_used c" "tc_socks_up (emit k c) = tc_socks_up c"
  "tc_socks_closed (emit k c) = tc_socks_closed c" "tc_socks_recv_buf (emit k c) = tc_socks_recv_buf c"
  "tc_socks_recv_buf_used (emit k c) = tc_socks_recv_buf_used c" "tc_socks_recv_buf_sent (emit k c) = tc_socks_recv_buf_sent c"
  "tc_socks_recv_waiting (emit k c) = tc_socks_recv_waiting c" "tc_socks_recv_tcp_pending (emit k c) = tc_socks_recv_tcp_pending c"
  by (simp_all add: emit_def)

lemma tc_env_fields [simp]:
  "tc_env (c\<lparr>tc_aborted := b\<rparr>) w = tc_env c w" "tc_env (c\<lparr>tc_dead := i\<rparr>) w = tc_env c w"
  "tc_env (c\<lparr>tc_client_closed := b\<rparr>) w = tc_env c w" "tc_env (c\<lparr>tc_buf := d\<rparr>) w = tc_env c w"
  "tc_env (c\<lparr>tc_buf_used := i\<rparr>) w = tc_env c w" "tc_env (c\<lparr>tc_socks_up := b\<rparr>) w = tc_env c w"
  "tc_env (c\<lparr>tc_socks_closed := b\<rparr>) w = tc_env c w" "tc_env (c\<lparr>tc_socks_recv_buf := d\<rparr>) w = tc_env c w"
  "tc_env (c\<lparr>tc_socks_recv_buf_used := i\<rparr>) w = tc_env c w" "tc_env (c\<lparr>tc_socks_recv_buf_sent := i\<rparr>) w = tc_env c w"
  "tc_env (c\<lparr>tc_socks_recv_waiting := b\<rparr>) w = tc_env c w" "tc_env (c\<lparr>tc_socks_recv_tcp_pending := i\<rparr>) w = tc_env c w"
  by (simp_all add: tc_env_def)

lemma tc_env_start: "tc_calls c = [] \<Longrightarrow> tc_env c w = w"
  by (simp add: tc_env_def)

text \<open>A handler that ends with the client alive.\<close>

lemma run_alive:
  assumes "tc_env c w = v" "w_client v \<noteq> None" "link_ok c v" "down_ok c v" "up_ok c v"
  shows "tc_inv (tc_run c w)"
proof -
  let ?c = "c\<lparr>tc_calls := []\<rparr>" and ?v = "v\<lparr>w_client := Some (c\<lparr>tc_calls := []\<rparr>)\<rparr>"
  have "tc_run c w = ?v" using assms(1,2) by (simp add: tc_run_def)
  moreover have "link_ok ?c ?v" using assms(3) by (simp add: link_ok_def)
  moreover have "down_ok ?c ?v" using assms(4) by (simp add: down_ok_def)
  moreover have "up_ok ?c ?v" using assms(5) by (simp add: up_ok_def up_weak_def up_idle_def up_waits_def up_rest_def)
  ultimately show ?thesis by (simp add: tc_inv_def)
qed

text \<open>A handler that ends with freeing the client.\<close>

lemma run_dealloc:
  assumes "tc_env c w = v" "w_client v \<noteq> None" "w_ok v" "\<not> w_pcb v" "\<not> w_socks v"
    and "prefix (w_to_socks v) (w_from_client v)" "prefix (w_to_client v) (w_from_socks v)"
  shows "tc_inv (tc_run (client_dealloc c) w)"
proof -
  have "tc_env (client_dealloc c) w = v\<lparr>w_ok := True, w_client := None\<rparr>"
    using assms by (auto simp: client_dealloc_def Let_def)
  then show ?thesis using assms by (simp add: tc_run_def tc_inv_def)
qed

lemma prefix_streams: "down_ok c v \<Longrightarrow> up_ok c v \<Longrightarrow> prefix (w_to_socks v) (w_from_client v) \<and> prefix (w_to_client v) (w_from_socks v)"
  by (auto simp: down_ok_def up_ok_def up_weak_def prefix_def)

lemma run_handle_freed:
  assumes "tc_env c w = v" "w_client v \<noteq> None" "w_ok v" "\<not> w_pcb v" "tc_socks_closed c = (\<not> w_socks v)" "down_ok c v" "up_ok c v"
  shows "tc_inv (tc_run (client_handle_freed_client e c) w)"
proof -
  note pre = prefix_streams [OF assms(6,7)]
  let ?c = "c\<lparr>tc_client_closed := True\<rparr>"
  consider (drain) "tc_buf_used c > 0" "w_socks v" | (both) "\<not> tc_buf_used c > 0" "w_socks v" | (last) "\<not> w_socks v" by blast
  then show ?thesis
  proof cases
    case drain
    have "link_ok ?c v" using assms drain by (simp add: link_ok_def)
    moreover have "down_ok ?c v" "up_ok ?c v"
      using assms by (simp_all add: down_ok_def up_ok_def up_weak_def up_idle_def up_waits_def up_rest_def)
    ultimately have "tc_inv (tc_run ?c w)" using assms(1,2) by (intro run_alive [of _ _ v]) simp_all
    then show ?thesis using drain assms(5) by (simp add: client_handle_freed_client.simps)
  next
    case both
    let ?d = "emit Socks_Free ?c\<lparr>tc_socks_closed := True\<rparr>"
    have "client_handle_freed_client e c = client_dealloc ?d"
      using both assms(5) by (simp add: client_handle_freed_client.simps client_free_socks.simps Let_def)
    moreover have "tc_inv (tc_run (client_dealloc ?d) w)"
      using assms both pre by (intro run_dealloc [of _ _ "tc_apply Socks_Free v"]) simp_all
    ultimately show ?thesis by simp
  next
    case last
    have "client_handle_freed_client e c = client_dealloc ?c"
      using last assms(5) by (simp add: client_handle_freed_client.simps Let_def)
    moreover have "tc_inv (tc_run (client_dealloc ?c) w)"
      using assms last pre by (intro run_dealloc [of _ _ v]) simp_all
    ultimately show ?thesis by simp
  qed
qed

lemma remove_callbacks_fields [simp]:
  "tc_buf_used (remove_callbacks c) = tc_buf_used c" "tc_buf (remove_callbacks c) = tc_buf c"
  "tc_socks_closed (remove_callbacks c) = tc_socks_closed c" "tc_socks_up (remove_callbacks c) = tc_socks_up c"
  "tc_env (remove_callbacks c) w = tc_apply (Tcp_sent False) (tc_apply (Tcp_recv False) (tc_apply (Tcp_err False) (tc_env c w)))"
  by (simp_all add: remove_callbacks_def del: tc_apply.simps)

lemma abort_pcb_fields [simp]:
  "tc_buf_used (client_abort_pcb c) = tc_buf_used c" "tc_buf (client_abort_pcb c) = tc_buf c"
  "tc_socks_closed (client_abort_pcb c) = tc_socks_closed c" "tc_socks_up (client_abort_pcb c) = tc_socks_up c"
  "tc_env (client_abort_pcb c) w = tc_apply Tcp_abort (tc_env c w)"
  by (simp_all add: client_abort_pcb_def del: tc_apply.simps)

text \<open>The buffers do not depend on what closing the connection changes.\<close>

lemma buffers_cong:
  assumes "down_ok c v" "up_weak c v"
    and "tc_buf d = tc_buf c" "tc_buf_used d = tc_buf_used c" "tc_socks_up d = tc_socks_up c"
      "tc_socks_recv_buf d = tc_socks_recv_buf c" "tc_socks_recv_buf_used d = tc_socks_recv_buf_used c"
    and "w_from_client u = w_from_client v" "w_to_socks u = w_to_socks v" "w_sending u = w_sending v" "w_socks u = w_socks v"
      "w_to_client u = w_to_client v" "w_from_socks u = w_from_socks v" "w_receiving u = w_receiving v" "\<not> w_pcb u"
      "w_unacked u = w_unacked v"
  shows "down_ok d u" "up_ok d u"
  using assms by (simp_all add: down_ok_def up_ok_def up_weak_def)

lemma run_close:
  assumes env: "tc_env c w = v" "w_client v \<noteq> None" and ok: "w_ok v" "w_pcb v" "tc_socks_closed c = (\<not> w_socks v)"
    and bufs: "down_ok c v" "up_weak c v"
  shows "tc_inv (tc_run (client_free_client e c) w)" "tc_inv (tc_run (client_abort_client e c) w)"
proof -
  let ?d = "if \<not> ev_close_ok e then client_abort_pcb (emit (Tcp_close (ev_close_ok e)) (remove_callbacks c))
     else emit (Tcp_close (ev_close_ok e)) (remove_callbacks c)"
  let ?d2 = "client_abort_pcb (remove_callbacks c)"
  let ?u = "v\<lparr>w_err_cb := False, w_recv_cb := False, w_sent_cb := False, w_pcb := False\<rparr>"
  have u: "tc_env ?d w = ?u" "tc_env ?d2 w = ?u" using env(1) ok by (simp_all add: no_callbacks_def)
  have "tc_socks_closed ?d = (\<not> w_socks ?u)" "tc_socks_closed ?d2 = (\<not> w_socks ?u)" using ok by simp_all
  moreover have "down_ok ?d ?u" "up_ok ?d ?u" "down_ok ?d2 ?u" "up_ok ?d2 ?u"
    using bufs by (auto intro: buffers_cong simp: client_abort_pcb_def remove_callbacks_def)
  ultimately have "tc_inv (tc_run (client_handle_freed_client e ?d) w)" "tc_inv (tc_run (client_handle_freed_client e ?d2) w)"
    using env(2) ok(1) u by (intro run_handle_freed [of _ _ ?u]; simp)+
  then show "tc_inv (tc_run (client_free_client e c) w)" "tc_inv (tc_run (client_abort_client e c) w)"
    unfolding client_free_client.simps client_abort_client_def Let_def by simp_all
qed

lemma run_free_socks:
  assumes env: "tc_env c w = v" "w_client v \<noteq> None" and ok: "w_ok v" "w_socks v" "tc_client_closed c = (\<not> w_pcb v)"
    and cbs: "w_pcb v \<Longrightarrow> w_err_cb v \<and> w_sent_cb v = tc_socks_up c \<and> int (length (w_from_client v)) - w_recved v = tc_buf_used c"
    and bufs: "down_ok c v" "up_ok c v"
  shows "tc_inv (tc_run (client_free_socks e c) w)"
proof -
  define d where "d = (emit Socks_Free (if tc_socks_up c \<and> \<not> tc_client_closed c then emit (Tcp_recv False) c else c))\<lparr>tc_socks_closed := True\<rparr>"
  define u where "u = tc_apply Socks_Free (if tc_socks_up c \<and> w_pcb v then v\<lparr>w_recv_cb := False\<rparr> else v)"
  have u: "tc_env d w = u" using env(1) ok by (auto simp: d_def u_def)
  have uf: "w_client u = w_client v" "w_ok u" "w_pcb u = w_pcb v" "\<not> w_socks u" "w_sending u = None" "\<not> w_receiving u"
    "w_from_client u = w_from_client v" "w_to_socks u = w_to_socks v" "w_from_socks u = w_from_socks v"
    "w_to_client u = w_to_client v" "w_unacked u = w_unacked v" "w_recved u = w_recved v" "w_err_cb u = w_err_cb v"
    "w_sent_cb u = w_sent_cb v" "tc_socks_up c \<Longrightarrow> w_pcb v \<Longrightarrow> \<not> w_recv_cb u"
    using ok by (simp_all add: u_def)
  have df: "tc_socks_closed d" "tc_client_closed d = tc_client_closed c" "tc_socks_up d = tc_socks_up c" "tc_buf d = tc_buf c"
    "tc_buf_used d = tc_buf_used c" "tc_socks_recv_buf d = tc_socks_recv_buf c" "tc_socks_recv_buf_used d = tc_socks_recv_buf_used c"
    "tc_socks_recv_buf_sent d = tc_socks_recv_buf_sent c" "tc_socks_recv_waiting d = tc_socks_recv_waiting c"
    "tc_socks_recv_tcp_pending d = tc_socks_recv_tcp_pending c"
    by (simp_all add: d_def)
  have down: "down_ok d u" using bufs(1) by (simp add: down_ok_def df uf)
  have up: "up_ok d u" using bufs(2) by (auto simp: up_ok_def up_weak_def up_idle_def up_waits_def up_rest_def df uf)
  note pre = prefix_streams [OF down up]
  have eq: "client_free_socks e c =
    (if tc_socks_up d \<and> (tc_socks_recv_buf_used d \<ge> 0 \<or> tc_socks_recv_tcp_pending d > 0) \<and> \<not> tc_client_closed d then d
     else if \<not> tc_client_closed d then client_free_client e d else client_dealloc d)"
    unfolding client_free_socks.simps Let_def d_def ..
  consider (drain) "tc_socks_up d \<and> (tc_socks_recv_buf_used d \<ge> 0 \<or> tc_socks_recv_tcp_pending d > 0) \<and> \<not> tc_client_closed d"
    | (close) "\<not> (tc_socks_up d \<and> (tc_socks_recv_buf_used d \<ge> 0 \<or> tc_socks_recv_tcp_pending d > 0))" "\<not> tc_client_closed d"
    | (gone) "tc_client_closed d" by blast
  then show ?thesis
  proof cases
    case drain
    then have pend: "tc_socks_recv_tcp_pending d > 0" "w_pcb u"
      using up ok by (auto simp: up_ok_def up_idle_def up_waits_def df uf)
    have "link_ok d u" using drain pend cbs ok uf df by (auto simp: link_ok_def)
    then have "tc_inv (tc_run d w)" using u uf env(2) down up by (intro run_alive [of _ _ u]) simp_all
    then show ?thesis using drain unfolding eq by simp
  next
    case close
    then have "tc_inv (tc_run (client_free_client e d) w)"
      using u uf df ok env(2) down up by (intro run_close [of _ _ u]) (simp_all add: up_ok_def)
    then show ?thesis using close unfolding eq by auto
  next
    case gone
    then have "tc_inv (tc_run (client_dealloc d) w)"
      using u uf df ok env(2) pre by (intro run_dealloc [of _ _ u]) simp_all
    then show ?thesis using gone unfolding eq by simp
  qed
qed

section \<open>Writing to the device\<close>

lemma w_ok_same: "w_ok v \<Longrightarrow> v\<lparr>w_ok := True\<rparr> = v"
  by simp

lemma sub_bytes_split: "a \<le> b \<Longrightarrow> b \<le> n \<Longrightarrow> sub_bytes a (n - a) xs = sub_bytes a (b - a) xs @ sub_bytes b (n - b) xs"
  using sub_bytes_add [of a "b - a" "n - b" xs] by simp

lemma up_rest_split:
  assumes "0 \<le> tc_socks_recv_buf_sent c" "0 < n" "n \<le> tc_socks_recv_buf_used c - tc_socks_recv_buf_sent c"
  shows "up_rest c = sub_bytes (nat (tc_socks_recv_buf_sent c)) (nat n) (tc_socks_recv_buf c) @
     up_rest (c\<lparr>tc_socks_recv_buf_sent := tc_socks_recv_buf_sent c + n\<rparr>)"
proof -
  let ?s = "tc_socks_recv_buf_sent c" and ?u = "tc_socks_recv_buf_used c"
  have "nat (?u - ?s) = nat n + nat (?u - (?s + n))" "nat (?s + n) = nat ?s + nat n" using assms by linarith+
  then show ?thesis by (simp add: up_rest_def sub_bytes_add)
qed

text \<open>What the writing loop leaves: some bytes more are written, in order, and counted as pending.\<close>

definition written :: "tc_world \<Rightarrow> tcp_client \<Rightarrow> tc_world \<Rightarrow> tcp_client \<times> bool \<Rightarrow> bool" where
  "written w c v r \<longleftrightarrow> (\<exists>s t ks failed. r = (c\<lparr>tc_socks_recv_buf_sent := s,
        tc_socks_recv_tcp_pending := tc_socks_recv_tcp_pending c + (s - tc_socks_recv_buf_sent c), tc_calls := ks\<rparr>, failed) \<and>
     tc_env (c\<lparr>tc_calls := ks\<rparr>) w = v\<lparr>w_to_client := t, w_unacked := w_unacked v + (s - tc_socks_recv_buf_sent c)\<rparr> \<and>
     tc_socks_recv_buf_sent c \<le> s \<and> s \<le> tc_socks_recv_buf_used c \<and>
     w_from_socks v = t @ up_rest (c\<lparr>tc_socks_recv_buf_sent := s\<rparr>))"

lemma written_stay:
  assumes "tc_env c w = v" "fold tc_apply ks v = v" "w_from_socks v = w_to_client v @ up_rest c"
    "tc_socks_recv_buf_sent c \<le> tc_socks_recv_buf_used c"
  shows "written w c v (c\<lparr>tc_calls := tc_calls c @ ks\<rparr>, r)"
  unfolding written_def using assms
  by (intro exI [of _ "tc_socks_recv_buf_sent c"] exI [of _ "w_to_client v"] exI [of _ "tc_calls c @ ks"] exI [of _ r])
    (auto simp: tc_env_def up_rest_def)

lemma write_out_correct:
  assumes "0 \<le> tc_socks_recv_buf_sent c" "tc_socks_recv_buf_sent c < tc_socks_recv_buf_used c"
    and "tc_socks_recv_buf_used c \<le> int (length (tc_socks_recv_buf c))"
    and "tc_env c w = v" "w_ok v" "w_pcb v" "w_from_socks v = w_to_client v @ up_rest c"
  shows "written w c v (write_out e k c)"
  using assms
proof (induction e k c arbitrary: v rule: write_out.induct)
  case (1 e k c)
  let ?s = "tc_socks_recv_buf_sent c" and ?u = "tc_socks_recv_buf_used c"
  define n where "n = min (?u - ?s) (int (ev_sndbuf e k))"
  define d where "d = sub_bytes (nat ?s) (nat n) (tc_socks_recv_buf c)"
  note wo = write_out.simps [of e k c, unfolded Let_def, folded n_def, folded d_def]
  have le: "?s \<le> ?u" using "1.prems"(2) by simp
  note stay = written_stay [OF "1.prems"(4) _ "1.prems"(7) le]
  consider (none) "n \<le> 0" | (mem) "n > 0" "ev_write e k \<noteq> Write_OK" | (ok) "n > 0" "ev_write e k = Write_OK" by linarith
  then show ?case
  proof cases
    case none
    then have "write_out e k c = (c\<lparr>tc_calls := tc_calls c @ []\<rparr>, False)" unfolding wo by simp
    then show ?thesis using stay [of "[]" False] by simp
  next
    case mem
    have "write_out e k c = (c\<lparr>tc_calls := tc_calls c @ [Tcp_write d False]\<rparr>, ev_write e k = Write_Error)"
      unfolding wo using mem by (cases "ev_write e k") (simp_all add: emit_def)
    then show ?thesis using stay [of "[Tcp_write d False]"] "1.prems"(5,6) by (simp add: w_ok_same)
  next
    case ok
    define c2 where "c2 = (emit (Tcp_write d True) c)\<lparr>tc_socks_recv_buf_sent := ?s + n, tc_socks_recv_tcp_pending := tc_socks_recv_tcp_pending c + n\<rparr>"
    define v2 where "v2 = v\<lparr>w_to_client := w_to_client v @ d, w_unacked := w_unacked v + n\<rparr>"
    have n: "0 < n" "n \<le> ?u - ?s" using ok(1) by (simp_all add: n_def)
    have "length d = nat n" unfolding d_def using n "1.prems"(1,3) by (intro length_sub_bytes) linarith
    then have v2: "tc_env c2 w = v2" using "1.prems"(4-6) n by (simp add: c2_def v2_def w_ok_same)
    have rest: "w_from_socks v = (w_to_client v @ d) @ up_rest (c\<lparr>tc_socks_recv_buf_sent := ?s + n\<rparr>)"
      using "1.prems"(7) up_rest_split [OF "1.prems"(1) n] by (simp add: d_def)
    have eq: "write_out e k c = (if ?s + n < ?u then write_out e (Suc k) c2 else (c2, False))"
      unfolding wo using ok by (simp add: c2_def)
    show ?thesis
    proof (cases "?s + n < ?u")
      case True
      have "written w c2 v2 (write_out e (Suc k) c2)"
        unfolding c2_def
      proof (rule "1.IH" [OF refl])
        show "\<not> min (?u - ?s) (int (ev_sndbuf e k)) \<le> 0" using ok(1) unfolding n_def by linarith
      qed (use ok True v2 rest "1.prems" in \<open>simp_all add: n_def d_def c2_def v2_def up_rest_def\<close>)
      then obtain s t ks failed where w: "write_out e (Suc k) c2 = (c2\<lparr>tc_socks_recv_buf_sent := s,
          tc_socks_recv_tcp_pending := tc_socks_recv_tcp_pending c2 + (s - tc_socks_recv_buf_sent c2), tc_calls := ks\<rparr>, failed)"
        "tc_env (c2\<lparr>tc_calls := ks\<rparr>) w = v2\<lparr>w_to_client := t, w_unacked := w_unacked v2 + (s - tc_socks_recv_buf_sent c2)\<rparr>"
        "tc_socks_recv_buf_sent c2 \<le> s" "s \<le> tc_socks_recv_buf_used c2" "w_from_socks v2 = t @ up_rest (c2\<lparr>tc_socks_recv_buf_sent := s\<rparr>)"
        unfolding written_def by blast
      have "tc_env (c\<lparr>tc_calls := ks\<rparr>) w = v\<lparr>w_to_client := t, w_unacked := w_unacked v + (s - ?s)\<rparr>"
        using w(2) by (simp add: tc_env_def c2_def v2_def)
      then show ?thesis using True n w(1,3-5) unfolding eq written_def
        by (intro exI [of _ s] exI [of _ t] exI [of _ ks] exI [of _ failed]) (simp add: c2_def v2_def up_rest_def emit_def)
    next
      case False
      have "tc_env (c\<lparr>tc_calls := tc_calls c @ [Tcp_write d True]\<rparr>) w = v2" using v2 by (simp add: tc_env_def emit_def c2_def)
      then show ?thesis using eq False n rest unfolding written_def
        by (intro exI [of _ "?s + n"] exI [of _ "w_to_client v @ d"] exI [of _ "tc_calls c @ [Tcp_write d True]"] exI [of _ False])
          (simp add: emit_def c2_def v2_def)
    qed
  qed
qed

text \<open>\<open>client_socks_recv_send_out\<close> either ends in a state of the whole client that is in order (the connection was
  aborted), or leaves the connection up with all data written or waiting for an acknowledgement.\<close>

definition up_link :: "tcp_client \<Rightarrow> tc_world \<Rightarrow> bool" where
  "up_link c v \<longleftrightarrow> w_client v \<noteq> None \<and> w_ok v \<and> w_pcb v \<and> \<not> tc_client_closed c \<and> tc_socks_closed c = (\<not> w_socks v) \<and> tc_socks_up c \<and>
     w_err_cb v \<and> w_recv_cb v = w_socks v \<and> w_sent_cb v \<and> int (length (w_from_client v)) - w_recved v = tc_buf_used c \<and>
     tc_socks_recv_buf c \<noteq> [] \<and> \<not> w_receiving v \<and>
     0 \<le> tc_socks_recv_tcp_pending c \<and> w_unacked v = tc_socks_recv_tcp_pending c \<and> down_ok c v"

lemma down_ok_cong:
  assumes "tc_buf d = tc_buf c" "tc_buf_used d = tc_buf_used c" "tc_socks_up d = tc_socks_up c"
    and "w_from_client u = w_from_client v" "w_to_socks u = w_to_socks v" "w_sending u = w_sending v" "w_socks u = w_socks v"
  shows "down_ok d u = down_ok c v"
  using assms by (simp add: down_ok_def)

lemma down_ok_upd [simp]:
  "down_ok (c\<lparr>tc_socks_recv_waiting := b\<rparr>) v = down_ok c v" "down_ok (c\<lparr>tc_socks_recv_buf_used := i\<rparr>) v = down_ok c v"
  "down_ok (c\<lparr>tc_socks_recv_buf_sent := i\<rparr>) v = down_ok c v" "down_ok (c\<lparr>tc_socks_recv_tcp_pending := i\<rparr>) v = down_ok c v"
  "down_ok (c\<lparr>tc_socks_recv_buf := d\<rparr>) v = down_ok c v" "down_ok (c\<lparr>tc_dead := i\<rparr>) v = down_ok c v" "down_ok (emit k c) v = down_ok c v"
  by (rule down_ok_cong; simp)+

lemma send_out_correct:
  assumes l: "up_link c v" "tc_env c w = v" and s: "0 \<le> tc_socks_recv_buf_sent c" "tc_socks_recv_buf_sent c < tc_socks_recv_buf_used c"
      "tc_socks_recv_buf_used c \<le> int (length (tc_socks_recv_buf c))"
    and f: "w_from_socks v = w_to_client v @ up_rest c" and r: "client_socks_recv_send_out e c = (c2, up)"
  shows "\<not> up \<Longrightarrow> tc_inv (tc_run c2 w)"
    and "up \<Longrightarrow> \<exists>v2. tc_env c2 w = v2 \<and> up_link c2 v2 \<and> w_socks v2 = w_socks v \<and> tc_socks_recv_tcp_pending c2 > 0 \<and>
      (tc_socks_recv_buf_used c2 = -1 \<and> w_from_socks v2 = w_to_client v2 \<or> up_waits c2 v2)"
proof -
  have w: "w_ok v" "w_pcb v" using l(1) by (simp_all add: up_link_def)
  let ?s = "tc_socks_recv_buf_sent c"
  obtain sn t ks failed where wo: "write_out e 0 c = (c\<lparr>tc_socks_recv_buf_sent := sn,
        tc_socks_recv_tcp_pending := tc_socks_recv_tcp_pending c + (sn - ?s), tc_calls := ks\<rparr>, failed)"
    and env: "tc_env (c\<lparr>tc_calls := ks\<rparr>) w = v\<lparr>w_to_client := t, w_unacked := w_unacked v + (sn - ?s)\<rparr>"
    and sn: "?s \<le> sn" "sn \<le> tc_socks_recv_buf_used c" and src: "w_from_socks v = t @ up_rest (c\<lparr>tc_socks_recv_buf_sent := sn\<rparr>)"
    using write_out_correct [OF s l(2) w f, of e 0] unfolding written_def by blast
  define c1 where "c1 = c\<lparr>tc_socks_recv_buf_sent := sn, tc_socks_recv_tcp_pending := tc_socks_recv_tcp_pending c + (sn - ?s), tc_calls := ks\<rparr>"
  define c1' where "c1' = emit (Tcp_output (ev_output_ok e)) c1"
  define v1 where "v1 = v\<lparr>w_to_client := t, w_unacked := w_unacked v + (sn - ?s)\<rparr>"
  have e1: "tc_env c1 w = v1" using env by (simp add: c1_def v1_def tc_env_def)
  then have e1': "tc_env c1' w = v1" using w by (simp add: c1'_def v1_def w_ok_same)
  have d1: "down_ok c1 v1 = down_ok c v" by (rule down_ok_cong) (simp_all add: c1_def v1_def)
  have l1: "up_link c1 v1" using l(1) sn unfolding up_link_def d1 by (simp add: c1_def v1_def)
  have rest: "w_from_socks v1 = w_to_client v1 @ up_rest c1" using src by (simp add: c1_def v1_def up_rest_def)
  have f1: "tc_socks_recv_buf_used c1 = tc_socks_recv_buf_used c" "tc_socks_recv_buf_sent c1 = sn"
    "tc_socks_recv_tcp_pending c1 = tc_socks_recv_tcp_pending c + (sn - ?s)" "tc_socks_recv_buf c1 = tc_socks_recv_buf c"
    "w_socks v1 = w_socks v" "w_from_socks v1 = w_from_socks v"
    by (simp_all add: c1_def v1_def)
  have weak: "up_weak c1 v1" using l1 rest by (simp add: up_link_def up_weak_def)
  then have weak': "up_weak c1' v1" by (simp add: c1'_def up_weak_def)
  have d1': "down_ok c1' v1 = down_ok c1 v1" by (rule down_ok_cong) (simp_all add: c1'_def)
  have abort: "tc_inv (tc_run (client_abort_client e c1) w)" "tc_inv (tc_run (client_abort_client e c1') w)"
    using run_close(2) [OF e1] run_close(2) [OF e1'] l1 weak weak' d1' by (simp_all add: up_link_def c1'_def)
  have l1': "up_link c1' v1" using l1 d1' by (simp add: up_link_def c1'_def)
  have eq: "client_socks_recv_send_out e c =
    (if failed then (client_abort_client e c1, False)
     else if \<not> ev_output_ok e then (client_abort_client e c1', False)
     else if sn < tc_socks_recv_buf_used c then
       (if tc_socks_recv_tcp_pending c1 = 0 then (client_abort_client e c1', False) else (c1'\<lparr>tc_socks_recv_waiting := True\<rparr>, True))
     else (c1'\<lparr>tc_socks_recv_buf_used := -1\<rparr>, True))"
    unfolding client_socks_recv_send_out_def wo c1_def [symmetric] by (simp add: Let_def c1'_def f1)
  show "tc_inv (tc_run c2 w)" if "\<not> up"
    using r that abort unfolding eq by (auto split: if_splits)
  show "\<exists>v2. tc_env c2 w = v2 \<and> up_link c2 v2 \<and> w_socks v2 = w_socks v \<and> tc_socks_recv_tcp_pending c2 > 0 \<and>
      (tc_socks_recv_buf_used c2 = -1 \<and> w_from_socks v2 = w_to_client v2 \<or> up_waits c2 v2)" if u: up
  proof -
    consider (waits) "sn < tc_socks_recv_buf_used c" "tc_socks_recv_tcp_pending c1 \<noteq> 0" "c2 = c1'\<lparr>tc_socks_recv_waiting := True\<rparr>"
      | (all) "sn = tc_socks_recv_buf_used c" "c2 = c1'\<lparr>tc_socks_recv_buf_used := -1\<rparr>"
      using r u sn(2) unfolding eq by (auto split: if_splits)
    then show ?thesis
    proof cases
      case waits
      have "0 < tc_socks_recv_tcp_pending c1" using waits(2) l1 by (auto simp: up_link_def)
      moreover have "up_link c2 v1" using l1' by (simp add: waits(3) up_link_def)
      moreover have "up_waits c2 v1"
        using waits sn s l1 rest calculation(1) by (simp add: up_waits_def f1 c1'_def up_rest_def up_link_def)
      ultimately show ?thesis using e1' waits(3) f1(5) by (intro exI [of _ v1]) (simp add: c1'_def)
    next
      case all
      have "0 < tc_socks_recv_tcp_pending c1" using all(1) s(2) l(1) by (simp add: f1 up_link_def)
      moreover have "up_link c2 v1" using l1' by (simp add: all(2) up_link_def)
      moreover have "w_from_socks v1 = w_to_client v1" using rest all(1) by (simp add: up_rest_def f1 sub_bytes_def)
      ultimately show ?thesis using e1' all(2) f1(5) by (intro exI [of _ v1]) (simp add: c1'_def)
    qed
  qed
qed

section \<open>Every event keeps the invariant\<close>

lemma inv_parts:
  assumes "tc_inv w" "w_client w = Some c"
  shows "tc_calls c = []" "link_ok c w" "down_ok c w" "up_ok c w" "tc_env c w = w" "up_weak c w"
  using assms by (simp_all add: tc_inv_def tc_env_start up_ok_def)

lemma take_memcpy: "n + length d \<le> length b \<Longrightarrow> take (n + length d) (memcpy_at b n d) = take n b @ d"
  by (simp add: memcpy_at_def)

lemma recv_data_inv:
  assumes inv: "tc_inv w" "w_client w = Some c" and ev: "w_pcb w" "w_recv_cb w" "d \<noteq> []"
    "int (length (w_from_client w)) + int (length d) - w_recved w \<le> int (length (tc_buf c))"
  shows "snd (client_recv_func e (Some d) c) = ERR_OK"
    and "tc_inv (tc_run (fst (client_recv_func e (Some d) c)) (w\<lparr>w_from_client := w_from_client w @ d\<rparr>))"
proof -
  note p = inv_parts [OF inv]
  let ?n = "tc_buf_used c"
  have lk: "w_ok w" "w_socks w" "\<not> tc_client_closed c" "\<not> tc_socks_closed c" "int (length (w_from_client w)) - w_recved w = ?n"
    "w_err_cb w" "w_sent_cb w = tc_socks_up c"
    using p(2) ev by (simp_all add: link_ok_def)
  have dn: "0 \<le> ?n" "w_from_client w = w_to_socks w @ take (nat ?n) (tc_buf c)"
    "w_sending w = None \<longrightarrow> \<not> (tc_socks_up c \<and> w_socks w \<and> ?n > 0)"
    "\<And>d. w_sending w = Some d \<Longrightarrow> d \<noteq> [] \<and> prefix d (take (nat ?n) (tc_buf c)) \<and> tc_socks_up c"
    using p(3) by (simp_all add: down_ok_def)
  have fit: "int (length d) \<le> int (length (tc_buf c)) - ?n" using lk(5) ev(4) by linarith
  define c1 where "c1 = c\<lparr>tc_dead := 0, tc_buf := memcpy_at (tc_buf c) (nat ?n) d, tc_buf_used := ?n + int (length d)\<rparr>"
  define c2 where "c2 = (if tc_buf_used c1 = int (length d) \<and> tc_socks_up c1 then client_send_to_socks c1 else c1)"
  have r: "client_recv_func e (Some d) c = (c2, ERR_OK)"
    using fit unfolding c2_def c1_def by (simp add: client_recv_func_def Let_def client_send_to_socks_def)
  then show "snd (client_recv_func e (Some d) c) = ERR_OK" by simp
  let ?w = "w\<lparr>w_from_client := w_from_client w @ d\<rparr>"
  have room: "nat ?n + length d \<le> length (tc_buf c)" using fit dn(1) by linarith
  have buf: "take (nat (tc_buf_used c1)) (tc_buf c1) = take (nat ?n) (tc_buf c) @ d" "length (tc_buf c1) = length (tc_buf c)"
    using take_memcpy [OF room] dn(1) room by (simp_all add: c1_def nat_add_distrib length_memcpy_at)
  have e1: "tc_env c1 ?w = ?w" using p(1) by (simp add: tc_env_def c1_def)
  define v where "v = tc_env c2 ?w"
  have v: "v = (if ?n = 0 \<and> tc_socks_up c then ?w\<lparr>w_sending := Some d\<rparr> else ?w)"
  proof (cases "?n = 0 \<and> tc_socks_up c")
    case True
    then have "c2 = client_send_to_socks c1" by (simp add: c2_def c1_def)
    moreover have "sub_bytes 0 (nat (tc_buf_used c1)) (tc_buf c1) = d" using buf(1) True by (simp add: sub_bytes_def)
    moreover have "w_sending w = None" using dn(4) True by (cases "w_sending w") auto
    ultimately show ?thesis using True e1 lk ev(3) by (simp add: v_def client_send_to_socks_def w_ok_same)
  next
    case False
    then have "c2 = c1" by (auto simp: c2_def c1_def)
    then show ?thesis using False e1 unfolding v_def by auto
  qed
  have c2: "tc_buf c2 = tc_buf c1" "tc_buf_used c2 = ?n + int (length d)" "tc_socks_up c2 = tc_socks_up c"
    "tc_client_closed c2 = tc_client_closed c" "tc_socks_closed c2 = tc_socks_closed c" "tc_socks_recv_buf c2 = tc_socks_recv_buf c"
    "tc_socks_recv_buf_used c2 = tc_socks_recv_buf_used c" "tc_socks_recv_buf_sent c2 = tc_socks_recv_buf_sent c"
    "tc_socks_recv_waiting c2 = tc_socks_recv_waiting c" "tc_socks_recv_tcp_pending c2 = tc_socks_recv_tcp_pending c"
    by (simp_all add: c2_def c1_def client_send_to_socks_def)
  have "link_ok c2 v" using p(2) ev(1) lk by (simp add: link_ok_def v c2)
  moreover have "down_ok c2 v"
  proof -
    define b where "b = take (nat ?n) (tc_buf c)"
    note dn = dn [folded b_def]
    have t: "take (nat (tc_buf_used c2)) (tc_buf c2) = b @ d" using buf(1) by (simp add: c1_def c2 b_def)
    have "tc_buf_used c2 \<le> int (length (tc_buf c2))" "0 \<le> tc_buf_used c2" using fit buf(2) dn(1) by (simp_all add: c2)
    moreover have "w_from_client v = w_to_socks v @ b @ d" using dn(2) by (simp add: v)
    moreover have "\<not> (tc_socks_up c \<and> 0 < tc_buf_used c2)" if "w_sending v = None"
      using that dn(1,3) lk(2) by (auto simp: v split: if_splits)
    moreover have "d' \<noteq> [] \<and> prefix d' (b @ d) \<and> tc_socks_up c" if "w_sending v = Some d'" for d'
      using that dn(4) ev(3) by (auto simp: v b_def intro: prefix_prefix split: if_splits)
    ultimately show ?thesis unfolding down_ok_def t c2(3) by blast
  qed
  moreover have "up_ok c2 v" using p(4) by (simp add: up_ok_def up_weak_def up_idle_def up_waits_def up_rest_def v c2)
  moreover have "w_client v \<noteq> None" using inv(2) by (simp add: v)
  ultimately show "tc_inv (tc_run (fst (client_recv_func e (Some d) c)) ?w)"
    unfolding r fst_conv by (intro run_alive [OF v_def [symmetric]])
qed

lemma client_send_done_inv:
  assumes inv: "tc_inv w" "w_client w = Some c" and ev: "w_socks w" "w_sending w = Some d" "0 < n" "n \<le> length d"
  shows "send_done_assert (int n) c"
    and "tc_inv (tc_run (client_socks_send_handler_done e (int n) c) (w\<lparr>w_sending := None, w_to_socks := w_to_socks w @ take n d\<rparr>))"
proof -
  note p = inv_parts [OF inv]
  let ?n = "tc_buf_used c" and ?w = "w\<lparr>w_sending := None, w_to_socks := w_to_socks w @ take n d\<rparr>"
  define b where "b = take (nat ?n) (tc_buf c)"
  have dn: "0 \<le> ?n" "?n \<le> int (length (tc_buf c))" "w_from_client w = w_to_socks w @ b" "prefix d b" "tc_socks_up c"
    using p(3) ev(2) by (simp_all add: down_ok_def b_def)
  have lk: "w_ok w" "\<not> tc_socks_closed c" "tc_client_closed c = (\<not> w_pcb w)" using p(2) ev(1) by (simp_all add: link_ok_def)
  have lb: "int (length b) = ?n" using dn(1,2) by (simp add: b_def)
  then have nb: "int n \<le> ?n" using ev(4) prefix_length_le [OF dn(4)] by linarith
  show "send_done_assert (int n) c" using nb ev(3) lk dn(5) by (simp add: send_done_assert_def)
  have td: "take n d = take n b" using dn(4) ev(4) by (auto simp: prefix_def)
  define c1 where "c1 = c\<lparr>tc_buf := memcpy_at (tc_buf c) 0 (sub_bytes n (nat (?n - int n)) (tc_buf c)), tc_buf_used := ?n - int n\<rparr>"
  define c2 where "c2 = (if \<not> tc_client_closed c1 then emit (Tcp_recved (int n)) c1 else c1)"
  have sb: "sub_bytes n (nat (?n - int n)) (tc_buf c) = drop n b"
    using nb dn(1,2) by (simp add: b_def sub_bytes_def take_drop nat_diff_distrib')
  have l: "length (drop n b) = nat (?n - int n)" using lb by simp
  have buf: "take (nat (?n - int n)) (tc_buf c1) = drop n b" "length (tc_buf c1) = length (tc_buf c)"
    using l lb dn(2) by (simp_all add: c1_def sb memcpy_at_def)
  define v where "v = tc_env c2 ?w"
  have v: "v = (if w_pcb w then ?w\<lparr>w_recved := w_recved w + int n\<rparr> else ?w)"
    using p(1) lk ev(3) by (auto simp: v_def c2_def c1_def tc_env_start w_ok_same)
  have c2: "tc_buf c2 = tc_buf c1" "tc_buf_used c2 = ?n - int n" "tc_socks_up c2" "tc_client_closed c2 = (\<not> w_pcb w)"
    "tc_socks_closed c2 = tc_socks_closed c" "tc_socks_recv_buf c2 = tc_socks_recv_buf c"
    "tc_socks_recv_buf_used c2 = tc_socks_recv_buf_used c" "tc_socks_recv_buf_sent c2 = tc_socks_recv_buf_sent c"
    "tc_socks_recv_waiting c2 = tc_socks_recv_waiting c" "tc_socks_recv_tcp_pending c2 = tc_socks_recv_tcp_pending c"
    using dn(5) lk(3) by (simp_all add: c2_def c1_def)
  have eq: "client_socks_send_handler_done e (int n) c =
     (if tc_buf_used c2 > 0 then client_send_to_socks c2 else if tc_client_closed c2 then client_free_socks e c2 else c2)"
    unfolding client_socks_send_handler_done_def Let_def c2_def c1_def by (simp add: nat_int)
  have fc: "w_from_client v = w_to_socks v @ drop n b" using dn(3) td by (simp add: v)
  have bnd: "0 \<le> tc_buf_used c2" "tc_buf_used c2 \<le> int (length (tc_buf c2))" "take (nat (tc_buf_used c2)) (tc_buf c2) = drop n b"
    using nb dn(2) buf by (simp_all add: c2)
  have up: "up_ok c2 v" using p(4) dn(5) by (simp add: up_ok_def up_weak_def up_idle_def up_waits_def up_rest_def v c2)
  have cl: "w_client v \<noteq> None" "w_ok v" "w_socks v" "w_sending v = None" "w_pcb v = w_pcb w" using inv(2) lk ev(1) by (simp_all add: v)
  have win: "w_pcb w \<Longrightarrow> int (length (w_from_client v)) - w_recved v = tc_buf_used c2 \<and> w_err_cb v \<and> w_recv_cb v \<and> w_sent_cb v"
    using p(2) dn(5) ev(1) by (simp add: link_ok_def v c2)
  show "tc_inv (tc_run (client_socks_send_handler_done e (int n) c) ?w)"
  proof (cases "tc_buf_used c2 > 0")
    case True
    let ?c = "client_send_to_socks c2" and ?v = "v\<lparr>w_sending := Some (drop n b)\<rparr>"
    have ne: "drop n b \<noteq> []" using True lb by (auto simp: c2)
    have "tc_env ?c ?w = ?v"
      using cl ne bnd(3) by (simp add: client_send_to_socks_def sub_bytes_def v_def [symmetric] w_ok_same)
    moreover have "link_ok ?c ?v" using True win lk cl ev(1) c2 by (simp add: link_ok_def client_send_to_socks_def)
    moreover have "down_ok ?c ?v" using bnd fc ne c2(3) unfolding down_ok_def by (simp add: client_send_to_socks_def)
    moreover have "up_ok ?c ?v" using up by (simp add: up_ok_def up_weak_def up_idle_def up_waits_def up_rest_def client_send_to_socks_def)
    ultimately have "tc_inv (tc_run ?c ?w)" using cl(1) by (intro run_alive [of _ _ ?v]) simp_all
    then show ?thesis using True unfolding eq by simp
  next
    case False
    have down: "down_ok c2 v" unfolding down_ok_def using bnd fc cl(4) False by simp
    show ?thesis
    proof (cases "w_pcb w")
      case True
      have "link_ok c2 v" using True win lk cl c2 by (simp add: link_ok_def)
      then have "tc_inv (tc_run c2 ?w)" using cl(1) down up by (intro run_alive [OF v_def [symmetric]])
      then show ?thesis using False True c2(4) unfolding eq by simp
    next
      case no_pcb: False
      have "tc_inv (tc_run (client_free_socks e c2) ?w)"
        using cl no_pcb c2(4) down up by (intro run_free_socks [OF v_def [symmetric]]) simp_all
      then show ?thesis using False no_pcb c2(4) unfolding eq by simp
    qed
  qed
qed

text \<open>After \<open>client_socks_recv_send_out\<close>: receiving goes on when everything was written.\<close>

lemma send_out_then_receive:
  assumes l: "up_link c v" "tc_env c w = v" and s: "0 \<le> tc_socks_recv_buf_sent c" "tc_socks_recv_buf_sent c < tc_socks_recv_buf_used c"
      "tc_socks_recv_buf_used c \<le> int (length (tc_socks_recv_buf c))"
    and f: "w_from_socks v = w_to_client v @ up_rest c" and r: "client_socks_recv_send_out e c = (c2, up)"
  shows "tc_inv (tc_run (if up \<and> tc_socks_recv_buf_used c2 = -1 \<and> \<not> tc_socks_closed c2 then client_socks_recv_initiate c2 else c2) w)"
proof (cases up)
  case False
  then show ?thesis using send_out_correct(1) [OF assms] by simp
next
  case True
  obtain v2 where v2: "tc_env c2 w = v2" "up_link c2 v2" "tc_socks_recv_tcp_pending c2 > 0"
    "tc_socks_recv_buf_used c2 = -1 \<and> w_from_socks v2 = w_to_client v2 \<or> up_waits c2 v2"
    using send_out_correct(2) [OF assms True] by blast
  define c3 where "c3 = (if tc_socks_recv_buf_used c2 = -1 \<and> \<not> tc_socks_closed c2 then client_socks_recv_initiate c2 else c2)"
  define v3 where "v3 = tc_env c3 w"
  have lk: "w_client v2 \<noteq> None" "w_ok v2" "w_pcb v2" "\<not> tc_client_closed c2" "tc_socks_closed c2 = (\<not> w_socks v2)" "tc_socks_up c2"
    "w_err_cb v2" "w_recv_cb v2 = w_socks v2" "w_sent_cb v2" "int (length (w_from_client v2)) - w_recved v2 = tc_buf_used c2"
    "tc_socks_recv_buf c2 \<noteq> []" "\<not> w_receiving v2" "w_unacked v2 = tc_socks_recv_tcp_pending c2" "down_ok c2 v2"
    using v2(2) by (simp_all add: up_link_def)
  have v3: "v3 = (if tc_socks_recv_buf_used c2 = -1 \<and> w_socks v2 then v2\<lparr>w_receiving := True\<rparr> else v2)"
    using lk v2(1) unfolding v3_def c3_def by (auto simp: client_socks_recv_initiate_def w_ok_same)
  have c3: "tc_buf c3 = tc_buf c2" "tc_buf_used c3 = tc_buf_used c2" "tc_socks_up c3" "tc_client_closed c3 = tc_client_closed c2"
    "tc_socks_closed c3 = tc_socks_closed c2" "tc_socks_recv_buf c3 = tc_socks_recv_buf c2"
    "tc_socks_recv_buf_used c3 = tc_socks_recv_buf_used c2" "tc_socks_recv_buf_sent c3 = tc_socks_recv_buf_sent c2"
    "tc_socks_recv_waiting c3 = tc_socks_recv_waiting c2" "tc_socks_recv_tcp_pending c3 = tc_socks_recv_tcp_pending c2"
    using lk by (simp_all add: c3_def client_socks_recv_initiate_def)
  have "link_ok c3 v3" using lk v2(3) by (simp add: link_ok_def v3 c3)
  moreover have "down_ok c3 v3 = down_ok c2 v2" by (rule down_ok_cong) (use lk(6) in \<open>simp_all add: v3 c3\<close>)
  moreover have "up_ok c3 v3"
    using v2(3,4) lk by (auto simp: up_ok_def up_weak_def up_idle_def up_waits_def up_rest_def v3 c3)
  moreover have "w_client v3 \<noteq> None" using lk(1) by (simp add: v3)
  ultimately have "tc_inv (tc_run c3 w)" using lk(14) by (intro run_alive [OF v3_def [symmetric]]) simp_all
  then show ?thesis using True by (simp add: c3_def)
qed

lemma recv_done_inv:
  assumes inv: "tc_inv w" "w_client w = Some c" and ev: "w_socks w" "w_receiving w" "d \<noteq> []" "length d \<le> length (tc_socks_recv_buf c)"
  shows "recv_done_assert (int (length d)) c"
    and "tc_inv (tc_run (client_socks_recv_handler_done e d c) (w\<lparr>w_receiving := False, w_from_socks := w_from_socks w @ d\<rparr>))"
proof -
  note p = inv_parts [OF inv]
  let ?w = "w\<lparr>w_receiving := False, w_from_socks := w_from_socks w @ d\<rparr>"
  have up: "tc_socks_up c" "tc_socks_recv_buf_used c = -1" "tc_socks_recv_buf c \<noteq> []" "prefix (w_to_client w) (w_from_socks w)"
    using p(6) ev by (simp_all add: up_weak_def)
  have lk: "\<not> tc_socks_closed c" "tc_client_closed c = (\<not> w_pcb w)" "w_ok w" using p(2) ev(1) by (simp_all add: link_ok_def)
  show "recv_done_assert (int (length d)) c" using up lk ev by (simp add: recv_done_assert_def)
  define c1 where "c1 = c\<lparr>tc_socks_recv_buf := memcpy_at (tc_socks_recv_buf c) 0 d\<rparr>"
  have e1: "tc_env c1 ?w = ?w" using p(1) by (simp add: c1_def tc_env_start)
  have dw: "down_ok c ?w = down_ok c w" by (rule down_ok_cong) simp_all
  have rb: "tc_socks_recv_buf c1 \<noteq> []" "length (tc_socks_recv_buf c1) = length (tc_socks_recv_buf c)" "take (length d) (tc_socks_recv_buf c1) = d"
    using ev(3,4) by (simp_all add: c1_def memcpy_at_def)
  show "tc_inv (tc_run (client_socks_recv_handler_done e d c) ?w)"
  proof (cases "w_pcb w")
    case False
    have "link_ok c1 ?w" using p(2) False by (simp add: link_ok_def c1_def)
    moreover have "down_ok c1 ?w" using p(3) dw by (simp add: c1_def)
    moreover have "up_ok c1 ?w" using False up rb by (simp add: up_ok_def up_weak_def c1_def)
    ultimately have "tc_inv (tc_run c1 ?w)" using inv(2) by (intro run_alive [OF e1]) simp_all
    then show ?thesis using False lk(2) by (simp add: client_socks_recv_handler_done_def Let_def c1_def)
  next
    case True
    define c2 where "c2 = c1\<lparr>tc_socks_recv_buf_used := int (length d), tc_socks_recv_buf_sent := 0, tc_socks_recv_waiting := False\<rparr>"
    obtain c3 up3 where r: "client_socks_recv_send_out e c2 = (c3, up3)" by fastforce
    have idle: "w_from_socks w = w_to_client w" "w_unacked w = tc_socks_recv_tcp_pending c" "0 \<le> tc_socks_recv_tcp_pending c"
      using p(4) True up by (auto simp: up_ok_def up_idle_def up_waits_def)
    have "down_ok c2 ?w" using p(3) dw by (simp add: c2_def c1_def)
    then have l2: "up_link c2 ?w" using p(2) True inv(2) up rb(1) idle ev(1) by (simp add: up_link_def link_ok_def c2_def c1_def)
    have e2: "tc_env c2 ?w = ?w" using e1 by (simp add: c2_def)
    have s2: "0 \<le> tc_socks_recv_buf_sent c2" "tc_socks_recv_buf_sent c2 < tc_socks_recv_buf_used c2"
      "tc_socks_recv_buf_used c2 \<le> int (length (tc_socks_recv_buf c2))"
      using ev(3,4) rb(2) by (simp_all add: c2_def)
    have f2: "w_from_socks ?w = w_to_client ?w @ up_rest c2" using idle rb(3) by (simp add: c2_def up_rest_def sub_bytes_def)
    have "tc_inv (tc_run (if up3 \<and> tc_socks_recv_buf_used c3 = -1 \<and> \<not> tc_socks_closed c3
        then client_socks_recv_initiate c3 else c3) ?w)"
      by (rule send_out_then_receive [OF l2 e2 s2 f2 r])
    moreover have "\<not> tc_socks_closed c3" if up3
      using send_out_correct(2) [OF l2 e2 s2 f2 r that] ev(1) by (auto simp: up_link_def)
    moreover have "client_socks_recv_handler_done e d c =
        (if \<not> up3 then c3 else if tc_socks_recv_buf_used c3 = -1 then client_socks_recv_initiate c3 else c3)"
      using True lk(2) r unfolding c2_def c1_def by (simp add: client_socks_recv_handler_done_def Let_def)
    ultimately show ?thesis by (cases up3) auto
  qed
qed

lemma sent_inv:
  assumes inv: "tc_inv w" "w_client w = Some c" and ev: "w_pcb w" "w_sent_cb w" "0 < n" "n \<le> w_unacked w"
  shows "sent_assert n c"
    and "tc_inv (tc_run (fst (client_sent_func e n c)) (w\<lparr>w_unacked := w_unacked w - n\<rparr>))"
proof -
  note p = inv_parts [OF inv]
  let ?w = "w\<lparr>w_unacked := w_unacked w - n\<rparr>"
  have lk: "w_ok w" "\<not> tc_client_closed c" "tc_socks_closed c = (\<not> w_socks w)" "w_err_cb w" "w_recv_cb w = w_socks w" "tc_socks_up c"
    "int (length (w_from_client w)) - w_recved w = tc_buf_used c"
    using p(2) ev(1,2) by (auto simp: link_ok_def)
  have up: "w_unacked w = tc_socks_recv_tcp_pending c" "up_idle c w \<or> up_waits c w" "tc_socks_recv_buf c \<noteq> []"
    "prefix (w_to_client w) (w_from_socks w)" "w_receiving w \<longrightarrow> w_socks w \<and> tc_socks_recv_buf_used c = -1"
    using p(4) ev(1) lk(6) by (auto simp: up_ok_def up_weak_def)
  show "sent_assert n c" using up(1,2) lk ev by (auto simp: sent_assert_def up_idle_def up_waits_def)
  define c1 where "c1 = c\<lparr>tc_dead := 0, tc_socks_recv_tcp_pending := tc_socks_recv_tcp_pending c - n\<rparr>"
  have e1: "tc_env c1 ?w = ?w" using p(1) by (simp add: c1_def tc_env_start)
  have dw: "down_ok c ?w = down_ok c w" by (rule down_ok_cong) simp_all
  have d1: "down_ok c1 ?w" using p(3) dw by (simp add: c1_def)
  have c1: "tc_socks_recv_buf_used c1 = tc_socks_recv_buf_used c" "tc_socks_closed c1 = tc_socks_closed c"
    "tc_socks_recv_tcp_pending c1 = tc_socks_recv_tcp_pending c - n"
    by (simp_all add: c1_def)
  consider (waits) "up_waits c w" | (last) "up_idle c w" "tc_socks_closed c" "tc_socks_recv_tcp_pending c1 = 0"
    | (idle) "up_idle c w" "\<not> (tc_socks_closed c \<and> tc_socks_recv_tcp_pending c1 = 0)"
    using up(2) by blast
  then show "tc_inv (tc_run (fst (client_sent_func e n c)) ?w)"
  proof cases
    case waits
    define c2 where "c2 = c1\<lparr>tc_socks_recv_waiting := False\<rparr>"
    obtain c3 up3 where r: "client_socks_recv_send_out e c2 = (c3, up3)" by fastforce
    have "down_ok c2 ?w" using d1 by (simp add: c2_def)
    then have l2: "up_link c2 ?w" using inv(2) lk up waits ev by (simp add: up_link_def up_waits_def c2_def c1_def)
    have e2: "tc_env c2 ?w = ?w" using e1 by (simp add: c2_def)
    have s2: "0 \<le> tc_socks_recv_buf_sent c2" "tc_socks_recv_buf_sent c2 < tc_socks_recv_buf_used c2"
      "tc_socks_recv_buf_used c2 \<le> int (length (tc_socks_recv_buf c2))"
      using waits by (simp_all add: c2_def c1_def up_waits_def)
    have f2: "w_from_socks ?w = w_to_client ?w @ up_rest c2" using waits by (simp add: c2_def c1_def up_rest_def up_waits_def)
    have "tc_inv (tc_run (if up3 \<and> tc_socks_recv_buf_used c3 = -1 \<and> \<not> tc_socks_closed c3
        then client_socks_recv_initiate c3 else c3) ?w)"
      by (rule send_out_then_receive [OF l2 e2 s2 f2 r])
    moreover have "tc_socks_recv_buf_used c > 0" using waits by (simp add: up_waits_def)
    ultimately show ?thesis using r unfolding c2_def c1_def by (simp add: client_sent_func_def Let_def)
  next
    case last
    have "up_weak c1 ?w" using up lk(6) by (simp add: up_weak_def c1_def)
    then have "tc_inv (tc_run (client_free_client e c1) ?w)"
      using inv(2) lk ev(1) d1 by (intro run_close [OF e1]) (simp_all add: c1)
    moreover have "\<not> tc_socks_recv_buf_used c > 0" using last(1) by (simp add: up_idle_def)
    ultimately show ?thesis using last(2,3) unfolding c1_def by (simp add: client_sent_func_def Let_def)
  next
    case idle
    have "link_ok c1 ?w" using p(2) idle(2) ev up(1) by (auto simp: link_ok_def c1_def)
    moreover have "up_ok c1 ?w" using up lk(6) idle(1) ev by (simp add: up_ok_def up_weak_def up_idle_def c1_def)
    ultimately have "tc_inv (tc_run c1 ?w)" using inv(2) d1 by (intro run_alive [OF e1]) simp_all
    moreover have "\<not> tc_socks_recv_buf_used c > 0" using idle(1) by (simp add: up_idle_def)
    ultimately show ?thesis using idle(2) unfolding c1_def by (auto simp: client_sent_func_def Let_def)
  qed
qed

lemma up_inv:
  assumes inv: "tc_inv w" "w_client w = Some c" and ev: "w_socks w" "\<not> tc_socks_up c"
  shows "tc_inv (tc_run (client_socks_handler e EVENT_UP c) w)"
proof -
  note p = inv_parts [OF inv]
  define c1 where "c1 = c\<lparr>tc_socks_recv_buf_used := -1, tc_socks_recv_tcp_pending := 0\<rparr>"
  define c2 where "c2 = (if \<not> tc_client_closed c1 then emit (Tcp_sent True) c1 else c1)\<lparr>tc_socks_up := True\<rparr>"
  define c3 where "c3 = (if tc_buf_used c2 > 0 then client_send_to_socks c2 else c2)"
  define c4 where "c4 = (if \<not> tc_client_closed c3 then client_socks_recv_initiate c3 else c3)"
  have eq: "client_socks_handler e EVENT_UP c = c4"
    unfolding c4_def c3_def c2_def c1_def client_socks_handler_def Let_def by (simp split: if_splits)
  let ?b = "take (nat (tc_buf_used c)) (tc_buf c)"
  have lk: "w_ok w" "tc_client_closed c = (\<not> w_pcb w)" "\<not> tc_socks_closed c" using p(2) ev(1) by (simp_all add: link_ok_def)
  have dn: "0 \<le> tc_buf_used c" "tc_buf_used c \<le> int (length (tc_buf c))" "w_from_client w = w_to_socks w @ ?b" "w_sending w = None"
    using p(3) ev by (auto simp: down_ok_def)
  have up: "w_from_socks w = []" "w_to_client w = []" "w_unacked w = 0" "tc_socks_recv_buf c \<noteq> []" "\<not> w_receiving w"
    using p(6) ev(2) by (auto simp: up_weak_def)
  have ne: "?b \<noteq> []" if "tc_buf_used c > 0" using that dn(2) by auto
  define v where "v = tc_env c4 w"
  define v1 where "v1 = (if w_pcb w then w\<lparr>w_sent_cb := True\<rparr> else w)"
  define v2 where "v2 = (if tc_buf_used c > 0 then v1\<lparr>w_sending := Some ?b\<rparr> else v1)"
  have e2: "tc_env c2 w = v1" using lk p(1) by (auto simp: c2_def c1_def v1_def tc_env_start w_ok_same)
  have e3: "tc_env c3 w = v2" using p(1) lk dn(4) ev(1) ne
    by (auto simp: c3_def v2_def client_send_to_socks_def c2_def c1_def v1_def sub_bytes_def tc_env_start w_ok_same)
  have v: "v = (if w_pcb w then v2\<lparr>w_receiving := True\<rparr> else v2)"
  proof -
    have "tc_client_closed c3 = (\<not> w_pcb w)" "tc_socks_recv_buf c3 \<noteq> []" using lk(2) up(4)
      by (simp_all add: c3_def c2_def c1_def client_send_to_socks_def)
    moreover have "w_ok v2" "w_socks v2" "\<not> w_receiving v2" using lk up ev(1) by (simp_all add: v2_def v1_def)
    ultimately show ?thesis unfolding v_def c4_def using e3 by (simp add: client_socks_recv_initiate_def w_ok_same)
  qed
  have c4: "tc_buf c4 = tc_buf c" "tc_buf_used c4 = tc_buf_used c" "tc_socks_up c4" "tc_client_closed c4 = tc_client_closed c"
    "tc_socks_closed c4 = tc_socks_closed c" "tc_socks_recv_buf c4 = tc_socks_recv_buf c" "tc_socks_recv_buf_used c4 = -1"
    "tc_socks_recv_tcp_pending c4 = 0"
    by (simp_all add: c4_def c3_def c2_def c1_def client_send_to_socks_def client_socks_recv_initiate_def)
  have "link_ok c4 v" using p(2) ev by (auto simp: link_ok_def v v2_def v1_def c4)
  moreover have "down_ok c4 v" using dn ne ev(1) unfolding down_ok_def c4(1,2) by (auto simp: v v2_def v1_def c4(3))
  moreover have "up_ok c4 v" using up ev(1) by (auto simp: up_ok_def up_weak_def up_idle_def v v2_def v1_def c4)
  moreover have "w_client v \<noteq> None" using inv(2) by (simp add: v v2_def v1_def)
  ultimately show ?thesis unfolding eq by (intro run_alive [OF v_def [symmetric]])
qed

lemma free_socks_inv:
  assumes "tc_inv w" "w_client w = Some c" "w_socks w"
  shows "tc_inv (tc_run (client_free_socks e c) w)"
proof -
  note p = inv_parts [OF assms(1,2)]
  show ?thesis using p(2-4) assms(2,3) by (intro run_free_socks [OF p(5)]) (simp_all add: link_ok_def)
qed

lemma murder_inv:
  assumes "tc_inv w" "w_client w = Some c"
  shows "tc_inv (tc_run (client_murder c) w)"
proof -
  note p = inv_parts [OF assms]
  define c1 where "c1 = (if \<not> tc_client_closed c then (client_abort_pcb (remove_callbacks c))\<lparr>tc_client_closed := True\<rparr> else c)"
  define c2 where "c2 = (if \<not> tc_socks_closed c1 then (emit Socks_Free c1)\<lparr>tc_socks_closed := True\<rparr> else c1)"
  have lk: "w_ok w" "tc_client_closed c = (\<not> w_pcb w)" "tc_socks_closed c = (\<not> w_socks w)" using p(2) by (simp_all add: link_ok_def)
  define v1 where "v1 = (if w_pcb w then w\<lparr>w_err_cb := False, w_recv_cb := False, w_sent_cb := False, w_pcb := False\<rparr> else w)"
  define v2 where "v2 = (if w_socks w then v1\<lparr>w_socks := False, w_sending := None, w_receiving := False\<rparr> else v1)"
  have e1: "tc_env c1 w = v1" using lk p(5) by (auto simp: c1_def v1_def no_callbacks_def w_ok_same)
  have s1: "tc_socks_closed c1 = tc_socks_closed c" by (simp add: c1_def)
  have v1: "w_ok v1" "w_socks v1 = w_socks w" using lk by (simp_all add: v1_def)
  have e2: "tc_env c2 w = v2" using lk e1 s1 v1 by (auto simp: c2_def v2_def w_ok_same)
  have "tc_inv (tc_run (client_dealloc c2) w)"
    using prefix_streams [OF p(3,4)] assms(2) lk by (intro run_dealloc [OF e2]) (simp_all add: v2_def v1_def)
  then show ?thesis unfolding client_murder_def Let_def c2_def c1_def .
qed

lemma err_inv:
  assumes "tc_inv w" "w_client w = Some c"
  shows "tc_inv (tc_run (client_err_func e c) (w\<lparr>w_pcb := False, w_err_cb := False, w_recv_cb := False, w_sent_cb := False\<rparr>))"
proof -
  note p = inv_parts [OF assms]
  let ?w = "w\<lparr>w_pcb := False, w_err_cb := False, w_recv_cb := False, w_sent_cb := False\<rparr>"
  have "down_ok c ?w" "up_ok c ?w" by (rule buffers_cong [OF p(3,6)]; simp)+
  then show ?thesis
    unfolding client_err_func_def using p(1,2) assms(2)
    by (intro run_handle_freed [of _ _ ?w]) (simp_all add: tc_env_start link_ok_def)
qed

lemma eof_inv:
  assumes "tc_inv w" "w_client w = Some c" "w_pcb w"
  shows "tc_inv (tc_run (fst (client_recv_func e None c)) w)"
proof -
  note p = inv_parts [OF assms(1,2)]
  let ?c = "c\<lparr>tc_dead := 0\<rparr>"
  have "tc_inv (tc_run (client_free_client e ?c) w)"
    using p assms by (intro run_close [of _ _ w]) (simp_all add: link_ok_def up_weak_def)
  then show ?thesis by (simp add: client_recv_func_def Let_def)
qed

lemma socks_handler_free:
  "client_socks_handler e EVENT_ERROR c = client_free_socks e c" "client_socks_handler e EVENT_ERROR_CLOSED c = client_free_socks e c"
  by (simp_all add: client_socks_handler_def)

lemma tc_step_inv: "tc_step w w' \<Longrightarrow> tc_inv w \<Longrightarrow> tc_inv w'"
  by (induction rule: tc_step.induct)
    (simp_all add: err_inv eof_inv recv_data_inv(2) sent_inv(2) up_inv free_socks_inv client_send_done_inv(2) recv_done_inv(2) murder_inv
      socks_handler_free)

lemma tc_start_inv:
  assumes "listener_accept_func ok junk = Some c" "tc_socks_recv_buf junk \<noteq> []"
  shows "tc_inv (tc_start c)"
proof -
  have c: "c = emit (Tcp_recv True) (emit (Tcp_err True) (junk\<lparr>tc_calls := []\<rparr>))
             \<lparr>tc_aborted := False, tc_dead := 0, tc_client_closed := False, tc_buf_used := 0, tc_socks_up := False,
              tc_socks_closed := False\<rparr>"
    using assms(1) by (auto simp: listener_accept_func_def split: if_splits)
  show ?thesis unfolding tc_start_def
    by (rule run_alive [OF refl])
      (simp_all add: c tc_env_def emit_def link_ok_def down_ok_def up_ok_def up_weak_def assms(2))
qed

lemma tc_reach_inv: "tc_reach w0 w \<Longrightarrow> tc_inv w0 \<Longrightarrow> tc_inv w"
  by (induction rule: tc_reach.induct) (auto dest: tc_step_inv)

section \<open>Properties\<close>

text \<open>A history starts when a connection is accepted.\<close>

definition tc_history :: "tcp_client \<Rightarrow> tc_world \<Rightarrow> bool" where
  "tc_history junk w \<longleftrightarrow> tc_socks_recv_buf junk \<noteq> [] \<and> (\<exists>c. listener_accept_func True junk = Some c \<and> tc_reach (tc_start c) w)"

lemma history_inv: "tc_history junk w \<Longrightarrow> tc_inv w"
  unfolding tc_history_def using tc_start_inv tc_reach_inv by blast


definition demo_junk :: tcp_client where
  "demo_junk = \<lparr>tc_aborted = True, tc_dead = 7, tc_client_closed = True, tc_buf = [9, 9, 9, 9], tc_buf_used = 5, tc_socks_up = True,
     tc_socks_closed = True, tc_socks_recv_buf = [9, 9], tc_socks_recv_buf_used = 3, tc_socks_recv_buf_sent = 4,
     tc_socks_recv_waiting = True, tc_socks_recv_tcp_pending = 6, tc_calls = []\<rparr>"

definition demo_env :: lwip_env where
  "demo_env = \<lparr>ev_close_ok = True, ev_output_ok = True, ev_sndbuf = (\<lambda>_. 1), ev_write = (\<lambda>_. Write_OK)\<rparr>"

text \<open>A client that has received three bytes from the device before its SOCKS connection is up.\<close>

definition demo_tc0 :: tc_world where
  "demo_tc0 = tc_start (the (listener_accept_func True demo_junk))"

definition demo_tc :: tc_world where
  "demo_tc = tc_run (fst (client_recv_func demo_env (Some [1, 2, 3]) (the (w_client demo_tc0)))) (demo_tc0\<lparr>w_from_client := [1, 2, 3]\<rparr>)"

lemma demo_tc0_eq:
  "w_client demo_tc0 = Some (demo_junk\<lparr>tc_aborted := False, tc_dead := 0, tc_client_closed := False, tc_buf_used := 0, tc_socks_up := False,
     tc_socks_closed := False\<rparr>)" "w_pcb demo_tc0" "w_recv_cb demo_tc0" "w_from_client demo_tc0 = []" "w_recved demo_tc0 = 0"
  by (simp_all add: demo_tc0_def tc_start_def tc_run_def tc_env_def emit_def listener_accept_func_def demo_junk_def)

lemma demo_tc_client:
  "w_client demo_tc = Some (demo_junk\<lparr>tc_aborted := False, tc_dead := 0, tc_client_closed := False, tc_buf := [1, 2, 3, 9], tc_buf_used := 3,
     tc_socks_up := False, tc_socks_closed := False\<rparr>)" "w_from_client demo_tc = [1, 2, 3]"
  by (simp_all add: demo_tc_def demo_tc0_eq client_recv_func_def Let_def demo_junk_def memcpy_at_def tc_run_def tc_env_def)

lemma demo_tc_history: "tc_history demo_junk demo_tc"
proof -
  have "tc_step demo_tc0 demo_tc"
    using tc_data [OF demo_tc0_eq(1-3), of "[1, 2, 3]" demo_env] demo_tc0_eq by (simp add: demo_tc_def demo_junk_def)
  then have "tc_reach demo_tc0 demo_tc" by (rule tc_next [OF tc_init])
  moreover have "listener_accept_func True demo_junk = Some (the (listener_accept_func True demo_junk))"
    by (simp add: listener_accept_func_def)
  ultimately show ?thesis unfolding tc_history_def demo_tc0_def by (auto simp: demo_junk_def)
qed


text \<open>C1. No byte is lost, changed or reordered between the device and the SOCKS server: in both directions what was passed on is at all
  times a prefix of what came in, while the client exists the difference is exactly what its buffers
  hold, and the connection's window is opened by exactly the bytes that were passed on.\<close>

theorem tcp_client_streams:
  assumes "tc_history junk w"
  shows "prefix (w_to_socks w) (w_from_client w) \<and> prefix (w_to_client w) (w_from_socks w) \<and>
    (\<forall>c. w_client w = Some c \<longrightarrow> w_from_client w = w_to_socks w @ sub_bytes 0 (nat (tc_buf_used c)) (tc_buf c)) \<and>
    (\<forall>c. w_client w = Some c \<and> w_pcb w \<and> tc_socks_up c \<longrightarrow>
       w_from_socks w = w_to_client w @ (if tc_socks_recv_buf_used c = -1 then [] else up_rest c) \<and>
       w_recved w = int (length (w_to_socks w)))"
proof -
  have inv: "tc_inv w" using assms by (rule history_inv)
  show ?thesis
  proof (cases "w_client w")
    case None
    then show ?thesis using inv by (simp add: tc_inv_def)
  next
    case (Some c)
    note p = inv_parts [OF inv Some]
    have "w_from_client w = w_to_socks w @ sub_bytes 0 (nat (tc_buf_used c)) (tc_buf c)"
      using p(3) by (simp add: down_ok_def sub_bytes_def)
    moreover have "w_recved w = int (length (w_to_socks w))" if "w_pcb w"
    proof -
      have "int (length (w_from_client w)) - w_recved w = tc_buf_used c" using p(2) that by (simp add: link_ok_def)
      moreover have "length (w_from_client w) = length (w_to_socks w) + nat (tc_buf_used c)" "0 \<le> tc_buf_used c"
        using p(3) by (auto simp: down_ok_def)
      ultimately show ?thesis by simp
    qed
    moreover have "w_from_socks w = w_to_client w @ (if tc_socks_recv_buf_used c = -1 then [] else up_rest c)" if "w_pcb w" "tc_socks_up c"
      using p(4) that by (auto simp: up_ok_def up_idle_def up_waits_def)
    ultimately show ?thesis using prefix_streams [OF p(3,4)] Some by simp
  qed
qed

theorem tcp_client_streams_witness: "prefix (w_to_socks demo_tc) (w_from_client demo_tc) \<and> w_to_socks demo_tc = []"
  using tcp_client_streams [OF demo_tc_history] demo_tc_client by (simp add: demo_junk_def sub_bytes_def)



end
