(* ===== verification/Reactor.thy ===== *)
theory Reactor
  imports Jobs Bavl
begin

text \<open>
  The event loop \<open>system/BReactor_badvpn.c\<close> in its epoll form: pending jobs (theory \<open>Jobs\<close>), timers, file
  descriptors and limits, and the loop that dispatches them. Timers, descriptors and limits are objects
  identified by their addresses (\<open>nat\<close>). The tree of running timers (\<open>structure/CAvl_impl.h\<close>) is represented by
  its in-order list; the clock and \<open>epoll_wait\<close> are the environment, whose answers are parameters. A
  handler is outside code: between two turns of the loop it may call any operation of the interface.
\<close>

section \<open>State\<close>

datatype timer_state = TIMER_STATE_INACTIVE | TIMER_STATE_RUNNING | TIMER_STATE_EXPIRED

abbreviation BREACTOR_READ :: u32 where "BREACTOR_READ \<equiv> 1"
abbreviation BREACTOR_WRITE :: u32 where "BREACTOR_WRITE \<equiv> 2"
abbreviation BREACTOR_ERROR :: u32 where "BREACTOR_ERROR \<equiv> 4"
abbreviation BREACTOR_HUP :: u32 where "BREACTOR_HUP \<equiv> 8"
abbreviation EPOLLIN :: u32 where "EPOLLIN \<equiv> 1"
abbreviation EPOLLOUT :: u32 where "EPOLLOUT \<equiv> 4"
abbreviation EPOLLERR :: u32 where "EPOLLERR \<equiv> 8"
abbreviation EPOLLHUP :: u32 where "EPOLLHUP \<equiv> 16"
abbreviation BSYSTEM_MAX_RESULTS :: nat where "BSYSTEM_MAX_RESULTS \<equiv> 64"
abbreviation INT64_MAX :: int where "INT64_MAX \<equiv> 9223372036854775807"
abbreviation INT64_MIN :: int where "INT64_MIN \<equiv> -9223372036854775808"

record BTimer =
  tm_state :: timer_state
  tm_absTime :: int
  tm_is_small :: bool
  tm_msTime :: int

text \<open>\<open>epoll_returned_ptr\<close> is the index of the entry of the results it points to. \<open>fd_epoll\<close> is the kernel's entry for the
  descriptor, the events last given to \<open>epoll_ctl\<close>, if there is one.\<close>

record BFileDescriptor =
  fd_active :: bool
  fd_waitEvents :: u32
  fd_returned :: "nat option"
  fd_epoll :: "u32 option"

record BReactorLimit =
  lim_limit :: int
  lim_count :: int

text \<open>\<open>rx_results\<close> are the entries of \<open>epoll_results\<close> that are in use (\<open>epoll_results_num\<close> is their number): the
  descriptor, unless it was removed, and the events.\<close>

record BReactor =
  rx_exiting :: bool
  rx_exit_code :: int
  rx_jobs :: "(nat, nat) BPendingGroup"
  rx_timers_tree :: "nat list"
  rx_expired :: "nat list"
  rx_timer :: "nat \<Rightarrow> BTimer"
  rx_results :: "(nat option \<times> u32) list"
  rx_pos :: nat
  rx_fd :: "nat \<Rightarrow> BFileDescriptor"
  rx_limits :: "nat list"
  rx_limit :: "nat \<Rightarrow> BReactorLimit option"

abbreviation state_of :: "BReactor \<Rightarrow> nat \<Rightarrow> timer_state" where "state_of r t \<equiv> tm_state (rx_timer r t)"
abbreviation abs_time :: "BReactor \<Rightarrow> nat \<Rightarrow> int" where "abs_time r t \<equiv> tm_absTime (rx_timer r t)"

definition upd_timer :: "nat \<Rightarrow> (BTimer \<Rightarrow> BTimer) \<Rightarrow> BReactor \<Rightarrow> BReactor" where
  "upd_timer t f r = r\<lparr>rx_timer := (rx_timer r)(t := f (rx_timer r t))\<rparr>"

definition upd_fd :: "nat \<Rightarrow> (BFileDescriptor \<Rightarrow> BFileDescriptor) \<Rightarrow> BReactor \<Rightarrow> BReactor" where
  "upd_fd d f r = r\<lparr>rx_fd := (rx_fd r)(d := f (rx_fd r d))\<rparr>"

definition upd_limit :: "nat \<Rightarrow> (BReactorLimit \<Rightarrow> BReactorLimit) \<Rightarrow> BReactor \<Rightarrow> BReactor" where
  "upd_limit l f r = r\<lparr>rx_limit := (rx_limit r)(l := map_option f (rx_limit r l))\<rparr>"

abbreviation limit_of :: "BReactor \<Rightarrow> nat \<Rightarrow> BReactorLimit" where "limit_of r l \<equiv> the (rx_limit r l)"

section \<open>Timers\<close>

definition compare_timers :: "BReactor \<Rightarrow> nat \<Rightarrow> nat \<Rightarrow> int" where
  "compare_timers r t1 t2 =
     (let cmp = B_COMPARE (abs_time r t1) (abs_time r t2) in if cmp \<noteq> 0 then cmp else B_COMPARE t1 t2)"

fun timers_insert :: "BReactor \<Rightarrow> nat \<Rightarrow> nat list \<Rightarrow> nat list" where
  "timers_insert r t [] = [t]"
| "timers_insert r t (u # us) = (if compare_timers r t u < 0 then t # u # us else u # timers_insert r t us)"

text \<open>A running timer becomes an expired one.\<close>

definition expire :: "nat \<Rightarrow> BReactor \<Rightarrow> BReactor" where
  "expire t r =
     upd_timer t (\<lambda>b. b\<lparr>tm_state := TIMER_STATE_EXPIRED\<rparr>)
       (r\<lparr>rx_timers_tree := remove1 t (rx_timers_tree r), rx_expired := rx_expired r @ [t]\<rparr>)"

text \<open>The loop of \<open>move_expired_timers\<close> and of \<open>move_first_timers\<close>.\<close>

function move_expired_timers :: "int \<Rightarrow> BReactor \<Rightarrow> bool \<times> BReactor" where
  "move_expired_timers now r =
     (case rx_timers_tree r of [] \<Rightarrow> (False, r)
      | t # _ \<Rightarrow> if abs_time r t > now then (False, r) else (True, snd (move_expired_timers now (expire t r))))"
  by auto
termination
  by (relation "measure (\<lambda>(now, r). length (rx_timers_tree r))") (auto simp: expire_def upd_timer_def)

declare move_expired_timers.simps [simp del]

definition move_first_timers :: "BReactor \<Rightarrow> BReactor" where
  "move_first_timers r =
     (case rx_timers_tree r of [] \<Rightarrow> r
      | first # _ \<Rightarrow> snd (move_expired_timers (abs_time r first) (expire first r)))"

definition BSmallTimer_Init :: "nat \<Rightarrow> BReactor \<Rightarrow> BReactor" where
  "BSmallTimer_Init t = upd_timer t (\<lambda>b. b\<lparr>tm_state := TIMER_STATE_INACTIVE, tm_is_small := True\<rparr>)"

definition BTimer_Init :: "nat \<Rightarrow> int \<Rightarrow> BReactor \<Rightarrow> BReactor" where
  "BTimer_Init t msTime =
     upd_timer t (\<lambda>b. b\<lparr>tm_state := TIMER_STATE_INACTIVE, tm_is_small := False, tm_msTime := msTime\<rparr>)"

definition BSmallTimer_IsRunning :: "nat \<Rightarrow> BReactor \<Rightarrow> bool" where
  "BSmallTimer_IsRunning t r \<longleftrightarrow> state_of r t \<noteq> TIMER_STATE_INACTIVE"

definition add_int64_overflows :: "int \<Rightarrow> int \<Rightarrow> int" where
  "add_int64_overflows a b =
     (if (a < 0) \<noteq> (b < 0) then 0
      else if a < 0 then - (if a < INT64_MIN - b then 1 else 0)
      else (if a > INT64_MAX - b then 1 else 0))"

definition btime_add :: "int \<Rightarrow> int \<Rightarrow> int" where
  "btime_add t1 t2 =
     (let overflows = add_int64_overflows t1 t2 in
      if overflows \<noteq> 0 then (if overflows > 0 then INT64_MAX else INT64_MIN) else t1 + t2)"

definition BReactor_RemoveSmallTimer :: "nat \<Rightarrow> BReactor \<Rightarrow> BReactor" where
  "BReactor_RemoveSmallTimer t r =
     (if state_of r t = TIMER_STATE_INACTIVE then r
      else
        let r = (if state_of r t = TIMER_STATE_EXPIRED then r\<lparr>rx_expired := remove1 t (rx_expired r)\<rparr>
                 else r\<lparr>rx_timers_tree := remove1 t (rx_timers_tree r)\<rparr>)
        in upd_timer t (\<lambda>b. b\<lparr>tm_state := TIMER_STATE_INACTIVE\<rparr>) r)"

text \<open>\<open>clock\<close> is what \<open>btime_gettime\<close> returns.\<close>

definition BReactor_SetSmallTimer :: "int \<Rightarrow> nat \<Rightarrow> bool \<Rightarrow> int \<Rightarrow> BReactor \<Rightarrow> BReactor" where
  "BReactor_SetSmallTimer clock t relative time r =
     (let r = BReactor_RemoveSmallTimer t r;
          time = (if relative then btime_add clock time else time);
          r = upd_timer t (\<lambda>b. b\<lparr>tm_absTime := time, tm_state := TIMER_STATE_RUNNING\<rparr>) r
      in r\<lparr>rx_timers_tree := timers_insert r t (rx_timers_tree r)\<rparr>)"

definition BReactor_SetTimer :: "int \<Rightarrow> nat \<Rightarrow> BReactor \<Rightarrow> BReactor" where
  "BReactor_SetTimer clock t r = BReactor_SetSmallTimer clock t True (tm_msTime (rx_timer r t)) r"

section \<open>File descriptors\<close>

definition BFileDescriptor_Init :: "nat \<Rightarrow> BReactor \<Rightarrow> BReactor" where
  "BFileDescriptor_Init d = upd_fd d (\<lambda>b. b\<lparr>fd_active := False\<rparr>)"

text \<open>\<open>ok\<close> is the success of \<open>epoll_ctl\<close>.\<close>

definition BReactor_AddFileDescriptor :: "bool \<Rightarrow> nat \<Rightarrow> BReactor \<Rightarrow> bool \<times> BReactor" where
  "BReactor_AddFileDescriptor ok d r =
     (if \<not> ok then (False, r)
      else (True, upd_fd d (\<lambda>b. b\<lparr>fd_epoll := Some 0, fd_returned := None, fd_active := True, fd_waitEvents := 0\<rparr>) r))"

definition BReactor_RemoveFileDescriptor :: "nat \<Rightarrow> BReactor \<Rightarrow> BReactor" where
  "BReactor_RemoveFileDescriptor d r =
     (let r = upd_fd d (\<lambda>b. b\<lparr>fd_active := False, fd_epoll := None\<rparr>) r in
      case fd_returned (rx_fd r d) of None \<Rightarrow> r
      | Some i \<Rightarrow> r\<lparr>rx_results := (rx_results r)[i := (None, snd (rx_results r ! i))]\<rparr>)"

definition epoll_events :: "u32 \<Rightarrow> u32" where
  "epoll_events events =
     (let eevents = (if events AND BREACTOR_READ \<noteq> 0 then 0 OR EPOLLIN else 0)
      in if events AND BREACTOR_WRITE \<noteq> 0 then eevents OR EPOLLOUT else eevents)"

definition BReactor_SetFileDescriptorEvents :: "nat \<Rightarrow> u32 \<Rightarrow> BReactor \<Rightarrow> BReactor" where
  "BReactor_SetFileDescriptorEvents d events r =
     (if fd_waitEvents (rx_fd r d) = events then r
      else upd_fd d (\<lambda>b. b\<lparr>fd_epoll := Some (epoll_events events), fd_waitEvents := events\<rparr>) r)"

text \<open>The entries are visited in order; entry \<open>i\<close> is the first of those left.\<close>

fun set_epoll_fd_pointers :: "nat \<Rightarrow> (nat option \<times> u32) list \<Rightarrow> BReactor \<Rightarrow> BReactor" where
  "set_epoll_fd_pointers i [] r = r"
| "set_epoll_fd_pointers i ((p, e) # es) r =
     set_epoll_fd_pointers (Suc i) es
       (case p of None \<Rightarrow> r | Some d \<Rightarrow> upd_fd d (\<lambda>b. b\<lparr>fd_returned := Some i\<rparr>) r)"

section \<open>Limits\<close>

text \<open>A limit that was not initialised, or was freed, does not exist.\<close>

definition BReactorLimit_Init :: "nat \<Rightarrow> int \<Rightarrow> BReactor \<Rightarrow> BReactor" where
  "BReactorLimit_Init l limit r = r\<lparr>rx_limit := (rx_limit r)(l \<mapsto> \<lparr>lim_limit = limit, lim_count = 0\<rparr>)\<rparr>"

definition BReactorLimit_Free :: "nat \<Rightarrow> BReactor \<Rightarrow> BReactor" where
  "BReactorLimit_Free l r =
     (let r' = (if lim_count (limit_of r l) > 0 then r\<lparr>rx_limits := remove1 l (rx_limits r)\<rparr> else r)
      in r'\<lparr>rx_limit := (rx_limit r')(l := None)\<rparr>)"

definition BReactorLimit_Increment :: "nat \<Rightarrow> BReactor \<Rightarrow> bool \<times> BReactor" where
  "BReactorLimit_Increment l r =
     (if lim_count (limit_of r l) \<ge> lim_limit (limit_of r l) then (False, r)
      else
        let r = upd_limit l (\<lambda>b. b\<lparr>lim_count := lim_count b + 1\<rparr>) r
        in (True, if lim_count (limit_of r l) = 1 then r\<lparr>rx_limits := rx_limits r @ [l]\<rparr> else r))"

definition BReactorLimit_SetLimit :: "nat \<Rightarrow> int \<Rightarrow> BReactor \<Rightarrow> BReactor" where
  "BReactorLimit_SetLimit l limit = upd_limit l (\<lambda>b. b\<lparr>lim_limit := limit\<rparr>)"

function reset_limits :: "BReactor \<Rightarrow> BReactor" where
  "reset_limits r =
     (case rx_limits r of [] \<Rightarrow> r
      | l # ls \<Rightarrow> reset_limits ((upd_limit l (\<lambda>b. b\<lparr>lim_count := 0\<rparr>) r)\<lparr>rx_limits := ls\<rparr>))"
  by auto
termination
  by (relation "measure (\<lambda>r. length (rx_limits r))") auto

declare reset_limits.simps [simp del]

section \<open>Waiting and dispatching\<close>

text \<open>An answer of \<open>epoll_wait\<close>, and the clock if it is read after it.\<close>

datatype ep_answer = EpEvents "(nat \<times> u32) list" | EpTimedOut | EpInterrupted

definition timeout_rel_trunc :: "int option \<Rightarrow> int \<Rightarrow> int" where
  "timeout_rel_trunc timeout_abs now = (case timeout_abs of None \<Rightarrow> 0 | Some t \<Rightarrow> min (t - now) INT_MAX)"

definition timeout_rel :: "int option \<Rightarrow> int \<Rightarrow> int" where
  "timeout_rel timeout_abs now = (case timeout_abs of None \<Rightarrow> 0 | Some t \<Rightarrow> t - now)"

text \<open>The loop of \<open>wait_for_events\<close>; it has not returned when the answers are used up.\<close>

fun wait_loop :: "int option \<Rightarrow> int \<Rightarrow> (ep_answer \<times> int) list \<Rightarrow> BReactor \<Rightarrow> BReactor option" where
  "wait_loop timeout_abs now [] r = None"
| "wait_loop timeout_abs now ((a, clock) # as) r =
     (let try_again =
            (case timeout_abs of
               None \<Rightarrow> wait_loop timeout_abs now as r
             | Some t \<Rightarrow> if clock \<ge> t then Some (move_first_timers r) else wait_loop timeout_abs clock as r)
      in case a of
           EpInterrupted \<Rightarrow> try_again
         | EpEvents evs \<Rightarrow>
             let r = r\<lparr>rx_results := map (\<lambda>(d, e). (Some d, e)) evs\<rparr>
             in Some (set_epoll_fd_pointers 0 (rx_results r) r)
         | EpTimedOut \<Rightarrow>
             if timeout_rel_trunc timeout_abs now = timeout_rel timeout_abs now then Some (move_first_timers r)
             else try_again)"

definition wait_for_events :: "int \<Rightarrow> (ep_answer \<times> int) list \<Rightarrow> BReactor \<Rightarrow> BReactor option" where
  "wait_for_events now as r =
     (let r = r\<lparr>rx_results := [], rx_pos := 0\<rparr> in
      case rx_timers_tree r of
        [] \<Rightarrow> map_option reset_limits (wait_loop None 0 as r)
      | first # _ \<Rightarrow>
          let (moved, r') = move_expired_timers now r in
          if moved then Some r' else map_option reset_limits (wait_loop (Some (abs_time r first)) now as r))"

datatype rx_event = RX_Job nat | RX_Timer nat bool | RX_Fd nat u32 | RX_Skipped | RX_Waited

definition fd_events :: "u32 \<Rightarrow> u32 \<Rightarrow> u32" where
  "fd_events wait ev =
     (let events = 0;
          events = (if wait AND BREACTOR_READ \<noteq> 0 \<and> ev AND EPOLLIN \<noteq> 0 then events OR BREACTOR_READ else events);
          events = (if wait AND BREACTOR_WRITE \<noteq> 0 \<and> ev AND EPOLLOUT \<noteq> 0 then events OR BREACTOR_WRITE else events);
          events = (if ev AND EPOLLERR \<noteq> 0 then events OR BREACTOR_ERROR else events)
      in if ev AND EPOLLHUP \<noteq> 0 then events OR BREACTOR_HUP else events)"

text \<open>One turn of the loop of \<open>BReactor_Exec\<close>, up to the call of a handler, which is returned; it does not end when
  \<open>wait_for_events\<close> does not.\<close>

definition exec_turn :: "int \<Rightarrow> (ep_answer \<times> int) list \<Rightarrow> BReactor \<Rightarrow> (rx_event \<times> BReactor) option" where
  "exec_turn now as r =
     (case BPendingGroup_ExecuteJob (rx_jobs r) of
        Some (j, g) \<Rightarrow> Some (RX_Job j, r\<lparr>rx_jobs := g\<rparr>)
      | None \<Rightarrow>
          case rx_expired r of
            t # _ \<Rightarrow>
              Some (RX_Timer t (tm_is_small (rx_timer r t)),
                upd_timer t (\<lambda>b. b\<lparr>tm_state := TIMER_STATE_INACTIVE\<rparr>) (r\<lparr>rx_expired := remove1 t (rx_expired r)\<rparr>))
          | [] \<Rightarrow>
              if rx_pos r < length (rx_results r) then
                (let (p, ev) = rx_results r ! rx_pos r; r = r\<lparr>rx_pos := rx_pos r + 1\<rparr> in
                 case p of None \<Rightarrow> Some (RX_Skipped, r)
                 | Some d \<Rightarrow>
                     let r = upd_fd d (\<lambda>b. b\<lparr>fd_returned := None\<rparr>) r;
                         events = fd_events (fd_waitEvents (rx_fd r d)) ev
                     in Some (if events = 0 then RX_Skipped else RX_Fd d events, r))
              else map_option (Pair RX_Waited) (wait_for_events now as r))"

definition BReactor_Quit :: "int \<Rightarrow> BReactor \<Rightarrow> BReactor" where
  "BReactor_Quit code r = r\<lparr>rx_exiting := True, rx_exit_code := code\<rparr>"

text \<open>One turn of the loop of \<open>BReactor_Synchronize\<close>.\<close>

definition synchronize_turn :: "nat \<Rightarrow> BReactor \<Rightarrow> BReactor" where
  "synchronize_turn ref r =
     (if BPendingGroup_PeekJob (rx_jobs r) = Some ref then r
      else case BPendingGroup_ExecuteJob (rx_jobs r) of None \<Rightarrow> r | Some (_, g) \<Rightarrow> r\<lparr>rx_jobs := g\<rparr>)"

text \<open>\<open>BReactor_Init\<close>, with the timers and descriptors that are going to be used inactive.\<close>

definition BReactor_Init :: BReactor where
  "BReactor_Init =
     \<lparr>rx_exiting = False, rx_exit_code = 0, rx_jobs = BPendingGroup_Init, rx_timers_tree = [], rx_expired = [],
      rx_timer = (\<lambda>_. \<lparr>tm_state = TIMER_STATE_INACTIVE, tm_absTime = 0, tm_is_small = True, tm_msTime = 0\<rparr>),
      rx_results = [], rx_pos = 0, rx_fd = (\<lambda>_. \<lparr>fd_active = False, fd_waitEvents = 0, fd_returned = None, fd_epoll = None\<rparr>),
      rx_limits = [], rx_limit = (\<lambda>_. None)\<rparr>"

section \<open>Histories\<close>

text \<open>The operations outside code may call, and a turn of the loops. The conditions are those the code asserts;
  for a turn they are what \<open>epoll_wait\<close> promises: it reports registered descriptors, each once, at least one
  and at most as many as there is room for, and it times out only when a timeout was given.\<close>

datatype rx_op =
  RO_Job "(nat, nat) job_op"
| RO_InitSmall nat | RO_InitTimer nat int | RO_SetTimer int nat bool int | RO_RemoveTimer nat
| RO_InitFd nat | RO_AddFd bool nat | RO_RemoveFd nat | RO_SetEvents nat u32
| RO_InitLimit nat int | RO_FreeLimit nat | RO_Increment nat | RO_SetLimit nat int
| RO_Quit int | RO_Synchronize nat | RO_Turn int "(ep_answer \<times> int) list"

fun ep_answer_ok :: "BReactor \<Rightarrow> ep_answer \<Rightarrow> bool" where
  "ep_answer_ok r (EpEvents evs) \<longleftrightarrow>
     evs \<noteq> [] \<and> length evs \<le> BSYSTEM_MAX_RESULTS \<and> distinct (map fst evs) \<and> (\<forall>d\<in>fst ` set evs. fd_epoll (rx_fd r d) \<noteq> None)"
| "ep_answer_ok r EpTimedOut \<longleftrightarrow> rx_timers_tree r \<noteq> []"
| "ep_answer_ok r EpInterrupted \<longleftrightarrow> True"

fun rx_pre :: "rx_op \<Rightarrow> BReactor \<Rightarrow> bool" where
  "rx_pre (RO_Job op) r \<longleftrightarrow> op \<noteq> OpExec \<and> job_pre op (rx_jobs r)"
| "rx_pre (RO_InitSmall t) r \<longleftrightarrow> \<not> BSmallTimer_IsRunning t r"
| "rx_pre (RO_InitTimer t ms) r \<longleftrightarrow> \<not> BSmallTimer_IsRunning t r"
| "rx_pre (RO_InitFd d) r \<longleftrightarrow> \<not> fd_active (rx_fd r d)"
| "rx_pre (RO_AddFd ok d) r \<longleftrightarrow> \<not> fd_active (rx_fd r d)"
| "rx_pre (RO_RemoveFd d) r \<longleftrightarrow> fd_active (rx_fd r d)"
| "rx_pre (RO_SetEvents d events) r \<longleftrightarrow> fd_active (rx_fd r d) \<and> events AND NOT (BREACTOR_READ OR BREACTOR_WRITE) = 0"
| "rx_pre (RO_InitLimit l limit) r \<longleftrightarrow> limit > 0 \<and> rx_limit r l = None"
| "rx_pre (RO_FreeLimit l) r \<longleftrightarrow> rx_limit r l \<noteq> None"
| "rx_pre (RO_Increment l) r \<longleftrightarrow> rx_limit r l \<noteq> None"
| "rx_pre (RO_SetLimit l limit) r \<longleftrightarrow> limit > 0 \<and> rx_limit r l \<noteq> None"
| "rx_pre (RO_Synchronize ref) r \<longleftrightarrow> \<not> rx_exiting r \<and> BPendingGroup_HasJobs (rx_jobs r)"
| "rx_pre (RO_Turn now as) r \<longleftrightarrow>
     \<not> rx_exiting r \<and> (\<forall>(a, clock)\<in>set as. ep_answer_ok r a) \<and> exec_turn now as r \<noteq> None"
| "rx_pre _ r \<longleftrightarrow> True"

fun rx_step :: "rx_op \<Rightarrow> BReactor \<Rightarrow> BReactor" where
  "rx_step (RO_Job op) r = r\<lparr>rx_jobs := job_step op (rx_jobs r)\<rparr>"
| "rx_step (RO_InitSmall t) r = BSmallTimer_Init t r"
| "rx_step (RO_InitTimer t ms) r = BTimer_Init t ms r"
| "rx_step (RO_SetTimer clock t relative time) r = BReactor_SetSmallTimer clock t relative time r"
| "rx_step (RO_RemoveTimer t) r = BReactor_RemoveSmallTimer t r"
| "rx_step (RO_InitFd d) r = BFileDescriptor_Init d r"
| "rx_step (RO_AddFd ok d) r = snd (BReactor_AddFileDescriptor ok d r)"
| "rx_step (RO_RemoveFd d) r = BReactor_RemoveFileDescriptor d r"
| "rx_step (RO_SetEvents d events) r = BReactor_SetFileDescriptorEvents d events r"
| "rx_step (RO_InitLimit l limit) r = BReactorLimit_Init l limit r"
| "rx_step (RO_FreeLimit l) r = BReactorLimit_Free l r"
| "rx_step (RO_Increment l) r = snd (BReactorLimit_Increment l r)"
| "rx_step (RO_SetLimit l limit) r = BReactorLimit_SetLimit l limit r"
| "rx_step (RO_Quit code) r = BReactor_Quit code r"
| "rx_step (RO_Synchronize ref) r = synchronize_turn ref r"
| "rx_step (RO_Turn now as) r = (case exec_turn now as r of None \<Rightarrow> r | Some (ev, r') \<Rightarrow> r')"

section \<open>Invariant\<close>

text \<open>What the kernel has registered is what the reactor asked for.\<close>

definition reg_ok :: "BReactor \<Rightarrow> bool" where
  "reg_ok r \<longleftrightarrow>
     (\<forall>d. fd_epoll (rx_fd r d) = (if fd_active (rx_fd r d) then Some (epoll_events (fd_waitEvents (rx_fd r d))) else None))"

text \<open>What an answer reports, said of the reactor's own state.\<close>

fun ep_active :: "BReactor \<Rightarrow> ep_answer \<Rightarrow> bool" where
  "ep_active r (EpEvents evs) \<longleftrightarrow>
     evs \<noteq> [] \<and> length evs \<le> BSYSTEM_MAX_RESULTS \<and> distinct (map fst evs) \<and> (\<forall>d\<in>fst ` set evs. fd_active (rx_fd r d))"
| "ep_active r EpTimedOut \<longleftrightarrow> rx_timers_tree r \<noteq> []"
| "ep_active r EpInterrupted \<longleftrightarrow> True"

lemma ep_answer_active:
  assumes "reg_ok r" "\<forall>(a, clock)\<in>set as. ep_answer_ok r a"
  shows "\<forall>(a, clock)\<in>set as. ep_active r a"
proof -
  have "ep_active r a" if "ep_answer_ok r a" for a
    using that assms(1) by (cases a) (auto simp: reg_ok_def split: if_splits)
  then show ?thesis using assms(2) by blast
qed

definition timer_before :: "(nat \<Rightarrow> int) \<Rightarrow> nat \<Rightarrow> nat \<Rightarrow> bool" where
  "timer_before time t u \<longleftrightarrow> time t < time u \<or> time t = time u \<and> t < u"

text \<open>A running timer is in the tree, an expired one in the list, each once.\<close>

definition timers_ok :: "BReactor \<Rightarrow> bool" where
  "timers_ok r \<longleftrightarrow>
     distinct (rx_timers_tree r) \<and> distinct (rx_expired r) \<and>
     (\<forall>t. t \<in> set (rx_timers_tree r) \<longleftrightarrow> state_of r t = TIMER_STATE_RUNNING) \<and>
     (\<forall>t. t \<in> set (rx_expired r) \<longleftrightarrow> state_of r t = TIMER_STATE_EXPIRED) \<and>
     sorted_wrt (timer_before (abs_time r)) (rx_timers_tree r)"

text \<open>The results that are left and the pointers back to them agree.\<close>

definition fds_ok :: "BReactor \<Rightarrow> bool" where
  "fds_ok r \<longleftrightarrow>
     rx_pos r \<le> length (rx_results r) \<and> length (rx_results r) \<le> BSYSTEM_MAX_RESULTS \<and>
     (\<forall>i d. rx_pos r \<le> i \<and> i < length (rx_results r) \<and> fst (rx_results r ! i) = Some d \<longrightarrow>
        fd_active (rx_fd r d) \<and> fd_returned (rx_fd r d) = Some i) \<and>
     (\<forall>d i. fd_active (rx_fd r d) \<and> fd_returned (rx_fd r d) = Some i \<longrightarrow>
        rx_pos r \<le> i \<and> i < length (rx_results r) \<and> fst (rx_results r ! i) = Some d)"

text \<open>The active limits are those that were used since the last wait.\<close>

definition limits_ok :: "BReactor \<Rightarrow> bool" where
  "limits_ok r \<longleftrightarrow>
     distinct (rx_limits r) \<and> (\<forall>l b. rx_limit r l = Some b \<longrightarrow> 0 \<le> lim_count b) \<and>
     (\<forall>l. l \<in> set (rx_limits r) \<longleftrightarrow> (\<exists>b. rx_limit r l = Some b \<and> 0 < lim_count b))"

definition rx_inv :: "BReactor \<Rightarrow> bool" where
  "rx_inv r \<longleftrightarrow> group_inv (rx_jobs r) \<and> timers_ok r \<and> fds_ok r \<and> limits_ok r"

lemma upd_timer_simps [simp]:
  "rx_exiting (upd_timer t f r) = rx_exiting r" "rx_jobs (upd_timer t f r) = rx_jobs r"
  "rx_timers_tree (upd_timer t f r) = rx_timers_tree r" "rx_expired (upd_timer t f r) = rx_expired r"
  "rx_timer (upd_timer t f r) = (rx_timer r)(t := f (rx_timer r t))"
  "rx_results (upd_timer t f r) = rx_results r" "rx_pos (upd_timer t f r) = rx_pos r" "rx_fd (upd_timer t f r) = rx_fd r"
  "rx_limits (upd_timer t f r) = rx_limits r" "rx_limit (upd_timer t f r) = rx_limit r"
  by (simp_all add: upd_timer_def)

lemma upd_fd_simps [simp]:
  "rx_exiting (upd_fd d f r) = rx_exiting r" "rx_jobs (upd_fd d f r) = rx_jobs r"
  "rx_timers_tree (upd_fd d f r) = rx_timers_tree r" "rx_expired (upd_fd d f r) = rx_expired r"
  "rx_timer (upd_fd d f r) = rx_timer r" "rx_results (upd_fd d f r) = rx_results r" "rx_pos (upd_fd d f r) = rx_pos r"
  "rx_fd (upd_fd d f r) = (rx_fd r)(d := f (rx_fd r d))"
  "rx_limits (upd_fd d f r) = rx_limits r" "rx_limit (upd_fd d f r) = rx_limit r"
  by (simp_all add: upd_fd_def)

lemma upd_limit_simps [simp]:
  "rx_exiting (upd_limit l f r) = rx_exiting r" "rx_jobs (upd_limit l f r) = rx_jobs r"
  "rx_timers_tree (upd_limit l f r) = rx_timers_tree r" "rx_expired (upd_limit l f r) = rx_expired r"
  "rx_timer (upd_limit l f r) = rx_timer r" "rx_results (upd_limit l f r) = rx_results r" "rx_pos (upd_limit l f r) = rx_pos r"
  "rx_fd (upd_limit l f r) = rx_fd r" "rx_limits (upd_limit l f r) = rx_limits r"
  "rx_limit (upd_limit l f r) = (rx_limit r)(l := map_option f (rx_limit r l))"
  by (simp_all add: upd_limit_def)

text \<open>The three parts of the invariant depend on their own fields only.\<close>

lemma timers_ok_cong:
  "rx_timers_tree r' = rx_timers_tree r \<Longrightarrow> rx_expired r' = rx_expired r \<Longrightarrow> rx_timer r' = rx_timer r \<Longrightarrow>
   timers_ok r' \<longleftrightarrow> timers_ok r"
  by (simp add: timers_ok_def)

lemma fds_ok_cong:
  "rx_results r' = rx_results r \<Longrightarrow> rx_pos r' = rx_pos r \<Longrightarrow> rx_fd r' = rx_fd r \<Longrightarrow> fds_ok r' \<longleftrightarrow> fds_ok r"
  by (simp add: fds_ok_def)

lemma limits_ok_cong: "rx_limits r' = rx_limits r \<Longrightarrow> rx_limit r' = rx_limit r \<Longrightarrow> limits_ok r' \<longleftrightarrow> limits_ok r"
  by (simp add: limits_ok_def)

section \<open>Timers\<close>

lemma compare_timers_before: "compare_timers r t u < 0 \<longleftrightarrow> timer_before (abs_time r) t u"
  by (auto simp: compare_timers_def timer_before_def B_COMPARE_def Let_def)

lemma timer_before_total: "t \<noteq> u \<Longrightarrow> timer_before time t u \<or> timer_before time u t"
  by (auto simp: timer_before_def)

lemma timer_before_trans: "timer_before time t u \<Longrightarrow> timer_before time u v \<Longrightarrow> timer_before time t v"
  by (auto simp: timer_before_def)

lemma timers_insert_set [simp]: "set (timers_insert r t us) = insert t (set us)"
  by (induction us) auto

lemma timers_insert_distinct [simp]: "distinct (timers_insert r t us) \<longleftrightarrow> t \<notin> set us \<and> distinct us"
  by (induction us) auto

lemma timers_insert_sorted:
  assumes "sorted_wrt (timer_before (abs_time r)) us" "t \<notin> set us"
  shows "sorted_wrt (timer_before (abs_time r)) (timers_insert r t us)"
  using assms
proof (induction us)
  case (Cons u us)
  then have "\<not> timer_before (abs_time r) t u \<Longrightarrow> timer_before (abs_time r) u t" using timer_before_total [of t u] by auto
  then show ?case using Cons by (auto simp: compare_timers_before intro: timer_before_trans)
qed simp

lemma timers_sorted_cong:
  "sorted_wrt (timer_before time) us \<Longrightarrow> (\<And>t. t \<in> set us \<Longrightarrow> time' t = time t) \<Longrightarrow> sorted_wrt (timer_before time') us"
  by (induction us) (auto simp: timer_before_def)

lemma sorted_wrt_remove_one: "sorted_wrt R xs \<Longrightarrow> sorted_wrt R (remove1 x xs)"
proof (induction xs)
  case (Cons y ys)
  then show ?case using notin_set_remove1 [of _ ys x] by auto
qed simp

lemma remove_timer_fields:
  assumes "timers_ok r" and r': "r' = BReactor_RemoveSmallTimer t r"
  shows "rx_timers_tree r' = remove1 t (rx_timers_tree r)" "rx_expired r' = remove1 t (rx_expired r)"
    "abs_time r' u = abs_time r u" "state_of r' u = (if u = t then TIMER_STATE_INACTIVE else state_of r u)"
    "rx_jobs r' = rx_jobs r" "rx_results r' = rx_results r" "rx_pos r' = rx_pos r" "rx_fd r' = rx_fd r"
    "rx_limits r' = rx_limits r" "rx_limit r' = rx_limit r"
proof -
  have "t \<notin> set (rx_timers_tree r) \<or> state_of r t = TIMER_STATE_RUNNING" "t \<notin> set (rx_expired r) \<or> state_of r t = TIMER_STATE_EXPIRED"
    using assms(1) by (auto simp: timers_ok_def)
  then show "rx_timers_tree r' = remove1 t (rx_timers_tree r)" "rx_expired r' = remove1 t (rx_expired r)"
    by (auto simp: r' BReactor_RemoveSmallTimer_def Let_def remove1_idem)
qed (auto simp: r' BReactor_RemoveSmallTimer_def Let_def)

lemma remove_timer_ok:
  assumes "timers_ok r" and r': "r' = BReactor_RemoveSmallTimer t r"
  shows "timers_ok r'"
proof -
  note f = remove_timer_fields [OF assms]
  have "sorted_wrt (timer_before (abs_time r')) (remove1 t (rx_timers_tree r))"
    by (rule timers_sorted_cong [of "abs_time r"]) (use assms(1) in \<open>simp_all add: timers_ok_def sorted_wrt_remove_one f\<close>)
  then show ?thesis using assms(1) unfolding timers_ok_def f by auto
qed

lemma set_timer_ok:
  assumes "timers_ok r"
  shows "timers_ok (BReactor_SetSmallTimer clock t relative time r)"
proof -
  define r1 where "r1 = BReactor_RemoveSmallTimer t r"
  define tm where "tm = (if relative then btime_add clock time else time)"
  define r2 where "r2 = upd_timer t (\<lambda>b. b\<lparr>tm_absTime := tm, tm_state := TIMER_STATE_RUNNING\<rparr>) r1"
  have e: "BReactor_SetSmallTimer clock t relative time r = r2\<lparr>rx_timers_tree := timers_insert r2 t (rx_timers_tree r2)\<rparr>"
    by (simp add: BReactor_SetSmallTimer_def Let_def r1_def tm_def r2_def)
  have ok: "timers_ok r1" using remove_timer_ok [OF assms r1_def] .
  have t: "t \<notin> set (rx_timers_tree r1)" "t \<notin> set (rx_expired r1)"
    using assms by (simp_all add: remove_timer_fields [OF assms r1_def] timers_ok_def)
  have "sorted_wrt (timer_before (abs_time r2)) (rx_timers_tree r1)"
    by (rule timers_sorted_cong [of "abs_time r1"]) (use ok t in \<open>auto simp: timers_ok_def r2_def\<close>)
  then have "sorted_wrt (timer_before (abs_time r2)) (timers_insert r2 t (rx_timers_tree r1))"
    by (rule timers_insert_sorted) (rule t(1))
  then show ?thesis using ok t unfolding e by (auto simp: timers_ok_def r2_def)
qed

text \<open>Moving timers: a prefix of the tree becomes the end of the expired list.\<close>

lemma expire_first_ok:
  assumes "timers_ok r" "rx_timers_tree r = t # ts"
  shows "timers_ok (expire t r)" and "rx_timers_tree (expire t r) = ts" and "rx_expired (expire t r) = rx_expired r @ [t]"
    and "abs_time (expire t r) u = abs_time r u"
proof -
  show f: "rx_timers_tree (expire t r) = ts" "rx_expired (expire t r) = rx_expired r @ [t]" "abs_time (expire t r) u = abs_time r u" for u
    using assms(2) by (simp_all add: expire_def)
  have "sorted_wrt (timer_before (abs_time (expire t r))) ts"
    by (rule timers_sorted_cong [of "abs_time r"]) (use assms f in \<open>simp_all add: timers_ok_def\<close>)
  moreover have "state_of r t = TIMER_STATE_RUNNING"
    using assms by (metis list.set_intros(1) timers_ok_def)
  ultimately show "timers_ok (expire t r)" using assms unfolding timers_ok_def f by (auto simp: expire_def)
qed

lemma expire_frame [simp]:
  "rx_jobs (expire t r) = rx_jobs r" "rx_results (expire t r) = rx_results r" "rx_pos (expire t r) = rx_pos r"
  "rx_fd (expire t r) = rx_fd r" "rx_limits (expire t r) = rx_limits r" "rx_limit (expire t r) = rx_limit r"
  "rx_exiting (expire t r) = rx_exiting r"
  by (simp_all add: expire_def)

lemma move_expired_frame:
  "rx_jobs (snd (move_expired_timers now r)) = rx_jobs r \<and> rx_results (snd (move_expired_timers now r)) = rx_results r \<and>
   rx_pos (snd (move_expired_timers now r)) = rx_pos r \<and> rx_fd (snd (move_expired_timers now r)) = rx_fd r \<and>
   rx_limits (snd (move_expired_timers now r)) = rx_limits r \<and> rx_limit (snd (move_expired_timers now r)) = rx_limit r \<and>
   rx_exiting (snd (move_expired_timers now r)) = rx_exiting r"
proof (induction now r rule: move_expired_timers.induct)
  case (1 now r)
  show ?case
  proof (cases "rx_timers_tree r")
    case Nil
    then show ?thesis by (simp add: move_expired_timers.simps [of now r])
  next
    case (Cons t ts)
    then show ?thesis using 1 [OF Cons] by (simp add: move_expired_timers.simps [of now r])
  qed
qed

lemma move_expired_correct:
  assumes "timers_ok r"
  shows "timers_ok (snd (move_expired_timers now r)) \<and>
    rx_timers_tree (snd (move_expired_timers now r)) = filter (\<lambda>t. abs_time r t > now) (rx_timers_tree r) \<and>
    rx_expired (snd (move_expired_timers now r)) = rx_expired r @ filter (\<lambda>t. abs_time r t \<le> now) (rx_timers_tree r) \<and>
    (\<forall>u. abs_time (snd (move_expired_timers now r)) u = abs_time r u) \<and>
    (fst (move_expired_timers now r) \<longleftrightarrow> filter (\<lambda>t. abs_time r t \<le> now) (rx_timers_tree r) \<noteq> [])"
  using assms
proof (induction now r rule: move_expired_timers.induct)
  case (1 now r)
  show ?case
  proof (cases "rx_timers_tree r")
    case Nil
    then show ?thesis using 1 by (simp add: move_expired_timers.simps [of now r])
  next
    case (Cons t ts)
    show ?thesis
    proof (cases "abs_time r t > now")
      case True
      have "\<forall>u\<in>set ts. abs_time r u > now" using 1(2) Cons True by (auto simp: timers_ok_def timer_before_def)
      then have "filter (\<lambda>t. abs_time r t \<le> now) ts = []" "filter (\<lambda>t. now < abs_time r t) ts = ts"
        by (auto simp: filter_empty_conv filter_id_conv)
      then show ?thesis using 1(2) Cons True by (simp add: move_expired_timers.simps [of now r])
    next
      case False
      note e = expire_first_ok [OF 1(2) Cons]
      have m: "move_expired_timers now r = (True, snd (move_expired_timers now (expire t r)))"
        using Cons False by (simp add: move_expired_timers.simps [of now r])
      show ?thesis using 1(1) [OF Cons False e(1)] Cons False unfolding m by (simp add: e(2-4))
    qed
  qed
qed

lemma move_first_correct:
  assumes "timers_ok r" "rx_timers_tree r = f # ts"
  shows "timers_ok (move_first_timers r) \<and>
    rx_timers_tree (move_first_timers r) = filter (\<lambda>t. abs_time r t > abs_time r f) (rx_timers_tree r) \<and>
    rx_expired (move_first_timers r) = rx_expired r @ filter (\<lambda>t. abs_time r t \<le> abs_time r f) (rx_timers_tree r)"
  using move_expired_correct [OF expire_first_ok(1) [OF assms], of "abs_time r f"] expire_first_ok [OF assms] assms(2)
  by (simp add: move_first_timers_def)

lemma move_first_frame:
  "rx_jobs (move_first_timers r) = rx_jobs r \<and> rx_results (move_first_timers r) = rx_results r \<and>
   rx_pos (move_first_timers r) = rx_pos r \<and> rx_fd (move_first_timers r) = rx_fd r \<and>
   rx_limits (move_first_timers r) = rx_limits r \<and> rx_limit (move_first_timers r) = rx_limit r \<and>
   rx_exiting (move_first_timers r) = rx_exiting r"
  using move_expired_frame by (simp add: move_first_timers_def split: list.split)

section \<open>Descriptors and limits\<close>

lemma set_pointers_frame:
  "rx_jobs (set_epoll_fd_pointers i es r) = rx_jobs r \<and> rx_results (set_epoll_fd_pointers i es r) = rx_results r \<and>
   rx_pos (set_epoll_fd_pointers i es r) = rx_pos r \<and> rx_timers_tree (set_epoll_fd_pointers i es r) = rx_timers_tree r \<and>
   rx_expired (set_epoll_fd_pointers i es r) = rx_expired r \<and> rx_timer (set_epoll_fd_pointers i es r) = rx_timer r \<and>
   rx_limits (set_epoll_fd_pointers i es r) = rx_limits r \<and> rx_limit (set_epoll_fd_pointers i es r) = rx_limit r \<and>
   rx_exiting (set_epoll_fd_pointers i es r) = rx_exiting r"
  by (induction i es r rule: set_epoll_fd_pointers.induct) (auto split: option.splits)

lemma set_pointers_fds:
  assumes "distinct (map fst es)" "\<forall>p\<in>fst ` set es. p \<noteq> None"
  shows "(\<forall>k d. k < length es \<and> fst (es ! k) = Some d \<longrightarrow>
       rx_fd (set_epoll_fd_pointers i es r) d = (rx_fd r d)\<lparr>fd_returned := Some (i + k)\<rparr>) \<and>
    (\<forall>d. Some d \<notin> fst ` set es \<longrightarrow> rx_fd (set_epoll_fd_pointers i es r) d = rx_fd r d)"
  using assms
proof (induction i es r rule: set_epoll_fd_pointers.induct)
  case (2 i p e es r)
  then obtain d0 where p: "p = Some d0" by auto
  let ?r = "upd_fd d0 (\<lambda>b. b\<lparr>fd_returned := Some i\<rparr>) r"
  have IH: "k < length es \<Longrightarrow> fst (es ! k) = Some d \<Longrightarrow>
      rx_fd (set_epoll_fd_pointers (Suc i) es ?r) d = (rx_fd ?r d)\<lparr>fd_returned := Some (Suc i + k)\<rparr>"
    "Some d \<notin> fst ` set es \<Longrightarrow> rx_fd (set_epoll_fd_pointers (Suc i) es ?r) d = rx_fd ?r d" for k d
    using 2 p by auto
  have new: "Some d0 \<notin> fst ` set es" using 2(2) p by simp
  have "rx_fd (set_epoll_fd_pointers i ((p, e) # es) r) d = (rx_fd r d)\<lparr>fd_returned := Some (i + k)\<rparr>"
    if "k < length ((p, e) # es)" "fst (((p, e) # es) ! k) = Some d" for k d
  proof (cases k)
    case 0
    then show ?thesis using that IH(2) [OF new] p by simp
  next
    case (Suc j)
    then have j: "j < length es" "fst (es ! j) = Some d" using that by simp_all
    then have "Some d \<in> fst ` set es" by (metis image_eqI nth_mem)
    then have "d \<noteq> d0" using new by auto
    then show ?thesis using IH(1) [OF j] Suc p by simp
  qed
  moreover have "rx_fd (set_epoll_fd_pointers i ((p, e) # es) r) d = rx_fd r d" if "Some d \<notin> fst ` set ((p, e) # es)" for d
    using that IH(2) [of d] p by auto
  ultimately show ?case by blast
qed simp

text \<open>New results, reported by the environment, in a reactor that has dispatched all the old ones.\<close>

lemma new_results_ok:
  assumes ok: "fds_ok r" and idle: "rx_results r = []" "rx_pos r = 0" and a: "ep_active r (EpEvents evs)"
    and es: "es = map (\<lambda>(d, e). (Some d, e)) evs" and r': "r' = set_epoll_fd_pointers 0 es (r\<lparr>rx_results := es\<rparr>)"
  shows "fds_ok r'"
proof -
  have es': "map fst es = map (Some \<circ> fst) evs" by (simp add: es case_prod_unfold comp_def)
  have "distinct (map (Some \<circ> fst) evs)" using a by (simp add: distinct_map inj_on_def comp_def)
  moreover have st: "fst ` set es = Some ` fst ` set evs" using arg_cong [OF es', of set] by (simp add: image_comp)
  ultimately have d: "distinct (map fst es)" "\<forall>p\<in>fst ` set es. p \<noteq> None" using es' by auto
  note p = set_pointers_fds [OF d, of 0 "r\<lparr>rx_results := es\<rparr>", folded r']
  note fr = set_pointers_frame [of 0 es "r\<lparr>rx_results := es\<rparr>", folded r']
  have none: "fd_returned (rx_fd r d) = None" if "fd_active (rx_fd r d)" for d
    using ok idle that by (cases "fd_returned (rx_fd r d)") (auto simp: fds_ok_def)
  have act: "fd_active (rx_fd r d)" if "Some d \<in> fst ` set es" for d using that a st by auto
  have one: "fd_active (rx_fd r' d) \<and> fd_returned (rx_fd r' d) = Some i" if "i < length es" "fst (es ! i) = Some d" for i d
  proof -
    have "Some d \<in> fst ` set es" using that by (metis image_eqI nth_mem)
    then show ?thesis using p that act by simp
  qed
  have two: "i < length es \<and> fst (es ! i) = Some d" if "fd_active (rx_fd r' d)" "fd_returned (rx_fd r' d) = Some i" for d i
  proof -
    have "Some d \<in> fst ` set es"
    proof (rule ccontr)
      assume "Some d \<notin> fst ` set es"
      then have "rx_fd r' d = rx_fd r d" using p by simp
      then show False using none [of d] that by simp
    qed
    then obtain k where k: "k < length es" "fst (es ! k) = Some d" by (auto simp: in_set_conv_nth)
    then show ?thesis using one [OF k] that by simp
  qed
  have "length es \<le> BSYSTEM_MAX_RESULTS" using a by (simp add: es)
  moreover have "rx_results r' = es" "rx_pos r' = 0" using fr idle by simp_all
  ultimately show ?thesis unfolding fds_ok_def using one two by auto
qed

lemma reset_limits_correct:
  assumes "limits_ok r"
  shows "limits_ok (reset_limits r) \<and> rx_limits (reset_limits r) = [] \<and> rx_jobs (reset_limits r) = rx_jobs r \<and>
    rx_timers_tree (reset_limits r) = rx_timers_tree r \<and> rx_expired (reset_limits r) = rx_expired r \<and>
    rx_timer (reset_limits r) = rx_timer r \<and> rx_results (reset_limits r) = rx_results r \<and>
    rx_pos (reset_limits r) = rx_pos r \<and> rx_fd (reset_limits r) = rx_fd r"
  using assms
proof (induction r rule: reset_limits.induct)
  case (1 r)
  show ?case
  proof (cases "rx_limits r")
    case Nil
    then show ?thesis using 1(2) by (simp add: reset_limits.simps [of r])
  next
    case (Cons l ls)
    have "limits_ok ((upd_limit l (\<lambda>b. b\<lparr>lim_count := 0\<rparr>) r)\<lparr>rx_limits := ls\<rparr>)"
      using 1(2) Cons by (auto simp: limits_ok_def)
    then show ?thesis using 1(1) [OF Cons] Cons by (simp add: reset_limits.simps [of r])
  qed
qed

section \<open>Waiting\<close>

definition first_time :: "BReactor \<Rightarrow> int option" where
  "first_time r = (case rx_timers_tree r of [] \<Rightarrow> None | f # _ \<Rightarrow> Some (abs_time r f))"

text \<open>How a wait ends: with results and the timers as they were, or with all timers up to a time expired.\<close>

definition waited_events :: "BReactor \<Rightarrow> BReactor \<Rightarrow> bool" where
  "waited_events r r' \<longleftrightarrow> rx_timers_tree r' = rx_timers_tree r \<and> rx_expired r' = rx_expired r \<and> rx_timer r' = rx_timer r \<and>
     rx_results r' \<noteq> [] \<and> rx_pos r' = 0"

definition waited_timers :: "int \<Rightarrow> BReactor \<Rightarrow> BReactor \<Rightarrow> bool" where
  "waited_timers time r r' \<longleftrightarrow>
     rx_timers_tree r' = filter (\<lambda>t. abs_time r t > time) (rx_timers_tree r) \<and>
     rx_expired r' = rx_expired r @ filter (\<lambda>t. abs_time r t \<le> time) (rx_timers_tree r) \<and>
     filter (\<lambda>t. abs_time r t \<le> time) (rx_timers_tree r) \<noteq> [] \<and> rx_results r' = [] \<and> rx_pos r' = 0"

lemma wait_loop_correct:
  assumes "wait_loop timeout now as r = Some r'" "timeout = first_time r" "timers_ok r" "fds_ok r"
    "rx_results r = []" "rx_pos r = 0" "\<forall>(a, clock)\<in>set as. ep_active r a"
  shows "timers_ok r' \<and> fds_ok r' \<and> rx_jobs r' = rx_jobs r \<and> rx_limits r' = rx_limits r \<and> rx_limit r' = rx_limit r \<and>
    (waited_events r r' \<or> (\<exists>f. timeout = Some f \<and> waited_timers f r r'))"
  using assms
proof (induction timeout now as r rule: wait_loop.induct)
  case (2 timeout now a clock as r)
  have timers: "timers_ok r' \<and> fds_ok r' \<and> rx_jobs r' = rx_jobs r \<and> rx_limits r' = rx_limits r \<and> rx_limit r' = rx_limit r \<and>
      (waited_events r r' \<or> (\<exists>f. timeout = Some f \<and> waited_timers f r r'))"
    if m: "r' = move_first_timers r" and t: "timeout = Some t" for t
  proof -
    obtain f ts where f: "rx_timers_tree r = f # ts" "t = abs_time r f" using t 2(4) by (auto simp: first_time_def split: list.splits)
    note c = move_first_correct [OF 2(5) f(1), folded m] and fr = move_first_frame [of r, folded m]
    have "fds_ok r'" using 2(6) fr fds_ok_cong by metis
    moreover have "waited_timers t r r'" using c fr f 2(7,8) by (simp add: waited_timers_def)
    ultimately show ?thesis using c fr t by simp
  qed
  have again: ?case if "(case timeout of None \<Rightarrow> wait_loop timeout now as r
      | Some t \<Rightarrow> if clock \<ge> t then Some (move_first_timers r) else wait_loop timeout clock as r) = Some r'"
    using that 2(1,2) 2(4-9) timers by (auto split: option.splits if_splits)
  show ?case
  proof (cases a)
    case (EpEvents evs)
    let ?es = "map (\<lambda>(d, e). (Some d, e)) evs"
    have r': "r' = set_epoll_fd_pointers 0 ?es (r\<lparr>rx_results := ?es\<rparr>)" using 2(3) EpEvents by (simp add: Let_def)
    have a: "ep_active r (EpEvents evs)" using 2(9) EpEvents by simp
    have fd: "fds_ok r'" by (rule new_results_ok [OF 2(6-8) a refl r'])
    have fr: "rx_timers_tree r' = rx_timers_tree r" "rx_expired r' = rx_expired r" "rx_timer r' = rx_timer r" "rx_jobs r' = rx_jobs r"
      "rx_limits r' = rx_limits r" "rx_limit r' = rx_limit r" "rx_results r' = ?es" "rx_pos r' = 0"
      using set_pointers_frame [of 0 ?es "r\<lparr>rx_results := ?es\<rparr>"] 2(8) by (simp_all add: r')
    have "timers_ok r'" using 2(5) timers_ok_cong [OF fr(1-3)] by simp
    moreover have "waited_events r r'" using fr a by (simp add: waited_events_def)
    ultimately show ?thesis using fd fr by simp
  next
    case EpTimedOut
    then have "timeout \<noteq> None" using 2(4,9) by (auto simp: first_time_def split: list.splits)
    then show ?thesis using 2(3) EpTimedOut timers again by (auto simp: Let_def split: if_splits)
  next
    case EpInterrupted
    then show ?thesis using 2(3) again by (simp add: Let_def)
  qed
qed simp

lemma wait_for_events_correct:
  assumes w: "wait_for_events now as r = Some r'" and t: "timers_ok r" and f: "fds_ok r" and l: "limits_ok r"
    and pos: "rx_pos r = length (rx_results r)" and ok: "\<forall>(a, clock)\<in>set as. ep_active r a"
  shows "timers_ok r' \<and> fds_ok r' \<and> limits_ok r' \<and> rx_jobs r' = rx_jobs r \<and>
    (waited_events r r' \<or> (\<exists>first. first_time r = Some first \<and> waited_timers (max now first) r r'))"
proof -
  define r0 where "r0 = r\<lparr>rx_results := [], rx_pos := 0\<rparr>"
  have t0: "timers_ok r0" using t timers_ok_cong [of r0 r] by (simp add: r0_def)
  have none: "fd_returned (rx_fd r d) = None" if "fd_active (rx_fd r d)" for d
  proof (rule ccontr)
    assume "fd_returned (rx_fd r d) \<noteq> None"
    then obtain i where "fd_returned (rx_fd r d) = Some i" by blast
    then have "rx_pos r \<le> i" "i < length (rx_results r)" using f that unfolding fds_ok_def by blast+
    then show False using pos by simp
  qed
  then have f0: "fds_ok r0" by (simp add: fds_ok_def r0_def)
  have l0: "limits_ok r0" using l limits_ok_cong [of r0 r] by (simp add: r0_def)
  have z: "rx_timers_tree r0 = rx_timers_tree r" "rx_timer r0 = rx_timer r" "rx_expired r0 = rx_expired r" "rx_results r0 = []" "rx_pos r0 = 0"
    "rx_jobs r0 = rx_jobs r" "first_time r0 = first_time r" by (simp_all add: r0_def first_time_def split: list.split)
  have "ep_active r0 a \<longleftrightarrow> ep_active r a" for a by (cases a) (simp_all add: r0_def)
  then have ok0: "\<forall>(a, clock)\<in>set as. ep_active r0 a" using ok by simp
  have loop: ?thesis if s: "wait_loop (first_time r) n as r0 = Some r1" and r': "r' = reset_limits r1"
    and late: "\<And>first. first_time r = Some first \<Longrightarrow> now \<le> first" for n r1
  proof -
    note c = wait_loop_correct [OF s z(7) [symmetric] t0 f0 z(4,5) ok0]
    have "limits_ok r1" using l0 c limits_ok_cong [of r1 r0] by simp
    note rs = reset_limits_correct [OF this, folded r']
    have "timers_ok r'" "fds_ok r'" using c rs timers_ok_cong [of r' r1] fds_ok_cong [of r' r1] by simp_all
    moreover have "waited_events r r' \<or> (\<exists>first. first_time r = Some first \<and> waited_timers (max now first) r r')"
    proof -
      have ev: "waited_events r r'" if "waited_events r0 r1" using that rs z by (simp add: waited_events_def)
      have tm: "waited_timers (max now first) r r'" if "waited_timers first r0 r1" "first_time r = Some first" for first
      proof -
        have "max now first = first" using late [OF that(2)] by simp
        then show ?thesis using that(1) rs z by (simp only: waited_timers_def) simp
      qed
      from c ev tm show ?thesis by blast
    qed
    ultimately show ?thesis using c rs z by simp
  qed
  show ?thesis
  proof (cases "rx_timers_tree r")
    case Nil
    then show ?thesis using w loop [of 0] z(1) by (auto simp: wait_for_events_def Let_def first_time_def simp flip: r0_def)
  next
    case (Cons u us)
    obtain moved r1 where m: "move_expired_timers now r0 = (moved, r1)" by fastforce
    note c = move_expired_correct [OF t0, of now, unfolded m] and fr = move_expired_frame [of now r0, unfolded m]
    have first: "first_time r = Some (abs_time r u)" using Cons by (simp add: first_time_def)
    show ?thesis
    proof (cases moved)
      case True
      then have r': "r' = r1" using w Cons m z(1) by (simp add: wait_for_events_def Let_def flip: r0_def)
      have "abs_time r u \<le> now"
      proof (rule ccontr)
        assume "\<not> abs_time r u \<le> now"
        then have "\<forall>v\<in>set (rx_timers_tree r). \<not> abs_time r v \<le> now" using t Cons by (auto simp: timers_ok_def timer_before_def)
        then show False using c True z by (simp add: filter_empty_conv)
      qed
      then have "max now (abs_time r u) = now" by simp
      then have "waited_timers (max now (abs_time r u)) r r'" using c fr z True r' by (simp only: waited_timers_def) simp
      moreover have "fds_ok r'" "limits_ok r'" using f0 l0 fr r' fds_ok_cong [of r' r0] limits_ok_cong [of r' r0] by simp_all
      ultimately show ?thesis using c fr first z(6) r' by simp
    next
      case False
      then have "now \<le> abs_time r u" using c Cons z(1,2) by (auto split: if_splits)
      then show ?thesis
        using w loop [of now] Cons m False z(1,2) first by (auto simp: wait_for_events_def Let_def simp flip: r0_def)
    qed
  qed
qed

section \<open>Preservation\<close>

lemma rx_cong:
  assumes "rx_inv r" "rx_timers_tree r' = rx_timers_tree r" "rx_expired r' = rx_expired r" "rx_timer r' = rx_timer r"
    "rx_results r' = rx_results r" "rx_pos r' = rx_pos r" "rx_fd r' = rx_fd r" "rx_limits r' = rx_limits r" "rx_limit r' = rx_limit r"
    "group_inv (rx_jobs r')"
  shows "rx_inv r'"
  using assms timers_ok_cong [OF assms(2-4)] fds_ok_cong [OF assms(5-7)] limits_ok_cong [OF assms(8,9)] by (simp add: rx_inv_def)

lemma init_timer_inv:
  assumes "rx_inv r" "\<not> BSmallTimer_IsRunning t r" "\<And>b. tm_state (f b) = TIMER_STATE_INACTIVE \<and> tm_absTime (f b) = tm_absTime b"
  shows "rx_inv (upd_timer t f r)"
proof -
  let ?r = "upd_timer t f r"
  have s: "state_of ?r u = state_of r u" "abs_time ?r u = abs_time r u" for u
    using assms(2,3) by (auto simp: BSmallTimer_IsRunning_def)
  have "timers_ok ?r" using assms(1) unfolding rx_inv_def timers_ok_def s by simp
  moreover have "fds_ok ?r" "limits_ok ?r" using assms(1) fds_ok_cong [of ?r r] limits_ok_cong [of ?r r] by (simp_all add: rx_inv_def)
  ultimately show ?thesis using assms(1) by (simp add: rx_inv_def)
qed

lemma fd_step_inv:
  assumes "rx_inv r" "fds_ok r'" "rx_timers_tree r' = rx_timers_tree r" "rx_expired r' = rx_expired r" "rx_timer r' = rx_timer r"
    "rx_limits r' = rx_limits r" "rx_limit r' = rx_limit r" "rx_jobs r' = rx_jobs r"
  shows "rx_inv r'"
  using assms(1,2,8) timers_ok_cong [OF assms(3-5)] limits_ok_cong [OF assms(6,7)] by (simp add: rx_inv_def)

text \<open>Facts on the results, as rules.\<close>

lemma fds_result:
  assumes "fds_ok r" "rx_pos r \<le> i" "i < length (rx_results r)" "fst (rx_results r ! i) = Some d"
  shows "fd_active (rx_fd r d)" "fd_returned (rx_fd r d) = Some i"
  using assms unfolding fds_ok_def by blast+

lemma fds_pointer:
  assumes "fds_ok r" "fd_active (rx_fd r d)" "fd_returned (rx_fd r d) = Some i"
  shows "rx_pos r \<le> i" "i < length (rx_results r)" "fst (rx_results r ! i) = Some d"
  using assms unfolding fds_ok_def by blast+

lemma fds_okI:
  assumes "rx_pos r \<le> length (rx_results r)" "length (rx_results r) \<le> BSYSTEM_MAX_RESULTS"
    "\<And>i d. rx_pos r \<le> i \<Longrightarrow> i < length (rx_results r) \<Longrightarrow> fst (rx_results r ! i) = Some d \<Longrightarrow>
       fd_active (rx_fd r d) \<and> fd_returned (rx_fd r d) = Some i"
    "\<And>d i. fd_active (rx_fd r d) \<Longrightarrow> fd_returned (rx_fd r d) = Some i \<Longrightarrow>
       rx_pos r \<le> i \<and> i < length (rx_results r) \<and> fst (rx_results r ! i) = Some d"
  shows "fds_ok r"
  using assms unfolding fds_ok_def by blast

lemma fds_sizes: "fds_ok r \<Longrightarrow> rx_pos r \<le> length (rx_results r) \<and> length (rx_results r) \<le> BSYSTEM_MAX_RESULTS"
  by (simp add: fds_ok_def)

lemma upd_inactive_fd_ok:
  assumes "fds_ok r" "\<not> fd_active (rx_fd r d)" "fd_active (f (rx_fd r d)) \<Longrightarrow> fd_returned (f (rx_fd r d)) = None"
  shows "fds_ok (upd_fd d f r)"
proof (rule fds_okI)
  fix i e
  assume i: "rx_pos (upd_fd d f r) \<le> i" "i < length (rx_results (upd_fd d f r))" "fst (rx_results (upd_fd d f r) ! i) = Some e"
  then have "fd_active (rx_fd r e)" "fd_returned (rx_fd r e) = Some i" using fds_result [OF assms(1), of i e] by simp_all
  then show "fd_active (rx_fd (upd_fd d f r) e) \<and> fd_returned (rx_fd (upd_fd d f r) e) = Some i" using assms(2) by auto
next
  fix e i
  assume a: "fd_active (rx_fd (upd_fd d f r) e)" "fd_returned (rx_fd (upd_fd d f r) e) = Some i"
  then have "e \<noteq> d" using assms(3) by auto
  then show "rx_pos (upd_fd d f r) \<le> i \<and> i < length (rx_results (upd_fd d f r)) \<and> fst (rx_results (upd_fd d f r) ! i) = Some e"
    using a fds_pointer [OF assms(1), of e i] by simp
qed (use fds_sizes [OF assms(1)] in simp_all)

lemma remove_fd_ok:
  assumes ok: "fds_ok r" and act: "fd_active (rx_fd r d)"
  shows "fds_ok (BReactor_RemoveFileDescriptor d r)"
proof (cases "fd_returned (rx_fd r d)")
  case None
  let ?r = "upd_fd d (\<lambda>b. b\<lparr>fd_active := False, fd_epoll := None\<rparr>) r"
  have e: "BReactor_RemoveFileDescriptor d r = ?r" using None by (simp add: BReactor_RemoveFileDescriptor_def Let_def)
  show ?thesis unfolding e
  proof (rule fds_okI)
    fix i u assume i: "rx_pos ?r \<le> i" "i < length (rx_results ?r)" "fst (rx_results ?r ! i) = Some u"
    then have "fd_active (rx_fd r u)" "fd_returned (rx_fd r u) = Some i" using fds_result [OF ok, of i u] by simp_all
    then show "fd_active (rx_fd ?r u) \<and> fd_returned (rx_fd ?r u) = Some i" using None by auto
  next
    fix u i assume "fd_active (rx_fd ?r u)" "fd_returned (rx_fd ?r u) = Some i"
    then show "rx_pos ?r \<le> i \<and> i < length (rx_results ?r) \<and> fst (rx_results ?r ! i) = Some u"
      using fds_pointer [OF ok, of u i] by (auto split: if_splits)
  qed (use fds_sizes [OF ok] in simp_all)
next
  case (Some k)
  note p = fds_pointer [OF ok act Some]
  let ?r = "(upd_fd d (\<lambda>b. b\<lparr>fd_active := False, fd_epoll := None\<rparr>) r)\<lparr>rx_results := (rx_results r)[k := (None, snd (rx_results r ! k))]\<rparr>"
  have e: "BReactor_RemoveFileDescriptor d r = ?r" using Some by (simp add: BReactor_RemoveFileDescriptor_def Let_def)
  show ?thesis unfolding e
  proof (rule fds_okI)
    fix i u assume i: "rx_pos ?r \<le> i" "i < length (rx_results ?r)" "fst (rx_results ?r ! i) = Some u"
    then have "i \<noteq> k" using p(2) by auto
    then have u: "fd_active (rx_fd r u)" "fd_returned (rx_fd r u) = Some i" using i fds_result [OF ok, of i u] by simp_all
    then have "u \<noteq> d" using Some \<open>i \<noteq> k\<close> by auto
    then show "fd_active (rx_fd ?r u) \<and> fd_returned (rx_fd ?r u) = Some i" using u by simp
  next
    fix u i assume a: "fd_active (rx_fd ?r u)" "fd_returned (rx_fd ?r u) = Some i"
    then have u: "u \<noteq> d" "fd_active (rx_fd r u)" "fd_returned (rx_fd r u) = Some i" by (auto split: if_splits)
    note q = fds_pointer [OF ok u(2,3)]
    have "i \<noteq> k" using p(3) q(3) u(1) by auto
    then show "rx_pos ?r \<le> i \<and> i < length (rx_results ?r) \<and> fst (rx_results ?r ! i) = Some u" using q by simp
  qed (use fds_sizes [OF ok] in simp_all)
qed

lemma set_events_ok:
  assumes "fds_ok r"
  shows "fds_ok (BReactor_SetFileDescriptorEvents d events r)"
proof -
  let ?r = "BReactor_SetFileDescriptorEvents d events r"
  have f: "fd_active (rx_fd ?r u) = fd_active (rx_fd r u)" "fd_returned (rx_fd ?r u) = fd_returned (rx_fd r u)"
    "rx_results ?r = rx_results r" "rx_pos ?r = rx_pos r" for u
    by (simp_all add: BReactor_SetFileDescriptorEvents_def)
  show ?thesis using assms unfolding fds_ok_def f .
qed

lemma dispatch_fd_ok:
  assumes ok: "fds_ok r" and pos: "rx_pos r < length (rx_results r)"
  shows "fst (rx_results r ! rx_pos r) = None \<Longrightarrow> fds_ok (r\<lparr>rx_pos := rx_pos r + 1\<rparr>)"
    and "fst (rx_results r ! rx_pos r) = Some d \<Longrightarrow> fds_ok (upd_fd d (\<lambda>b. b\<lparr>fd_returned := None\<rparr>) (r\<lparr>rx_pos := rx_pos r + 1\<rparr>))"
proof -
  have later: "rx_pos r + 1 \<le> i" if "fd_active (rx_fd r u)" "fd_returned (rx_fd r u) = Some i" "fst (rx_results r ! rx_pos r) \<noteq> Some u" for u i
    using fds_pointer [OF ok that(1,2)] that(3) by (cases "i = rx_pos r") simp_all
  show "fds_ok (r\<lparr>rx_pos := rx_pos r + 1\<rparr>)" if n: "fst (rx_results r ! rx_pos r) = None"
  proof (rule fds_okI, goal_cases)
    case (3 i u)
    then show ?case using fds_result [OF ok, of i u] by simp
  next
    case (4 u i)
    then show ?case using fds_pointer [OF ok, of u i] later [of u i] n by simp
  qed (use pos fds_sizes [OF ok] in simp_all)
  show "fds_ok (upd_fd d (\<lambda>b. b\<lparr>fd_returned := None\<rparr>) (r\<lparr>rx_pos := rx_pos r + 1\<rparr>))" if d: "fst (rx_results r ! rx_pos r) = Some d"
  proof (rule fds_okI, goal_cases)
    case (3 i u)
    then have u: "fd_active (rx_fd r u)" "fd_returned (rx_fd r u) = Some i" using fds_result [OF ok, of i u] by simp_all
    then have "u \<noteq> d" using fds_result(2) [OF ok le_refl pos d] 3(1) by auto
    then show ?case using u by simp
  next
    case (4 u i)
    then have u: "u \<noteq> d" "fd_active (rx_fd r u)" "fd_returned (rx_fd r u) = Some i" by (auto split: if_splits)
    then show ?case using later [OF u(2,3)] fds_pointer [OF ok u(2,3)] d by simp
  qed (use pos fds_sizes [OF ok] in simp_all)
qed

lemma exec_job_inv:
  assumes "group_inv g" "BPendingGroup_ExecuteJob g = Some (j, g')"
  shows "group_inv g'" "job_handler g j \<noteq> None"
  using job_step_inv [OF assms(1), of OpExec] assms
  by (auto simp: job_defs group_inv_def split: list.splits)

lemma expired_dispatch_ok:
  assumes "timers_ok r" "rx_expired r = t # ts"
    and r': "r' = upd_timer t (\<lambda>b. b\<lparr>tm_state := TIMER_STATE_INACTIVE\<rparr>) (r\<lparr>rx_expired := remove1 t (rx_expired r)\<rparr>)"
  shows "timers_ok r'" "state_of r t = TIMER_STATE_EXPIRED" "\<not> BSmallTimer_IsRunning t r'"
proof -
  show st: "state_of r t = TIMER_STATE_EXPIRED" using assms(1,2) by (metis list.set_intros(1) timers_ok_def)
  show "\<not> BSmallTimer_IsRunning t r'" by (simp add: r' BSmallTimer_IsRunning_def)
  have "sorted_wrt (timer_before (abs_time r')) (rx_timers_tree r)"
    by (rule timers_sorted_cong [of "abs_time r"]) (use assms(1) in \<open>simp_all add: timers_ok_def r'\<close>)
  then show "timers_ok r'" using assms(1,2) st by (auto simp: timers_ok_def r')
qed

text \<open>What a turn dispatches is there to be dispatched.\<close>

definition turn_ok :: "BReactor \<Rightarrow> rx_event \<Rightarrow> BReactor \<Rightarrow> bool" where
  "turn_ok r ev r' \<longleftrightarrow>
     (case ev of
        RX_Job j \<Rightarrow> job_handler (rx_jobs r) j \<noteq> None
      | RX_Timer t small \<Rightarrow> jobs (rx_jobs r) = [] \<and> state_of r t = TIMER_STATE_EXPIRED \<and> \<not> BSmallTimer_IsRunning t r' \<and>
          small = tm_is_small (rx_timer r t)
      | RX_Fd d events \<Rightarrow> jobs (rx_jobs r) = [] \<and> rx_expired r = [] \<and> fd_active (rx_fd r d) \<and>
          fd_returned (rx_fd r d) = Some (rx_pos r) \<and> fd_returned (rx_fd r' d) = None \<and> events \<noteq> 0 \<and>
          events = fd_events (fd_waitEvents (rx_fd r d)) (snd (rx_results r ! rx_pos r))
      | RX_Skipped \<Rightarrow> jobs (rx_jobs r) = [] \<and> rx_expired r = []
      | RX_Waited \<Rightarrow> jobs (rx_jobs r) = [] \<and> rx_expired r = [] \<and> rx_pos r = length (rx_results r) \<and>
          (waited_events r r' \<or> (\<exists>now first. first_time r = Some first \<and> waited_timers (max now first) r r')))"

lemma turn_correct:
  assumes inv: "rx_inv r" and ok: "\<forall>(a, clock)\<in>set as. ep_active r a" and x: "exec_turn now as r = Some (ev, r')"
  shows "rx_inv r' \<and> turn_ok r ev r'"
proof (cases "BPendingGroup_ExecuteJob (rx_jobs r)")
  case (Some p)
  then obtain j g where p: "p = (j, g)" by fastforce
  have e: "ev = RX_Job j" "r' = r\<lparr>rx_jobs := g\<rparr>" using x Some p by (simp_all add: exec_turn_def)
  have g: "group_inv g" "job_handler (rx_jobs r) j \<noteq> None" using exec_job_inv [of "rx_jobs r" j g] inv Some p by (simp_all add: rx_inv_def)
  have "rx_inv r'" unfolding e by (rule rx_cong [OF inv]) (simp_all add: g)
  then show ?thesis using g by (simp add: turn_ok_def e)
next
  case None
  then have nj: "jobs (rx_jobs r) = []" by (simp add: job_defs split: list.splits)
  have parts: "timers_ok r" "fds_ok r" "limits_ok r" "group_inv (rx_jobs r)" using inv by (simp_all add: rx_inv_def)
  show ?thesis
  proof (cases "rx_expired r")
    case (Cons t ts)
    let ?r = "upd_timer t (\<lambda>b. b\<lparr>tm_state := TIMER_STATE_INACTIVE\<rparr>) (r\<lparr>rx_expired := remove1 t (rx_expired r)\<rparr>)"
    have e: "ev = RX_Timer t (tm_is_small (rx_timer r t))" "r' = ?r" using x None Cons by (simp_all add: exec_turn_def)
    note d = expired_dispatch_ok [OF parts(1) Cons e(2)]
    have "fds_ok r'" "limits_ok r'" using parts fds_ok_cong [of r' r] limits_ok_cong [of r' r] by (simp_all add: e(2))
    then show ?thesis using d parts nj by (simp add: rx_inv_def turn_ok_def e(1)) (simp add: e(2))
  next
    case Nil
    show ?thesis
    proof (cases "rx_pos r < length (rx_results r)")
      case pos: True
      obtain p ev0 where p: "rx_results r ! rx_pos r = (p, ev0)" by fastforce
      show ?thesis
      proof (cases p)
        case No: None
        have e: "ev = RX_Skipped" "r' = r\<lparr>rx_pos := rx_pos r + 1\<rparr>" using x None Nil pos p No by (simp_all add: exec_turn_def)
        have "rx_inv r'" by (rule fd_step_inv [OF inv]) (use dispatch_fd_ok(1) [OF parts(2) pos] p No in \<open>simp_all add: e(2)\<close>)
        then show ?thesis using nj Nil by (simp add: turn_ok_def e(1))
      next
        case d: (Some d)
        let ?r = "upd_fd d (\<lambda>b. b\<lparr>fd_returned := None\<rparr>) (r\<lparr>rx_pos := rx_pos r + 1\<rparr>)"
        have e: "r' = ?r" "ev = (if fd_events (fd_waitEvents (rx_fd r d)) ev0 = 0 then RX_Skipped
            else RX_Fd d (fd_events (fd_waitEvents (rx_fd r d)) ev0))"
          using x None Nil pos p d by (auto simp: exec_turn_def Let_def split: if_splits)
        have "rx_inv r'" by (rule fd_step_inv [OF inv]) (use dispatch_fd_ok(2) [OF parts(2) pos] p d in \<open>simp_all add: e(1)\<close>)
        then show ?thesis using nj Nil fds_result [OF parts(2) le_refl pos, of d] p d by (simp add: turn_ok_def e)
      qed
    next
      case False
      then have pos: "rx_pos r = length (rx_results r)" using fds_sizes [OF parts(2)] by simp
      have e: "ev = RX_Waited" "wait_for_events now as r = Some r'" using x None Nil False by (auto simp: exec_turn_def)
      note w = wait_for_events_correct [OF e(2) parts(1-3) pos ok]
      then have "rx_inv r'" using parts(4) by (simp add: rx_inv_def)
      then show ?thesis using w nj Nil pos by (auto simp: turn_ok_def e(1))
    qed
  qed
qed

lemma limit_step_ok:
  assumes "limits_ok r"
  shows "rx_limit r l = None \<Longrightarrow> limits_ok (BReactorLimit_Init l limit r)"
    and "rx_limit r l \<noteq> None \<Longrightarrow> limits_ok (BReactorLimit_Free l r)"
    and "rx_limit r l \<noteq> None \<Longrightarrow> limits_ok (snd (BReactorLimit_Increment l r))"
    and "limits_ok (BReactorLimit_SetLimit l limit r)"
proof -
  show "rx_limit r l = None \<Longrightarrow> limits_ok (BReactorLimit_Init l limit r)"
    using assms by (auto simp: limits_ok_def BReactorLimit_Init_def)
  show "rx_limit r l \<noteq> None \<Longrightarrow> limits_ok (BReactorLimit_Free l r)"
    using assms by (auto simp: limits_ok_def BReactorLimit_Free_def Let_def)
  show "rx_limit r l \<noteq> None \<Longrightarrow> limits_ok (snd (BReactorLimit_Increment l r))"
    using assms by (auto simp: limits_ok_def BReactorLimit_Increment_def Let_def)
  show "limits_ok (BReactorLimit_SetLimit l limit r)"
    using assms by (auto simp: limits_ok_def BReactorLimit_SetLimit_def)
qed

lemma limits_step_inv:
  assumes "rx_inv r" "limits_ok r'" "rx_timers_tree r' = rx_timers_tree r" "rx_expired r' = rx_expired r" "rx_timer r' = rx_timer r"
    "rx_results r' = rx_results r" "rx_pos r' = rx_pos r" "rx_fd r' = rx_fd r" "rx_jobs r' = rx_jobs r"
  shows "rx_inv r'"
  using assms(1,2,9) timers_ok_cong [OF assms(3-5)] fds_ok_cong [OF assms(6-8)] by (simp add: rx_inv_def)

lemma timer_step_inv:
  assumes "rx_inv r" "timers_ok r'" "rx_results r' = rx_results r" "rx_pos r' = rx_pos r" "rx_fd r' = rx_fd r" "rx_jobs r' = rx_jobs r"
    "rx_limits r' = rx_limits r" "rx_limit r' = rx_limit r"
  shows "rx_inv r'"
  using assms(1,2,6) fds_ok_cong [OF assms(3-5)] limits_ok_cong [OF assms(7,8)] by (simp add: rx_inv_def)

lemma set_timer_frame [simp]:
  "rx_results (BReactor_SetSmallTimer clock t relative time r) = rx_results r"
  "rx_pos (BReactor_SetSmallTimer clock t relative time r) = rx_pos r"
  "rx_fd (BReactor_SetSmallTimer clock t relative time r) = rx_fd r"
  "rx_jobs (BReactor_SetSmallTimer clock t relative time r) = rx_jobs r"
  "rx_limits (BReactor_SetSmallTimer clock t relative time r) = rx_limits r"
  "rx_limit (BReactor_SetSmallTimer clock t relative time r) = rx_limit r"
  by (simp_all add: BReactor_SetSmallTimer_def BReactor_RemoveSmallTimer_def Let_def)

lemma remove_fd_frame [simp]:
  "rx_timers_tree (BReactor_RemoveFileDescriptor d r) = rx_timers_tree r" "rx_expired (BReactor_RemoveFileDescriptor d r) = rx_expired r"
  "rx_timer (BReactor_RemoveFileDescriptor d r) = rx_timer r" "rx_limits (BReactor_RemoveFileDescriptor d r) = rx_limits r"
  "rx_limit (BReactor_RemoveFileDescriptor d r) = rx_limit r" "rx_jobs (BReactor_RemoveFileDescriptor d r) = rx_jobs r"
  by (simp_all add: BReactor_RemoveFileDescriptor_def Let_def split: option.split)

text \<open>A turn of the loop changes only the pointers to the results in a descriptor.\<close>

definition fd_key :: "BFileDescriptor \<Rightarrow> bool \<times> u32 \<times> u32 option" where
  "fd_key b = (fd_active b, fd_waitEvents b, fd_epoll b)"

lemma reg_ok_key:
  assumes "reg_ok r" "\<And>d. fd_key (rx_fd r' d) = fd_key (rx_fd r d)"
  shows "reg_ok r'"
proof -
  have "fd_active (rx_fd r' d) = fd_active (rx_fd r d)" "fd_waitEvents (rx_fd r' d) = fd_waitEvents (rx_fd r d)"
    "fd_epoll (rx_fd r' d) = fd_epoll (rx_fd r d)" for d
    using assms(2) [of d] by (simp_all add: fd_key_def)
  then show ?thesis using assms(1) by (simp add: reg_ok_def)
qed

lemma fd_key_returned [simp]: "fd_key (b\<lparr>fd_returned := p\<rparr>) = fd_key b"
  by (simp add: fd_key_def)

lemma set_pointers_key: "fd_key (rx_fd (set_epoll_fd_pointers i es r) d) = fd_key (rx_fd r d)"
  by (induction i es r rule: set_epoll_fd_pointers.induct) (auto split: option.splits)

lemma reset_limits_fd: "rx_fd (reset_limits r) = rx_fd r"
proof (induction r rule: reset_limits.induct)
  case (1 r)
  then show ?case by (cases "rx_limits r") (simp_all add: reset_limits.simps [of r])
qed

lemma wait_loop_key: "wait_loop timeout now as r = Some r' \<Longrightarrow> fd_key (rx_fd r' d) = fd_key (rx_fd r d)"
  by (induction timeout now as r rule: wait_loop.induct)
    (auto simp: Let_def move_first_frame set_pointers_key split: ep_answer.splits option.splits if_splits)

lemma wait_for_events_key: "wait_for_events now as r = Some r' \<Longrightarrow> fd_key (rx_fd r' d) = fd_key (rx_fd r d)"
  using move_expired_frame [of now "r\<lparr>rx_results := [], rx_pos := 0\<rparr>"]
  by (auto simp: wait_for_events_def Let_def reset_limits_fd dest!: wait_loop_key [where d = d]
      split: list.splits prod.splits if_splits)

lemma exec_turn_key: "exec_turn now as r = Some (ev, r') \<Longrightarrow> fd_key (rx_fd r' d) = fd_key (rx_fd r d)"
  by (auto simp: exec_turn_def Let_def wait_for_events_key split: option.splits list.splits if_splits prod.splits)

lemma reg_step_ok:
  assumes "reg_ok r" "rx_pre op r"
  shows "reg_ok (rx_step op r)"
proof (cases op)
  case (RO_Turn now as)
  then obtain ev r' where "exec_turn now as r = Some (ev, r')" using assms(2) by auto
  then show ?thesis using RO_Turn reg_ok_key [OF assms(1) exec_turn_key] by simp
next
  case (RO_RemoveFd d)
  then show ?thesis using assms
    by (auto simp: reg_ok_def BReactor_RemoveFileDescriptor_def Let_def split: option.split)
next
  case (RO_AddFd ok d)
  then show ?thesis using assms by (auto simp: reg_ok_def BReactor_AddFileDescriptor_def epoll_events_def)
next
  case (RO_SetEvents d events)
  then show ?thesis using assms by (auto simp: reg_ok_def BReactor_SetFileDescriptorEvents_def)
next
  case (RO_Synchronize ref)
  then show ?thesis using assms(1) by (auto simp: reg_ok_def synchronize_turn_def split: option.split)
qed (use assms in \<open>auto simp: reg_ok_def BSmallTimer_Init_def BTimer_Init_def BFileDescriptor_Init_def BReactorLimit_Init_def
      BReactorLimit_Free_def BReactorLimit_Increment_def BReactorLimit_SetLimit_def BReactor_Quit_def
      BReactor_RemoveSmallTimer_def Let_def\<close>)

lemma rx_step_inv:
  assumes inv: "rx_inv r" and reg: "reg_ok r" and pre: "rx_pre op r"
  shows "rx_inv (rx_step op r)"
proof -
  have parts: "timers_ok r" "fds_ok r" "limits_ok r" "group_inv (rx_jobs r)" using inv by (simp_all add: rx_inv_def)
  show ?thesis
  proof (cases op)
    case (RO_Job jop)
    then have "group_inv (job_step jop (rx_jobs r))" using job_step_inv [OF parts(4)] pre by simp
    then show ?thesis using RO_Job by (intro rx_cong [OF inv]) simp_all
  next
    case (RO_InitSmall t)
    then show ?thesis using init_timer_inv [OF inv] pre by (simp add: BSmallTimer_Init_def)
  next
    case (RO_InitTimer t ms)
    then show ?thesis using init_timer_inv [OF inv] pre by (simp add: BTimer_Init_def)
  next
    case (RO_SetTimer clock t relative time)
    then show ?thesis by (intro timer_step_inv [OF inv]) (simp_all add: set_timer_ok parts)
  next
    case (RO_RemoveTimer t)
    then show ?thesis
      by (intro timer_step_inv [OF inv]) (simp_all add: remove_timer_ok [OF parts(1) refl] remove_timer_fields [OF parts(1) refl])
  next
    case (RO_InitFd d)
    then have "fds_ok (rx_step op r)"
      using upd_inactive_fd_ok [OF parts(2), of d "\<lambda>b. b\<lparr>fd_active := False\<rparr>"] pre by (simp add: BFileDescriptor_Init_def)
    then show ?thesis using RO_InitFd by (intro fd_step_inv [OF inv]) (simp_all add: BFileDescriptor_Init_def)
  next
    case (RO_AddFd ok d)
    then have "fds_ok (rx_step op r)" using upd_inactive_fd_ok [OF parts(2)] pre parts(2) by (simp add: BReactor_AddFileDescriptor_def)
    then show ?thesis using RO_AddFd by (intro fd_step_inv [OF inv]) (simp_all add: BReactor_AddFileDescriptor_def)
  next
    case (RO_RemoveFd d)
    then show ?thesis using pre by (intro fd_step_inv [OF inv]) (simp_all add: remove_fd_ok [OF parts(2)])
  next
    case (RO_SetEvents d events)
    then show ?thesis
      by (intro fd_step_inv [OF inv]) (simp_all add: set_events_ok [OF parts(2)], simp_all add: BReactor_SetFileDescriptorEvents_def)
  next
    case (RO_InitLimit l limit)
    then show ?thesis
      using pre by (intro limits_step_inv [OF inv]) (simp_all add: limit_step_ok(1) [OF parts(3)], simp_all add: BReactorLimit_Init_def)
  next
    case (RO_FreeLimit l)
    then show ?thesis
      using pre by (intro limits_step_inv [OF inv]) (simp_all add: limit_step_ok(2) [OF parts(3)], simp_all add: BReactorLimit_Free_def Let_def)
  next
    case (RO_Increment l)
    then show ?thesis
      using pre by (intro limits_step_inv [OF inv]) (simp_all add: limit_step_ok(3) [OF parts(3)], simp_all add: BReactorLimit_Increment_def Let_def)
  next
    case (RO_SetLimit l limit)
    then show ?thesis
      by (intro limits_step_inv [OF inv]) (simp_all add: limit_step_ok(4) [OF parts(3)], simp_all add: BReactorLimit_SetLimit_def)
  next
    case (RO_Quit code)
    then show ?thesis using parts(4) by (intro rx_cong [OF inv]) (simp_all add: BReactor_Quit_def)
  next
    case (RO_Synchronize ref)
    have "group_inv (rx_jobs (synchronize_turn ref r))"
      using exec_job_inv(1) [OF parts(4)] parts(4) by (auto simp: synchronize_turn_def split: option.split)
    then show ?thesis using RO_Synchronize by (intro rx_cong [OF inv]) (simp_all add: synchronize_turn_def split: option.split)
  next
    case (RO_Turn now as)
    then obtain ev r' where x: "exec_turn now as r = Some (ev, r')" using pre by auto
    have "\<forall>(a, clock)\<in>set as. ep_active r a" by (rule ep_answer_active [OF reg]) (use pre RO_Turn in simp)
    then show ?thesis using turn_correct [OF inv _ x] x RO_Turn by simp
  qed
qed

lemma rx_init_inv: "rx_inv BReactor_Init \<and> reg_ok BReactor_Init"
  by (simp add: rx_inv_def BReactor_Init_def job_init_inv timers_ok_def fds_ok_def limits_ok_def reg_ok_def)

interpretation rx: invariant_machine "\<lambda>r. rx_inv r \<and> reg_ok r" rx_pre rx_step
  by unfold_locales (simp add: rx_step_inv reg_step_ok)

lemma reached_inv:
  assumes "rx.legal ops BReactor_Init" "r = rx.run ops BReactor_Init"
  shows "rx_inv r" "reg_ok r" "rx_pre (RO_Turn now as) r \<Longrightarrow> \<forall>(a, clock)\<in>set as. ep_active r a"
proof -
  show i: "rx_inv r" "reg_ok r" using rx.run_inv [OF rx_init_inv assms(1)] assms(2) by simp_all
  show "\<forall>(a, clock)\<in>set as. ep_active r a" if "rx_pre (RO_Turn now as) r" by (rule ep_answer_active [OF i(2)]) (use that in simp)
qed

section \<open>Time arithmetic\<close>

lemma btime_add_saturates:
  assumes "INT64_MIN \<le> t1" "t1 \<le> INT64_MAX" "INT64_MIN \<le> t2" "t2 \<le> INT64_MAX"
  shows "btime_add t1 t2 = max INT64_MIN (min INT64_MAX (t1 + t2))"
  using assms by (auto simp: btime_add_def add_int64_overflows_def Let_def)

lemma fd_events_mask:
  "fd_events wait ev AND BREACTOR_READ = (if wait AND BREACTOR_READ \<noteq> 0 \<and> ev AND EPOLLIN \<noteq> 0 then BREACTOR_READ else 0)"
  "fd_events wait ev AND BREACTOR_WRITE = (if wait AND BREACTOR_WRITE \<noteq> 0 \<and> ev AND EPOLLOUT \<noteq> 0 then BREACTOR_WRITE else 0)"
  by (simp_all add: fd_events_def Let_def)

section \<open>A short history\<close>

lemmas rx_eval =
  BReactor_Init_def BFileDescriptor_Init_def BReactor_AddFileDescriptor_def BReactor_SetFileDescriptorEvents_def
  BReactor_RemoveFileDescriptor_def epoll_events_def BReactor_SetSmallTimer_def BReactor_RemoveSmallTimer_def btime_add_def
  add_int64_overflows_def compare_timers_def B_COMPARE_def exec_turn_def wait_for_events_def fd_events_def
  move_first_timers_def expire_def timeout_rel_def timeout_rel_trunc_def BSmallTimer_IsRunning_def
  BReactorLimit_Init_def BReactorLimit_Increment_def upd_timer_def upd_fd_def upd_limit_def job_defs BPendingGroup_Init_def
  move_expired_timers.simps reset_limits.simps

definition demo_ops :: "rx_op list" where
  "demo_ops =
     [RO_InitFd 7, RO_AddFd True 7, RO_SetEvents 7 1, RO_AddFd True 8, RO_SetEvents 8 2, RO_SetTimer 100 0 True 10,
      RO_SetTimer 100 3 True 50, RO_SetTimer 100 2 False 110, RO_InitLimit 4 2, RO_Increment 4]"

definition demo_turn :: rx_op where
  "demo_turn = RO_Turn 105 [(EpInterrupted, 106), (EpEvents [(7, 1), (8, 4)], 0)]"

definition demo_rx :: BReactor where "demo_rx = rx.run demo_ops BReactor_Init"

lemma demo_rx_eq:
  "rx_jobs demo_rx = BPendingGroup_Init" "rx_timers_tree demo_rx = [0, 2, 3]" "rx_expired demo_rx = []" "rx_results demo_rx = []" "rx_pos demo_rx = 0"
  by (simp_all add: demo_rx_def demo_ops_def rx_eval)

lemma demo_legal: "rx.legal demo_ops BReactor_Init"
  by (simp add: demo_ops_def rx_eval)

lemma demo_legal_turn: "rx.legal (demo_ops @ [demo_turn]) BReactor_Init"
  by (simp add: demo_ops_def demo_turn_def rx_eval)

lemma demo_legal_removed: "rx.legal (demo_ops @ [demo_turn, RO_RemoveFd 7]) BReactor_Init"
  by (simp add: demo_ops_def demo_turn_def rx_eval)

section \<open>Properties\<close>

text \<open>C9. The event loop keeps its books: through every legal history of operations and turns, a timer is in the
  tree of running timers exactly when it is running and in the expired list exactly when it is expired, once;
  the tree is ordered by time; each epoll result that is left belongs to an active descriptor whose pointer
  leads back to it, and the other way round; the active limits are those with a positive count.\<close>

theorem reactor_consistent:
  assumes "rx.legal ops BReactor_Init"
  shows "let r = rx.run ops BReactor_Init in
    (\<forall>t. t \<in> set (rx_timers_tree r) \<longleftrightarrow> tm_state (rx_timer r t) = TIMER_STATE_RUNNING) \<and>
    (\<forall>t. t \<in> set (rx_expired r) \<longleftrightarrow> tm_state (rx_timer r t) = TIMER_STATE_EXPIRED) \<and>
    distinct (rx_timers_tree r) \<and> distinct (rx_expired r) \<and>
    sorted_wrt (\<lambda>t u. compare_timers r t u < 0) (rx_timers_tree r) \<and>
    (\<forall>d i. fd_active (rx_fd r d) \<and> fd_returned (rx_fd r d) = Some i \<longleftrightarrow>
       rx_pos r \<le> i \<and> i < length (rx_results r) \<and> fst (rx_results r ! i) = Some d) \<and>
    (\<forall>d. fd_epoll (rx_fd r d) = (if fd_active (rx_fd r d) then Some (epoll_events (fd_waitEvents (rx_fd r d))) else None)) \<and>
    distinct (rx_limits r) \<and> (\<forall>l. l \<in> set (rx_limits r) \<longleftrightarrow> (\<exists>b. rx_limit r l = Some b \<and> 0 < lim_count b))"
proof -
  define r where "r = rx.run ops BReactor_Init"
  have inv: "timers_ok r" "fds_ok r" "limits_ok r" "reg_ok r" using reached_inv [OF assms r_def] by (simp_all add: rx_inv_def)
  have "(\<lambda>t u. compare_timers r t u < 0) = timer_before (abs_time r)" by (simp add: fun_eq_iff compare_timers_before)
  then have "sorted_wrt (\<lambda>t u. compare_timers r t u < 0) (rx_timers_tree r)" using inv(1) by (simp add: timers_ok_def)
  moreover have "fd_active (rx_fd r d) \<and> fd_returned (rx_fd r d) = Some i \<longleftrightarrow>
       rx_pos r \<le> i \<and> i < length (rx_results r) \<and> fst (rx_results r ! i) = Some d" for d i
    using fds_result [OF inv(2)] fds_pointer [OF inv(2)] by blast
  ultimately show ?thesis
    using inv(1,3,4) unfolding r_def [symmetric] Let_def timers_ok_def limits_ok_def reg_ok_def by (intro conjI) blast+
qed

theorem reactor_consistent_witness:
  "let r = rx.run (demo_ops @ [demo_turn, RO_RemoveFd 7]) BReactor_Init in
     rx_results r = [(None, 1), (Some 8, 4)] \<and> fd_returned (rx_fd r 8) = Some 1 \<and> fd_epoll (rx_fd r 7) = None \<and>
     fd_epoll (rx_fd r 8) = Some 4"
  using reactor_consistent [OF demo_legal_removed] by (simp add: demo_ops_def demo_turn_def rx_eval)

text \<open>C8. What the event loop dispatches exists and is due: after any legal history, a turn calls the handler of a job only if
  the job is a live object; of a timer only if it is expired (and not removed since), which it then no longer
  is, and only when no job is pending; of a descriptor only if it is active (not removed since it was
  reported), with a non-empty set of events of which reading and writing were asked for, and only when
  neither jobs nor expired timers are pending; and it waits only when nothing at all is left to do.\<close>

theorem reactor_dispatch:
  assumes "rx.legal ops BReactor_Init" "r = rx.run ops BReactor_Init" "rx_pre (RO_Turn now as) r"
    "exec_turn now as r = Some (ev, r')"
  shows "case ev of
      RX_Job j \<Rightarrow> job_handler (rx_jobs r) j \<noteq> None
    | RX_Timer t small \<Rightarrow> tm_state (rx_timer r t) = TIMER_STATE_EXPIRED \<and> \<not> BSmallTimer_IsRunning t r' \<and>
        \<not> BPendingGroup_HasJobs (rx_jobs r)
    | RX_Fd d events \<Rightarrow> fd_active (rx_fd r d) \<and> events \<noteq> 0 \<and>
        (events AND BREACTOR_READ \<noteq> 0 \<longrightarrow> fd_waitEvents (rx_fd r d) AND BREACTOR_READ \<noteq> 0) \<and>
        (events AND BREACTOR_WRITE \<noteq> 0 \<longrightarrow> fd_waitEvents (rx_fd r d) AND BREACTOR_WRITE \<noteq> 0) \<and>
        \<not> BPendingGroup_HasJobs (rx_jobs r) \<and> rx_expired r = []
    | RX_Skipped \<Rightarrow> \<not> BPendingGroup_HasJobs (rx_jobs r) \<and> rx_expired r = []
    | RX_Waited \<Rightarrow> \<not> BPendingGroup_HasJobs (rx_jobs r) \<and> rx_expired r = [] \<and> rx_pos r = length (rx_results r)"
proof -
  note inv = reached_inv(1) [OF assms(1,2)]
  have "\<forall>(a, clock)\<in>set as. ep_active r a" by (rule reached_inv(3) [OF assms(1-3)])
  then have t: "turn_ok r ev r'" using turn_correct [OF inv _ assms(4)] by simp
  show ?thesis
  proof (cases ev)
    case (RX_Fd d events)
    then show ?thesis using t by (auto simp: turn_ok_def BPendingGroup_HasJobs_def fd_events_mask split: if_splits)
  qed (use t in \<open>auto simp: turn_ok_def BPendingGroup_HasJobs_def\<close>)
qed

theorem reactor_dispatch_witness:
  "\<exists>r'. exec_turn 106 [] (rx.run (demo_ops @ [demo_turn, RO_RemoveFd 7, RO_Turn 106 []]) BReactor_Init) = Some (RX_Fd 8 2, r') \<and>
     fd_active (rx_fd (rx.run (demo_ops @ [demo_turn, RO_RemoveFd 7, RO_Turn 106 []]) BReactor_Init) 8)"
proof -
  let ?ops = "demo_ops @ [demo_turn, RO_RemoveFd 7, RO_Turn 106 []]"
  have l: "rx.legal ?ops BReactor_Init" by (simp add: demo_ops_def demo_turn_def rx_eval)
  have p: "rx_pre (RO_Turn 106 []) (rx.run ?ops BReactor_Init)" by (simp add: demo_ops_def demo_turn_def rx_eval)
  obtain r' where x: "exec_turn 106 [] (rx.run ?ops BReactor_Init) = Some (RX_Fd 8 2, r')"
    by (simp add: demo_ops_def demo_turn_def rx_eval)
  show ?thesis using reactor_dispatch [OF l refl p x] x by (intro exI [of _ r'] conjI) simp_all
qed

text \<open>C10. Timers expire together and in order: when the event loop has waited, there is something to dispatch. Either descriptors
  were reported and no timer moved, or all running timers up to a time, and no later one, are expired, in the
  order of their times; that time is the clock read before waiting, or the time of the first timer where that
  is later. So no timer is passed over by a later one.\<close>

theorem reactor_wait:
  assumes "rx.legal ops BReactor_Init" "r = rx.run ops BReactor_Init" "rx_pre (RO_Turn now as) r"
    "exec_turn now as r = Some (RX_Waited, r')"
  shows "(rx_results r' \<noteq> [] \<and> rx_expired r' = [] \<and> rx_timers_tree r' = rx_timers_tree r) \<or>
    (\<exists>first rest. rx_timers_tree r = first # rest \<and>
       (let time = max now (tm_absTime (rx_timer r first)) in
        rx_expired r' = filter (\<lambda>t. tm_absTime (rx_timer r t) \<le> time) (rx_timers_tree r) \<and>
        rx_timers_tree r' = filter (\<lambda>t. tm_absTime (rx_timer r t) > time) (rx_timers_tree r) \<and>
        rx_expired r' \<noteq> [] \<and> sorted (map (\<lambda>t. tm_absTime (rx_timer r t)) (rx_expired r'))))"
proof -
  note inv = reached_inv(1) [OF assms(1,2)]
  note ok = reached_inv(3) [OF assms(1-3)]
  have idle: "rx_expired r = []" "rx_pos r = length (rx_results r)" using turn_correct [OF inv ok assms(4)] by (simp_all add: turn_ok_def)
  have "wait_for_events now as r = Some r'"
    using assms(4) by (auto simp: exec_turn_def Let_def split: option.splits list.splits if_splits prod.splits)
  then have w: "waited_events r r' \<or> (\<exists>first. first_time r = Some first \<and> waited_timers (max now first) r r')"
    using wait_for_events_correct [of now as r r'] inv ok idle by (simp add: rx_inv_def)
  have "sorted_wrt (timer_before (abs_time r)) (rx_timers_tree r)" using inv by (simp add: rx_inv_def timers_ok_def)
  then have "sorted (map (abs_time r) (rx_timers_tree r))"
    unfolding sorted_map by (rule sorted_wrt_mono_rel [rotated]) (auto simp: timer_before_def)
  then have srt: "sorted (map (abs_time r) (filter P (rx_timers_tree r)))" for P by (rule sorted_filter)
  show ?thesis
  proof (cases "waited_events r r'")
    case True
    then show ?thesis using idle by (simp add: waited_events_def)
  next
    case False
    then obtain f where f: "first_time r = Some f" "waited_timers (max now f) r r'" using w by blast
    obtain t ts where t: "rx_timers_tree r = t # ts" "f = abs_time r t" using f(1) by (auto simp: first_time_def split: list.splits)
    have e: "rx_expired r' = filter (\<lambda>u. abs_time r u \<le> max now f) (rx_timers_tree r)"
      "rx_timers_tree r' = filter (\<lambda>u. abs_time r u > max now f) (rx_timers_tree r)" "rx_expired r' \<noteq> []"
      using f(2) idle by (simp_all only: waited_timers_def append_Nil) simp_all
    then have "sorted (map (abs_time r) (rx_expired r'))" using srt by simp
    then show ?thesis using e t by (simp add: Let_def)
  qed
qed

theorem reactor_wait_witness:
  "\<exists>r'. exec_turn 105 [(EpInterrupted, 106), (EpTimedOut, 0)] demo_rx = Some (RX_Waited, r') \<and>
     rx_expired r' = [0, 2] \<and> rx_timers_tree r' = [3]"
proof -
  let ?as = "[(EpInterrupted, 106), (EpTimedOut, 0)]"
  have p: "rx_pre (RO_Turn 105 ?as) demo_rx" by (simp add: demo_rx_def demo_ops_def rx_eval)
  obtain r' where x: "exec_turn 105 ?as demo_rx = Some (RX_Waited, r')" and res: "rx_results r' = []"
    by (simp add: demo_rx_def demo_ops_def rx_eval)
  have t: "tm_absTime (rx_timer demo_rx 0) = 110" "tm_absTime (rx_timer demo_rx 3) = 150" "tm_absTime (rx_timer demo_rx 2) = 110"
    by (simp_all add: demo_rx_def demo_ops_def rx_eval)
  show ?thesis using reactor_wait [OF demo_legal demo_rx_def p x] x res by (auto simp: demo_rx_eq t Let_def)
qed

end
