(* ===== verification/RxShare.thy ===== *)
theory RxShare
  imports Reactor FlowInterface
begin

text \<open>
  How several objects share one event loop. An object owns some jobs, descriptors and limits of the reactor and leaves
  those of others alone; \<open>rx_keeps\<close> is what it may rely on of the others. Every operation of the reactor on other
  objects, and every turn of the loop that dispatches something else, satisfies it. The sockets (theories \<open>Conn\<close> and
  \<open>Datagram\<close>) are proved under it.
\<close>

section \<open>What others keep\<close>

definition rx_keeps :: "nat set \<Rightarrow> nat set \<Rightarrow> nat set \<Rightarrow> BReactor \<Rightarrow> BReactor \<Rightarrow> bool" where
  "rx_keeps J D L r r' \<longleftrightarrow>
     (\<forall>j\<in>J. (j \<in> set (jobs (rx_jobs r')) \<longleftrightarrow> j \<in> set (jobs (rx_jobs r))) \<and> job_handler (rx_jobs r') j = job_handler (rx_jobs r) j) \<and>
     (\<forall>d\<in>D. fd_key (rx_fd r' d) = fd_key (rx_fd r d)) \<and>
     (\<forall>l\<in>L. rx_limit r' l = None \<longleftrightarrow> rx_limit r l = None)"

fun job_subject :: "('j, 'h) job_op \<Rightarrow> 'j option" where
  "job_subject (OpInit j h) = Some j"
| "job_subject (OpFree j) = Some j"
| "job_subject (OpSetHandler j h) = Some j"
| "job_subject (OpSet j) = Some j"
| "job_subject (OpUnset j) = Some j"
| "job_subject OpExec = None"

text \<open>An operation of another object: none of the owned things is its subject. Turns of the loops are not operations.\<close>

fun rx_avoids :: "nat set \<Rightarrow> nat set \<Rightarrow> nat set \<Rightarrow> rx_op \<Rightarrow> bool" where
  "rx_avoids J D L (RO_Job op) \<longleftrightarrow> (case job_subject op of None \<Rightarrow> False | Some j \<Rightarrow> j \<notin> J)"
| "rx_avoids J D L (RO_InitFd d) \<longleftrightarrow> d \<notin> D"
| "rx_avoids J D L (RO_AddFd ok d) \<longleftrightarrow> d \<notin> D"
| "rx_avoids J D L (RO_RemoveFd d) \<longleftrightarrow> d \<notin> D"
| "rx_avoids J D L (RO_SetEvents d events) \<longleftrightarrow> d \<notin> D"
| "rx_avoids J D L (RO_InitLimit l limit) \<longleftrightarrow> l \<notin> L"
| "rx_avoids J D L (RO_FreeLimit l) \<longleftrightarrow> l \<notin> L"
| "rx_avoids J D L (RO_Increment l) \<longleftrightarrow> l \<notin> L"
| "rx_avoids J D L (RO_SetLimit l limit) \<longleftrightarrow> l \<notin> L"
| "rx_avoids J D L (RO_Synchronize ref) \<longleftrightarrow> False"
| "rx_avoids J D L (RO_Turn now as) \<longleftrightarrow> False"
| "rx_avoids J D L _ \<longleftrightarrow> True"

lemma rx_keepsI:
  assumes "rx_jobs r' = rx_jobs r" "\<And>d. d \<in> D \<Longrightarrow> fd_key (rx_fd r' d) = fd_key (rx_fd r d)"
    "\<And>l. l \<in> L \<Longrightarrow> rx_limit r' l = None \<longleftrightarrow> rx_limit r l = None"
  shows "rx_keeps J D L r r'"
  using assms by (simp add: rx_keeps_def)

lemma job_subject_target: "job_subject op = Some j \<Longrightarrow> job_target op g = Some j"
  by (cases op) simp_all

lemma avoids_keeps:
  assumes "rx_inv r" "rx_avoids J D L op"
  shows "rx_keeps J D L r (rx_step op r)"
proof (cases op)
  case (RO_Job jop)
  then obtain k where k: "job_subject jop = Some k" "k \<notin> J" using assms(2) by (auto split: option.splits)
  have g: "group_inv (rx_jobs r)" using assms(1) by (simp add: rx_inv_def)
  have "(j \<in> set (jobs (job_step jop (rx_jobs r))) \<longleftrightarrow> j \<in> set (jobs (rx_jobs r))) \<and>
      job_handler (job_step jop (rx_jobs r)) j = job_handler (rx_jobs r) j" if "j \<in> J" for j
    using others_frame [OF job_subject_target [OF k(1)] _ g, of j] that k(2) by auto
  then show ?thesis using RO_Job by (simp add: rx_keeps_def)
next
  case (RO_RemoveFd d)
  then show ?thesis
    using assms(2) by (intro rx_keepsI) (auto simp: BReactor_RemoveFileDescriptor_def Let_def split: option.split)
qed (use assms(2) in \<open>auto intro!: rx_keepsI simp: BSmallTimer_Init_def BTimer_Init_def BFileDescriptor_Init_def
    BReactorLimit_Init_def BReactorLimit_Free_def BReactorLimit_Increment_def BReactorLimit_SetLimit_def BReactor_Quit_def
    BReactor_RemoveSmallTimer_def BReactor_AddFileDescriptor_def BReactor_SetFileDescriptorEvents_def Let_def split: if_splits\<close>)

section \<open>Turns of the loop\<close>

lemma reset_limits_dom: "rx_limit (reset_limits r) l = None \<longleftrightarrow> rx_limit r l = None"
proof (induction r rule: reset_limits.induct)
  case (1 r)
  then show ?case by (cases "rx_limits r") (simp_all add: reset_limits.simps [of r])
qed

lemma reset_limits_jobs: "rx_jobs (reset_limits r) = rx_jobs r"
proof (induction r rule: reset_limits.induct)
  case (1 r)
  then show ?case by (cases "rx_limits r") (simp_all add: reset_limits.simps [of r])
qed

lemma wait_loop_frame:
  "wait_loop timeout now as r = Some r' \<Longrightarrow> rx_jobs r' = rx_jobs r \<and> rx_limit r' = rx_limit r"
  by (induction timeout now as r rule: wait_loop.induct)
    (auto simp: Let_def move_first_frame set_pointers_frame split: ep_answer.splits option.splits if_splits)

lemma wait_for_events_frame:
  "wait_for_events now as r = Some r' \<Longrightarrow> rx_jobs r' = rx_jobs r \<and> (rx_limit r' l = None \<longleftrightarrow> rx_limit r l = None)"
  using move_expired_frame [of now "r\<lparr>rx_results := [], rx_pos := 0\<rparr>"]
  by (auto simp: wait_for_events_def Let_def reset_limits_dom reset_limits_jobs dest!: wait_loop_frame
      split: list.splits prod.splits if_splits)

lemma turn_keeps:
  assumes x: "exec_turn now as r = Some (ev, r')" and inv: "rx_inv r" and foreign: "\<And>j. ev = RX_Job j \<Longrightarrow> j \<notin> J"
  shows "rx_keeps J D L r r'"
proof (cases "BPendingGroup_ExecuteJob (rx_jobs r)")
  case (Some p)
  then obtain j g where p: "BPendingGroup_ExecuteJob (rx_jobs r) = Some (j, g)" by fastforce
  have e: "ev = RX_Job j" "r' = r\<lparr>rx_jobs := g\<rparr>" using x p by (simp_all add: exec_turn_def)
  have g: "group_inv (rx_jobs r)" using inv by (simp add: rx_inv_def)
  note f = execute_jobs [OF g p]
  show ?thesis using foreign [OF e(1)] f by (auto simp: rx_keeps_def e(2))
next
  case None
  have "rx_jobs r' = rx_jobs r \<and> (\<forall>l. rx_limit r' l = None \<longleftrightarrow> rx_limit r l = None)"
    using x None
    by (auto simp: exec_turn_def Let_def dest: wait_for_events_frame split: option.splits list.splits if_splits prod.splits)
  then show ?thesis using exec_turn_key [OF x] by (intro rx_keepsI) simp_all
qed

text \<open>The turn that runs a job takes that job, and only that, from the queue.\<close>

lemma turn_job:
  assumes x: "exec_turn now as r = Some (RX_Job j, r')" and inv: "rx_inv r"
  shows "\<exists>g. BPendingGroup_ExecuteJob (rx_jobs r) = Some (j, g) \<and> r' = r\<lparr>rx_jobs := g\<rparr>"
  using x by (auto simp: exec_turn_def Let_def split: option.splits list.splits if_splits prod.splits)

text \<open>The turn that dispatches a descriptor.\<close>

lemma turn_fd:
  assumes x: "exec_turn now as r = Some (RX_Fd d events, r')" and inv: "rx_inv r" and ok: "\<forall>(a, clock)\<in>set as. ep_active r a"
  shows "rx_jobs r' = rx_jobs r" "rx_limit r' = rx_limit r" "fd_active (rx_fd r d)" "events \<noteq> 0" "jobs (rx_jobs r) = []"
    "events AND BREACTOR_READ \<noteq> 0 \<Longrightarrow> fd_waitEvents (rx_fd r d) AND BREACTOR_READ \<noteq> 0"
    "events AND BREACTOR_WRITE \<noteq> 0 \<Longrightarrow> fd_waitEvents (rx_fd r d) AND BREACTOR_WRITE \<noteq> 0"
proof -
  have t: "turn_ok r (RX_Fd d events) r'" using turn_correct [OF inv ok x] by simp
  show "rx_jobs r' = rx_jobs r" "rx_limit r' = rx_limit r"
    using x by (auto simp: exec_turn_def Let_def split: option.splits list.splits if_splits prod.splits)
  show "fd_active (rx_fd r d)" "events \<noteq> 0" "jobs (rx_jobs r) = []" using t by (auto simp: turn_ok_def)
  show "events AND BREACTOR_READ \<noteq> 0 \<Longrightarrow> fd_waitEvents (rx_fd r d) AND BREACTOR_READ \<noteq> 0"
    "events AND BREACTOR_WRITE \<noteq> 0 \<Longrightarrow> fd_waitEvents (rx_fd r d) AND BREACTOR_WRITE \<noteq> 0"
    using t by (auto simp: turn_ok_def fd_events_mask split: if_splits)
qed

section \<open>Event masks\<close>

text \<open>The tests of the code on event masks, as bits.\<close>

lemma ev_bits:
  fixes x :: u32
  shows "x AND BREACTOR_READ = 0 \<longleftrightarrow> \<not> bit x 0" "x AND BREACTOR_WRITE = 0 \<longleftrightarrow> \<not> bit x 1"
    "x AND BREACTOR_ERROR = 0 \<longleftrightarrow> \<not> bit x 2" "x AND BREACTOR_HUP = 0 \<longleftrightarrow> \<not> bit x 3"
  using and_exp_eq_0_iff_not_bit [of x 0] and_exp_eq_0_iff_not_bit [of x 1] and_exp_eq_0_iff_not_bit [of x 2] and_exp_eq_0_iff_not_bit [of x 3]
  by simp_all

lemma rw_bits:
  "bit (BREACTOR_READ :: u32) n \<longleftrightarrow> n = 0" "bit (BREACTOR_WRITE :: u32) n \<longleftrightarrow> n = 1" "bit (2 :: int) n \<longleftrightarrow> n = 1"
  using bit_exp_iff [of 1 n, where 'a = u32] bit_exp_iff [of 1 n, where 'a = int] by (auto simp: bit_1_iff)

lemma bit_three: "bit (3 :: u32) n \<longleftrightarrow> n < 2" "bit (3 :: int) n \<longleftrightarrow> n < 2"
  using bit_mask_iff [of 2 n, where 'a = u32] bit_mask_iff [of 2 n, where 'a = int] by (auto simp: mask_eq_exp_minus_1)

lemma rw_mask: "x AND NOT (BREACTOR_READ OR BREACTOR_WRITE) = 0 \<longleftrightarrow> (\<forall>n\<ge>2. \<not> bit x n)" for x :: u32
proof -
  have "bit x n \<Longrightarrow> n < 32" for n by (drule bit_imp_le_length) simp
  then show ?thesis by (auto simp: bit_eq_iff bit_simps bit_three not_less) 
qed

definition has_read :: "u32 \<Rightarrow> bool" where "has_read e \<longleftrightarrow> e AND BREACTOR_READ \<noteq> 0"

definition has_write :: "u32 \<Rightarrow> bool" where "has_write e \<longleftrightarrow> e AND BREACTOR_WRITE \<noteq> 0"

definition rw_only :: "u32 \<Rightarrow> bool" where "rw_only e \<longleftrightarrow> e AND NOT (BREACTOR_READ OR BREACTOR_WRITE) = 0"

lemma mask_bits: "has_read e \<longleftrightarrow> bit e 0" "has_write e \<longleftrightarrow> bit e 1" "rw_only e \<longleftrightarrow> (\<forall>n\<ge>2. \<not> bit e n)"
  unfolding has_read_def has_write_def rw_only_def rw_mask ev_bits by simp_all

lemma mask_simps [simp]:
  "has_read 0 \<longleftrightarrow> False" "has_write 0 \<longleftrightarrow> False" "rw_only 0"
  "has_read (e OR BREACTOR_WRITE) \<longleftrightarrow> has_read e" "has_write (e OR BREACTOR_WRITE)"
  "has_read (e OR BREACTOR_READ)" "has_write (e OR BREACTOR_READ) \<longleftrightarrow> has_write e"
  "has_read (e AND NOT d) \<longleftrightarrow> has_read e \<and> \<not> has_read d" "has_write (e AND NOT d) \<longleftrightarrow> has_write e \<and> \<not> has_write d"
  "has_read BREACTOR_READ" "\<not> has_write BREACTOR_READ" "has_write BREACTOR_WRITE" "\<not> has_read BREACTOR_WRITE"
  "rw_only e \<Longrightarrow> rw_only (e OR BREACTOR_WRITE)" "rw_only e \<Longrightarrow> rw_only (e OR BREACTOR_READ)" "rw_only e \<Longrightarrow> rw_only (e AND NOT d)"
  unfolding mask_bits by (simp_all add: rw_bits bit_and_iff bit_or_iff bit_not_iff)

lemma error_or_hup: "e AND (BREACTOR_ERROR OR BREACTOR_HUP) \<noteq> 0 \<longleftrightarrow> e AND BREACTOR_ERROR \<noteq> 0 \<or> e AND BREACTOR_HUP \<noteq> 0" for e :: u32
  by (simp only: bit.conj_disj_distrib or_eq_0_iff) simp

lemma epoll_events_bits:
  "epoll_events e AND EPOLLIN \<noteq> 0 \<longleftrightarrow> has_read e" "epoll_events e AND EPOLLOUT \<noteq> 0 \<longleftrightarrow> has_write e"
  by (simp_all add: epoll_events_def has_read_def has_write_def)

section \<open>Jobs, descriptors and limits of an object\<close>

text \<open>The handlers of the jobs, by number.\<close>

abbreviation (input) H_OPERATION :: nat where "H_OPERATION \<equiv> 0"
abbreviation (input) H_DONE :: nat where "H_DONE \<equiv> 1"
abbreviation (input) H_OWN_JOB :: nat where "H_OWN_JOB \<equiv> 2"
abbreviation (input) H_REQUESTCANCEL :: nat where "H_REQUESTCANCEL \<equiv> 3"

definition jobs_keep :: "nat set \<Rightarrow> (nat, nat) BPendingGroup \<Rightarrow> (nat, nat) BPendingGroup \<Rightarrow> bool" where
  "jobs_keep J g g' \<longleftrightarrow>
     group_inv g' \<and> (\<forall>j\<in>J. (j \<in> set (jobs g') \<longleftrightarrow> j \<in> set (jobs g)) \<and> job_handler g' j = job_handler g j)"

lemma set_events_rx:
  assumes "rx_inv r" "reg_ok r" "fd_active (rx_fd r d)" "rw_only e"
  shows "rx_inv (BReactor_SetFileDescriptorEvents d e r)" "reg_ok (BReactor_SetFileDescriptorEvents d e r)"
  using rx_step_inv [of r "RO_SetEvents d e"] reg_step_ok [of r "RO_SetEvents d e"] assms by (simp_all add: rw_only_def)

lemma set_events_fields:
  "rx_jobs (BReactor_SetFileDescriptorEvents d e r) = rx_jobs r" "rx_limit (BReactor_SetFileDescriptorEvents d e r) = rx_limit r"
  "fd_active (rx_fd (BReactor_SetFileDescriptorEvents d e r) u) = fd_active (rx_fd r u)"
  "fd_waitEvents (rx_fd (BReactor_SetFileDescriptorEvents d e r) d) = e"
  by (simp_all add: BReactor_SetFileDescriptorEvents_def)

lemma increment_rx:
  assumes "rx_inv r" "reg_ok r" "rx_limit r l \<noteq> None"
  shows "rx_inv (snd (BReactorLimit_Increment l r))" "reg_ok (snd (BReactorLimit_Increment l r))"
    "rx_jobs (snd (BReactorLimit_Increment l r)) = rx_jobs r" "rx_fd (snd (BReactorLimit_Increment l r)) = rx_fd r"
    "rx_limit (snd (BReactorLimit_Increment l r)) k = None \<longleftrightarrow> rx_limit r k = None"
  using rx_step_inv [of r "RO_Increment l"] reg_step_ok [of r "RO_Increment l"] assms
  by (auto simp: BReactorLimit_Increment_def Let_def split: if_splits)

lemma rx_jobs_inv:
  assumes "rx_inv r" "group_inv g"
  shows "rx_inv (r\<lparr>rx_jobs := g\<rparr>)" "reg_ok (r\<lparr>rx_jobs := g\<rparr>) \<longleftrightarrow> reg_ok r"
proof -
  show "rx_inv (r\<lparr>rx_jobs := g\<rparr>)" by (rule rx_cong [OF assms(1)]) (simp_all add: assms(2))
  show "reg_ok (r\<lparr>rx_jobs := g\<rparr>) \<longleftrightarrow> reg_ok r" by (simp add: reg_ok_def)
qed

lemma set_job_keep:
  assumes "group_inv g" "job_handler g j \<noteq> None" "j \<notin> J"
  shows "jobs_keep J g (BSmallPending_Set j g)"
  using assms by (auto simp: jobs_keep_def set_jobs_set set_inv)

lemma init_jobs:
  assumes "group_inv g" "job_handler g j = None"
  shows "group_inv (BSmallPending_Init j h g)" "jobs (BSmallPending_Init j h g) = jobs g"
    "job_handler (BSmallPending_Init j h g) = (job_handler g)(j \<mapsto> h)" "j \<notin> set (jobs g)"
  using job_step_inv [of g "OpInit j h"] assms unknown_not_pending [OF assms] by (auto simp: BSmallPending_Init_def)

lemma free_jobs:
  assumes "group_inv g"
  shows "group_inv (BSmallPending_Free j g)" "set (jobs (BSmallPending_Free j g)) = set (jobs g) - {j}"
    "job_handler (BSmallPending_Free j g) = (job_handler g)(j := None)"
  using assms by (auto simp: group_inv_def job_defs Let_def)

lemma add_fd_rx:
  assumes "rx_inv r" "reg_ok r" "\<not> fd_active (rx_fd r d)" "BReactor_AddFileDescriptor add d (BFileDescriptor_Init d r) = (True, r')"
  shows "rx_inv r'" "reg_ok r'" "rx_jobs r' = rx_jobs r" "rx_limit r' = rx_limit r" "fd_active (rx_fd r' d)" "fd_waitEvents (rx_fd r' d) = 0"
proof -
  have i: "rx_inv (BFileDescriptor_Init d r)" "reg_ok (BFileDescriptor_Init d r)" "\<not> fd_active (rx_fd (BFileDescriptor_Init d r) d)"
    using rx_step_inv [of r "RO_InitFd d"] reg_step_ok [of r "RO_InitFd d"] assms(1-3) by (simp_all add: BFileDescriptor_Init_def)
  have "r' = rx_step (RO_AddFd add d) (BFileDescriptor_Init d r)" using assms(4) by simp
  then show "rx_inv r'" "reg_ok r'" using rx_step_inv [OF i(1,2), of "RO_AddFd add d"] reg_step_ok [OF i(2), of "RO_AddFd add d"] i(3) by simp_all
  show "rx_jobs r' = rx_jobs r" "rx_limit r' = rx_limit r" "fd_active (rx_fd r' d)" "fd_waitEvents (rx_fd r' d) = 0"
    using assms(4) by (auto simp: BReactor_AddFileDescriptor_def BFileDescriptor_Init_def split: if_splits)
qed

lemma init_limit_rx:
  assumes "rx_inv r" "reg_ok r" "rx_limit r l = None" "0 < n"
  shows "rx_inv (BReactorLimit_Init l n r)" "reg_ok (BReactorLimit_Init l n r)"
  using rx_step_inv [of r "RO_InitLimit l n"] reg_step_ok [of r "RO_InitLimit l n"] assms by simp_all

end
