(* ===== verification/Conn.thy ===== *)
theory Conn
  imports RxShare NetAddr
begin

text \<open>
  Stream connections: \<open>system/BConnection_unix.c\<close>. A \<open>BConnection\<close> lives in the reactor (theory \<open>Reactor\<close>): it owns a file
  descriptor, two limits and six jobs, those of its send and receive interfaces (theory \<open>FlowInterface\<close>) and two of
  its own. Everything the code does to the reactor is done here to the model of the reactor. The system calls are the
  environment: their answers are parameters. \<open>conn_world\<close> holds the connection, the reactor, and what the kernel and
  the user of the connection have seen.
\<close>

section \<open>State\<close>

datatype send_state = SEND_STATE_NOT_INITED | SEND_STATE_READY | SEND_STATE_BUSY

datatype recv_state =
  RECV_STATE_NOT_INITED | RECV_STATE_READY | RECV_STATE_BUSY | RECV_STATE_INITED_CLOSED | RECV_STATE_NOT_INITED_CLOSED

abbreviation BCONNECTION_SEND_LIMIT :: int where "BCONNECTION_SEND_LIMIT \<equiv> 2"
abbreviation BCONNECTION_RECV_LIMIT :: int where "BCONNECTION_RECV_LIMIT \<equiv> 2"

text \<open>The jobs, the descriptor and the limits are parts of the object, identified by their addresses. \<open>cn_d_err\<close>: an error
  was reported. The data of a send request are the bytes, that of a receive request is the address of the buffer.\<close>

record BConnection =
  cn_fd :: int
  cn_close_fd :: bool
  cn_is_hupd :: bool
  cn_bfd :: nat
  cn_wait_events :: u32
  cn_send_limit :: nat
  cn_send_iface :: "(nat, byte list) StreamPassInterface"
  cn_send_op_job :: nat
  cn_send_done_job :: nat
  cn_send_job :: nat
  cn_send_busy_data :: "byte list"
  cn_send_state :: send_state
  cn_recv_limit :: nat
  cn_recv_iface :: "(nat, nat) StreamRecvInterface"
  cn_recv_op_job :: nat
  cn_recv_done_job :: nat
  cn_recv_job :: nat
  cn_recv_busy_data :: nat
  cn_recv_busy_data_avail :: int
  cn_recv_state :: recv_state
  cn_d_err :: bool

datatype conn_event = BCONNECTION_EVENT_ERROR | BCONNECTION_EVENT_RECVCLOSED

text \<open>\<open>cw_written\<close> and \<open>cw_read\<close> are the bytes the kernel took and gave; \<open>cw_confirmed\<close> and \<open>cw_delivered\<close> those the user was told
  of; \<open>cw_events\<close> the calls of the user's handler; \<open>cw_sockerr\<close> says that the kernel holds an error for the next
  call; \<open>cw_lost_send\<close> and \<open>cw_lost_recv\<close> that an interface was freed when the user had not been told of the last
  transfer; \<open>cw_closed\<close> the descriptors closed.\<close>

record conn_world =
  cw_rx :: BReactor
  cw_alive :: bool
  cw_o :: BConnection
  cw_mem :: "nat \<Rightarrow> byte list"
  cw_written :: "byte list"
  cw_confirmed :: "byte list"
  cw_read :: "byte list"
  cw_delivered :: "byte list"
  cw_events :: "conn_event list"
  cw_sockerr :: bool
  cw_lost_send :: bool
  cw_lost_recv :: bool
  cw_closed :: "int list"

text \<open>What \<open>write\<close> and \<open>read\<close> return; a failure may say that the call would block.\<close>

datatype wr_answer = WrBytes nat | WrFail bool
datatype rd_answer = RdBytes "byte list" | RdFail bool

definition upd_o :: "(BConnection \<Rightarrow> BConnection) \<Rightarrow> conn_world \<Rightarrow> conn_world" where
  "upd_o f w = w\<lparr>cw_o := f (cw_o w)\<rparr>"

definition upd_rx :: "(BReactor \<Rightarrow> BReactor) \<Rightarrow> conn_world \<Rightarrow> conn_world" where
  "upd_rx f w = w\<lparr>cw_rx := f (cw_rx w)\<rparr>"

definition upd_jobs :: "((nat, nat) BPendingGroup \<Rightarrow> (nat, nat) BPendingGroup) \<Rightarrow> conn_world \<Rightarrow> conn_world" where
  "upd_jobs f = upd_rx (\<lambda>r. r\<lparr>rx_jobs := f (rx_jobs r)\<rparr>)"

abbreviation cw_jobs :: "conn_world \<Rightarrow> (nat, nat) BPendingGroup" where "cw_jobs w \<equiv> rx_jobs (cw_rx w)"

section \<open>Sending and receiving\<close>

definition connection_report_error :: "conn_world \<Rightarrow> conn_world" where
  "connection_report_error w = upd_o (\<lambda>c. c\<lparr>cn_d_err := True\<rparr>) (w\<lparr>cw_events := cw_events w @ [BCONNECTION_EVENT_ERROR]\<rparr>)"

text \<open>The events the connection waits for, and the reactor's.\<close>

definition set_wait_events :: "u32 \<Rightarrow> conn_world \<Rightarrow> conn_world" where
  "set_wait_events e w =
     upd_rx (BReactor_SetFileDescriptorEvents (cn_bfd (cw_o w)) e) (upd_o (\<lambda>c. c\<lparr>cn_wait_events := e\<rparr>) w)"

definition wait_for_fd :: "u32 \<Rightarrow> conn_world \<Rightarrow> conn_world" where
  "wait_for_fd e w = set_wait_events (cn_wait_events (cw_o w) OR e) w"

definition increment_limit :: "nat \<Rightarrow> conn_world \<Rightarrow> bool \<times> conn_world" where
  "increment_limit l w = (let (ok, r) = BReactorLimit_Increment l (cw_rx w) in (ok, w\<lparr>cw_rx := r\<rparr>))"

definition send_done :: "nat \<Rightarrow> conn_world \<Rightarrow> conn_world" where
  "send_done n w =
     (let (i, g) = StreamPassInterface_Done (int n) (cn_send_iface (cw_o w), cw_jobs w)
      in upd_jobs (\<lambda>_. g) (upd_o (\<lambda>c. c\<lparr>cn_send_iface := i\<rparr>) w))"

definition recv_done :: "nat \<Rightarrow> conn_world \<Rightarrow> conn_world" where
  "recv_done n w =
     (let (i, g) = StreamRecvInterface_Done (int n) (cn_recv_iface (cw_o w), cw_jobs w)
      in upd_jobs (\<lambda>_. g) (upd_o (\<lambda>c. c\<lparr>cn_recv_iface := i\<rparr>) w))"

definition bconnection_send :: "wr_answer \<Rightarrow> conn_world \<Rightarrow> conn_world" where
  "bconnection_send a w =
     (let (go, w) = (if \<not> cn_is_hupd (cw_o w) then increment_limit (cn_send_limit (cw_o w)) w else (True, w)) in
      if \<not> go then wait_for_fd BREACTOR_WRITE w
      else
        case a of
          WrFail would_block \<Rightarrow>
            if \<not> cn_is_hupd (cw_o w) \<and> would_block then wait_for_fd BREACTOR_WRITE w else connection_report_error w
        | WrBytes bytes \<Rightarrow>
            let w = w\<lparr>cw_written := cw_written w @ take bytes (cn_send_busy_data (cw_o w))\<rparr>;
                w = upd_o (\<lambda>c. c\<lparr>cn_send_state := SEND_STATE_READY\<rparr>) w
            in send_done bytes w)"

definition connection_recv :: "rd_answer \<Rightarrow> conn_world \<Rightarrow> conn_world" where
  "connection_recv a w =
     (let (go, w) = (if \<not> cn_is_hupd (cw_o w) then increment_limit (cn_recv_limit (cw_o w)) w else (True, w)) in
      if \<not> go then wait_for_fd BREACTOR_READ w
      else
        case a of
          RdFail would_block \<Rightarrow>
            if \<not> cn_is_hupd (cw_o w) \<and> would_block then wait_for_fd BREACTOR_READ w else connection_report_error w
        | RdBytes bs \<Rightarrow>
            if bs = [] then
              let w = upd_o (\<lambda>c. c\<lparr>cn_recv_state := RECV_STATE_INITED_CLOSED\<rparr>) w
              in w\<lparr>cw_events := cw_events w @ [BCONNECTION_EVENT_RECVCLOSED]\<rparr>
            else
              let p = cn_recv_busy_data (cw_o w);
                  w = w\<lparr>cw_mem := (cw_mem w)(p := bs @ drop (length bs) (cw_mem w p)), cw_read := cw_read w @ bs\<rparr>;
                  w = upd_o (\<lambda>c. c\<lparr>cn_recv_state := RECV_STATE_READY\<rparr>) w
              in recv_done (length bs) w)"

definition connection_fd_handler :: "u32 \<Rightarrow> wr_answer \<Rightarrow> rd_answer \<Rightarrow> conn_world \<Rightarrow> conn_world" where
  "connection_fd_handler events wa ra w =
     (let w = set_wait_events (cn_wait_events (cw_o w) AND NOT events) w;
          w = (if events AND BREACTOR_HUP \<noteq> 0 then
                 upd_o (\<lambda>c. c\<lparr>cn_is_hupd := True\<rparr>) (upd_rx (BReactor_RemoveFileDescriptor (cn_bfd (cw_o w))) w)
               else w);
          have_send = (events AND BREACTOR_WRITE \<noteq> 0 \<or>
            events AND (BREACTOR_ERROR OR BREACTOR_HUP) \<noteq> 0 \<and> cn_send_state (cw_o w) = SEND_STATE_BUSY);
          have_recv = (events AND BREACTOR_READ \<noteq> 0 \<or>
            events AND (BREACTOR_ERROR OR BREACTOR_HUP) \<noteq> 0 \<and> cn_recv_state (cw_o w) = RECV_STATE_BUSY)
      in if have_send then
           let w = (if have_recv then upd_jobs (BSmallPending_Set (cn_recv_job (cw_o w))) w else w)
           in bconnection_send wa w
         else if have_recv then connection_recv ra w
         else if \<not> cn_is_hupd (cw_o w) then connection_report_error w
         else w)"

definition connection_send_job_handler :: "wr_answer \<Rightarrow> conn_world \<Rightarrow> conn_world" where
  "connection_send_job_handler wa w = bconnection_send wa w"

definition connection_recv_job_handler :: "rd_answer \<Rightarrow> conn_world \<Rightarrow> conn_world" where
  "connection_recv_job_handler ra w = connection_recv ra w"

definition connection_send_if_handler_send :: "wr_answer \<Rightarrow> byte list \<Rightarrow> conn_world \<Rightarrow> conn_world" where
  "connection_send_if_handler_send wa data w =
     bconnection_send wa (upd_o (\<lambda>c. c\<lparr>cn_send_busy_data := data, cn_send_state := SEND_STATE_BUSY\<rparr>) w)"

definition connection_recv_if_handler_recv :: "rd_answer \<Rightarrow> nat \<Rightarrow> int \<Rightarrow> conn_world \<Rightarrow> conn_world" where
  "connection_recv_if_handler_recv ra data data_avail w =
     connection_recv ra
       (upd_o (\<lambda>c. c\<lparr>cn_recv_busy_data := data, cn_recv_busy_data_avail := data_avail, cn_recv_state := RECV_STATE_BUSY\<rparr>) w)"

section \<open>Interfaces\<close>

definition BConnection_SendAsync_Init :: "conn_world \<Rightarrow> conn_world" where
  "BConnection_SendAsync_Init w =
     (let c = cw_o w;
          (i, g) = StreamPassInterface_Init (cn_send_op_job c) (cn_send_done_job c) H_OPERATION H_DONE [] (cw_jobs w);
          g = BSmallPending_Init (cn_send_job c) H_OWN_JOB g
      in upd_jobs (\<lambda>_. g) (upd_o (\<lambda>c. c\<lparr>cn_send_iface := i, cn_send_state := SEND_STATE_READY\<rparr>) w))"

definition BConnection_SendAsync_Free :: "conn_world \<Rightarrow> conn_world" where
  "BConnection_SendAsync_Free w =
     (let w = w\<lparr>cw_lost_send := cw_lost_send w \<or> spi_state (cn_send_iface (cw_o w)) = STATE_DONE_PENDING\<rparr>;
          w = (if \<not> cn_is_hupd (cw_o w) then set_wait_events (cn_wait_events (cw_o w) AND NOT BREACTOR_WRITE) w else w);
          w = upd_jobs (BSmallPending_Free (cn_send_job (cw_o w))) w;
          w = upd_jobs (StreamPassInterface_Free (cn_send_iface (cw_o w))) w
      in upd_o (\<lambda>c. c\<lparr>cn_send_state := SEND_STATE_NOT_INITED\<rparr>) w)"

definition BConnection_RecvAsync_Init :: "conn_world \<Rightarrow> conn_world" where
  "BConnection_RecvAsync_Init w =
     (let c = cw_o w;
          (i, g) = StreamRecvInterface_Init (cn_recv_op_job c) (cn_recv_done_job c) H_OPERATION H_DONE 0 (cw_jobs w);
          g = BSmallPending_Init (cn_recv_job c) H_OWN_JOB g
      in upd_jobs (\<lambda>_. g) (upd_o (\<lambda>c. c\<lparr>cn_recv_iface := i, cn_recv_state := RECV_STATE_READY\<rparr>) w))"

definition BConnection_RecvAsync_Free :: "conn_world \<Rightarrow> conn_world" where
  "BConnection_RecvAsync_Free w =
     (let w = w\<lparr>cw_lost_recv := cw_lost_recv w \<or> sri_state (cn_recv_iface (cw_o w)) = STATE_DONE_PENDING\<rparr>;
          w = (if \<not> cn_is_hupd (cw_o w) then set_wait_events (cn_wait_events (cw_o w) AND NOT BREACTOR_READ) w else w);
          w = upd_jobs (BSmallPending_Free (cn_recv_job (cw_o w))) w;
          w = upd_jobs (StreamRecvInterface_Free (cn_recv_iface (cw_o w))) w
      in upd_o (\<lambda>c. c\<lparr>cn_recv_state := RECV_STATE_NOT_INITED\<rparr>) w)"

definition BConnection_Free :: "conn_world \<Rightarrow> conn_world" where
  "BConnection_Free w =
     (let c = cw_o w;
          w = upd_rx (BReactorLimit_Free (cn_recv_limit c)) w;
          w = upd_rx (BReactorLimit_Free (cn_send_limit c)) w;
          w = (if \<not> cn_is_hupd c then upd_rx (BReactor_RemoveFileDescriptor (cn_bfd c)) w else w)
      in w\<lparr>cw_alive := False, cw_closed := cw_closed w @ (if cn_close_fd c then [cn_fd c] else [])\<rparr>)"


section \<open>Histories\<close>

text \<open>The user's calls, the operations of other users of the reactor, and the turns of the loop, which dispatch to the
  connection what is its own. The conditions are those the code asserts and the documentation asks for: after an
  error the connection is only freed; \<open>write\<close> takes at least one byte and \<open>read\<close> gives at most what was asked for; an
  error that the kernel has signalled is what the next call returns.\<close>

datatype conn_op =
  CO_SendInit | CO_SendFree | CO_RecvInit | CO_RecvFree | CO_SenderInit | CO_ReceiverInit
| CO_Send "byte list" | CO_Recv nat int | CO_Free
| CO_Other rx_op | CO_Turn int "(ep_answer \<times> int) list" wr_answer rd_answer

definition own_jobs :: "BConnection \<Rightarrow> nat list" where
  "own_jobs c = [cn_send_op_job c, cn_send_done_job c, cn_send_job c, cn_recv_op_job c, cn_recv_done_job c, cn_recv_job c]"

definition own_limits :: "BConnection \<Rightarrow> nat list" where "own_limits c = [cn_send_limit c, cn_recv_limit c]"

text \<open>The handler of the user of an interface is told how much was sent or received.\<close>

definition user_handler_sent :: "conn_world \<Rightarrow> conn_world" where
  "user_handler_sent w =
     (let i = cn_send_iface (cw_o w); (i', n) = StreamPassInterface_job_done i
      in (upd_o (\<lambda>c. c\<lparr>cn_send_iface := i'\<rparr>) w)\<lparr>cw_confirmed := cw_confirmed w @ take (nat n) (spi_data i)\<rparr>)"

definition user_handler_received :: "conn_world \<Rightarrow> conn_world" where
  "user_handler_received w =
     (let i = cn_recv_iface (cw_o w); (i', n) = StreamRecvInterface_job_done i
      in (upd_o (\<lambda>c. c\<lparr>cn_recv_iface := i'\<rparr>) w)\<lparr>cw_delivered := cw_delivered w @ take (nat n) (cw_mem w (sri_data i))\<rparr>)"

definition dispatch_job :: "nat \<Rightarrow> wr_answer \<Rightarrow> rd_answer \<Rightarrow> conn_world \<Rightarrow> conn_world" where
  "dispatch_job j wa ra w =
     (let c = cw_o w in
      if j = cn_send_op_job c then
        let (i, data, len) = StreamPassInterface_job_operation (cn_send_iface c)
        in connection_send_if_handler_send wa data (upd_o (\<lambda>c. c\<lparr>cn_send_iface := i\<rparr>) w)
      else if j = cn_send_done_job c then user_handler_sent w
      else if j = cn_send_job c then connection_send_job_handler wa w
      else if j = cn_recv_op_job c then
        let (i, data, len) = StreamRecvInterface_job_operation (cn_recv_iface c)
        in connection_recv_if_handler_recv ra data len (upd_o (\<lambda>c. c\<lparr>cn_recv_iface := i\<rparr>) w)
      else if j = cn_recv_done_job c then user_handler_received w
      else if j = cn_recv_job c then connection_recv_job_handler ra w
      else w)"

text \<open>An error event without hangup is an error the kernel holds for the next call.\<close>

definition dispatch_fd :: "nat \<Rightarrow> u32 \<Rightarrow> wr_answer \<Rightarrow> rd_answer \<Rightarrow> conn_world \<Rightarrow> conn_world" where
  "dispatch_fd d events wa ra w =
     (if d = cn_bfd (cw_o w) then
        connection_fd_handler events wa ra
          (w\<lparr>cw_sockerr := cw_sockerr w \<or> events AND BREACTOR_ERROR \<noteq> 0 \<and> events AND BREACTOR_HUP = 0\<rparr>)
      else w)"

definition conn_turn :: "int \<Rightarrow> (ep_answer \<times> int) list \<Rightarrow> wr_answer \<Rightarrow> rd_answer \<Rightarrow> conn_world \<Rightarrow> conn_world" where
  "conn_turn now as wa ra w =
     (case exec_turn now as (cw_rx w) of None \<Rightarrow> w
      | Some (ev, r) \<Rightarrow>
          let w = w\<lparr>cw_rx := r\<rparr> in
          if \<not> cw_alive w then w
          else case ev of RX_Job j \<Rightarrow> dispatch_job j wa ra w | RX_Fd d events \<Rightarrow> dispatch_fd d events wa ra w | _ \<Rightarrow> w)"

definition own_event :: "BConnection \<Rightarrow> rx_event \<Rightarrow> bool" where
  "own_event c ev \<longleftrightarrow> (case ev of RX_Job j \<Rightarrow> j \<in> set (own_jobs c) | RX_Fd d events \<Rightarrow> d = cn_bfd c | _ \<Rightarrow> False)"

definition error_event :: "rx_event \<Rightarrow> bool" where
  "error_event ev \<longleftrightarrow> (case ev of RX_Fd d events \<Rightarrow> events AND BREACTOR_ERROR \<noteq> 0 \<and> events AND BREACTOR_HUP = 0 | _ \<Rightarrow> False)"

text \<open>\<open>len\<close> and \<open>avail\<close> are the sizes of the requests the calls would be made for.\<close>

fun wr_answer_ok :: "bool \<Rightarrow> nat \<Rightarrow> wr_answer \<Rightarrow> bool" where
  "wr_answer_ok err len (WrBytes n) \<longleftrightarrow> \<not> err \<and> 0 < n \<and> n \<le> len"
| "wr_answer_ok err len (WrFail would_block) \<longleftrightarrow> \<not> (err \<and> would_block)"

fun rd_answer_ok :: "bool \<Rightarrow> int \<Rightarrow> rd_answer \<Rightarrow> bool" where
  "rd_answer_ok err avail (RdBytes bs) \<longleftrightarrow> \<not> err \<and> int (length bs) \<le> avail"
| "rd_answer_ok err avail (RdFail would_block) \<longleftrightarrow> \<not> (err \<and> would_block)"

definition turn_ok_for :: "wr_answer \<Rightarrow> rd_answer \<Rightarrow> rx_event \<Rightarrow> conn_world \<Rightarrow> bool" where
  "turn_ok_for wa ra ev w \<longleftrightarrow>
     (own_event (cw_o w) ev \<longrightarrow>
        \<not> cn_d_err (cw_o w) \<and>
        wr_answer_ok (cw_sockerr w \<or> error_event ev) (nat (spi_len (cn_send_iface (cw_o w)))) wa \<and>
        rd_answer_ok (cw_sockerr w \<or> error_event ev) (sri_len (cn_recv_iface (cw_o w))) ra)"

fun conn_pre :: "conn_op \<Rightarrow> conn_world \<Rightarrow> bool" where
  "conn_pre CO_SendInit w \<longleftrightarrow> cw_alive w \<and> \<not> cn_d_err (cw_o w) \<and> cn_send_state (cw_o w) = SEND_STATE_NOT_INITED"
| "conn_pre CO_SendFree w \<longleftrightarrow> cw_alive w \<and> cn_send_state (cw_o w) \<noteq> SEND_STATE_NOT_INITED"
| "conn_pre CO_RecvInit w \<longleftrightarrow> cw_alive w \<and> \<not> cn_d_err (cw_o w) \<and> cn_recv_state (cw_o w) = RECV_STATE_NOT_INITED"
| "conn_pre CO_RecvFree w \<longleftrightarrow>
     cw_alive w \<and> cn_recv_state (cw_o w) \<in> {RECV_STATE_READY, RECV_STATE_BUSY, RECV_STATE_INITED_CLOSED}"
| "conn_pre CO_SenderInit w \<longleftrightarrow> cw_alive w \<and> cn_send_state (cw_o w) \<noteq> SEND_STATE_NOT_INITED"
| "conn_pre CO_ReceiverInit w \<longleftrightarrow> cw_alive w \<and> cn_recv_state (cw_o w) \<in> {RECV_STATE_READY, RECV_STATE_BUSY, RECV_STATE_INITED_CLOSED}"
| "conn_pre (CO_Send data) w \<longleftrightarrow>
     cw_alive w \<and> \<not> cn_d_err (cw_o w) \<and> cn_send_state (cw_o w) \<noteq> SEND_STATE_NOT_INITED \<and> data \<noteq> [] \<and>
     spi_has_user (cn_send_iface (cw_o w)) \<and> spi_state (cn_send_iface (cw_o w)) = STATE_NONE"
| "conn_pre (CO_Recv p avail) w \<longleftrightarrow>
     cw_alive w \<and> \<not> cn_d_err (cw_o w) \<and> cn_recv_state (cw_o w) \<in> {RECV_STATE_READY, RECV_STATE_BUSY} \<and> 0 < avail \<and>
     sri_has_user (cn_recv_iface (cw_o w)) \<and> sri_state (cn_recv_iface (cw_o w)) = STATE_NONE"
| "conn_pre CO_Free w \<longleftrightarrow>
     cw_alive w \<and> cn_send_state (cw_o w) = SEND_STATE_NOT_INITED \<and>
     cn_recv_state (cw_o w) \<in> {RECV_STATE_NOT_INITED, RECV_STATE_NOT_INITED_CLOSED}"
| "conn_pre (CO_Other op) w \<longleftrightarrow>
     rx_pre op (cw_rx w) \<and>
     (cw_alive w \<longrightarrow> rx_avoids (set (own_jobs (cw_o w))) {cn_bfd (cw_o w)} (set (own_limits (cw_o w))) op)"
| "conn_pre (CO_Turn now as wa ra) w \<longleftrightarrow>
     rx_pre (RO_Turn now as) (cw_rx w) \<and>
     (cw_alive w \<longrightarrow> turn_ok_for wa ra (fst (the (exec_turn now as (cw_rx w)))) w)"

fun conn_step :: "conn_op \<Rightarrow> conn_world \<Rightarrow> conn_world" where
  "conn_step CO_SendInit w = BConnection_SendAsync_Init w"
| "conn_step CO_SendFree w = BConnection_SendAsync_Free w"
| "conn_step CO_RecvInit w = BConnection_RecvAsync_Init w"
| "conn_step CO_RecvFree w = BConnection_RecvAsync_Free w"
| "conn_step CO_SenderInit w = upd_o (\<lambda>c. c\<lparr>cn_send_iface := StreamPassInterface_Sender_Init (cn_send_iface c)\<rparr>) w"
| "conn_step CO_ReceiverInit w = upd_o (\<lambda>c. c\<lparr>cn_recv_iface := StreamRecvInterface_Receiver_Init (cn_recv_iface c)\<rparr>) w"
| "conn_step (CO_Send data) w =
     (let (i, g) = StreamPassInterface_Sender_Send data (int (length data)) (cn_send_iface (cw_o w), cw_jobs w)
      in upd_jobs (\<lambda>_. g) (upd_o (\<lambda>c. c\<lparr>cn_send_iface := i\<rparr>) w))"
| "conn_step (CO_Recv p avail) w =
     (let (i, g) = StreamRecvInterface_Receiver_Recv p avail (cn_recv_iface (cw_o w), cw_jobs w)
      in upd_jobs (\<lambda>_. g) (upd_o (\<lambda>c. c\<lparr>cn_recv_iface := i\<rparr>) w))"
| "conn_step CO_Free w = BConnection_Free w"
| "conn_step (CO_Other op) w = upd_rx (rx_step op) w"
| "conn_step (CO_Turn now as wa ra) w = conn_turn now as wa ra w"

section \<open>Invariant\<close>

text \<open>The send side: the interface, its jobs and the state of the connection agree.\<close>

definition send_part :: "(nat, nat) BPendingGroup \<Rightarrow> BConnection \<Rightarrow> bool" where
  "send_part g c \<longleftrightarrow>
     (if cn_send_state c = SEND_STATE_NOT_INITED then
        job_handler g (cn_send_op_job c) = None \<and> job_handler g (cn_send_done_job c) = None \<and> job_handler g (cn_send_job c) = None
      else
        spi_inv (cn_send_iface c, g) \<and> spi_job_operation (cn_send_iface c) = cn_send_op_job c \<and>
        spi_job_done (cn_send_iface c) = cn_send_done_job c \<and> job_handler g (cn_send_job c) \<noteq> None \<and> cn_send_job c \<notin> set (jobs g) \<and>
        (cn_send_state c = SEND_STATE_BUSY \<longleftrightarrow> spi_state (cn_send_iface c) = STATE_BUSY) \<and>
        (cn_send_state c = SEND_STATE_BUSY \<longrightarrow> cn_send_busy_data c = spi_data (cn_send_iface c)) \<and>
        (spi_state (cn_send_iface c) \<noteq> STATE_NONE \<longrightarrow> spi_len (cn_send_iface c) = int (length (spi_data (cn_send_iface c)))))"

definition recv_part :: "(nat, nat) BPendingGroup \<Rightarrow> BConnection \<Rightarrow> bool" where
  "recv_part g c \<longleftrightarrow>
     cn_recv_state c \<noteq> RECV_STATE_NOT_INITED_CLOSED \<and>
     (if cn_recv_state c = RECV_STATE_NOT_INITED then
        job_handler g (cn_recv_op_job c) = None \<and> job_handler g (cn_recv_done_job c) = None \<and> job_handler g (cn_recv_job c) = None
      else
        sri_inv (cn_recv_iface c, g) \<and> sri_job_operation (cn_recv_iface c) = cn_recv_op_job c \<and>
        sri_job_done (cn_recv_iface c) = cn_recv_done_job c \<and> job_handler g (cn_recv_job c) \<noteq> None \<and>
        (cn_recv_job c \<in> set (jobs g) \<longrightarrow> cn_recv_state c = RECV_STATE_BUSY) \<and>
        (cn_recv_state c \<in> {RECV_STATE_BUSY, RECV_STATE_INITED_CLOSED} \<longleftrightarrow> sri_state (cn_recv_iface c) = STATE_BUSY) \<and>
        (cn_recv_state c = RECV_STATE_BUSY \<longrightarrow>
           cn_recv_busy_data c = sri_data (cn_recv_iface c) \<and> cn_recv_busy_data_avail c = sri_len (cn_recv_iface c)))"

text \<open>The descriptor: the reactor monitors the events the connection waits for, unless it hung up.\<close>

definition fd_part :: "BReactor \<Rightarrow> BConnection \<Rightarrow> bool" where
  "fd_part r c \<longleftrightarrow>
     rw_only (cn_wait_events c) \<and>
     (if cn_is_hupd c then \<not> fd_active (rx_fd r (cn_bfd c))
      else fd_active (rx_fd r (cn_bfd c)) \<and> fd_waitEvents (rx_fd r (cn_bfd c)) = cn_wait_events c)"

definition ids_part :: "BReactor \<Rightarrow> BConnection \<Rightarrow> bool" where
  "ids_part r c \<longleftrightarrow>
     distinct (own_jobs c) \<and> distinct (own_limits c) \<and> (\<forall>l\<in>set (own_limits c). rx_limit r l \<noteq> None)"

text \<open>A request that is being served is waited for: no request is forgotten.\<close>

definition waits_part :: "bool \<Rightarrow> (nat, nat) BPendingGroup \<Rightarrow> BConnection \<Rightarrow> bool" where
  "waits_part err g c \<longleftrightarrow>
     (\<not> cn_d_err c \<longrightarrow>
        (if cn_is_hupd c then
           cn_send_state c \<noteq> SEND_STATE_BUSY \<and> (cn_recv_state c = RECV_STATE_BUSY \<longrightarrow> cn_recv_job c \<in> set (jobs g))
         else
           (has_write (cn_wait_events c) \<longleftrightarrow> cn_send_state c = SEND_STATE_BUSY) \<and>
           (has_read (cn_wait_events c) \<longrightarrow> cn_recv_state c = RECV_STATE_BUSY) \<and>
           (cn_recv_state c = RECV_STATE_BUSY \<longrightarrow> has_read (cn_wait_events c) \<or> cn_recv_job c \<in> set (jobs g)) \<and>
           (has_read (cn_wait_events c) \<and> cn_recv_job c \<in> set (jobs g) \<longrightarrow> err)))"

definition streams_part :: "conn_world \<Rightarrow> bool" where
  "streams_part w \<longleftrightarrow>
     (\<not> cw_lost_send w \<longrightarrow>
        cw_written w = cw_confirmed w @
          (if cn_send_state (cw_o w) \<noteq> SEND_STATE_NOT_INITED \<and> spi_state (cn_send_iface (cw_o w)) = STATE_DONE_PENDING
           then take (nat (spi_done_len (cn_send_iface (cw_o w)))) (spi_data (cn_send_iface (cw_o w))) else [])) \<and>
     (\<not> cw_lost_recv w \<longrightarrow>
        cw_read w = cw_delivered w @
          (if cn_recv_state (cw_o w) \<noteq> RECV_STATE_NOT_INITED \<and> sri_state (cn_recv_iface (cw_o w)) = STATE_DONE_PENDING
           then take (nat (sri_done_len (cn_recv_iface (cw_o w)))) (cw_mem w (sri_data (cn_recv_iface (cw_o w)))) else []))"

definition conn_base :: "conn_world \<Rightarrow> bool" where
  "conn_base w \<longleftrightarrow>
     rx_inv (cw_rx w) \<and> reg_ok (cw_rx w) \<and> ids_part (cw_rx w) (cw_o w) \<and> fd_part (cw_rx w) (cw_o w) \<and>
     send_part (cw_jobs w) (cw_o w) \<and> recv_part (cw_jobs w) (cw_o w) \<and> streams_part w"

definition conn_inv :: "conn_world \<Rightarrow> bool" where
  "conn_inv w \<longleftrightarrow>
     rx_inv (cw_rx w) \<and> reg_ok (cw_rx w) \<and>
     (cw_alive w \<longrightarrow> conn_base w \<and> waits_part (cw_sockerr w) (cw_jobs w) (cw_o w))"


declare spi_inv.simps [simp del] sri_inv.simps [simp del]

lemmas cw_defs = upd_o_def upd_rx_def upd_jobs_def

lemma own_job_simps [simp]:
  "own_jobs (c\<lparr>cn_wait_events := e\<rparr>) = own_jobs c" "own_limits (c\<lparr>cn_wait_events := e\<rparr>) = own_limits c"
  "own_jobs (c\<lparr>cn_d_err := b\<rparr>) = own_jobs c" "own_limits (c\<lparr>cn_d_err := b\<rparr>) = own_limits c"
  "own_jobs (c\<lparr>cn_is_hupd := b\<rparr>) = own_jobs c" "own_limits (c\<lparr>cn_is_hupd := b\<rparr>) = own_limits c"
  "own_jobs (c\<lparr>cn_send_iface := i\<rparr>) = own_jobs c" "own_limits (c\<lparr>cn_send_iface := i\<rparr>) = own_limits c"
  "own_jobs (c\<lparr>cn_send_state := s\<rparr>) = own_jobs c" "own_limits (c\<lparr>cn_send_state := s\<rparr>) = own_limits c"
  "own_jobs (c\<lparr>cn_send_busy_data := d\<rparr>) = own_jobs c" "own_limits (c\<lparr>cn_send_busy_data := d\<rparr>) = own_limits c"
  "own_jobs (c\<lparr>cn_recv_iface := k\<rparr>) = own_jobs c" "own_limits (c\<lparr>cn_recv_iface := k\<rparr>) = own_limits c"
  "own_jobs (c\<lparr>cn_recv_state := t\<rparr>) = own_jobs c" "own_limits (c\<lparr>cn_recv_state := t\<rparr>) = own_limits c"
  "own_jobs (c\<lparr>cn_recv_busy_data := p\<rparr>) = own_jobs c" "own_limits (c\<lparr>cn_recv_busy_data := p\<rparr>) = own_limits c"
  "own_jobs (c\<lparr>cn_recv_busy_data_avail := n\<rparr>) = own_jobs c" "own_limits (c\<lparr>cn_recv_busy_data_avail := n\<rparr>) = own_limits c"
  by (simp_all add: own_jobs_def own_limits_def)

section \<open>Others keep the invariant\<close>

lemma spi_inv_keeps:
  assumes "spi_inv (i, g)" "group_inv g'"
    "\<And>j. j \<in> {spi_job_operation i, spi_job_done i} \<Longrightarrow> (j \<in> set (jobs g') \<longleftrightarrow> j \<in> set (jobs g)) \<and> job_handler g' j = job_handler g j"
  shows "spi_inv (i, g')"
  using assms by (simp add: spi_inv.simps)

lemma sri_inv_keeps:
  assumes "sri_inv (i, g)" "group_inv g'"
    "\<And>j. j \<in> {sri_job_operation i, sri_job_done i} \<Longrightarrow> (j \<in> set (jobs g') \<longleftrightarrow> j \<in> set (jobs g)) \<and> job_handler g' j = job_handler g j"
  shows "sri_inv (i, g')"
  using assms by (simp add: sri_inv.simps)

definition send_jobs :: "BConnection \<Rightarrow> nat set" where
  "send_jobs c = {cn_send_op_job c, cn_send_done_job c, cn_send_job c}"

definition recv_jobs :: "BConnection \<Rightarrow> nat set" where
  "recv_jobs c = {cn_recv_op_job c, cn_recv_done_job c, cn_recv_job c}"

lemma own_jobs_sides: "set (own_jobs c) = send_jobs c \<union> recv_jobs c"
  by (auto simp: own_jobs_def send_jobs_def recv_jobs_def)

lemma send_part_keep:
  assumes "send_part g c" "jobs_keep (send_jobs c) g g'"
  shows "send_part g' c"
proof -
  have j: "(cn_send_op_job c \<in> set (jobs g') \<longleftrightarrow> cn_send_op_job c \<in> set (jobs g))" "job_handler g' (cn_send_op_job c) = job_handler g (cn_send_op_job c)"
    "(cn_send_done_job c \<in> set (jobs g') \<longleftrightarrow> cn_send_done_job c \<in> set (jobs g))" "job_handler g' (cn_send_done_job c) = job_handler g (cn_send_done_job c)"
    "(cn_send_job c \<in> set (jobs g') \<longleftrightarrow> cn_send_job c \<in> set (jobs g))" "job_handler g' (cn_send_job c) = job_handler g (cn_send_job c)"
    "group_inv g'"
    using assms(2) by (simp_all add: jobs_keep_def send_jobs_def)
  show ?thesis
  proof (cases "cn_send_state c = SEND_STATE_NOT_INITED")
    case True
    then show ?thesis using assms(1) j by (simp add: send_part_def)
  next
    case False
    then have i: "spi_inv (cn_send_iface c, g)" "spi_job_operation (cn_send_iface c) = cn_send_op_job c"
      "spi_job_done (cn_send_iface c) = cn_send_done_job c"
      using assms(1) by (simp_all add: send_part_def)
    have "spi_inv (cn_send_iface c, g')" by (rule spi_inv_keeps [OF i(1) j(7)]) (use j i(2,3) in auto)
    then show ?thesis using assms(1) j False by (simp add: send_part_def)
  qed
qed

lemma recv_part_keep:
  assumes "recv_part g c" "jobs_keep (recv_jobs c) g g'"
  shows "recv_part g' c"
proof -
  have j: "(cn_recv_op_job c \<in> set (jobs g') \<longleftrightarrow> cn_recv_op_job c \<in> set (jobs g))" "job_handler g' (cn_recv_op_job c) = job_handler g (cn_recv_op_job c)"
    "(cn_recv_done_job c \<in> set (jobs g') \<longleftrightarrow> cn_recv_done_job c \<in> set (jobs g))" "job_handler g' (cn_recv_done_job c) = job_handler g (cn_recv_done_job c)"
    "(cn_recv_job c \<in> set (jobs g') \<longleftrightarrow> cn_recv_job c \<in> set (jobs g))" "job_handler g' (cn_recv_job c) = job_handler g (cn_recv_job c)"
    "group_inv g'"
    using assms(2) by (simp_all add: jobs_keep_def recv_jobs_def)
  show ?thesis
  proof (cases "cn_recv_state c = RECV_STATE_NOT_INITED")
    case True
    then show ?thesis using assms(1) j by (simp add: recv_part_def)
  next
    case False
    then have i: "sri_inv (cn_recv_iface c, g)" "sri_job_operation (cn_recv_iface c) = cn_recv_op_job c"
      "sri_job_done (cn_recv_iface c) = cn_recv_done_job c"
      using assms(1) by (simp_all add: recv_part_def)
    have "sri_inv (cn_recv_iface c, g')" by (rule sri_inv_keeps [OF i(1) j(7)]) (use j i(2,3) in auto)
    then show ?thesis using assms(1) j False by (simp add: recv_part_def)
  qed
qed

lemma waits_part_keep:
  "waits_part err g c \<Longrightarrow> (cn_recv_job c \<in> set (jobs g') \<longleftrightarrow> cn_recv_job c \<in> set (jobs g)) \<Longrightarrow> waits_part err g' c"
  by (simp add: waits_part_def)

lemma waits_iface [simp]:
  "waits_part err g (c\<lparr>cn_send_iface := i\<rparr>) \<longleftrightarrow> waits_part err g c" "waits_part err g (c\<lparr>cn_recv_iface := k\<rparr>) \<longleftrightarrow> waits_part err g c"
  by (simp_all add: waits_part_def)

lemma waits_mono:
  assumes "waits_part err g c" "err \<Longrightarrow> err'"
  shows "waits_part err' g c"
proof (cases "cn_d_err c \<or> cn_is_hupd c")
  case True
  then show ?thesis using assms(1) by (auto simp: waits_part_def)
next
  case False
  then show ?thesis using assms unfolding waits_part_def by simp
qed

lemma streams_part_rx [simp]: "streams_part (w\<lparr>cw_rx := r\<rparr>) \<longleftrightarrow> streams_part w"
  by (simp add: streams_part_def)

text \<open>Whatever keeps the jobs, the descriptor and the limits of the connection keeps its invariant.\<close>

lemma keeps_base:
  assumes base: "conn_base w" and inv: "rx_inv r'" "reg_ok r'"
    and k: "rx_keeps (set (own_jobs (cw_o w))) {cn_bfd (cw_o w)} (set (own_limits (cw_o w))) (cw_rx w) r'"
  shows "conn_base (w\<lparr>cw_rx := r'\<rparr>)"
    and "waits_part err (cw_jobs w) (cw_o w) \<Longrightarrow> waits_part err (rx_jobs r') (cw_o w)"
proof -
  have g: "group_inv (rx_jobs r')" using inv by (simp add: rx_inv_def)
  have j: "jobs_keep (send_jobs (cw_o w)) (cw_jobs w) (rx_jobs r')" "jobs_keep (recv_jobs (cw_o w)) (cw_jobs w) (rx_jobs r')"
    using k g by (simp_all add: rx_keeps_def jobs_keep_def own_jobs_sides)
  have "fd_active (rx_fd r' (cn_bfd (cw_o w))) = fd_active (rx_fd (cw_rx w) (cn_bfd (cw_o w)))"
    "fd_waitEvents (rx_fd r' (cn_bfd (cw_o w))) = fd_waitEvents (rx_fd (cw_rx w) (cn_bfd (cw_o w)))"
    using k by (simp_all add: rx_keeps_def fd_key_def)
  then have f: "fd_part r' (cw_o w)" using base by (simp add: conn_base_def fd_part_def)
  have i: "ids_part r' (cw_o w)" using base k by (simp add: conn_base_def ids_part_def rx_keeps_def)
  show "conn_base (w\<lparr>cw_rx := r'\<rparr>)"
    using base inv f i send_part_keep [OF _ j(1)] recv_part_keep [OF _ j(2)] by (simp add: conn_base_def)
  show "waits_part err (cw_jobs w) (cw_o w) \<Longrightarrow> waits_part err (rx_jobs r') (cw_o w)"
    using j(2) by (elim waits_part_keep) (simp add: jobs_keep_def recv_jobs_def)
qed


section \<open>Waiting, limits and transfers\<close>

lemma part_simps [simp]:
  "send_part g (c\<lparr>cn_wait_events := e\<rparr>) \<longleftrightarrow> send_part g c" "recv_part g (c\<lparr>cn_wait_events := e\<rparr>) \<longleftrightarrow> recv_part g c"
  "send_part g (c\<lparr>cn_d_err := b\<rparr>) \<longleftrightarrow> send_part g c" "recv_part g (c\<lparr>cn_d_err := b\<rparr>) \<longleftrightarrow> recv_part g c"
  "send_part g (c\<lparr>cn_is_hupd := b\<rparr>) \<longleftrightarrow> send_part g c" "recv_part g (c\<lparr>cn_is_hupd := b\<rparr>) \<longleftrightarrow> recv_part g c"
  "recv_part g (c\<lparr>cn_send_iface := i\<rparr>) \<longleftrightarrow> recv_part g c" "recv_part g (c\<lparr>cn_send_state := s\<rparr>) \<longleftrightarrow> recv_part g c"
  "recv_part g (c\<lparr>cn_send_busy_data := d\<rparr>) \<longleftrightarrow> recv_part g c"
  "send_part g (c\<lparr>cn_recv_iface := k\<rparr>) \<longleftrightarrow> send_part g c" "send_part g (c\<lparr>cn_recv_state := t\<rparr>) \<longleftrightarrow> send_part g c"
  "send_part g (c\<lparr>cn_recv_busy_data := p\<rparr>) \<longleftrightarrow> send_part g c" "send_part g (c\<lparr>cn_recv_busy_data_avail := n\<rparr>) \<longleftrightarrow> send_part g c"
  by (simp_all add: send_part_def recv_part_def)

lemma fd_ids_simps [simp]:
  "fd_part r (c\<lparr>cn_d_err := b\<rparr>) \<longleftrightarrow> fd_part r c" "ids_part r (c\<lparr>cn_d_err := b\<rparr>) \<longleftrightarrow> ids_part r c"
  "fd_part r (c\<lparr>cn_send_iface := i\<rparr>) \<longleftrightarrow> fd_part r c" "ids_part r (c\<lparr>cn_send_iface := i\<rparr>) \<longleftrightarrow> ids_part r c"
  "fd_part r (c\<lparr>cn_send_state := s\<rparr>) \<longleftrightarrow> fd_part r c" "ids_part r (c\<lparr>cn_send_state := s\<rparr>) \<longleftrightarrow> ids_part r c"
  "fd_part r (c\<lparr>cn_send_busy_data := d\<rparr>) \<longleftrightarrow> fd_part r c" "ids_part r (c\<lparr>cn_send_busy_data := d\<rparr>) \<longleftrightarrow> ids_part r c"
  "fd_part r (c\<lparr>cn_recv_iface := k\<rparr>) \<longleftrightarrow> fd_part r c" "ids_part r (c\<lparr>cn_recv_iface := k\<rparr>) \<longleftrightarrow> ids_part r c"
  "fd_part r (c\<lparr>cn_recv_state := t\<rparr>) \<longleftrightarrow> fd_part r c" "ids_part r (c\<lparr>cn_recv_state := t\<rparr>) \<longleftrightarrow> ids_part r c"
  "fd_part r (c\<lparr>cn_recv_busy_data := p\<rparr>) \<longleftrightarrow> fd_part r c" "ids_part r (c\<lparr>cn_recv_busy_data := p\<rparr>) \<longleftrightarrow> ids_part r c"
  "fd_part r (c\<lparr>cn_recv_busy_data_avail := n\<rparr>) \<longleftrightarrow> fd_part r c" "ids_part r (c\<lparr>cn_recv_busy_data_avail := n\<rparr>) \<longleftrightarrow> ids_part r c"
  "fd_part (r\<lparr>rx_jobs := g\<rparr>) c \<longleftrightarrow> fd_part r c" "ids_part (r\<lparr>rx_jobs := g\<rparr>) c \<longleftrightarrow> ids_part r c"
  by (simp_all add: fd_part_def ids_part_def)

lemma set_wait_fields [simp]:
  "cw_o (set_wait_events e w) = (cw_o w)\<lparr>cn_wait_events := e\<rparr>" "cw_jobs (set_wait_events e w) = cw_jobs w"
  "cw_alive (set_wait_events e w) = cw_alive w" "cw_sockerr (set_wait_events e w) = cw_sockerr w"
  "cw_lost_send (set_wait_events e w) = cw_lost_send w" "cw_lost_recv (set_wait_events e w) = cw_lost_recv w"
  by (simp_all add: set_wait_events_def cw_defs set_events_fields)

lemma set_wait_base:
  assumes "conn_base w" "\<not> cn_is_hupd (cw_o w)" "rw_only e"
  shows "conn_base (set_wait_events e w)"
proof -
  have r: "rx_inv (cw_rx w)" "reg_ok (cw_rx w)" "fd_active (rx_fd (cw_rx w) (cn_bfd (cw_o w)))"
    using assms(1,2) by (simp_all add: conn_base_def fd_part_def)
  note s = set_events_rx [OF r assms(3)]
  show ?thesis
    using assms r(3) s
    by (simp add: conn_base_def set_wait_events_def cw_defs set_events_fields ids_part_def fd_part_def streams_part_def)
qed

lemma wait_for_fd_base:
  assumes "conn_base w" "\<not> cn_is_hupd (cw_o w)"
  shows "conn_base (wait_for_fd BREACTOR_WRITE w)" "conn_base (wait_for_fd BREACTOR_READ w)"
  using assms by (simp_all add: wait_for_fd_def set_wait_base conn_base_def [of w] fd_part_def)

text \<open>The beginning of \<open>bconnection_send\<close> and \<open>connection_recv\<close>.\<close>

lemma limited:
  assumes "conn_base w" "l \<in> set (own_limits (cw_o w))"
  obtains go r where "(if \<not> cn_is_hupd (cw_o w) then increment_limit l w else (True, w)) = (go, w\<lparr>cw_rx := r\<rparr>)"
    "conn_base (w\<lparr>cw_rx := r\<rparr>)" "rx_jobs r = cw_jobs w" "cn_is_hupd (cw_o w) \<Longrightarrow> go"
proof (cases "cn_is_hupd (cw_o w)")
  case True
  then show ?thesis using that [of True "cw_rx w"] assms(1) by simp
next
  case False
  let ?p = "BReactorLimit_Increment l (cw_rx w)"
  have r: "rx_inv (cw_rx w)" "reg_ok (cw_rx w)" "rx_limit (cw_rx w) l \<noteq> None"
    using assms by (simp_all add: conn_base_def ids_part_def)
  note i = increment_rx [OF r]
  have "conn_base (w\<lparr>cw_rx := snd ?p\<rparr>)" by (rule keeps_base(1) [OF assms(1) i(1,2)]) (rule rx_keepsI, simp_all add: i)
  then show ?thesis using that [of "fst ?p" "snd ?p"] False i by (simp add: increment_limit_def split_beta)
qed

lemma spi_done_inv:
  assumes "spi_inv (i, g)" "spi_state i = STATE_BUSY" "0 < n" "n \<le> spi_len i"
  shows "spi_inv (StreamPassInterface_Done n (i, g))"
  by (rule spi_step_inv [OF assms(1) spi_pdone]) (use assms in simp_all)

lemma sri_done_inv:
  assumes "sri_inv (i, g)" "sri_state i = STATE_BUSY" "0 < n" "n \<le> sri_len i"
  shows "sri_inv (StreamRecvInterface_Done n (i, g))"
  by (rule sri_step_inv [OF assms(1) sri_pdone]) (use assms in simp_all)

lemma ids_sides:
  assumes "distinct (own_jobs c)"
  shows "cn_send_op_job c \<notin> recv_jobs c" "cn_send_done_job c \<notin> recv_jobs c" "cn_send_job c \<notin> recv_jobs c"
    "cn_recv_op_job c \<notin> send_jobs c" "cn_recv_done_job c \<notin> send_jobs c" "cn_recv_job c \<notin> send_jobs c"
    "cn_send_job c \<noteq> cn_send_op_job c" "cn_send_job c \<noteq> cn_send_done_job c" "cn_send_op_job c \<noteq> cn_send_done_job c"
    "cn_recv_job c \<noteq> cn_recv_op_job c" "cn_recv_job c \<noteq> cn_recv_done_job c" "cn_recv_op_job c \<noteq> cn_recv_done_job c"
  using assms by (auto simp: own_jobs_def send_jobs_def recv_jobs_def)


section \<open>Serving a request\<close>

text \<open>How an attempt to send ends: an error was reported, or the connection waits, or the transfer is done. The receive side is
  as it was.\<close>

definition recv_same :: "conn_world \<Rightarrow> conn_world \<Rightarrow> bool" where
  "recv_same w w' \<longleftrightarrow>
     cw_alive w' = cw_alive w \<and> cw_sockerr w' = cw_sockerr w \<and> cn_is_hupd (cw_o w') = cn_is_hupd (cw_o w) \<and>
     cn_recv_state (cw_o w') = cn_recv_state (cw_o w) \<and> cn_recv_job (cw_o w') = cn_recv_job (cw_o w) \<and>
     has_read (cn_wait_events (cw_o w')) = has_read (cn_wait_events (cw_o w)) \<and>
     (cn_recv_job (cw_o w) \<in> set (jobs (cw_jobs w')) \<longleftrightarrow> cn_recv_job (cw_o w) \<in> set (jobs (cw_jobs w)))"

definition send_same :: "conn_world \<Rightarrow> conn_world \<Rightarrow> bool" where
  "send_same w w' \<longleftrightarrow>
     cw_alive w' = cw_alive w \<and> cw_sockerr w' = cw_sockerr w \<and> cn_is_hupd (cw_o w') = cn_is_hupd (cw_o w) \<and>
     cn_send_state (cw_o w') = cn_send_state (cw_o w) \<and> cn_recv_job (cw_o w') = cn_recv_job (cw_o w) \<and>
     has_write (cn_wait_events (cw_o w')) = has_write (cn_wait_events (cw_o w)) \<and>
     (cn_recv_job (cw_o w) \<in> set (jobs (cw_jobs w')) \<longleftrightarrow> cn_recv_job (cw_o w) \<in> set (jobs (cw_jobs w)))"

definition send_outcome :: "bool \<Rightarrow> conn_world \<Rightarrow> conn_world \<Rightarrow> bool" where
  "send_outcome err w w' \<longleftrightarrow>
     cn_d_err (cw_o w') \<or>
     cn_d_err (cw_o w') = cn_d_err (cw_o w) \<and>
     (\<not> cn_is_hupd (cw_o w) \<and> cn_send_state (cw_o w') = SEND_STATE_BUSY \<and> has_write (cn_wait_events (cw_o w')) \<or>
      \<not> err \<and> cn_send_state (cw_o w') = SEND_STATE_READY \<and> cn_wait_events (cw_o w') = cn_wait_events (cw_o w))"

definition recv_outcome :: "bool \<Rightarrow> conn_world \<Rightarrow> conn_world \<Rightarrow> bool" where
  "recv_outcome err w w' \<longleftrightarrow>
     cn_d_err (cw_o w') \<or>
     cn_d_err (cw_o w') = cn_d_err (cw_o w) \<and>
     (\<not> cn_is_hupd (cw_o w) \<and> cn_recv_state (cw_o w') = RECV_STATE_BUSY \<and> has_read (cn_wait_events (cw_o w')) \<or>
      \<not> err \<and> cn_recv_state (cw_o w') \<in> {RECV_STATE_READY, RECV_STATE_INITED_CLOSED} \<and>
      cn_wait_events (cw_o w') = cn_wait_events (cw_o w))"

lemma report_error_base:
  "conn_base w \<Longrightarrow> conn_base (connection_report_error w)"
  by (simp add: connection_report_error_def cw_defs conn_base_def streams_part_def)

lemma send_done_base:
  assumes base: "conn_base w" and busy: "cn_send_state (cw_o w) = SEND_STATE_BUSY"
    and n: "0 < n" "int n \<le> spi_len (cn_send_iface (cw_o w))"
    and w': "w' = send_done n (upd_o (\<lambda>c. c\<lparr>cn_send_state := SEND_STATE_READY\<rparr>)
      (w\<lparr>cw_written := cw_written w @ take n (cn_send_busy_data (cw_o w))\<rparr>))"
  shows "conn_base w' \<and> recv_same w w' \<and> cn_d_err (cw_o w') = cn_d_err (cw_o w) \<and> cn_send_state (cw_o w') = SEND_STATE_READY \<and>
    cn_wait_events (cw_o w') = cn_wait_events (cw_o w)"
proof -
  let ?c = "cw_o w" and ?g = "cw_jobs w"
  let ?i = "cn_send_iface ?c"
  define g' where "g' = BSmallPending_Set (cn_send_done_job ?c) ?g"
  define i' where "i' = ?i\<lparr>spi_done_len := int n, spi_state := STATE_DONE_PENDING\<rparr>"
  have parts: "rx_inv (cw_rx w)" "reg_ok (cw_rx w)" "ids_part (cw_rx w) ?c" "fd_part (cw_rx w) ?c" "send_part ?g ?c" "recv_part ?g ?c"
    "streams_part w" using base by (simp_all add: conn_base_def)
  have s: "spi_inv (?i, ?g)" "spi_job_done ?i = cn_send_done_job ?c" "spi_job_operation ?i = cn_send_op_job ?c" "spi_state ?i = STATE_BUSY"
    "cn_send_busy_data ?c = spi_data ?i" "job_handler ?g (cn_send_job ?c) \<noteq> None" "cn_send_job ?c \<notin> set (jobs ?g)"
    "spi_len ?i = int (length (spi_data ?i))"
    using parts(5) busy by (simp_all add: send_part_def)
  have g: "group_inv ?g" "job_handler ?g (cn_send_done_job ?c) \<noteq> None" using s(1,2) by (simp_all add: spi_inv.simps)
  have d: "StreamPassInterface_Done (int n) (?i, ?g) = (i', g')" by (simp add: i'_def g'_def s(2))
  have inv': "spi_inv (i', g')" using spi_done_inv [OF s(1,4), of "int n"] n d by simp
  note ids = ids_sides [of ?c]
  have dist: "distinct (own_jobs ?c)" using parts(3) by (simp add: ids_part_def)
  have w1: "w' = w\<lparr>cw_rx := (cw_rx w)\<lparr>rx_jobs := g'\<rparr>, cw_o := ?c\<lparr>cn_send_state := SEND_STATE_READY, cn_send_iface := i'\<rparr>,
      cw_written := cw_written w @ take n (spi_data ?i)\<rparr>"
    using d s(5) by (simp add: w' send_done_def cw_defs)
  have "jobs_keep (recv_jobs ?c) ?g g'" unfolding g'_def by (rule set_job_keep [OF g]) (use ids dist in simp)
  then have rp: "recv_part g' ?c" "cn_recv_job ?c \<in> set (jobs g') \<longleftrightarrow> cn_recv_job ?c \<in> set (jobs ?g)"
    using recv_part_keep [OF parts(6)] by (simp_all add: jobs_keep_def recv_jobs_def)
  have gi: "group_inv g'" using inv' by (simp add: spi_inv.simps)
  have nj: "cn_send_job ?c \<notin> set (jobs g')" "job_handler g' (cn_send_job ?c) \<noteq> None"
    using s(6,7) ids(8) dist g by (simp_all add: g'_def set_jobs_set)
  have sp: "send_part g' (?c\<lparr>cn_send_state := SEND_STATE_READY, cn_send_iface := i'\<rparr>)"
    using inv' nj s(2,3,8) by (simp add: send_part_def i'_def)
  have st: "streams_part w'" using parts(7) s(4) busy by (simp add: streams_part_def w1 i'_def)
  have "conn_base w'"
    using parts(2-4) sp rp(1) st rx_jobs_inv [OF parts(1) gi] by (simp add: conn_base_def w1)
  then show ?thesis using rp(2) by (simp add: recv_same_def w1)
qed

lemma connection_send_correct:
  assumes base: "conn_base w" and busy: "cn_send_state (cw_o w) = SEND_STATE_BUSY"
    and a: "wr_answer_ok err (nat (spi_len (cn_send_iface (cw_o w)))) wa"
  shows "conn_base (bconnection_send wa w) \<and> recv_same w (bconnection_send wa w) \<and> send_outcome err w (bconnection_send wa w)"
proof -
  obtain go r where l: "(if \<not> cn_is_hupd (cw_o w) then increment_limit (cn_send_limit (cw_o w)) w else (True, w)) = (go, w\<lparr>cw_rx := r\<rparr>)"
    "conn_base (w\<lparr>cw_rx := r\<rparr>)" "rx_jobs r = cw_jobs w" "cn_is_hupd (cw_o w) \<Longrightarrow> go"
    by (rule limited [OF base, of "cn_send_limit (cw_o w)"]) (simp_all add: own_limits_def)
  let ?w = "w\<lparr>cw_rx := r\<rparr>"
  have same: "recv_same w w' \<longleftrightarrow> recv_same ?w w'" for w' using l(3) by (simp add: recv_same_def)
  have wait: "conn_base (wait_for_fd BREACTOR_WRITE ?w) \<and> recv_same w (wait_for_fd BREACTOR_WRITE ?w) \<and>
      send_outcome err w (wait_for_fd BREACTOR_WRITE ?w)" if "\<not> cn_is_hupd (cw_o w)"
    using wait_for_fd_base(1) [OF l(2)] that busy l(3) by (simp add: wait_for_fd_def recv_same_def send_outcome_def)
  show ?thesis
  proof (cases "go \<and> (\<exists>n. wa = WrBytes n)")
    case True
    then obtain n where n: "wa = WrBytes n" by blast
    let ?w' = "send_done n (upd_o (\<lambda>c. c\<lparr>cn_send_state := SEND_STATE_READY\<rparr>)
      (?w\<lparr>cw_written := cw_written ?w @ take n (cn_send_busy_data (cw_o ?w))\<rparr>))"
    have e: "bconnection_send wa w = ?w'" using True l(1) n by (simp add: bconnection_send_def Let_def)
    have p: "0 < n" "int n \<le> spi_len (cn_send_iface (cw_o ?w))" "\<not> err" using a n by auto
    show ?thesis using send_done_base [OF l(2) _ p(1,2) refl] busy p(3) unfolding e same by (simp add: send_outcome_def)
  next
    case False
    then show ?thesis
    proof (cases wa)
      case (WrFail b)
      then show ?thesis
        using l(1,3,4) wait report_error_base [OF l(2)]
        by (cases go; cases b; cases "cn_is_hupd (cw_o w)")
          (simp_all add: bconnection_send_def Let_def send_outcome_def recv_same_def connection_report_error_def cw_defs)
    next
      case (WrBytes n)
      then have "\<not> go" using False by blast
      then show ?thesis using l(1,4) wait by (auto simp: bconnection_send_def Let_def)
    qed
  qed
qed


lemma recv_done_base:
  assumes base: "conn_base w" and busy: "cn_recv_state (cw_o w) = RECV_STATE_BUSY" and idle: "cn_recv_job (cw_o w) \<notin> set (jobs (cw_jobs w))"
    and n: "bs \<noteq> []" "int (length bs) \<le> sri_len (cn_recv_iface (cw_o w))"
    and p: "p = cn_recv_busy_data (cw_o w)"
    and w': "w' = recv_done (length bs) (upd_o (\<lambda>c. c\<lparr>cn_recv_state := RECV_STATE_READY\<rparr>)
      (w\<lparr>cw_mem := (cw_mem w)(p := bs @ drop (length bs) (cw_mem w p)), cw_read := cw_read w @ bs\<rparr>))"
  shows "conn_base w' \<and> send_same w w' \<and> cn_d_err (cw_o w') = cn_d_err (cw_o w) \<and> cn_recv_state (cw_o w') = RECV_STATE_READY \<and>
    cn_wait_events (cw_o w') = cn_wait_events (cw_o w)"
proof -
  let ?c = "cw_o w" and ?g = "cw_jobs w"
  let ?i = "cn_recv_iface ?c"
  define g' where "g' = BSmallPending_Set (cn_recv_done_job ?c) ?g"
  define i' where "i' = ?i\<lparr>sri_done_len := int (length bs), sri_state := STATE_DONE_PENDING\<rparr>"
  have parts: "rx_inv (cw_rx w)" "reg_ok (cw_rx w)" "ids_part (cw_rx w) ?c" "fd_part (cw_rx w) ?c" "send_part ?g ?c" "recv_part ?g ?c"
    "streams_part w" using base by (simp_all add: conn_base_def)
  have s: "sri_inv (?i, ?g)" "sri_job_done ?i = cn_recv_done_job ?c" "sri_job_operation ?i = cn_recv_op_job ?c" "sri_state ?i = STATE_BUSY"
    "cn_recv_busy_data ?c = sri_data ?i" "job_handler ?g (cn_recv_job ?c) \<noteq> None"
    using parts(6) busy by (simp_all add: recv_part_def)
  have g: "group_inv ?g" "job_handler ?g (cn_recv_done_job ?c) \<noteq> None" using s(1,2) by (simp_all add: sri_inv.simps)
  have d: "StreamRecvInterface_Done (int (length bs)) (?i, ?g) = (i', g')" by (simp add: i'_def g'_def s(2))
  have inv': "sri_inv (i', g')" using sri_done_inv [OF s(1,4), of "int (length bs)"] n d by simp
  note ids = ids_sides [of ?c]
  have dist: "distinct (own_jobs ?c)" using parts(3) by (simp add: ids_part_def)
  have w1: "w' = w\<lparr>cw_rx := (cw_rx w)\<lparr>rx_jobs := g'\<rparr>, cw_o := ?c\<lparr>cn_recv_state := RECV_STATE_READY, cn_recv_iface := i'\<rparr>,
      cw_mem := (cw_mem w)(p := bs @ drop (length bs) (cw_mem w p)), cw_read := cw_read w @ bs\<rparr>"
    using d by (simp add: w' recv_done_def cw_defs)
  have "jobs_keep (send_jobs ?c) ?g g'" unfolding g'_def by (rule set_job_keep [OF g]) (use ids dist in simp)
  then have sp: "send_part g' ?c" using send_part_keep [OF parts(5)] by simp
  have gi: "group_inv g'" using inv' by (simp add: sri_inv.simps)
  have nj: "cn_recv_job ?c \<notin> set (jobs g')" "job_handler g' (cn_recv_job ?c) \<noteq> None"
    using s(6) idle ids(11) dist g by (simp_all add: g'_def set_jobs_set)
  have rp: "recv_part g' (?c\<lparr>cn_recv_state := RECV_STATE_READY, cn_recv_iface := i'\<rparr>)"
    using inv' nj s(2,3) by (simp add: recv_part_def i'_def)
  have st: "streams_part w'" using parts(7) s(4,5) busy p by (simp add: streams_part_def w1 i'_def)
  have "conn_base w'"
    using parts(2-4) sp rp st rx_jobs_inv [OF parts(1) gi] by (simp add: conn_base_def w1)
  then show ?thesis using nj idle by (simp add: send_same_def w1)
qed

lemma recv_closed_base:
  assumes base: "conn_base w" and busy: "cn_recv_state (cw_o w) = RECV_STATE_BUSY" and idle: "cn_recv_job (cw_o w) \<notin> set (jobs (cw_jobs w))"
  shows "conn_base ((upd_o (\<lambda>c. c\<lparr>cn_recv_state := RECV_STATE_INITED_CLOSED\<rparr>) w)\<lparr>cw_events := es\<rparr>)"
proof -
  have "recv_part (cw_jobs w) ((cw_o w)\<lparr>cn_recv_state := RECV_STATE_INITED_CLOSED\<rparr>)"
    using base busy idle by (simp add: conn_base_def recv_part_def)
  then show ?thesis using base busy by (simp add: conn_base_def streams_part_def cw_defs)
qed

lemma connection_recv_correct:
  assumes base: "conn_base w" and busy: "cn_recv_state (cw_o w) = RECV_STATE_BUSY" and idle: "cn_recv_job (cw_o w) \<notin> set (jobs (cw_jobs w))"
    and a: "rd_answer_ok err (sri_len (cn_recv_iface (cw_o w))) ra"
  shows "conn_base (connection_recv ra w) \<and> send_same w (connection_recv ra w) \<and> recv_outcome err w (connection_recv ra w)"
proof -
  obtain go r where l: "(if \<not> cn_is_hupd (cw_o w) then increment_limit (cn_recv_limit (cw_o w)) w else (True, w)) = (go, w\<lparr>cw_rx := r\<rparr>)"
    "conn_base (w\<lparr>cw_rx := r\<rparr>)" "rx_jobs r = cw_jobs w" "cn_is_hupd (cw_o w) \<Longrightarrow> go"
    by (rule limited [OF base, of "cn_recv_limit (cw_o w)"]) (simp_all add: own_limits_def)
  let ?w = "w\<lparr>cw_rx := r\<rparr>"
  have same: "send_same w w' \<longleftrightarrow> send_same ?w w'" for w' using l(3) by (simp add: send_same_def)
  have wait: "conn_base (wait_for_fd BREACTOR_READ ?w) \<and> send_same w (wait_for_fd BREACTOR_READ ?w) \<and>
      recv_outcome err w (wait_for_fd BREACTOR_READ ?w)" if "\<not> cn_is_hupd (cw_o w)"
    using wait_for_fd_base(2) [OF l(2)] that busy l(3) by (simp add: wait_for_fd_def send_same_def recv_outcome_def)
  show ?thesis
  proof (cases "go \<and> (\<exists>bs. ra = RdBytes bs)")
    case True
    then obtain bs where bs: "ra = RdBytes bs" "int (length bs) \<le> sri_len (cn_recv_iface (cw_o ?w))" "\<not> err" using a by auto
    show ?thesis
    proof (cases "bs = []")
      case e: True
      have "connection_recv ra w = (upd_o (\<lambda>c. c\<lparr>cn_recv_state := RECV_STATE_INITED_CLOSED\<rparr>) ?w)
          \<lparr>cw_events := cw_events w @ [BCONNECTION_EVENT_RECVCLOSED]\<rparr>"
        using True l(1) bs e by (simp add: connection_recv_def Let_def cw_defs)
      then show ?thesis using recv_closed_base [OF l(2)] busy idle l(3) bs(3) by (simp add: send_same_def recv_outcome_def cw_defs)
    next
      case False
      let ?p = "cn_recv_busy_data (cw_o ?w)"
      let ?w' = "recv_done (length bs) (upd_o (\<lambda>c. c\<lparr>cn_recv_state := RECV_STATE_READY\<rparr>)
        (?w\<lparr>cw_mem := (cw_mem ?w)(?p := bs @ drop (length bs) (cw_mem ?w ?p)), cw_read := cw_read ?w @ bs\<rparr>))"
      have e: "connection_recv ra w = ?w'" using True l(1) bs False by (simp add: connection_recv_def Let_def)
      show ?thesis using recv_done_base [OF l(2) _ _ False bs(2) refl refl] busy idle l(3) bs(3) unfolding e same
        by (simp add: recv_outcome_def)
    qed
  next
    case False
    then show ?thesis
    proof (cases ra)
      case (RdFail b)
      then show ?thesis
        using l(1,3,4) wait report_error_base [OF l(2)]
        by (cases go; cases b; cases "cn_is_hupd (cw_o w)")
          (simp_all add: connection_recv_def Let_def recv_outcome_def send_same_def connection_report_error_def cw_defs)
    next
      case (RdBytes bs)
      then have "\<not> go" using False by blast
      then show ?thesis using l(1,4) wait by (auto simp: connection_recv_def Let_def)
    qed
  qed
qed


section \<open>Steps of the connection\<close>

definition send_waits :: "BConnection \<Rightarrow> bool" where
  "send_waits c \<longleftrightarrow>
     (if cn_is_hupd c then cn_send_state c \<noteq> SEND_STATE_BUSY
      else has_write (cn_wait_events c) \<longleftrightarrow> cn_send_state c = SEND_STATE_BUSY)"

definition recv_waits :: "bool \<Rightarrow> (nat, nat) BPendingGroup \<Rightarrow> BConnection \<Rightarrow> bool" where
  "recv_waits err g c \<longleftrightarrow>
     (if cn_is_hupd c then cn_recv_state c = RECV_STATE_BUSY \<longrightarrow> cn_recv_job c \<in> set (jobs g)
      else (has_read (cn_wait_events c) \<longrightarrow> cn_recv_state c = RECV_STATE_BUSY) \<and>
        (cn_recv_state c = RECV_STATE_BUSY \<longrightarrow> has_read (cn_wait_events c) \<or> cn_recv_job c \<in> set (jobs g)) \<and>
        (has_read (cn_wait_events c) \<and> cn_recv_job c \<in> set (jobs g) \<longrightarrow> err))"

lemma waits_sides: "waits_part err g c \<longleftrightarrow> (\<not> cn_d_err c \<longrightarrow> send_waits c \<and> recv_waits err g c)"
  by (auto simp: waits_part_def send_waits_def recv_waits_def)

lemma waits_after_send:
  assumes "recv_same w w'" "send_outcome err w w'" "recv_waits err (cw_jobs w) (cw_o w)"
    "\<not> cn_is_hupd (cw_o w) \<Longrightarrow> has_write (cn_wait_events (cw_o w)) \<Longrightarrow> err"
  shows "waits_part err (cw_jobs w') (cw_o w')"
  using assms by (auto simp: waits_sides send_waits_def recv_waits_def recv_same_def send_outcome_def)

lemma waits_after_recv:
  assumes "send_same w w'" "recv_outcome err w w'" "send_waits (cw_o w)" "cn_recv_job (cw_o w) \<notin> set (jobs (cw_jobs w))"
    "\<not> cn_is_hupd (cw_o w) \<Longrightarrow> has_read (cn_wait_events (cw_o w)) \<Longrightarrow> err"
  shows "waits_part err (cw_jobs w') (cw_o w')"
  using assms by (auto simp: waits_sides send_waits_def recv_waits_def send_same_def recv_outcome_def)

lemma conn_invI:
  assumes "conn_base w" "waits_part (cw_sockerr w) (cw_jobs w) (cw_o w)"
  shows "conn_inv w"
  using assms by (simp add: conn_inv_def conn_base_def)

text \<open>A job of the connection that the loop runs leaves the queue; the others stay.\<close>

lemma executed:
  assumes base: "conn_base w" and x: "BPendingGroup_ExecuteJob (cw_jobs w) = Some (j, g)"
  shows "group_inv g" "j \<in> set (jobs (cw_jobs w))" "job_handler g = job_handler (cw_jobs w)" "set (jobs g) = set (jobs (cw_jobs w)) - {j}"
    "rx_inv ((cw_rx w)\<lparr>rx_jobs := g\<rparr>)" "reg_ok ((cw_rx w)\<lparr>rx_jobs := g\<rparr>)" "j \<notin> J \<Longrightarrow> jobs_keep J (cw_jobs w) g"
    "job_handler (cw_jobs w) j \<noteq> None"
proof -
  have r: "rx_inv (cw_rx w)" "reg_ok (cw_rx w)" "group_inv (cw_jobs w)" using base by (simp_all add: conn_base_def rx_inv_def)
  note e = execute_jobs [OF r(3) x]
  show "group_inv g" "j \<in> set (jobs (cw_jobs w))" "job_handler g = job_handler (cw_jobs w)" "set (jobs g) = set (jobs (cw_jobs w)) - {j}"
    using e by simp_all
  show "rx_inv ((cw_rx w)\<lparr>rx_jobs := g\<rparr>)" "reg_ok ((cw_rx w)\<lparr>rx_jobs := g\<rparr>)" using rx_jobs_inv [OF r(1) e(1)] r(2) by simp_all
  show "jobs_keep J (cw_jobs w) g" if "j \<notin> J" using e that by (auto simp: jobs_keep_def)
  show "job_handler (cw_jobs w) j \<noteq> None" using r(3) e(2) by (simp add: group_inv_def)
qed

lemma send_operation_base:
  assumes base: "conn_base w" and x: "BPendingGroup_ExecuteJob (cw_jobs w) = Some (cn_send_op_job (cw_o w), g)"
    and c': "c' = (cw_o w)\<lparr>cn_send_iface := (cn_send_iface (cw_o w))\<lparr>spi_state := STATE_BUSY\<rparr>,
      cn_send_busy_data := spi_data (cn_send_iface (cw_o w)), cn_send_state := SEND_STATE_BUSY\<rparr>"
  shows "conn_base (w\<lparr>cw_rx := (cw_rx w)\<lparr>rx_jobs := g\<rparr>, cw_o := c'\<rparr>)" "cn_send_state (cw_o w) = SEND_STATE_READY"
    "cn_recv_job (cw_o w) \<in> set (jobs g) \<longleftrightarrow> cn_recv_job (cw_o w) \<in> set (jobs (cw_jobs w))"
proof -
  let ?c = "cw_o w" and ?g = "cw_jobs w"
  let ?i = "cn_send_iface ?c"
  note e = executed [OF base x]
  have parts: "ids_part (cw_rx w) ?c" "fd_part (cw_rx w) ?c" "send_part ?g ?c" "recv_part ?g ?c" "streams_part w"
    using base by (simp_all add: conn_base_def)
  have dist: "distinct (own_jobs ?c)" using parts(1) by (simp add: ids_part_def)
  have ini: "cn_send_state ?c \<noteq> SEND_STATE_NOT_INITED" using parts(3) e(8) by (auto simp: send_part_def)
  then have s: "spi_inv (?i, ?g)" "spi_job_done ?i = cn_send_done_job ?c" "spi_job_operation ?i = cn_send_op_job ?c"
    "job_handler ?g (cn_send_job ?c) \<noteq> None" "cn_send_job ?c \<notin> set (jobs ?g)" "cn_send_state ?c = SEND_STATE_BUSY \<longleftrightarrow> spi_state ?i = STATE_BUSY"
    "spi_state ?i \<noteq> STATE_NONE \<Longrightarrow> spi_len ?i = int (length (spi_data ?i))"
    using parts(3) by (simp_all add: send_part_def)
  have pend: "spi_state ?i = STATE_OPERATION_PENDING" using s(1,3) e(2) by (simp add: spi_inv.simps)
  then show "cn_send_state ?c = SEND_STATE_READY" using s(6) ini by (cases "cn_send_state ?c") simp_all
  have inv': "spi_inv (?i\<lparr>spi_state := STATE_BUSY\<rparr>, g)"
    by (rule spi_step_inv [OF s(1) spi_run_operation]) (use x s(3) in \<open>simp_all add: StreamPassInterface_job_operation_def\<close>)
  have sp: "send_part g c'" using inv' s pend e by (simp add: send_part_def c')
  have k: "jobs_keep (recv_jobs ?c) ?g g" by (rule e(7)) (rule ids_sides(1) [OF dist])
  then have rp: "recv_part g c'" using recv_part_keep [OF parts(4) k] by (simp add: c')
  show "cn_recv_job ?c \<in> set (jobs g) \<longleftrightarrow> cn_recv_job ?c \<in> set (jobs ?g)" using k by (simp add: jobs_keep_def recv_jobs_def)
  have "streams_part (w\<lparr>cw_rx := (cw_rx w)\<lparr>rx_jobs := g\<rparr>, cw_o := c'\<rparr>)" using parts(5) pend by (simp add: streams_part_def c')
  then show "conn_base (w\<lparr>cw_rx := (cw_rx w)\<lparr>rx_jobs := g\<rparr>, cw_o := c'\<rparr>)"
    using e(5,6) parts(1,2) sp rp by (simp add: conn_base_def) (simp add: c')
qed

lemma recv_operation_base:
  assumes base: "conn_base w" and x: "BPendingGroup_ExecuteJob (cw_jobs w) = Some (cn_recv_op_job (cw_o w), g)"
    and c': "c' = (cw_o w)\<lparr>cn_recv_iface := (cn_recv_iface (cw_o w))\<lparr>sri_state := STATE_BUSY\<rparr>,
      cn_recv_busy_data := sri_data (cn_recv_iface (cw_o w)), cn_recv_busy_data_avail := sri_len (cn_recv_iface (cw_o w)),
      cn_recv_state := RECV_STATE_BUSY\<rparr>"
  shows "conn_base (w\<lparr>cw_rx := (cw_rx w)\<lparr>rx_jobs := g\<rparr>, cw_o := c'\<rparr>)" "cn_recv_state (cw_o w) = RECV_STATE_READY"
    "cn_recv_job (cw_o w) \<notin> set (jobs g)" 
proof -
  let ?c = "cw_o w" and ?g = "cw_jobs w"
  let ?i = "cn_recv_iface ?c"
  note e = executed [OF base x]
  have parts: "ids_part (cw_rx w) ?c" "fd_part (cw_rx w) ?c" "send_part ?g ?c" "recv_part ?g ?c" "streams_part w"
    using base by (simp_all add: conn_base_def)
  have dist: "distinct (own_jobs ?c)" using parts(1) by (simp add: ids_part_def)
  have ini: "cn_recv_state ?c \<noteq> RECV_STATE_NOT_INITED" "cn_recv_state ?c \<noteq> RECV_STATE_NOT_INITED_CLOSED"
    using parts(4) e(8) by (auto simp: recv_part_def)
  then have s: "sri_inv (?i, ?g)" "sri_job_done ?i = cn_recv_done_job ?c" "sri_job_operation ?i = cn_recv_op_job ?c"
    "job_handler ?g (cn_recv_job ?c) \<noteq> None" "cn_recv_job ?c \<in> set (jobs ?g) \<Longrightarrow> cn_recv_state ?c = RECV_STATE_BUSY"
    "cn_recv_state ?c \<in> {RECV_STATE_BUSY, RECV_STATE_INITED_CLOSED} \<longleftrightarrow> sri_state ?i = STATE_BUSY"
    using parts(4) by (simp_all add: recv_part_def)
  have pend: "sri_state ?i = STATE_OPERATION_PENDING" using s(1,3) e(2) by (simp add: sri_inv.simps)
  then show r: "cn_recv_state ?c = RECV_STATE_READY" using s(6) ini by (cases "cn_recv_state ?c") simp_all
  then show nj: "cn_recv_job ?c \<notin> set (jobs g)" using s(5) e(4) by auto
  have inv': "sri_inv (?i\<lparr>sri_state := STATE_BUSY\<rparr>, g)"
    by (rule sri_step_inv [OF s(1) sri_run_operation]) (use x s(3) in \<open>simp_all add: StreamRecvInterface_job_operation_def\<close>)
  have rp: "recv_part g c'" using inv' s e nj by (simp add: recv_part_def c')
  have k: "jobs_keep (send_jobs ?c) ?g g" by (rule e(7)) (rule ids_sides(4) [OF dist])
  then have sp: "send_part g c'" using send_part_keep [OF parts(3) k] by (simp add: c')
  have "streams_part (w\<lparr>cw_rx := (cw_rx w)\<lparr>rx_jobs := g\<rparr>, cw_o := c'\<rparr>)" using parts(5) pend by (simp add: streams_part_def c')
  then show "conn_base (w\<lparr>cw_rx := (cw_rx w)\<lparr>rx_jobs := g\<rparr>, cw_o := c'\<rparr>)"
    using e(5,6) parts(1,2) sp rp by (simp add: conn_base_def) (simp add: c')
qed

lemma user_sent_base:
  assumes base: "conn_base w" and x: "BPendingGroup_ExecuteJob (cw_jobs w) = Some (cn_send_done_job (cw_o w), g)"
    and w': "w' = user_handler_sent (w\<lparr>cw_rx := (cw_rx w)\<lparr>rx_jobs := g\<rparr>\<rparr>)"
  shows "conn_base w'" "waits_part err (cw_jobs w) (cw_o w) \<Longrightarrow> waits_part err (cw_jobs w') (cw_o w')"
proof -
  let ?c = "cw_o w" and ?g = "cw_jobs w"
  let ?i = "cn_send_iface ?c"
  note e = executed [OF base x]
  have parts: "ids_part (cw_rx w) ?c" "fd_part (cw_rx w) ?c" "send_part ?g ?c" "recv_part ?g ?c" "streams_part w"
    using base by (simp_all add: conn_base_def)
  have dist: "distinct (own_jobs ?c)" using parts(1) by (simp add: ids_part_def)
  have ini: "cn_send_state ?c \<noteq> SEND_STATE_NOT_INITED" using parts(3) e(8) by (auto simp: send_part_def)
  then have s: "spi_inv (?i, ?g)" "spi_job_done ?i = cn_send_done_job ?c" "spi_job_operation ?i = cn_send_op_job ?c"
    "job_handler ?g (cn_send_job ?c) \<noteq> None" "cn_send_job ?c \<notin> set (jobs ?g)" "cn_send_state ?c = SEND_STATE_BUSY \<longleftrightarrow> spi_state ?i = STATE_BUSY"
    using parts(3) by (simp_all add: send_part_def)
  have pend: "spi_state ?i = STATE_DONE_PENDING" using s(1,2) e(2) by (simp add: spi_inv.simps)
  have inv': "spi_inv (?i\<lparr>spi_state := STATE_NONE\<rparr>, g)"
    by (rule spi_step_inv [OF s(1) spi_run_done]) (use x s(2) in \<open>simp_all add: StreamPassInterface_job_done_def\<close>)
  have w1: "w' = w\<lparr>cw_rx := (cw_rx w)\<lparr>rx_jobs := g\<rparr>, cw_o := ?c\<lparr>cn_send_iface := ?i\<lparr>spi_state := STATE_NONE\<rparr>\<rparr>,
      cw_confirmed := cw_confirmed w @ take (nat (spi_done_len ?i)) (spi_data ?i)\<rparr>"
    by (simp add: w' user_handler_sent_def StreamPassInterface_job_done_def cw_defs Let_def)
  have sp: "send_part g (?c\<lparr>cn_send_iface := ?i\<lparr>spi_state := STATE_NONE\<rparr>\<rparr>)" using inv' s pend e ini by (simp add: send_part_def)
  have k: "jobs_keep (recv_jobs ?c) ?g g" by (rule e(7)) (rule ids_sides(2) [OF dist])
  note rp = recv_part_keep [OF parts(4) k]
  have "streams_part w'" using parts(5) pend ini by (simp add: streams_part_def w1)
  then show "conn_base w'" using e(5,6) parts(1,2) sp rp by (simp add: conn_base_def) (simp add: w1)
  show "waits_part err (cw_jobs w) (cw_o w) \<Longrightarrow> waits_part err (cw_jobs w') (cw_o w')"
    using k by (simp add: waits_part_def w1 jobs_keep_def recv_jobs_def)
qed

lemma user_received_base:
  assumes base: "conn_base w" and x: "BPendingGroup_ExecuteJob (cw_jobs w) = Some (cn_recv_done_job (cw_o w), g)"
    and w': "w' = user_handler_received (w\<lparr>cw_rx := (cw_rx w)\<lparr>rx_jobs := g\<rparr>\<rparr>)"
  shows "conn_base w'" "waits_part err (cw_jobs w) (cw_o w) \<Longrightarrow> waits_part err (cw_jobs w') (cw_o w')"
proof -
  let ?c = "cw_o w" and ?g = "cw_jobs w"
  let ?i = "cn_recv_iface ?c"
  note e = executed [OF base x]
  have parts: "ids_part (cw_rx w) ?c" "fd_part (cw_rx w) ?c" "send_part ?g ?c" "recv_part ?g ?c" "streams_part w"
    using base by (simp_all add: conn_base_def)
  have dist: "distinct (own_jobs ?c)" using parts(1) by (simp add: ids_part_def)
  have ini: "cn_recv_state ?c \<noteq> RECV_STATE_NOT_INITED" using parts(4) e(8) by (auto simp: recv_part_def)
  then have s: "sri_inv (?i, ?g)" "sri_job_done ?i = cn_recv_done_job ?c" "sri_job_operation ?i = cn_recv_op_job ?c"
    "job_handler ?g (cn_recv_job ?c) \<noteq> None" "cn_recv_job ?c \<in> set (jobs ?g) \<Longrightarrow> cn_recv_state ?c = RECV_STATE_BUSY"
    "cn_recv_state ?c \<in> {RECV_STATE_BUSY, RECV_STATE_INITED_CLOSED} \<longleftrightarrow> sri_state ?i = STATE_BUSY"
    "cn_recv_state ?c \<noteq> RECV_STATE_NOT_INITED_CLOSED"
    using parts(4) by (simp_all add: recv_part_def)
  have pend: "sri_state ?i = STATE_DONE_PENDING" using s(1,2) e(2) by (simp add: sri_inv.simps)
  have inv': "sri_inv (?i\<lparr>sri_state := STATE_NONE\<rparr>, g)"
    by (rule sri_step_inv [OF s(1) sri_run_done]) (use x s(2) in \<open>simp_all add: StreamRecvInterface_job_done_def\<close>)
  have w1: "w' = w\<lparr>cw_rx := (cw_rx w)\<lparr>rx_jobs := g\<rparr>, cw_o := ?c\<lparr>cn_recv_iface := ?i\<lparr>sri_state := STATE_NONE\<rparr>\<rparr>,
      cw_delivered := cw_delivered w @ take (nat (sri_done_len ?i)) (cw_mem w (sri_data ?i))\<rparr>"
    by (simp add: w' user_handler_received_def StreamRecvInterface_job_done_def cw_defs Let_def)
  have rp: "recv_part g (?c\<lparr>cn_recv_iface := ?i\<lparr>sri_state := STATE_NONE\<rparr>\<rparr>)" using inv' s pend e ini by (auto simp: recv_part_def)
  have k: "jobs_keep (send_jobs ?c) ?g g" by (rule e(7)) (rule ids_sides(5) [OF dist])
  note sp = send_part_keep [OF parts(3) k]
  have "streams_part w'" using parts(5) pend ini by (simp add: streams_part_def w1)
  then show "conn_base w'" using e(5,6) parts(1,2) sp rp by (simp add: conn_base_def) (simp add: w1)
  show "waits_part err (cw_jobs w) (cw_o w) \<Longrightarrow> waits_part err (cw_jobs w') (cw_o w')"
    using e(4) ids_sides(11) [OF dist] by (simp add: waits_part_def w1)
qed

text \<open>The jobs of the connection, one by one.\<close>

lemma run_send_operation:
  assumes base: "conn_base w" and waits: "waits_part (cw_sockerr w) (cw_jobs w) (cw_o w)" and err: "\<not> cn_d_err (cw_o w)"
    and x: "BPendingGroup_ExecuteJob (cw_jobs w) = Some (cn_send_op_job (cw_o w), g)"
    and wa: "wr_answer_ok (cw_sockerr w) (nat (spi_len (cn_send_iface (cw_o w)))) wa"
  shows "conn_inv (dispatch_job (cn_send_op_job (cw_o w)) wa ra (w\<lparr>cw_rx := (cw_rx w)\<lparr>rx_jobs := g\<rparr>\<rparr>))"
proof -
  let ?c = "cw_o w" and ?err = "cw_sockerr w"
  let ?c' = "?c\<lparr>cn_send_iface := (cn_send_iface ?c)\<lparr>spi_state := STATE_BUSY\<rparr>, cn_send_busy_data := spi_data (cn_send_iface ?c), cn_send_state := SEND_STATE_BUSY\<rparr>"
  let ?v = "w\<lparr>cw_rx := (cw_rx w)\<lparr>rx_jobs := g\<rparr>, cw_o := ?c'\<rparr>"
  let ?w' = "bconnection_send wa ?v"
  have sides: "send_waits ?c" "recv_waits ?err (cw_jobs w) ?c" using waits err by (simp_all add: waits_sides)
  note b = send_operation_base [OF base x refl]
  have s: "conn_base ?w'" "recv_same ?v ?w'" "send_outcome ?err ?v ?w'" using connection_send_correct [OF b(1), of ?err wa] wa by simp_all
  have "recv_waits ?err (cw_jobs ?v) (cw_o ?v)" using sides(2) b(3) by (simp add: recv_waits_def)
  moreover have "\<not> has_write (cn_wait_events ?c)" if "\<not> cn_is_hupd ?c" using sides(1) b(2) that by (simp add: send_waits_def)
  ultimately have "waits_part ?err (cw_jobs ?w') (cw_o ?w')" by (intro waits_after_send [OF s(2,3)]) simp_all
  moreover have "cw_sockerr ?w' = ?err" using s(2) by (simp add: recv_same_def)
  moreover have "dispatch_job (cn_send_op_job ?c) wa ra (w\<lparr>cw_rx := (cw_rx w)\<lparr>rx_jobs := g\<rparr>\<rparr>) = ?w'"
    by (simp add: dispatch_job_def connection_send_if_handler_send_def StreamPassInterface_job_operation_def cw_defs Let_def)
  ultimately show ?thesis using s(1) by (simp add: conn_invI)
qed

lemma run_recv_operation:
  assumes base: "conn_base w" and waits: "waits_part (cw_sockerr w) (cw_jobs w) (cw_o w)" and err: "\<not> cn_d_err (cw_o w)"
    and x: "BPendingGroup_ExecuteJob (cw_jobs w) = Some (cn_recv_op_job (cw_o w), g)"
    and ra: "rd_answer_ok (cw_sockerr w) (sri_len (cn_recv_iface (cw_o w))) ra"
  shows "conn_inv (dispatch_job (cn_recv_op_job (cw_o w)) wa ra (w\<lparr>cw_rx := (cw_rx w)\<lparr>rx_jobs := g\<rparr>\<rparr>))"
proof -
  let ?c = "cw_o w" and ?err = "cw_sockerr w"
  let ?c' = "?c\<lparr>cn_recv_iface := (cn_recv_iface ?c)\<lparr>sri_state := STATE_BUSY\<rparr>, cn_recv_busy_data := sri_data (cn_recv_iface ?c),
    cn_recv_busy_data_avail := sri_len (cn_recv_iface ?c), cn_recv_state := RECV_STATE_BUSY\<rparr>"
  let ?v = "w\<lparr>cw_rx := (cw_rx w)\<lparr>rx_jobs := g\<rparr>, cw_o := ?c'\<rparr>"
  let ?w' = "connection_recv ra ?v"
  have dist: "distinct (own_jobs ?c)" using base by (simp add: conn_base_def ids_part_def)
  have sides: "send_waits ?c" "recv_waits ?err (cw_jobs w) ?c" using waits err by (simp_all add: waits_sides)
  note b = recv_operation_base [OF base x refl]
  have s: "conn_base ?w'" "send_same ?v ?w'" "recv_outcome ?err ?v ?w'"
    using connection_recv_correct [OF b(1), of ?err ra] ra b(3) by simp_all
  have "send_waits (cw_o ?v)" using sides(1) by (simp add: send_waits_def)
  moreover have "\<not> has_read (cn_wait_events ?c)" if "\<not> cn_is_hupd ?c" using sides(2) b(2) that by (simp add: recv_waits_def)
  ultimately have "waits_part ?err (cw_jobs ?w') (cw_o ?w')" by (intro waits_after_recv [OF s(2,3)]) (simp_all add: b(3))
  moreover have "cw_sockerr ?w' = ?err" using s(2) by (simp add: send_same_def)
  moreover have "dispatch_job (cn_recv_op_job ?c) wa ra (w\<lparr>cw_rx := (cw_rx w)\<lparr>rx_jobs := g\<rparr>\<rparr>) = ?w'"
    using ids_sides(4) [OF dist]
    by (simp add: dispatch_job_def send_jobs_def connection_recv_if_handler_recv_def StreamRecvInterface_job_operation_def cw_defs Let_def)
  ultimately show ?thesis using s(1) by (simp add: conn_invI)
qed

lemma recv_job_base:
  assumes base: "conn_base w" and x: "BPendingGroup_ExecuteJob (cw_jobs w) = Some (cn_recv_job (cw_o w), g)"
  shows "conn_base (w\<lparr>cw_rx := (cw_rx w)\<lparr>rx_jobs := g\<rparr>\<rparr>)" "cn_recv_job (cw_o w) \<notin> set (jobs g)" "cn_recv_state (cw_o w) = RECV_STATE_BUSY"
proof -
  let ?c = "cw_o w"
  note e = executed [OF base x]
  have dist: "distinct (own_jobs ?c)" using base by (simp add: conn_base_def ids_part_def)
  note ids = ids_sides [OF dist]
  show nj: "cn_recv_job ?c \<notin> set (jobs g)" using e(4) by simp
  have rp: "recv_part (cw_jobs w) ?c" using base by (simp add: conn_base_def)
  then have ini: "cn_recv_state ?c \<noteq> RECV_STATE_NOT_INITED" using e(8) by (auto simp: recv_part_def)
  then show "cn_recv_state ?c = RECV_STATE_BUSY" using rp e(2) by (simp add: recv_part_def)
  have i: "sri_inv (cn_recv_iface ?c, cw_jobs w)" "sri_job_operation (cn_recv_iface ?c) = cn_recv_op_job ?c"
    "sri_job_done (cn_recv_iface ?c) = cn_recv_done_job ?c" using rp ini by (simp_all add: recv_part_def)
  have "jobs_keep {cn_recv_op_job ?c, cn_recv_done_job ?c} (cw_jobs w) g" by (rule e(7)) (simp add: ids(10,11))
  then have "sri_inv (cn_recv_iface ?c, g)" by (intro sri_inv_keeps [OF i(1) e(1)]) (simp add: i(2,3) jobs_keep_def, blast)
  then have "recv_part g ?c" using rp ini nj e(3) by (simp add: recv_part_def)
  moreover have "jobs_keep (send_jobs ?c) (cw_jobs w) g" by (rule e(7)) (rule ids(6))
  ultimately show "conn_base (w\<lparr>cw_rx := (cw_rx w)\<lparr>rx_jobs := g\<rparr>\<rparr>)"
    using base e(5,6) send_part_keep [of "cw_jobs w" ?c g] by (simp add: conn_base_def)
qed

lemma run_recv_job:
  assumes base: "conn_base w" and waits: "waits_part (cw_sockerr w) (cw_jobs w) (cw_o w)" and err: "\<not> cn_d_err (cw_o w)"
    and x: "BPendingGroup_ExecuteJob (cw_jobs w) = Some (cn_recv_job (cw_o w), g)"
    and ra: "rd_answer_ok (cw_sockerr w) (sri_len (cn_recv_iface (cw_o w))) ra"
  shows "conn_inv (dispatch_job (cn_recv_job (cw_o w)) wa ra (w\<lparr>cw_rx := (cw_rx w)\<lparr>rx_jobs := g\<rparr>\<rparr>))"
proof -
  let ?c = "cw_o w" and ?err = "cw_sockerr w"
  let ?w = "w\<lparr>cw_rx := (cw_rx w)\<lparr>rx_jobs := g\<rparr>\<rparr>"
  let ?w' = "connection_recv ra ?w"
  have dist: "distinct (own_jobs ?c)" using base by (simp add: conn_base_def ids_part_def)
  have sides: "send_waits ?c" "recv_waits ?err (cw_jobs w) ?c" using waits err by (simp_all add: waits_sides)
  note b = recv_job_base [OF base x]
  have s: "conn_base ?w'" "send_same ?w ?w'" "recv_outcome ?err ?w ?w'"
    using connection_recv_correct [OF b(1), of ?err ra] ra b(2,3) by simp_all
  have "has_read (cn_wait_events ?c) \<Longrightarrow> ?err" if "\<not> cn_is_hupd ?c" using sides(2) executed(2) [OF base x] that by (simp add: recv_waits_def)
  then have "waits_part ?err (cw_jobs ?w') (cw_o ?w')" using sides(1) b(2) by (intro waits_after_recv [OF s(2,3)]) simp_all
  moreover have "cw_sockerr ?w' = ?err" using s(2) by (simp add: send_same_def)
  moreover have "dispatch_job (cn_recv_job ?c) wa ra ?w = ?w'"
    using ids_sides(6,10,11) [OF dist] by (simp add: dispatch_job_def send_jobs_def Let_def connection_recv_job_handler_def)
  ultimately show ?thesis using s(1) by (simp add: conn_invI)
qed

lemma dispatch_job_inv:
  assumes base: "conn_base w" and waits: "waits_part (cw_sockerr w) (cw_jobs w) (cw_o w)" and err: "\<not> cn_d_err (cw_o w)"
    and x: "BPendingGroup_ExecuteJob (cw_jobs w) = Some (j, g)" and own: "j \<in> set (own_jobs (cw_o w))"
    and wa: "wr_answer_ok (cw_sockerr w) (nat (spi_len (cn_send_iface (cw_o w)))) wa"
    and ra: "rd_answer_ok (cw_sockerr w) (sri_len (cn_recv_iface (cw_o w))) ra"
  shows "conn_inv (dispatch_job j wa ra (w\<lparr>cw_rx := (cw_rx w)\<lparr>rx_jobs := g\<rparr>\<rparr>))"
proof -
  let ?c = "cw_o w"
  let ?w = "w\<lparr>cw_rx := (cw_rx w)\<lparr>rx_jobs := g\<rparr>\<rparr>"
  have dist: "distinct (own_jobs ?c)" using base by (simp add: conn_base_def ids_part_def)
  note ids = ids_sides [OF dist]
  have never: "j \<noteq> cn_send_job ?c"
  proof
    assume "j = cn_send_job ?c"
    then show False using base executed(2,8) [OF base x] by (auto simp: conn_base_def send_part_def split: if_splits)
  qed
  consider "j = cn_send_op_job ?c" | "j = cn_send_done_job ?c" | "j = cn_recv_op_job ?c" | "j = cn_recv_done_job ?c" | "j = cn_recv_job ?c"
    using own never by (auto simp: own_jobs_def)
  then show ?thesis
  proof cases
    case 2
    note b = user_sent_base [OF base x [unfolded 2] refl]
    have "cw_sockerr (user_handler_sent ?w) = cw_sockerr w" by (simp add: user_handler_sent_def cw_defs split_beta Let_def)
    moreover have "dispatch_job j wa ra ?w = user_handler_sent ?w" using ids(9) by (simp add: dispatch_job_def 2 Let_def)
    ultimately show ?thesis using b(1) b(2) [OF waits] by (simp add: conn_invI)
  next
    case 4
    note b = user_received_base [OF base x [unfolded 4] refl]
    have "cw_sockerr (user_handler_received ?w) = cw_sockerr w" by (simp add: user_handler_received_def cw_defs split_beta Let_def)
    moreover have "dispatch_job j wa ra ?w = user_handler_received ?w" using ids(5,12) by (simp add: dispatch_job_def 4 send_jobs_def Let_def)
    ultimately show ?thesis using b(1) b(2) [OF waits] by (simp add: conn_invI)
  qed (use run_send_operation [OF base waits err _ wa] run_recv_operation [OF base waits err _ ra] run_recv_job [OF base waits err _ ra] x in simp_all)
qed

lemma hup_base:
  assumes base: "conn_base w" and up: "\<not> cn_is_hupd (cw_o w)"
    and w': "w' = upd_o (\<lambda>c. c\<lparr>cn_is_hupd := True\<rparr>) (upd_rx (BReactor_RemoveFileDescriptor (cn_bfd (cw_o w))) w)"
  shows "conn_base w'" "cw_jobs w' = cw_jobs w"
proof -
  let ?d = "cn_bfd (cw_o w)" and ?r = "cw_rx w"
  have r: "rx_inv ?r" "reg_ok ?r" "fd_active (rx_fd ?r ?d)" "rw_only (cn_wait_events (cw_o w))"
    using base up by (simp_all add: conn_base_def fd_part_def)
  have s: "rx_inv (BReactor_RemoveFileDescriptor ?d ?r)" "reg_ok (BReactor_RemoveFileDescriptor ?d ?r)"
    using rx_step_inv [of ?r "RO_RemoveFd ?d"] reg_step_ok [of ?r "RO_RemoveFd ?d"] r by simp_all
  have f: "\<not> fd_active (rx_fd (BReactor_RemoveFileDescriptor ?d ?r) ?d)"
    by (simp add: BReactor_RemoveFileDescriptor_def Let_def split: option.split)
  show "conn_base w'" using base s f r(4) by (simp add: conn_base_def w' cw_defs ids_part_def fd_part_def streams_part_def)
  show "cw_jobs w' = cw_jobs w" by (simp add: w' cw_defs)
qed

lemma set_recv_job_base:
  assumes base: "conn_base w" and busy: "cn_recv_state (cw_o w) = RECV_STATE_BUSY"
    and w': "w' = upd_jobs (BSmallPending_Set (cn_recv_job (cw_o w))) w"
  shows "conn_base w'" "cn_recv_job (cw_o w) \<in> set (jobs (cw_jobs w'))"
proof -
  let ?c = "cw_o w" and ?g = "cw_jobs w"
  let ?g' = "BSmallPending_Set (cn_recv_job ?c) ?g"
  have parts: "rx_inv (cw_rx w)" "distinct (own_jobs ?c)" "send_part ?g ?c" "recv_part ?g ?c" using base by (simp_all add: conn_base_def ids_part_def)
  note ids = ids_sides [OF parts(2)]
  have s: "sri_inv (cn_recv_iface ?c, ?g)" "job_handler ?g (cn_recv_job ?c) \<noteq> None"
    "sri_job_operation (cn_recv_iface ?c) = cn_recv_op_job ?c" "sri_job_done (cn_recv_iface ?c) = cn_recv_done_job ?c"
    using parts(4) busy by (simp_all add: recv_part_def)
  have g: "group_inv ?g" using s(1) by (simp add: sri_inv.simps)
  have g': "group_inv ?g'" by (rule set_inv [OF g s(2)])
  have "jobs_keep {cn_recv_op_job ?c, cn_recv_done_job ?c} ?g ?g'" by (rule set_job_keep [OF g s(2)]) (simp add: ids(10,11))
  then have "sri_inv (cn_recv_iface ?c, ?g')" by (intro sri_inv_keeps [OF s(1) g']) (simp add: s(3,4) jobs_keep_def, blast)
  then have rp: "recv_part ?g' ?c" using parts(4) busy by (simp add: recv_part_def)
  have sp: "send_part ?g' ?c" using send_part_keep [OF parts(3) set_job_keep [OF g s(2) ids(6)]] .
  show "conn_base w'" using base rp sp rx_jobs_inv [OF parts(1) g'] by (simp add: conn_base_def w' cw_defs streams_part_def)
  show "cn_recv_job ?c \<in> set (jobs (cw_jobs w'))" using g by (simp add: w' cw_defs set_jobs_set)
qed

text \<open>The handler of the descriptor. What is reported was waited for, so there is a request for it; a request that is not
  served at once stays waited for, in the queue of jobs, or with the reactor.\<close>

lemma fd_handler_inv:
  assumes base: "conn_base w" and waits: "waits_part err (cw_jobs w) (cw_o w)" and err: "\<not> cn_d_err (cw_o w)"
    and up: "\<not> cn_is_hupd (cw_o w)" and idle: "jobs (cw_jobs w) = []"
    and rd: "has_read events \<Longrightarrow> has_read (cn_wait_events (cw_o w))" and wr: "has_write events \<Longrightarrow> has_write (cn_wait_events (cw_o w))"
    and e: "events AND BREACTOR_ERROR \<noteq> 0 \<Longrightarrow> events AND BREACTOR_HUP = 0 \<Longrightarrow> err" and se: "cw_sockerr w = err"
    and wa: "wr_answer_ok err (nat (spi_len (cn_send_iface (cw_o w)))) wa"
    and ra: "rd_answer_ok err (sri_len (cn_recv_iface (cw_o w))) ra"
  shows "conn_inv (connection_fd_handler events wa ra w)"
proof -
  let ?c = "cw_o w"
  define hup where "hup = (events AND BREACTOR_HUP \<noteq> 0)"
  define bad where "bad = (events AND BREACTOR_ERROR \<noteq> 0 \<or> hup)"
  define hs where "hs = (has_write events \<or> bad \<and> cn_send_state ?c = SEND_STATE_BUSY)"
  define hr where "hr = (has_read events \<or> bad \<and> cn_recv_state ?c = RECV_STATE_BUSY)"
  define w1 where "w1 = set_wait_events (cn_wait_events ?c AND NOT events) w"
  define w2 where "w2 = (if hup then upd_o (\<lambda>c. c\<lparr>cn_is_hupd := True\<rparr>) (upd_rx (BReactor_RemoveFileDescriptor (cn_bfd (cw_o w1))) w1) else w1)"
  define w3 where "w3 = (if hr then upd_jobs (BSmallPending_Set (cn_recv_job (cw_o w2))) w2 else w2)"
  have s: "send_waits ?c" "recv_waits err (cw_jobs w) ?c" using waits err by (simp_all add: waits_sides)
  have busy: "hs \<Longrightarrow> cn_send_state ?c = SEND_STATE_BUSY" "hr \<Longrightarrow> cn_recv_state ?c = RECV_STATE_BUSY"
    using s up rd wr by (auto simp: hs_def hr_def send_waits_def recv_waits_def)
  have b1: "conn_base w1" unfolding w1_def by (rule set_wait_base [OF base up]) (use base in \<open>simp add: conn_base_def fd_part_def\<close>)
  have b2: "conn_base w2" using hup_base(1) [OF b1 _ refl] up b1 by (simp add: w2_def w1_def)
  have f2: "cw_o w2 = ?c\<lparr>cn_wait_events := cn_wait_events ?c AND NOT events, cn_is_hupd := hup\<rparr>" "jobs (cw_jobs w2) = []" "cw_sockerr w2 = err"
    using up idle se by (simp_all add: w2_def w1_def cw_defs)
  have b3: "conn_base w3" using set_recv_job_base(1) [OF b2 _ refl] busy(2) b2 by (simp add: w3_def f2(1))
  have f3: "cw_o w3 = cw_o w2" "cw_sockerr w3 = err" "cn_recv_job ?c \<in> set (jobs (cw_jobs w3)) \<longleftrightarrow> hr"
    using set_recv_job_base(2) [OF b2 _ refl] busy(2) f2 by (simp_all add: w3_def cw_defs)
  have h: "connection_fd_handler events wa ra w =
      (if hs then bconnection_send wa w3 else if hr then connection_recv ra w2 else if \<not> hup then connection_report_error w2 else w2)"
    unfolding connection_fd_handler_def Let_def error_or_hup hup_def [symmetric] w1_def [symmetric] has_read_def [symmetric] has_write_def [symmetric] bad_def [symmetric] w2_def [symmetric]
    by (simp add: f2(1) flip: hs_def hr_def w3_def)
  consider "hs" | "\<not> hs" "hr" | "\<not> hs" "\<not> hr" by blast
  then show ?thesis
  proof cases
    case 1
    have q: "conn_base (bconnection_send wa w3)" "recv_same w3 (bconnection_send wa w3)" "send_outcome err w3 (bconnection_send wa w3)"
      using connection_send_correct [OF b3, of err wa] busy(1) 1 wa by (simp_all add: f3(1) f2(1))
    have "recv_waits err (cw_jobs w3) (cw_o w3)"
      using s(2) up idle rd e f3 by (auto simp: recv_waits_def f2(1) hr_def bad_def hup_def)
    moreover have "\<not> hup \<Longrightarrow> has_write (cn_wait_events (cw_o w3)) \<Longrightarrow> err" using 1 e by (auto simp: f3(1) f2(1) hs_def bad_def hup_def)
    ultimately have "waits_part err (cw_jobs (bconnection_send wa w3)) (cw_o (bconnection_send wa w3))"
      by (intro waits_after_send [OF q(2,3)]) (simp_all add: f3(1) f2(1))
    moreover have "cw_sockerr (bconnection_send wa w3) = err" using q(2) f3(2) by (simp add: recv_same_def)
    ultimately show ?thesis using h 1 q(1) by (simp add: conn_invI)
  next
    case 2
    have q: "conn_base (connection_recv ra w2)" "send_same w2 (connection_recv ra w2)" "recv_outcome err w2 (connection_recv ra w2)"
      using connection_recv_correct [OF b2, of err ra] busy(2) 2 ra by (simp_all add: f2)
    have "send_waits (cw_o w2)" using s(1) up 2(1) by (auto simp: send_waits_def f2(1) hs_def bad_def hup_def)
    moreover have "\<not> hup \<Longrightarrow> has_read (cn_wait_events (cw_o w2)) \<Longrightarrow> err" using 2 e by (auto simp: f2(1) hr_def bad_def hup_def)
    ultimately have "waits_part err (cw_jobs (connection_recv ra w2)) (cw_o (connection_recv ra w2))"
      by (intro waits_after_recv [OF q(2,3)]) (simp_all add: f2)
    moreover have "cw_sockerr (connection_recv ra w2) = err" using q(2) f2(3) by (simp add: send_same_def)
    ultimately show ?thesis using h 2 q(1) by (simp add: conn_invI)
  next
    case 3
    have "waits_part err (cw_jobs w2) (cw_o w2)" if hup using 3 that by (auto simp: waits_sides send_waits_def recv_waits_def f2(1) hs_def hr_def bad_def)
    then show ?thesis
      using h 3 b2 report_error_base [OF b2] f2(3)
      by (cases hup) (simp_all add: conn_invI, simp add: conn_inv_def waits_sides conn_base_def connection_report_error_def cw_defs)
  qed
qed

section \<open>Setting up and taking down\<close>

text \<open>Three new jobs, and three jobs that are freed.\<close>

lemma three_init:
  assumes g: "group_inv g" and new: "job_handler g a = None" "job_handler g b = None" "job_handler g c = None" and ne: "a \<noteq> b" "a \<noteq> c" "b \<noteq> c"
    and g': "g' = BSmallPending_Init c h2 (BSmallPending_Init b h1 (BSmallPending_Init a h0 g))"
  shows "group_inv g'" "jobs g' = jobs g" "job_handler g' = (job_handler g)(a \<mapsto> h0, b \<mapsto> h1, c \<mapsto> h2)"
    "a \<notin> set (jobs g)" "b \<notin> set (jobs g)" "c \<notin> set (jobs g)" "J \<inter> {a, b, c} = {} \<Longrightarrow> jobs_keep J g g'"
proof -
  have 1: "group_inv (BSmallPending_Init a h0 g)" "jobs (BSmallPending_Init a h0 g) = jobs g"
    "job_handler (BSmallPending_Init a h0 g) = (job_handler g)(a \<mapsto> h0)" using init_jobs [OF g new(1)] by simp_all
  have 2: "group_inv (BSmallPending_Init b h1 (BSmallPending_Init a h0 g))" "jobs (BSmallPending_Init b h1 (BSmallPending_Init a h0 g)) = jobs g"
    "job_handler (BSmallPending_Init b h1 (BSmallPending_Init a h0 g)) = (job_handler g)(a \<mapsto> h0, b \<mapsto> h1)"
    using init_jobs(1-3) [OF 1(1), of b h1] 1 new(2) ne by simp_all
  show 3: "group_inv g'" "jobs g' = jobs g" "job_handler g' = (job_handler g)(a \<mapsto> h0, b \<mapsto> h1, c \<mapsto> h2)"
    using init_jobs(1-3) [OF 2(1), of c h2] 2 new(3) ne by (simp_all add: g')
  show "a \<notin> set (jobs g)" "b \<notin> set (jobs g)" "c \<notin> set (jobs g)" using unknown_not_pending [OF g] new by simp_all
  show "jobs_keep J g g'" if "J \<inter> {a, b, c} = {}" using that 3 by (auto simp: jobs_keep_def)
qed

lemma three_free:
  assumes g: "group_inv g" and g': "g' = BSmallPending_Free c (BSmallPending_Free b (BSmallPending_Free a g))"
  shows "group_inv g'" "set (jobs g') = set (jobs g) - {a, b, c}" "job_handler g' = (job_handler g)(a := None, b := None, c := None)"
    "J \<inter> {a, b, c} = {} \<Longrightarrow> jobs_keep J g g'"
proof -
  note 1 = free_jobs [OF g, of a]
  note 2 = free_jobs [OF 1(1), of b]
  show 3: "group_inv g'" "set (jobs g') = set (jobs g) - {a, b, c}" "job_handler g' = (job_handler g)(a := None, b := None, c := None)"
    using free_jobs [OF 2(1), of c] 1 2 by (auto simp: g')
  show "jobs_keep J g g'" if "J \<inter> {a, b, c} = {}" using that 3 by (auto simp: jobs_keep_def)
qed

lemma jobs_disjoint:
  assumes "distinct (own_jobs c)"
  shows "send_jobs c \<inter> recv_jobs c = {}" "recv_jobs c \<inter> send_jobs c = {}"
  using assms by (auto simp: own_jobs_def send_jobs_def recv_jobs_def)

lemma send_init_inv:
  assumes inv: "conn_inv w" and pre: "conn_pre CO_SendInit w"
  shows "conn_inv (BConnection_SendAsync_Init w)"
proof -
  let ?c = "cw_o w" and ?g = "cw_jobs w"
  have st: "cn_send_state ?c = SEND_STATE_NOT_INITED" and base: "conn_base w" and waits: "waits_part (cw_sockerr w) ?g ?c"
    using inv pre by (simp_all add: conn_inv_def)
  define g' where "g' = BSmallPending_Init (cn_send_job ?c) H_OWN_JOB (BSmallPending_Init (cn_send_done_job ?c) H_DONE
    (BSmallPending_Init (cn_send_op_job ?c) H_OPERATION ?g))"
  define i' where "i' = fst (StreamPassInterface_Init (cn_send_op_job ?c) (cn_send_done_job ?c) H_OPERATION H_DONE ([] :: byte list) ?g)"
  have parts: "rx_inv (cw_rx w)" "distinct (own_jobs ?c)" "send_part ?g ?c" "recv_part ?g ?c" "streams_part w" "group_inv ?g"
    using base by (simp_all add: conn_base_def ids_part_def rx_inv_def)
  note ids = ids_sides [OF parts(2)]
  have new: "job_handler ?g (cn_send_op_job ?c) = None" "job_handler ?g (cn_send_done_job ?c) = None" "job_handler ?g (cn_send_job ?c) = None"
    using parts(3) st by (simp_all add: send_part_def)
  note t = three_init [OF parts(6) new ids(9) not_sym [OF ids(7)] not_sym [OF ids(8)] g'_def]
  have w': "BConnection_SendAsync_Init w = w\<lparr>cw_rx := (cw_rx w)\<lparr>rx_jobs := g'\<rparr>, cw_o := ?c\<lparr>cn_send_iface := i', cn_send_state := SEND_STATE_READY\<rparr>\<rparr>"
    by (simp add: BConnection_SendAsync_Init_def StreamPassInterface_Init_def g'_def i'_def cw_defs Let_def)
  have "spi_inv (i', g')" using t ids(7-9) by (simp add: spi_inv.simps i'_def StreamPassInterface_Init_def)
  then have sp: "send_part g' (?c\<lparr>cn_send_iface := i', cn_send_state := SEND_STATE_READY\<rparr>)"
    using t by (simp add: send_part_def i'_def StreamPassInterface_Init_def)
  have k: "jobs_keep (recv_jobs ?c) ?g g'" by (rule t(7)) (use jobs_disjoint(2) [OF parts(2)] in \<open>simp add: send_jobs_def\<close>)
  have "streams_part (BConnection_SendAsync_Init w)" using parts(5) st by (simp add: streams_part_def w' i'_def StreamPassInterface_Init_def)
  then have "conn_base (BConnection_SendAsync_Init w)"
    using base sp recv_part_keep [OF parts(4) k] rx_jobs_inv [OF parts(1) t(1)] by (simp add: conn_base_def w')
  moreover have "waits_part (cw_sockerr w) g' (?c\<lparr>cn_send_iface := i', cn_send_state := SEND_STATE_READY\<rparr>)"
    using waits st t(2) by (simp add: waits_part_def)
  ultimately show ?thesis by (intro conn_invI) (simp_all add: w')
qed

lemma recv_init_inv:
  assumes inv: "conn_inv w" and pre: "conn_pre CO_RecvInit w"
  shows "conn_inv (BConnection_RecvAsync_Init w)"
proof -
  let ?c = "cw_o w" and ?g = "cw_jobs w"
  have st: "cn_recv_state ?c = RECV_STATE_NOT_INITED" and base: "conn_base w" and waits: "waits_part (cw_sockerr w) ?g ?c"
    using inv pre by (simp_all add: conn_inv_def)
  define g' where "g' = BSmallPending_Init (cn_recv_job ?c) H_OWN_JOB (BSmallPending_Init (cn_recv_done_job ?c) H_DONE
    (BSmallPending_Init (cn_recv_op_job ?c) H_OPERATION ?g))"
  define i' where "i' = fst (StreamRecvInterface_Init (cn_recv_op_job ?c) (cn_recv_done_job ?c) H_OPERATION H_DONE (0 :: nat) ?g)"
  have parts: "rx_inv (cw_rx w)" "distinct (own_jobs ?c)" "send_part ?g ?c" "recv_part ?g ?c" "streams_part w" "group_inv ?g"
    using base by (simp_all add: conn_base_def ids_part_def rx_inv_def)
  note ids = ids_sides [OF parts(2)]
  have new: "job_handler ?g (cn_recv_op_job ?c) = None" "job_handler ?g (cn_recv_done_job ?c) = None" "job_handler ?g (cn_recv_job ?c) = None"
    using parts(4) st by (simp_all add: recv_part_def)
  note t = three_init [OF parts(6) new ids(12) not_sym [OF ids(10)] not_sym [OF ids(11)] g'_def]
  have w': "BConnection_RecvAsync_Init w = w\<lparr>cw_rx := (cw_rx w)\<lparr>rx_jobs := g'\<rparr>, cw_o := ?c\<lparr>cn_recv_iface := i', cn_recv_state := RECV_STATE_READY\<rparr>\<rparr>"
    by (simp add: BConnection_RecvAsync_Init_def StreamRecvInterface_Init_def g'_def i'_def cw_defs Let_def)
  have "sri_inv (i', g')" using t ids(10-12) by (simp add: sri_inv.simps i'_def StreamRecvInterface_Init_def)
  then have rp: "recv_part g' (?c\<lparr>cn_recv_iface := i', cn_recv_state := RECV_STATE_READY\<rparr>)"
    using t by (simp add: recv_part_def i'_def StreamRecvInterface_Init_def)
  have k: "jobs_keep (send_jobs ?c) ?g g'" by (rule t(7)) (use jobs_disjoint(1) [OF parts(2)] in \<open>simp add: recv_jobs_def\<close>)
  have "streams_part (BConnection_RecvAsync_Init w)" using parts(5) st by (simp add: streams_part_def w' i'_def StreamRecvInterface_Init_def)
  then have "conn_base (BConnection_RecvAsync_Init w)"
    using base rp send_part_keep [OF parts(3) k] rx_jobs_inv [OF parts(1) t(1)] by (simp add: conn_base_def w')
  moreover have "waits_part (cw_sockerr w) g' (?c\<lparr>cn_recv_iface := i', cn_recv_state := RECV_STATE_READY\<rparr>)"
    using waits st t(2,6) by (auto simp: waits_sides send_waits_def recv_waits_def split: if_splits)
  ultimately show ?thesis by (intro conn_invI) (simp_all add: w')
qed

text \<open>The descriptor no longer waits for one side when its interface is freed.\<close>

definition drop_wait :: "u32 \<Rightarrow> conn_world \<Rightarrow> conn_world" where
  "drop_wait e w = (if \<not> cn_is_hupd (cw_o w) then set_wait_events (cn_wait_events (cw_o w) AND NOT e) w else w)"

lemma drop_wait_base:
  assumes "conn_base w"
  shows "conn_base (drop_wait e w)"
  using assms set_wait_base [OF assms] by (simp add: drop_wait_def conn_base_def [of w] fd_part_def)

lemma drop_wait_fields:
  "cn_is_hupd (cw_o (drop_wait e w)) = cn_is_hupd (cw_o w)" "cn_d_err (cw_o (drop_wait e w)) = cn_d_err (cw_o w)"
  "cn_send_state (cw_o (drop_wait e w)) = cn_send_state (cw_o w)" "cn_recv_state (cw_o (drop_wait e w)) = cn_recv_state (cw_o w)"
  "cn_send_iface (cw_o (drop_wait e w)) = cn_send_iface (cw_o w)" "cn_recv_iface (cw_o (drop_wait e w)) = cn_recv_iface (cw_o w)"
  "cn_recv_job (cw_o (drop_wait e w)) = cn_recv_job (cw_o w)"
  "\<not> cn_is_hupd (cw_o w) \<Longrightarrow> has_read (cn_wait_events (cw_o (drop_wait e w))) \<longleftrightarrow> has_read (cn_wait_events (cw_o w)) \<and> \<not> has_read e"
  "\<not> cn_is_hupd (cw_o w) \<Longrightarrow> has_write (cn_wait_events (cw_o (drop_wait e w))) \<longleftrightarrow> has_write (cn_wait_events (cw_o w)) \<and> \<not> has_write e"
  "cw_jobs (drop_wait e w) = cw_jobs w" "cw_sockerr (drop_wait e w) = cw_sockerr w" "cw_alive (drop_wait e w) = cw_alive w"
  by (simp_all add: drop_wait_def)

lemma send_free_inv:
  assumes inv: "conn_inv w" and pre: "conn_pre CO_SendFree w"
  shows "conn_inv (BConnection_SendAsync_Free w)"
proof -
  define w0 where "w0 = w\<lparr>cw_lost_send := cw_lost_send w \<or> spi_state (cn_send_iface (cw_o w)) = STATE_DONE_PENDING\<rparr>"
  define w1 where "w1 = drop_wait BREACTOR_WRITE w0"
  let ?c = "cw_o w1" and ?g = "cw_jobs w1"
  define g' where "g' = BSmallPending_Free (cn_send_op_job ?c) (BSmallPending_Free (cn_send_done_job ?c) (BSmallPending_Free (cn_send_job ?c) ?g))"
  have ini: "cn_send_state (cw_o w) \<noteq> SEND_STATE_NOT_INITED" and base: "conn_base w" and waits: "waits_part (cw_sockerr w) (cw_jobs w) (cw_o w)"
    using inv pre by (auto simp: conn_inv_def)
  have "conn_base w0" using base by (simp add: conn_base_def w0_def streams_part_def)
  then have base1: "conn_base w1" unfolding w1_def by (rule drop_wait_base)
  note f = drop_wait_fields [where e = BREACTOR_WRITE and w = w0, folded w1_def]
  have parts: "rx_inv (cw_rx w1)" "distinct (own_jobs ?c)" "send_part ?g ?c" "recv_part ?g ?c" "streams_part w1" "group_inv ?g"
    using base1 by (simp_all add: conn_base_def ids_part_def rx_inv_def)
  have ini1: "cn_send_state ?c \<noteq> SEND_STATE_NOT_INITED" using ini by (simp add: f w0_def)
  have i: "spi_job_operation (cn_send_iface ?c) = cn_send_op_job ?c" "spi_job_done (cn_send_iface ?c) = cn_send_done_job ?c"
    using parts(3) ini1 by (simp_all add: send_part_def)
  note t = three_free [OF parts(6) g'_def]
  have w': "BConnection_SendAsync_Free w = w1\<lparr>cw_rx := (cw_rx w1)\<lparr>rx_jobs := g'\<rparr>, cw_o := ?c\<lparr>cn_send_state := SEND_STATE_NOT_INITED\<rparr>\<rparr>"
    unfolding BConnection_SendAsync_Free_def Let_def w0_def [symmetric] drop_wait_def [symmetric] w1_def [symmetric]
    by (simp add: StreamPassInterface_Free_def i g'_def cw_defs)
  have sp: "send_part g' (?c\<lparr>cn_send_state := SEND_STATE_NOT_INITED\<rparr>)" by (simp add: send_part_def t(3))
  have k: "jobs_keep (recv_jobs ?c) ?g g'" by (rule t(4)) (use jobs_disjoint(2) [OF parts(2)] in \<open>auto simp: send_jobs_def\<close>)
  have "cw_lost_send w1 \<or> spi_state (cn_send_iface ?c) \<noteq> STATE_DONE_PENDING" by (simp add: w1_def w0_def drop_wait_def)
  then have "streams_part (BConnection_SendAsync_Free w)" using parts(5) ini1 by (auto simp: streams_part_def w')
  then have "conn_base (BConnection_SendAsync_Free w)"
    using base1 sp recv_part_keep [OF parts(4) k] rx_jobs_inv [OF parts(1) t(1)] by (simp add: conn_base_def w')
  moreover have "cn_recv_job ?c \<in> set (jobs g') \<longleftrightarrow> cn_recv_job ?c \<in> set (jobs ?g)" using k by (simp add: jobs_keep_def recv_jobs_def)
  then have "waits_part (cw_sockerr w) g' (?c\<lparr>cn_send_state := SEND_STATE_NOT_INITED\<rparr>)"
    using waits by (auto simp: waits_sides send_waits_def recv_waits_def f w0_def)
  ultimately show ?thesis by (intro conn_invI) (simp_all add: w' f w0_def)
qed

lemma recv_free_inv:
  assumes inv: "conn_inv w" and pre: "conn_pre CO_RecvFree w"
  shows "conn_inv (BConnection_RecvAsync_Free w)"
proof -
  define w0 where "w0 = w\<lparr>cw_lost_recv := cw_lost_recv w \<or> sri_state (cn_recv_iface (cw_o w)) = STATE_DONE_PENDING\<rparr>"
  define w1 where "w1 = drop_wait BREACTOR_READ w0"
  let ?c = "cw_o w1" and ?g = "cw_jobs w1"
  define g' where "g' = BSmallPending_Free (cn_recv_op_job ?c) (BSmallPending_Free (cn_recv_done_job ?c) (BSmallPending_Free (cn_recv_job ?c) ?g))"
  have ini: "cn_recv_state (cw_o w) \<noteq> RECV_STATE_NOT_INITED" and base: "conn_base w" and waits: "waits_part (cw_sockerr w) (cw_jobs w) (cw_o w)"
    using inv pre by (auto simp: conn_inv_def)
  have "conn_base w0" using base by (simp add: conn_base_def w0_def streams_part_def)
  then have base1: "conn_base w1" unfolding w1_def by (rule drop_wait_base)
  note f = drop_wait_fields [where e = BREACTOR_READ and w = w0, folded w1_def]
  have parts: "rx_inv (cw_rx w1)" "distinct (own_jobs ?c)" "send_part ?g ?c" "recv_part ?g ?c" "streams_part w1" "group_inv ?g"
    using base1 by (simp_all add: conn_base_def ids_part_def rx_inv_def)
  have ini1: "cn_recv_state ?c \<noteq> RECV_STATE_NOT_INITED" using ini by (simp add: f w0_def)
  have i: "sri_job_operation (cn_recv_iface ?c) = cn_recv_op_job ?c" "sri_job_done (cn_recv_iface ?c) = cn_recv_done_job ?c"
    using parts(4) ini1 by (simp_all add: recv_part_def)
  note t = three_free [OF parts(6) g'_def]
  have w': "BConnection_RecvAsync_Free w = w1\<lparr>cw_rx := (cw_rx w1)\<lparr>rx_jobs := g'\<rparr>, cw_o := ?c\<lparr>cn_recv_state := RECV_STATE_NOT_INITED\<rparr>\<rparr>"
    unfolding BConnection_RecvAsync_Free_def Let_def w0_def [symmetric] drop_wait_def [symmetric] w1_def [symmetric]
    by (simp add: StreamRecvInterface_Free_def i g'_def cw_defs)
  have rp: "recv_part g' (?c\<lparr>cn_recv_state := RECV_STATE_NOT_INITED\<rparr>)" by (simp add: recv_part_def t(3))
  have k: "jobs_keep (send_jobs ?c) ?g g'" by (rule t(4)) (use jobs_disjoint(1) [OF parts(2)] in \<open>auto simp: recv_jobs_def\<close>)
  have "cw_lost_recv w1 \<or> sri_state (cn_recv_iface ?c) \<noteq> STATE_DONE_PENDING" by (simp add: w1_def w0_def drop_wait_def)
  then have "streams_part (BConnection_RecvAsync_Free w)" using parts(5) ini1 by (auto simp: streams_part_def w')
  then have "conn_base (BConnection_RecvAsync_Free w)"
    using base1 rp send_part_keep [OF parts(3) k] rx_jobs_inv [OF parts(1) t(1)] by (simp add: conn_base_def w')
  moreover have "waits_part (cw_sockerr w) g' (?c\<lparr>cn_recv_state := RECV_STATE_NOT_INITED\<rparr>)"
    using waits by (auto simp: waits_sides send_waits_def recv_waits_def f w0_def)
  ultimately show ?thesis by (intro conn_invI) (simp_all add: w' f w0_def)
qed

lemma free_inv:
  assumes inv: "conn_inv w" and pre: "conn_pre CO_Free w"
  shows "conn_inv (BConnection_Free w)" "\<not> cw_alive (BConnection_Free w)"
proof -
  let ?c = "cw_o w"
  define r1 where "r1 = BReactorLimit_Free (cn_recv_limit ?c) (cw_rx w)"
  define r2 where "r2 = BReactorLimit_Free (cn_send_limit ?c) r1"
  have base: "conn_base w" using inv pre by (simp add: conn_inv_def)
  have r: "rx_inv (cw_rx w)" "reg_ok (cw_rx w)" "rx_limit (cw_rx w) (cn_recv_limit ?c) \<noteq> None" "rx_limit (cw_rx w) (cn_send_limit ?c) \<noteq> None"
    "cn_send_limit ?c \<noteq> cn_recv_limit ?c" using base by (auto simp: conn_base_def ids_part_def own_limits_def)
  have 1: "rx_inv r1" "reg_ok r1" using rx_step_inv [of "cw_rx w" "RO_FreeLimit (cn_recv_limit ?c)"] reg_step_ok [of "cw_rx w" "RO_FreeLimit (cn_recv_limit ?c)"] r
    by (simp_all add: r1_def)
  have l: "rx_limit r1 (cn_send_limit ?c) \<noteq> None" "rx_fd r2 = rx_fd (cw_rx w)" using r by (simp_all add: r2_def r1_def BReactorLimit_Free_def Let_def)
  have 2: "rx_inv r2" "reg_ok r2" using rx_step_inv [of r1 "RO_FreeLimit (cn_send_limit ?c)"] reg_step_ok [of r1 "RO_FreeLimit (cn_send_limit ?c)"] 1 l(1)
    by (simp_all add: r2_def)
  have 3: "rx_inv (BReactor_RemoveFileDescriptor (cn_bfd ?c) r2)" "reg_ok (BReactor_RemoveFileDescriptor (cn_bfd ?c) r2)" if "\<not> cn_is_hupd ?c"
    using rx_step_inv [of r2 "RO_RemoveFd (cn_bfd ?c)"] reg_step_ok [of r2 "RO_RemoveFd (cn_bfd ?c)"] 2 that l(2) base
    by (simp_all add: conn_base_def fd_part_def)
  show "\<not> cw_alive (BConnection_Free w)" by (simp add: BConnection_Free_def Let_def)
  show "conn_inv (BConnection_Free w)"
    using 2 3 by (simp add: conn_inv_def BConnection_Free_def Let_def cw_defs flip: r1_def r2_def)
qed

lemma user_send_inv:
  assumes inv: "conn_inv w" and pre: "conn_pre (CO_Send data) w"
  shows "conn_inv (conn_step (CO_Send data) w)"
proof -
  let ?c = "cw_o w" and ?g = "cw_jobs w"
  let ?i = "cn_send_iface ?c"
  define g' where "g' = BSmallPending_Set (cn_send_op_job ?c) ?g"
  define i' where "i' = ?i\<lparr>spi_data := data, spi_len := int (length data), spi_state := STATE_OPERATION_PENDING\<rparr>"
  have base: "conn_base w" and waits: "waits_part (cw_sockerr w) ?g ?c" and ini: "cn_send_state ?c \<noteq> SEND_STATE_NOT_INITED"
    and st: "spi_state ?i = STATE_NONE" "spi_has_user ?i" "data \<noteq> []" using inv pre by (auto simp: conn_inv_def)
  have parts: "rx_inv (cw_rx w)" "distinct (own_jobs ?c)" "send_part ?g ?c" "recv_part ?g ?c" "streams_part w" "group_inv ?g"
    using base by (simp_all add: conn_base_def ids_part_def rx_inv_def)
  note ids = ids_sides [OF parts(2)]
  have s: "spi_inv (?i, ?g)" "spi_job_done ?i = cn_send_done_job ?c" "spi_job_operation ?i = cn_send_op_job ?c"
    "job_handler ?g (cn_send_job ?c) \<noteq> None" "cn_send_job ?c \<notin> set (jobs ?g)" "cn_send_state ?c \<noteq> SEND_STATE_BUSY"
    using parts(3) ini st(1) by (simp_all add: send_part_def)
  have d: "StreamPassInterface_Sender_Send data (int (length data)) (?i, ?g) = (i', g')" by (simp add: i'_def g'_def s(3))
  have inv': "spi_inv (i', g')" using spi_step_inv [OF s(1) spi_req [of ?i "int (length data)" ?g data]] st d by simp
  then have gi: "group_inv g'" by (simp add: spi_inv.simps)
  let ?w = "w\<lparr>cw_rx := (cw_rx w)\<lparr>rx_jobs := g'\<rparr>, cw_o := ?c\<lparr>cn_send_iface := i'\<rparr>\<rparr>"
  have w': "conn_step (CO_Send data) w = w\<lparr>cw_rx := (cw_rx w)\<lparr>rx_jobs := g'\<rparr>, cw_o := ?c\<lparr>cn_send_iface := i'\<rparr>\<rparr>"
    using d by (simp add: cw_defs)
  have sp: "send_part g' (?c\<lparr>cn_send_iface := i'\<rparr>)"
    using inv' s ini ids(7) parts(6) by (simp add: send_part_def i'_def) (simp add: g'_def set_jobs_set)
  have h: "job_handler ?g (cn_send_op_job ?c) \<noteq> None" using s(1,3) by (simp add: spi_inv.simps)
  have k: "jobs_keep (recv_jobs ?c) ?g g'" unfolding g'_def by (rule set_job_keep [OF parts(6) h ids(1)])
  have "streams_part ?w" using parts(5) st(1) by (simp add: streams_part_def i'_def)
  then have "conn_base ?w"
    using base sp recv_part_keep [OF parts(4) k] rx_jobs_inv [OF parts(1) gi] by (simp add: conn_base_def)
  moreover have "waits_part (cw_sockerr w) g' (?c\<lparr>cn_send_iface := i'\<rparr>)"
    using waits k by (simp add: waits_part_def jobs_keep_def recv_jobs_def)
  ultimately show ?thesis unfolding w' by (intro conn_invI) simp_all
qed

lemma user_recv_inv:
  assumes inv: "conn_inv w" and pre: "conn_pre (CO_Recv p avail) w"
  shows "conn_inv (conn_step (CO_Recv p avail) w)"
proof -
  let ?c = "cw_o w" and ?g = "cw_jobs w"
  let ?i = "cn_recv_iface ?c"
  define g' where "g' = BSmallPending_Set (cn_recv_op_job ?c) ?g"
  define i' where "i' = ?i\<lparr>sri_data := p, sri_len := avail, sri_state := STATE_OPERATION_PENDING\<rparr>"
  have base: "conn_base w" and waits: "waits_part (cw_sockerr w) ?g ?c" and ini: "cn_recv_state ?c \<noteq> RECV_STATE_NOT_INITED"
    and st: "sri_state ?i = STATE_NONE" "sri_has_user ?i" "0 < avail" using inv pre by (auto simp: conn_inv_def)
  have parts: "rx_inv (cw_rx w)" "distinct (own_jobs ?c)" "send_part ?g ?c" "recv_part ?g ?c" "streams_part w" "group_inv ?g"
    using base by (simp_all add: conn_base_def ids_part_def rx_inv_def)
  note ids = ids_sides [OF parts(2)]
  have s: "sri_inv (?i, ?g)" "sri_job_done ?i = cn_recv_done_job ?c" "sri_job_operation ?i = cn_recv_op_job ?c"
    "job_handler ?g (cn_recv_job ?c) \<noteq> None" "cn_recv_job ?c \<notin> set (jobs ?g)" "cn_recv_state ?c \<notin> {RECV_STATE_BUSY, RECV_STATE_INITED_CLOSED}"
    "cn_recv_state ?c \<noteq> RECV_STATE_NOT_INITED_CLOSED"
    using parts(4) ini st(1) by (auto simp: recv_part_def)
  have d: "StreamRecvInterface_Receiver_Recv p avail (?i, ?g) = (i', g')" by (simp add: i'_def g'_def s(3))
  have inv': "sri_inv (i', g')" using sri_step_inv [OF s(1) sri_req [of ?i avail ?g p]] st d by simp
  then have gi: "group_inv g'" by (simp add: sri_inv.simps)
  let ?w = "w\<lparr>cw_rx := (cw_rx w)\<lparr>rx_jobs := g'\<rparr>, cw_o := ?c\<lparr>cn_recv_iface := i'\<rparr>\<rparr>"
  have w': "conn_step (CO_Recv p avail) w = w\<lparr>cw_rx := (cw_rx w)\<lparr>rx_jobs := g'\<rparr>, cw_o := ?c\<lparr>cn_recv_iface := i'\<rparr>\<rparr>"
    using d by (simp add: cw_defs)
  have nj: "cn_recv_job ?c \<notin> set (jobs g')" using s(5) ids(10) parts(6) by (simp add: g'_def set_jobs_set)
  have rp: "recv_part g' (?c\<lparr>cn_recv_iface := i'\<rparr>)"
    using inv' s ini nj by (simp add: recv_part_def i'_def) (simp add: g'_def)
  have h: "job_handler ?g (cn_recv_op_job ?c) \<noteq> None" using s(1,3) by (simp add: sri_inv.simps)
  have k: "jobs_keep (send_jobs ?c) ?g g'" unfolding g'_def by (rule set_job_keep [OF parts(6) h ids(4)])
  have "streams_part ?w" using parts(5) st(1) by (simp add: streams_part_def i'_def)
  then have "conn_base ?w"
    using base rp send_part_keep [OF parts(3) k] rx_jobs_inv [OF parts(1) gi] by (simp add: conn_base_def)
  moreover have "waits_part (cw_sockerr w) g' (?c\<lparr>cn_recv_iface := i'\<rparr>)"
    using waits_part_keep [OF waits, of g'] s(5) nj by simp
  ultimately show ?thesis unfolding w' by (intro conn_invI) simp_all
qed

section \<open>Every step keeps the invariant\<close>

lemma turn_inv:
  assumes inv: "conn_inv w" and pre: "conn_pre (CO_Turn now as wa ra) w"
  shows "conn_inv (conn_turn now as wa ra w)"
proof -
  let ?r = "cw_rx w" and ?c = "cw_o w"
  have ri: "rx_inv ?r" "reg_ok ?r" using inv by (simp_all add: conn_inv_def)
  have rp: "rx_pre (RO_Turn now as) ?r" using pre by simp
  have ok: "\<forall>(a, clock)\<in>set as. ep_active ?r a" by (rule ep_answer_active [OF ri(2)]) (use rp in simp)
  obtain ev r where x: "exec_turn now as ?r = Some (ev, r)" using rp by auto
  have ri': "rx_inv r" "reg_ok r" using rx_step_inv [OF ri rp] reg_step_ok [OF ri(2) rp] x by simp_all
  show ?thesis
  proof (cases "cw_alive w \<and> own_event ?c ev")
    case False
    have "conn_turn now as wa ra w = w\<lparr>cw_rx := r\<rparr>"
      using False x by (auto simp: conn_turn_def own_event_def own_jobs_def dispatch_job_def dispatch_fd_def Let_def split: rx_event.splits)
    moreover have "rx_keeps (set (own_jobs ?c)) {cn_bfd ?c} (set (own_limits ?c)) ?r r" if "cw_alive w"
      by (rule turn_keeps [OF x ri(1)]) (use False that in \<open>auto simp: own_event_def\<close>)
    ultimately show ?thesis using inv ri' keeps_base [of w r] by (auto simp: conn_inv_def)
  next
    case True
    then have base: "conn_base w" and waits: "waits_part (cw_sockerr w) (cw_jobs w) ?c" and alive: "cw_alive w" and own: "own_event ?c ev"
      using inv by (simp_all add: conn_inv_def)
    have t: "\<not> cn_d_err ?c" "wr_answer_ok (cw_sockerr w \<or> error_event ev) (nat (spi_len (cn_send_iface ?c))) wa"
      "rd_answer_ok (cw_sockerr w \<or> error_event ev) (sri_len (cn_recv_iface ?c)) ra"
      using pre alive own x by (simp_all add: turn_ok_for_def)
    show ?thesis
    proof (cases ev)
      case (RX_Job j)
      obtain g where g: "BPendingGroup_ExecuteJob (cw_jobs w) = Some (j, g)" "r = ?r\<lparr>rx_jobs := g\<rparr>"
        using turn_job [OF x [unfolded RX_Job] ri(1)] by blast
      have "conn_turn now as wa ra w = dispatch_job j wa ra (w\<lparr>cw_rx := ?r\<lparr>rx_jobs := g\<rparr>\<rparr>)"
        using x RX_Job alive g(2) by (simp add: conn_turn_def)
      then show ?thesis using dispatch_job_inv [OF base waits t(1) g(1)] own t(2,3) RX_Job by (simp add: own_event_def error_event_def)
    next
      case (RX_Fd d events)
      then have d: "d = cn_bfd ?c" using own by (simp add: own_event_def)
      let ?err = "cw_sockerr w \<or> events AND BREACTOR_ERROR \<noteq> 0 \<and> events AND BREACTOR_HUP = 0"
      let ?w = "w\<lparr>cw_rx := r, cw_sockerr := ?err\<rparr>"
      note f = turn_fd [OF x [unfolded RX_Fd] ri(1) ok]
      have k: "rx_keeps (set (own_jobs ?c)) {cn_bfd ?c} (set (own_limits ?c)) ?r r" by (rule turn_keeps [OF x ri(1)]) (simp add: RX_Fd)
      have up: "\<not> cn_is_hupd ?c" "fd_waitEvents (rx_fd ?r d) = cn_wait_events ?c" using base f(3) d by (auto simp: conn_base_def fd_part_def split: if_splits)
      have w1: "waits_part ?err (cw_jobs ?w) (cw_o ?w)" using waits_mono [OF waits, of ?err] f(1) by simp
      have b: "conn_base ?w" using keeps_base(1) [OF base ri' k] by (simp add: conn_base_def streams_part_def)
      have "conn_inv (connection_fd_handler events wa ra ?w)"
        by (rule fd_handler_inv [OF b w1]) (use t up f d RX_Fd in \<open>simp_all add: has_read_def has_write_def error_event_def\<close>)
      moreover have "conn_turn now as wa ra w = connection_fd_handler events wa ra ?w"
        using x RX_Fd alive d by (simp add: conn_turn_def dispatch_fd_def)
      ultimately show ?thesis by simp
    qed (use own in \<open>simp_all add: own_event_def\<close>)
  qed
qed

lemma other_inv:
  assumes inv: "conn_inv w" and pre: "conn_pre (CO_Other op) w"
  shows "conn_inv (upd_rx (rx_step op) w)"
proof -
  have ri: "rx_inv (cw_rx w)" "reg_ok (cw_rx w)" "rx_pre op (cw_rx w)" using inv pre by (simp_all add: conn_inv_def)
  note ri' = rx_step_inv [OF ri] reg_step_ok [OF ri(2,3)]
  have "rx_keeps (set (own_jobs (cw_o w))) {cn_bfd (cw_o w)} (set (own_limits (cw_o w))) (cw_rx w) (rx_step op (cw_rx w))" if "cw_alive w"
    by (rule avoids_keeps [OF ri(1)]) (use pre that in simp)
  then show ?thesis using inv ri' keeps_base [of w "rx_step op (cw_rx w)"] by (auto simp: conn_inv_def cw_defs)
qed

lemma interface_user_inv:
  assumes inv: "conn_inv w"
  shows "conn_inv (conn_step CO_SenderInit w)" "conn_inv (conn_step CO_ReceiverInit w)"
proof -
  have "send_part g (c\<lparr>cn_send_iface := StreamPassInterface_Sender_Init (cn_send_iface c)\<rparr>) \<longleftrightarrow> send_part g c" for g c
    by (simp add: send_part_def StreamPassInterface_Sender_Init_def spi_inv.simps)
  then show "conn_inv (conn_step CO_SenderInit w)"
    using inv by (simp add: conn_inv_def conn_base_def waits_part_def cw_defs streams_part_def)
      (simp add: StreamPassInterface_Sender_Init_def)
  have "recv_part g (c\<lparr>cn_recv_iface := StreamRecvInterface_Receiver_Init (cn_recv_iface c)\<rparr>) \<longleftrightarrow> recv_part g c" for g c
    by (simp add: recv_part_def StreamRecvInterface_Receiver_Init_def sri_inv.simps)
  then show "conn_inv (conn_step CO_ReceiverInit w)"
    using inv by (simp add: conn_inv_def conn_base_def waits_part_def cw_defs streams_part_def)
      (simp add: StreamRecvInterface_Receiver_Init_def)
qed

lemma conn_step_inv:
  assumes inv: "conn_inv w" and pre: "conn_pre op w"
  shows "conn_inv (conn_step op w)"
proof (cases op)
  case CO_SendInit then show ?thesis using send_init_inv inv pre by simp
next
  case CO_SendFree then show ?thesis using send_free_inv inv pre by simp
next
  case CO_RecvInit then show ?thesis using recv_init_inv inv pre by simp
next
  case CO_RecvFree then show ?thesis using recv_free_inv inv pre by simp
next
  case CO_Free then show ?thesis using free_inv(1) inv pre by simp
qed (use inv pre interface_user_inv user_send_inv user_recv_inv other_inv turn_inv in \<open>simp_all\<close>)

interpretation cn: invariant_machine conn_inv conn_pre conn_step
  by unfold_locales (rule conn_step_inv)

end
