(* ===== verification/ConnSetup.thy ===== *)
theory ConnSetup
  imports Conn
begin

text \<open>
  The rest of \<open>system/BConnection_unix.c\<close>: addresses for the system calls, listeners, connectors, and the initialisation
  of a connection from one of them; and the properties of connections. The answers of the system calls are
  parameters; every function that closes descriptors returns them.
\<close>

section \<open>Addresses\<close>

abbreviation MAX_UNIX_SOCKET_PATH :: nat where "MAX_UNIX_SOCKET_PATH \<equiv> 200"
abbreviation SUN_PATH_OFFSET :: nat where "SUN_PATH_OFFSET \<equiv> 2"

text \<open>The union of socket addresses with its length: port and address; port, flow, address and scope; any other family.\<close>

datatype sockaddr = Sockaddr_in u16 u32 | Sockaddr_in6 u16 u32 "byte list" u32 | Sockaddr_other

record sys_addr =
  sys_len :: nat
  sys_addr :: sockaddr

record unix_addr =
  ux_len :: nat
  ux_path :: string

definition build_unix_address :: "string \<Rightarrow> unix_addr option" where
  "build_unix_address socket_path =
     (if length socket_path > MAX_UNIX_SOCKET_PATH then None
      else Some \<lparr>ux_len = SUN_PATH_OFFSET + length socket_path + 1, ux_path = socket_path\<rparr>)"

text \<open>No result: the address is of a type the code asserts it is not.\<close>

definition addr_socket_to_sys :: "BAddr \<Rightarrow> sys_addr option" where
  "addr_socket_to_sys addr =
     (case addr of
        BAddr_IPv4 ip port \<Rightarrow> Some \<lparr>sys_len = 16, sys_addr = Sockaddr_in port ip\<rparr>
      | BAddr_IPv6 ip port \<Rightarrow> Some \<lparr>sys_len = 28, sys_addr = Sockaddr_in6 port 0 ip 0\<rparr>
      | BAddr_None \<Rightarrow> None)"

definition addr_sys_to_socket :: "sys_addr \<Rightarrow> BAddr" where
  "addr_sys_to_socket addr =
     (case sys_addr addr of
        Sockaddr_in port ip \<Rightarrow> BAddr_IPv4 ip port
      | Sockaddr_in6 port flow ip scope \<Rightarrow> BAddr_IPv6 ip port
      | Sockaddr_other \<Rightarrow> BAddr_None)"

definition BConnection_AddressSupported :: "BAddr \<Rightarrow> bool" where
  "BConnection_AddressSupported addr \<longleftrightarrow> BAddr_type addr = 1 \<or> BAddr_type addr = 2"

datatype BLisCon_from = BLISCON_FROM_ADDR BAddr | BLISCON_FROM_UNIX string

section \<open>Listeners\<close>

record BListener =
  ls_unix_socket_path :: "string option"
  ls_fd :: int
  ls_bfd :: nat
  ls_default_job :: nat

definition set_jobs_of :: "((nat, nat) BPendingGroup \<Rightarrow> (nat, nat) BPendingGroup) \<Rightarrow> BReactor \<Rightarrow> BReactor" where
  "set_jobs_of f r = r\<lparr>rx_jobs := f (rx_jobs r)\<rparr>"

text \<open>The answers: \<open>b_strdup\<close>, \<open>socket\<close>, the setting of non-blocking mode, \<open>unlink\<close> (for a path), \<open>bind\<close>, \<open>listen\<close>, and the registration with
  the reactor. The result is the listener, if it was set up, and the descriptors closed.\<close>

definition BListener_InitFrom ::
  "BLisCon_from \<Rightarrow> bool \<Rightarrow> int option \<Rightarrow> bool \<Rightarrow> bool \<Rightarrow> bool \<Rightarrow> bool \<Rightarrow> bool \<Rightarrow> BListener \<Rightarrow> BReactor \<Rightarrow>
   BListener option \<times> BReactor \<times> int list" where
  "BListener_InitFrom src dup sock nonblock unlinked bound listening add l r =
     (let l = l\<lparr>ls_unix_socket_path := (case src of BLISCON_FROM_ADDR _ \<Rightarrow> None | BLISCON_FROM_UNIX path \<Rightarrow> Some path)\<rparr>;
          usable = (case src of BLISCON_FROM_ADDR addr \<Rightarrow> BConnection_AddressSupported addr
                    | BLISCON_FROM_UNIX path \<Rightarrow> dup \<and> build_unix_address path \<noteq> None);
          unlinked = (case src of BLISCON_FROM_ADDR _ \<Rightarrow> True | BLISCON_FROM_UNIX _ \<Rightarrow> unlinked)
      in if \<not> usable then (None, r, [])
         else case sock of None \<Rightarrow> (None, r, [])
         | Some fd \<Rightarrow>
             let l = l\<lparr>ls_fd := fd\<rparr> in
             if \<not> nonblock \<or> \<not> unlinked \<or> \<not> bound \<or> \<not> listening then (None, r, [fd])
             else
               let r = BFileDescriptor_Init (ls_bfd l) r; (ok, r) = BReactor_AddFileDescriptor add (ls_bfd l) r in
               if \<not> ok then (None, r, [fd])
               else
                 let r = BReactor_SetFileDescriptorEvents (ls_bfd l) BREACTOR_READ r
                 in (Some l, set_jobs_of (BSmallPending_Init (ls_default_job l) H_OWN_JOB) r, []))"

definition BListener_Free :: "BListener \<Rightarrow> BReactor \<Rightarrow> BReactor \<times> int list" where
  "BListener_Free l r =
     (BReactor_RemoveFileDescriptor (ls_bfd l) (set_jobs_of (BSmallPending_Free (ls_default_job l)) r), [ls_fd l])"

text \<open>The handler of the descriptor, up to the call of the user's; the job that discards the connection accepts it and
  closes it, if \<open>accept\<close> succeeds.\<close>

definition listener_fd_handler :: "BListener \<Rightarrow> BReactor \<Rightarrow> BReactor" where
  "listener_fd_handler l = set_jobs_of (BSmallPending_Set (ls_default_job l))"

definition listener_default_job_handler :: "(int \<times> sys_addr) option \<Rightarrow> int list" where
  "listener_default_job_handler accept = (case accept of None \<Rightarrow> [] | Some (newfd, addr) \<Rightarrow> [newfd])"

section \<open>Connectors\<close>

record BConnector =
  ct_job :: nat
  ct_fd :: int
  ct_connected :: bool
  ct_have_bfd :: bool
  ct_bfd :: nat

datatype connect_answer = ConnectDone | ConnectInProgress | ConnectFailed

definition BConnector_InitFrom ::
  "BLisCon_from \<Rightarrow> int option \<Rightarrow> bool \<Rightarrow> connect_answer \<Rightarrow> bool \<Rightarrow> BConnector \<Rightarrow> BReactor \<Rightarrow> BConnector option \<times> BReactor \<times> int list" where
  "BConnector_InitFrom src sock nonblock connect add t r =
     (let usable = (case src of BLISCON_FROM_ADDR addr \<Rightarrow> BConnection_AddressSupported addr
                    | BLISCON_FROM_UNIX path \<Rightarrow> build_unix_address path \<noteq> None)
      in if \<not> usable then (None, r, [])
         else
           let r = set_jobs_of (BSmallPending_Init (ct_job t) H_OWN_JOB) r;
               fail1 = (\<lambda>r. set_jobs_of (BSmallPending_Free (ct_job t)) r)
           in case sock of None \<Rightarrow> (None, fail1 r, [])
              | Some fd \<Rightarrow>
                  if \<not> nonblock \<or> connect = ConnectFailed then (None, fail1 r, [fd])
                  else
                    let t = t\<lparr>ct_fd := fd, ct_connected := False, ct_have_bfd := False\<rparr> in
                    if connect = ConnectInProgress then
                      let r = BFileDescriptor_Init (ct_bfd t) r; (ok, r) = BReactor_AddFileDescriptor add (ct_bfd t) r in
                      if \<not> ok then (None, fail1 r, [fd])
                      else (Some (t\<lparr>ct_have_bfd := True\<rparr>), BReactor_SetFileDescriptorEvents (ct_bfd t) BREACTOR_WRITE r, [])
                    else (Some (t\<lparr>ct_connected := True\<rparr>), set_jobs_of (BSmallPending_Set (ct_job t)) r, []))"

text \<open>\<open>so_error\<close> is what \<open>getsockopt\<close> reads, if it succeeds. The result is what the user's handler is told (\<open>is_error\<close>).\<close>

definition connector_fd_handler :: "int option \<Rightarrow> BConnector \<Rightarrow> BReactor \<Rightarrow> bool \<times> BConnector \<times> BReactor" where
  "connector_fd_handler so_error t r =
     (let r = BReactor_RemoveFileDescriptor (ct_bfd t) r;
          t = t\<lparr>ct_have_bfd := False\<rparr>;
          t = (if so_error = Some 0 then t\<lparr>ct_connected := True\<rparr> else t)
      in (\<not> ct_connected t, t, r))"

definition connector_job_handler :: "BConnector \<Rightarrow> bool" where
  "connector_job_handler t = False"

definition BConnector_Free :: "BConnector \<Rightarrow> BReactor \<Rightarrow> BReactor \<times> int list" where
  "BConnector_Free t r =
     (let r = (if ct_have_bfd t then BReactor_RemoveFileDescriptor (ct_bfd t) r else r)
      in (set_jobs_of (BSmallPending_Free (ct_job t)) r, if ct_fd t \<noteq> -1 then [ct_fd t] else []))"

section \<open>Initialisation of a connection\<close>

text \<open>A source: a listener and the place for the address of the peer, a connector, or a descriptor and whether to close it.\<close>

datatype BConnection_source = Source_listener BListener BAddr | Source_connector BConnector | Source_pipe int bool

text \<open>\<open>c\<close> is the object, with the addresses of its parts. The descriptor is taken from the source; it is closed on failure if the
  connection owns it.\<close>

definition source_fd ::
  "BConnection_source \<Rightarrow> (int \<times> sys_addr) option \<Rightarrow> bool \<Rightarrow> BReactor \<Rightarrow> (int \<times> bool \<times> bool) option \<times> BConnection_source \<times> BReactor" where
  "source_fd source accept nonblock r =
     (case source of
        Source_listener l out_addr \<Rightarrow>
          let r = set_jobs_of (BSmallPending_Unset (ls_default_job l)) r in
          (case accept of None \<Rightarrow> (None, source, r)
           | Some (fd, addr) \<Rightarrow>
               (Some (fd, True, nonblock), if nonblock then Source_listener l (addr_sys_to_socket addr) else source, r))
      | Source_connector t \<Rightarrow> (Some (ct_fd t, True, True), Source_connector (t\<lparr>ct_fd := -1\<rparr>), r)
      | Source_pipe fd close_it \<Rightarrow> (Some (fd, close_it, nonblock), source, r))"

definition BConnection_Init ::
  "BConnection_source \<Rightarrow> (int \<times> sys_addr) option \<Rightarrow> bool \<Rightarrow> bool \<Rightarrow> BConnection \<Rightarrow> BReactor \<Rightarrow>
   BConnection option \<times> BConnection_source \<times> BReactor \<times> int list" where
  "BConnection_Init source accept nonblock add c r =
     (let (got, source, r) = source_fd source accept nonblock r in
      case got of None \<Rightarrow> (None, source, r, [])
      | Some (fd, close_fd, ready) \<Rightarrow>
          let c = c\<lparr>cn_fd := fd, cn_close_fd := close_fd\<rparr>; closed = (if close_fd then [fd] else []) in
          if \<not> ready then (None, source, r, closed)
          else
            let c = c\<lparr>cn_is_hupd := False\<rparr>;
                r = BFileDescriptor_Init (cn_bfd c) r;
                (ok, r) = BReactor_AddFileDescriptor add (cn_bfd c) r
            in if \<not> ok then (None, source, r, closed)
               else
                 let c = c\<lparr>cn_wait_events := 0\<rparr>;
                     r = BReactorLimit_Init (cn_send_limit c) BCONNECTION_SEND_LIMIT r;
                     r = BReactorLimit_Init (cn_recv_limit c) BCONNECTION_RECV_LIMIT r;
                     c = c\<lparr>cn_send_state := SEND_STATE_NOT_INITED, cn_recv_state := RECV_STATE_NOT_INITED, cn_d_err := False\<rparr>
                 in (Some c, source, r, []))"

text \<open>A new connection, before anything was transferred.\<close>

definition conn_start :: "(nat \<Rightarrow> byte list) \<Rightarrow> BConnection \<Rightarrow> BReactor \<Rightarrow> conn_world" where
  "conn_start mem c r =
     \<lparr>cw_rx = r, cw_alive = True, cw_o = c, cw_mem = mem, cw_written = [], cw_confirmed = [], cw_read = [], cw_delivered = [],
      cw_events = [], cw_sockerr = False, cw_lost_send = False, cw_lost_recv = False, cw_closed = []\<rparr>"

section \<open>A new connection\<close>

definition conn_fresh :: "BConnection \<Rightarrow> BReactor \<Rightarrow> bool" where
  "conn_fresh c r \<longleftrightarrow>
     distinct (own_jobs c) \<and> distinct (own_limits c) \<and> (\<forall>j\<in>set (own_jobs c). job_handler (rx_jobs r) j = None) \<and>
     (\<forall>l\<in>set (own_limits c). rx_limit r l = None) \<and> \<not> fd_active (rx_fd r (cn_bfd c))"

lemma source_keeps:
  assumes inv: "rx_inv r" "reg_ok r" and s: "source_fd source accept nonblock r = (got, source', r')"
  shows "rx_inv r'" "reg_ok r'" "job_handler (rx_jobs r') = job_handler (rx_jobs r)" "rx_limit r' = rx_limit r" "rx_fd r' = rx_fd r"
proof -
  have "r' = r \<or> (\<exists>j. r' = set_jobs_of (BSmallPending_Unset j) r)"
    using s by (auto simp: source_fd_def Let_def split: BConnection_source.splits option.splits)
  moreover have "group_inv (BSmallPending_Unset j (rx_jobs r))" for j using inv(1) by (simp add: unset_inv rx_inv_def)
  ultimately show "rx_inv r'" "reg_ok r'" "job_handler (rx_jobs r') = job_handler (rx_jobs r)" "rx_limit r' = rx_limit r" "rx_fd r' = rx_fd r"
    using inv rx_jobs_inv [OF inv(1)] by (auto simp: set_jobs_of_def)
qed

lemma init_conn_inv:
  assumes inv: "rx_inv r" "reg_ok r" and new: "conn_fresh c r"
    and s: "BConnection_Init source accept nonblock add c r = (Some c', source', r', closed)"
  shows "conn_inv (conn_start mem c' r')"
proof -
  obtain got src1 r1 where s1: "source_fd source accept nonblock r = (got, src1, r1)" using prod_cases3 by blast
  obtain fd cl ready where g: "got = Some (fd, cl, ready)" using s s1 by (cases got) (auto simp: BConnection_Init_def)
  note k = source_keeps [OF inv s1]
  obtain ok r2 where a: "BReactor_AddFileDescriptor add (cn_bfd c) (BFileDescriptor_Init (cn_bfd c) r1) = (ok, r2)" by fastforce
  have ok: "ready" "ok" using s s1 g a by (auto simp: BConnection_Init_def Let_def split: if_splits)
  let ?c = "c\<lparr>cn_fd := fd, cn_close_fd := cl, cn_is_hupd := False, cn_wait_events := 0, cn_send_state := SEND_STATE_NOT_INITED,
    cn_recv_state := RECV_STATE_NOT_INITED, cn_d_err := False\<rparr>"
  define r3 where "r3 = BReactorLimit_Init (cn_send_limit c) BCONNECTION_SEND_LIMIT r2"
  define r4 where "r4 = BReactorLimit_Init (cn_recv_limit c) BCONNECTION_RECV_LIMIT r3"
  have e: "c' = ?c" "r' = r4" using s s1 g a ok by (simp_all add: BConnection_Init_def Let_def r4_def r3_def)
  have fr: "distinct (own_jobs c)" "distinct (own_limits c)" "\<forall>j\<in>set (own_jobs c). job_handler (rx_jobs r1) j = None"
    "\<forall>l\<in>set (own_limits c). rx_limit r1 l = None" "\<not> fd_active (rx_fd r1 (cn_bfd c))"
    using new k by (simp_all add: conn_fresh_def)
  note f = add_fd_rx [OF k(1,2) fr(5) a [unfolded eqTrueI [OF ok(2)]]]
  have 3: "rx_inv r3" "reg_ok r3" using init_limit_rx [OF f(1,2)] fr(4) f(4) by (simp_all add: r3_def own_limits_def)
  have 4: "rx_inv r4" "reg_ok r4" using init_limit_rx [OF 3] fr(2,4) f(4) by (simp_all add: r4_def r3_def own_limits_def BReactorLimit_Init_def)
  have r4: "rx_jobs r4 = rx_jobs r1" "rx_fd r4 = rx_fd r2" "\<forall>l\<in>set (own_limits c). rx_limit r4 l \<noteq> None"
    using f(3) by (simp_all add: r4_def r3_def BReactorLimit_Init_def own_limits_def)
  have "own_jobs ?c = own_jobs c" "own_limits ?c = own_limits c" by (simp_all add: own_jobs_def own_limits_def)
  then have "ids_part r4 ?c" using fr r4 by (simp add: ids_part_def)
  moreover have "fd_part r4 ?c" using f(5,6) r4(2) by (simp add: fd_part_def)
  moreover have "send_part (rx_jobs r4) ?c" "recv_part (rx_jobs r4) ?c" using fr(3) r4(1) by (simp_all add: send_part_def recv_part_def own_jobs_def)
  ultimately have "conn_base (conn_start mem ?c r4)" using 4 by (simp add: conn_base_def conn_start_def streams_part_def)
  then show ?thesis unfolding e by (rule conn_invI) (simp add: waits_part_def conn_start_def)
qed

section \<open>Descriptors are closed once\<close>

lemma init_closes:
  assumes "BConnection_Init source accept nonblock add c r = (res, source', r', closed)"
    "source_fd source accept nonblock r = (Some (fd, owns, ready), source', r1)"
  shows "closed @ (case res of None \<Rightarrow> [] | Some c' \<Rightarrow> if cn_close_fd c' then [cn_fd c'] else []) = (if owns then [fd] else [])"
  using assms by (auto simp: BConnection_Init_def Let_def split: prod.splits if_splits)

section \<open>Connections in use\<close>

definition conn_history :: "BConnection_source \<Rightarrow> conn_op list \<Rightarrow> conn_world \<Rightarrow> bool" where
  "conn_history source ops w \<longleftrightarrow>
     (\<exists>rops c accept nonblock add c' source' r' closed mem.
        rx.legal rops BReactor_Init \<and> conn_fresh c (rx.run rops BReactor_Init) \<and>
        BConnection_Init source accept nonblock add c (rx.run rops BReactor_Init) = (Some c', source', r', closed) \<and>
        cn.legal ops (conn_start mem c' r') \<and> w = cn.run ops (conn_start mem c' r'))"

lemma conn_historyI:
  assumes "rx.legal rops BReactor_Init" "conn_fresh c (rx.run rops BReactor_Init)"
    "BConnection_Init source accept nonblock add c (rx.run rops BReactor_Init) = (Some c', source', r', closed)"
    "cn.legal ops (conn_start mem c' r')"
  shows "conn_history source ops (cn.run ops (conn_start mem c' r'))"
  using assms unfolding conn_history_def by blast

lemma conn_history_inv:
  assumes "conn_history source ops w"
  shows "conn_inv w"
proof -
  obtain rops c accept nonblock add c' source' r' closed mem where h: "rx.legal rops BReactor_Init" "conn_fresh c (rx.run rops BReactor_Init)"
    "BConnection_Init source accept nonblock add c (rx.run rops BReactor_Init) = (Some c', source', r', closed)"
    "cn.legal ops (conn_start mem c' r')" "w = cn.run ops (conn_start mem c' r')"
    using assms unfolding conn_history_def by blast
  have "conn_inv (conn_start mem c' r')" by (rule init_conn_inv [OF reached_inv(1,2) [OF h(1) refl] h(2,3)])
  then show ?thesis using cn.run_inv h(4,5) by simp
qed

lemma conn_parts:
  assumes "conn_history source ops w" "cw_alive w"
  shows "rx_inv (cw_rx w)" "reg_ok (cw_rx w)" "fd_part (cw_rx w) (cw_o w)" "send_part (cw_jobs w) (cw_o w)" "recv_part (cw_jobs w) (cw_o w)"
    "streams_part w" "waits_part (cw_sockerr w) (cw_jobs w) (cw_o w)"
  using conn_history_inv [OF assms(1)] assms(2) by (simp_all add: conn_inv_def conn_base_def)


text \<open>C5. Nothing is lost or invented on the way: what the kernel took is, byte for byte and in order, what the user was told was
  sent, followed by the transfer he is about to be told of; what the kernel gave is what the user was told was
  received, followed by what is in his buffer and he is about to be told of.\<close>

theorem connection_streams:
  assumes "conn_history source ops w" "cw_alive w"
  shows "let i = cn_send_iface (cw_o w); k = cn_recv_iface (cw_o w) in
    (\<not> cw_lost_send w \<longrightarrow>
       cw_written w = cw_confirmed w \<or>
       cn_send_state (cw_o w) = SEND_STATE_READY \<and> spi_state i = STATE_DONE_PENDING \<and>
       0 < spi_done_len i \<and> spi_done_len i \<le> int (length (spi_data i)) \<and>
       cw_written w = cw_confirmed w @ take (nat (spi_done_len i)) (spi_data i)) \<and>
    (\<not> cw_lost_recv w \<longrightarrow>
       cw_read w = cw_delivered w \<or>
       cn_recv_state (cw_o w) = RECV_STATE_READY \<and> sri_state k = STATE_DONE_PENDING \<and>
       0 < sri_done_len k \<and> sri_done_len k \<le> sri_len k \<and>
       cw_read w = cw_delivered w @ take (nat (sri_done_len k)) (cw_mem w (sri_data k)))"
proof -
  let ?c = "cw_o w"
  note p = conn_parts [OF assms]
  have s: "cn_send_state ?c = SEND_STATE_READY \<and> 0 < spi_done_len (cn_send_iface ?c) \<and>
      spi_done_len (cn_send_iface ?c) \<le> int (length (spi_data (cn_send_iface ?c)))"
    if "cn_send_state ?c \<noteq> SEND_STATE_NOT_INITED" "spi_state (cn_send_iface ?c) = STATE_DONE_PENDING"
    using p(4) that by (cases "cn_send_state ?c") (simp_all add: send_part_def spi_inv.simps)
  have r: "cn_recv_state ?c = RECV_STATE_READY \<and> 0 < sri_done_len (cn_recv_iface ?c) \<and>
      sri_done_len (cn_recv_iface ?c) \<le> sri_len (cn_recv_iface ?c)"
    if "cn_recv_state ?c \<noteq> RECV_STATE_NOT_INITED" "sri_state (cn_recv_iface ?c) = STATE_DONE_PENDING"
    using p(5) that by (cases "cn_recv_state ?c") (simp_all add: recv_part_def sri_inv.simps)
  show ?thesis using p(6) s r by (simp add: streams_part_def Let_def split: if_splits)
qed



lemmas cn_eval =
  rx_eval cw_defs set_jobs_of_def source_fd_def BConnection_Init_def conn_start_def
  BConnection_SendAsync_Init_def BConnection_RecvAsync_Init_def StreamPassInterface_Init_def StreamRecvInterface_Init_def
  StreamPassInterface_Sender_Init_def StreamRecvInterface_Receiver_Init_def conn_turn_def dispatch_job_def dispatch_fd_def
  StreamPassInterface_job_operation_def StreamRecvInterface_job_operation_def StreamPassInterface_job_done_def StreamRecvInterface_job_done_def
  connection_send_if_handler_send_def connection_recv_if_handler_recv_def connection_recv_job_handler_def connection_fd_handler_def
  bconnection_send_def connection_recv_def send_done_def recv_done_def wait_for_fd_def set_wait_events_def increment_limit_def
  connection_report_error_def user_handler_sent_def user_handler_received_def turn_ok_for_def own_event_def error_event_def
  own_jobs_def own_limits_def conn_fresh_def

definition demo_c0 :: BConnection where
  "demo_c0 =
     \<lparr>cn_fd = 0, cn_close_fd = False, cn_is_hupd = False, cn_bfd = 7, cn_wait_events = 0, cn_send_limit = 20,
      cn_send_iface = fst (StreamPassInterface_Init 10 11 0 1 [] (BPendingGroup_Init :: (nat, nat) BPendingGroup)),
      cn_send_op_job = 10, cn_send_done_job = 11, cn_send_job = 12, cn_send_busy_data = [], cn_send_state = SEND_STATE_NOT_INITED,
      cn_recv_limit = 21, cn_recv_iface = fst (StreamRecvInterface_Init 13 14 0 1 0 (BPendingGroup_Init :: (nat, nat) BPendingGroup)),
      cn_recv_op_job = 13, cn_recv_done_job = 14, cn_recv_job = 15, cn_recv_busy_data = 0, cn_recv_busy_data_avail = 0,
      cn_recv_state = RECV_STATE_NOT_INITED, cn_d_err = False\<rparr>"

definition demo_conn :: "BConnection \<times> BReactor" where
  "demo_conn = (case BConnection_Init (Source_pipe 5 True) None True True demo_c0 BReactor_Init of (c, s, r, closed) \<Rightarrow> (the c, r))"

definition demo_cw :: conn_world where "demo_cw = conn_start (\<lambda>_. [0, 0, 0, 0]) (fst demo_conn) (snd demo_conn)"

definition demo_cops :: "conn_op list" where
  "demo_cops =
     [CO_RecvInit, CO_ReceiverInit, CO_SendInit, CO_SenderInit, CO_Recv 0 4, CO_Send [1, 2, 3], CO_Turn 0 [] (WrFail True) (RdFail True),
      CO_Turn 0 [] (WrFail True) (RdBytes [9, 8])]"

lemma demo_conn_init: "BConnection_Init (Source_pipe 5 True) None True True demo_c0 BReactor_Init = (Some (fst demo_conn), Source_pipe 5 True, snd demo_conn, [])"
  by (simp add: demo_conn_def demo_c0_def cn_eval)

lemma demo_fresh: "conn_fresh demo_c0 BReactor_Init"
  by (simp add: demo_c0_def cn_eval)

lemma demo_cw_legal: "cn.legal demo_cops demo_cw"
  by (simp add: demo_cops_def demo_cw_def demo_conn_def demo_c0_def cn_eval)

lemma demo_conn_history: "cn.legal ops demo_cw \<Longrightarrow> conn_history (Source_pipe 5 True) ops (cn.run ops demo_cw)"
  unfolding demo_cw_def by (rule conn_historyI [of "[]" demo_c0 _ None True True _ "Source_pipe 5 True" _ "[]"]) (simp_all add: demo_fresh demo_conn_init)


theorem connection_streams_witness:
  "let w = cn.run demo_cops demo_cw in cw_read w = [9, 8] \<and> cw_delivered w = [] \<and> take 2 (cw_mem w 0) = [9, 8]"
proof -
  have f: "cw_alive (cn.run demo_cops demo_cw)" "cw_read (cn.run demo_cops demo_cw) = [9, 8]" "cw_delivered (cn.run demo_cops demo_cw) = []"
    "\<not> cw_lost_recv (cn.run demo_cops demo_cw)" "sri_done_len (cn_recv_iface (cw_o (cn.run demo_cops demo_cw))) = 2"
    "sri_data (cn_recv_iface (cw_o (cn.run demo_cops demo_cw))) = 0"
    by (simp_all add: demo_cops_def demo_cw_def demo_conn_def demo_c0_def cn_eval)
  show ?thesis using connection_streams [OF demo_conn_history [OF demo_cw_legal] f(1)] f(2-6) by (simp add: Let_def)
qed



text \<open>The assumption on errors is needed: when an error event comes without a write event and \<open>write\<close> takes the bytes nevertheless,
  the request is done but the descriptor is still monitored for writing; the assertion of the handler then fails
  at the next write event.\<close>

theorem error_event_leaves_write:
  "let w = connection_fd_handler BREACTOR_ERROR (WrBytes 3) (RdFail True)
     (cn.run (demo_cops @ [CO_Turn 0 [] (WrFail True) (RdFail True)]) demo_cw) in
     cn_send_state (cw_o w) = SEND_STATE_READY \<and> has_write (cn_wait_events (cw_o w)) \<and> \<not> cn_d_err (cw_o w) \<and>
     fd_waitEvents (rx_fd (cw_rx w) 7) AND BREACTOR_WRITE \<noteq> 0"
  by (simp add: demo_cops_def demo_cw_def demo_conn_def demo_c0_def cn_eval has_write_def)

end
