(* ===== verification/Datagram.thy ===== *)
theory Datagram
  imports RxShare NetAddr
begin

text \<open>
  Datagram sockets: \<open>system/BDatagram_unix.c\<close>. A \<open>BDatagram\<close> lives in the reactor like the connections of theory \<open>Conn\<close>, with a
  file descriptor, two limits and seven jobs. It waits with sending until it has addresses, and with receiving until
  it is bound or has sent. The system calls are the environment: their answers are parameters. \<open>dgram_world\<close> holds the
  socket, the reactor, and what the kernel and the user of the socket have seen.
\<close>

section \<open>Addresses\<close>

datatype BIPAddr = BIPAddr_Invalid | BIPAddr_IPv4 u32 | BIPAddr_IPv6 "byte list"

text \<open>Socket addresses with those of the data link layer; of these the code uses six bytes of the physical address.\<close>

record packet_addr =
  pk_phys_proto :: u16
  pk_interface_index :: int
  pk_header_type :: int
  pk_packet_type :: int
  pk_phys_addr :: "byte list"

datatype dgram_addr = DAddr BAddr | DAddr_Packet packet_addr

abbreviation BADDR_PACKET_HEADER_TYPE_ETHERNET :: int where "BADDR_PACKET_HEADER_TYPE_ETHERNET \<equiv> 1"
abbreviation BADDR_PACKET_PACKET_TYPE_HOST :: int where "BADDR_PACKET_PACKET_TYPE_HOST \<equiv> 1"
abbreviation BADDR_PACKET_PACKET_TYPE_BROADCAST :: int where "BADDR_PACKET_PACKET_TYPE_BROADCAST \<equiv> 2"
abbreviation BADDR_PACKET_PACKET_TYPE_MULTICAST :: int where "BADDR_PACKET_PACKET_TYPE_MULTICAST \<equiv> 3"
abbreviation BADDR_PACKET_PACKET_TYPE_OTHERHOST :: int where "BADDR_PACKET_PACKET_TYPE_OTHERHOST \<equiv> 4"
abbreviation BADDR_PACKET_PACKET_TYPE_OUTGOING :: int where "BADDR_PACKET_PACKET_TYPE_OUTGOING \<equiv> 5"

abbreviation PACKET_HOST :: byte where "PACKET_HOST \<equiv> 0"
abbreviation PACKET_BROADCAST :: byte where "PACKET_BROADCAST \<equiv> 1"
abbreviation PACKET_MULTICAST :: byte where "PACKET_MULTICAST \<equiv> 2"
abbreviation PACKET_OTHERHOST :: byte where "PACKET_OTHERHOST \<equiv> 3"
abbreviation PACKET_OUTGOING :: byte where "PACKET_OUTGOING \<equiv> 4"

fun dgram_addr_type :: "dgram_addr \<Rightarrow> int" where
  "dgram_addr_type (DAddr a) = BAddr_type a"
| "dgram_addr_type (DAddr_Packet p) = 5"

definition BDatagram_AddressFamilySupported :: "int \<Rightarrow> bool" where
  "BDatagram_AddressFamilySupported family \<longleftrightarrow> family = 1 \<or> family = 2 \<or> family = 5"

text \<open>Addresses for the system calls, with their length: Internet addresses of both versions (port and address; port, flow,
  address and scope), those of the data link layer, and any other family.\<close>

record sockaddr_ll =
  sll_protocol :: u16
  sll_ifindex :: int
  sll_hatype :: u16
  sll_pkttype :: byte
  sll_halen :: byte
  sll_addr :: "byte list"

datatype dgram_sockaddr = DS_in u16 u32 | DS_in6 u16 u32 "byte list" u32 | DS_ll sockaddr_ll | DS_other

record dgram_sys_addr =
  ds_len :: nat
  ds_addr :: dgram_sockaddr

abbreviation SLL_ADDR_OFFSET :: nat where "SLL_ADDR_OFFSET \<equiv> 12"

definition packet_type_to_sys :: "int \<Rightarrow> byte" where
  "packet_type_to_sys t =
     (if t = BADDR_PACKET_PACKET_TYPE_HOST then PACKET_HOST
      else if t = BADDR_PACKET_PACKET_TYPE_BROADCAST then PACKET_BROADCAST
      else if t = BADDR_PACKET_PACKET_TYPE_MULTICAST then PACKET_MULTICAST
      else if t = BADDR_PACKET_PACKET_TYPE_OTHERHOST then PACKET_OTHERHOST
      else if t = BADDR_PACKET_PACKET_TYPE_OUTGOING then PACKET_OUTGOING
      else 0)"

definition packet_type_from_sys :: "byte \<Rightarrow> int option" where
  "packet_type_from_sys t =
     (if t = PACKET_HOST then Some BADDR_PACKET_PACKET_TYPE_HOST
      else if t = PACKET_BROADCAST then Some BADDR_PACKET_PACKET_TYPE_BROADCAST
      else if t = PACKET_MULTICAST then Some BADDR_PACKET_PACKET_TYPE_MULTICAST
      else if t = PACKET_OTHERHOST then Some BADDR_PACKET_PACKET_TYPE_OTHERHOST
      else if t = PACKET_OUTGOING then Some BADDR_PACKET_PACKET_TYPE_OUTGOING
      else None)"

text \<open>The address without type and packet types not listed do not occur: the code asserts it.\<close>

fun dgram_addr_socket_to_sys :: "dgram_addr \<Rightarrow> dgram_sys_addr" where
  "dgram_addr_socket_to_sys (DAddr (BAddr_IPv4 ip port)) = \<lparr>ds_len = 16, ds_addr = DS_in port ip\<rparr>"
| "dgram_addr_socket_to_sys (DAddr (BAddr_IPv6 ip port)) = \<lparr>ds_len = 28, ds_addr = DS_in6 port 0 ip 0\<rparr>"
| "dgram_addr_socket_to_sys (DAddr_Packet p) =
     \<lparr>ds_len = 20, ds_addr = DS_ll
       \<lparr>sll_protocol = pk_phys_proto p, sll_ifindex = pk_interface_index p, sll_hatype = 1,
        sll_pkttype = packet_type_to_sys (pk_packet_type p), sll_halen = 6, sll_addr = take 6 (pk_phys_addr p) @ [0, 0]\<rparr>\<rparr>"
| "dgram_addr_socket_to_sys (DAddr BAddr_None) = \<lparr>ds_len = 0, ds_addr = DS_other\<rparr>"

definition dgram_addr_sys_to_socket :: "dgram_sys_addr \<Rightarrow> dgram_addr" where
  "dgram_addr_sys_to_socket addr =
     (case ds_addr addr of
        DS_in port ip \<Rightarrow> DAddr (BAddr_IPv4 ip port)
      | DS_in6 port flow ip scope \<Rightarrow> DAddr (BAddr_IPv6 ip port)
      | DS_ll a \<Rightarrow>
          if ds_len addr < SLL_ADDR_OFFSET + 6 \<or> sll_hatype a \<noteq> 1 then DAddr BAddr_None
          else
            (case packet_type_from_sys (sll_pkttype a) of None \<Rightarrow> DAddr BAddr_None
             | Some packet_type \<Rightarrow>
                 if sll_halen a \<noteq> 6 then DAddr BAddr_None
                 else
                   DAddr_Packet \<lparr>pk_phys_proto = sll_protocol a, pk_interface_index = sll_ifindex a,
                     pk_header_type = BADDR_PACKET_HEADER_TYPE_ETHERNET, pk_packet_type = packet_type,
                     pk_phys_addr = take 6 (sll_addr a)\<rparr>)
      | DS_other \<Rightarrow> DAddr BAddr_None)"

text \<open>The addresses for which the code makes no assertion fail.\<close>

fun dgram_addr_ok :: "dgram_addr \<Rightarrow> bool" where
  "dgram_addr_ok (DAddr a) \<longleftrightarrow> a \<noteq> BAddr_None \<and> addr_wf a"
| "dgram_addr_ok (DAddr_Packet p) \<longleftrightarrow>
     pk_header_type p = BADDR_PACKET_HEADER_TYPE_ETHERNET \<and> 1 \<le> pk_packet_type p \<and> pk_packet_type p \<le> 5 \<and> length (pk_phys_addr p) = 6"

section \<open>State\<close>

abbreviation BDATAGRAM_SEND_LIMIT :: int where "BDATAGRAM_SEND_LIMIT \<equiv> 2"
abbreviation BDATAGRAM_RECV_LIMIT :: int where "BDATAGRAM_RECV_LIMIT \<equiv> 2"

text \<open>The jobs, the descriptor and the limits are parts of the object, identified by their addresses; the first three jobs of the
  send side and the first two of the receive side are those of the interfaces. \<open>dg_d_err\<close>: an error was reported.\<close>

record BDatagram =
  dg_fd :: int
  dg_bfd :: nat
  dg_wait_events :: u32
  dg_send_limit :: nat
  dg_send_have_addrs :: bool
  dg_send_remote_addr :: dgram_addr
  dg_send_local_addr :: BIPAddr
  dg_send_inited :: bool
  dg_send_mtu :: int
  dg_send_iface :: "(nat, byte list) PacketPassInterface"
  dg_send_op_job :: nat
  dg_send_cancel_job :: nat
  dg_send_done_job :: nat
  dg_send_job :: nat
  dg_send_busy :: bool
  dg_send_busy_data :: "byte list"
  dg_send_busy_data_len :: int
  dg_recv_limit :: nat
  dg_recv_started :: bool
  dg_recv_have_addrs :: bool
  dg_recv_remote_addr :: dgram_addr
  dg_recv_local_addr :: BIPAddr
  dg_recv_inited :: bool
  dg_recv_mtu :: int
  dg_recv_iface :: "(nat, nat) PacketRecvInterface"
  dg_recv_op_job :: nat
  dg_recv_done_job :: nat
  dg_recv_job :: nat
  dg_recv_busy :: bool
  dg_recv_busy_data :: nat
  dg_d_err :: bool

text \<open>Control messages: the information on the local address for both Internet protocols, and others.\<close>

record in_pktinfo =
  ipi_spec_dst :: u32
  ipi_addr :: u32

datatype cmsg = CMSG_IP_PKTINFO in_pktinfo | CMSG_IPV6_PKTINFO "byte list" | CMSG_other

record dgram_msg =
  msg_name :: dgram_sys_addr
  msg_control :: "cmsg list"
  msg_data :: "byte list"

text \<open>\<open>dw_sent\<close> and \<open>dw_received\<close> are the messages the kernel took and gave; \<open>dw_confirmed\<close> the packets the user was told were sent;
  \<open>dw_delivered\<close> those he was told were received, with the addresses the socket then tells him; \<open>dw_errors\<close> the calls of
  his handler; \<open>dw_sockerr\<close> says that the kernel holds an error for the next call; \<open>dw_lost_send\<close> and \<open>dw_lost_recv\<close> that an
  interface was freed when the user had not been told of the last packet; \<open>dw_closed\<close> the descriptors closed.\<close>

record dgram_world =
  dw_rx :: BReactor
  dw_alive :: bool
  dw_o :: BDatagram
  dw_mem :: "nat \<Rightarrow> byte list"
  dw_sent :: "dgram_msg list"
  dw_confirmed :: "byte list list"
  dw_received :: "dgram_msg list"
  dw_delivered :: "(dgram_addr \<times> BIPAddr \<times> byte list) list"
  dw_errors :: nat
  dw_sockerr :: bool
  dw_lost_send :: bool
  dw_lost_recv :: bool
  dw_closed :: "int list"

text \<open>What \<open>sendmsg\<close> and \<open>recvmsg\<close> return; a failure may say that the call would block.\<close>

datatype sm_answer = SmBytes nat | SmFail bool
datatype rm_answer = RmMsg dgram_msg | RmFail bool

definition dupd_o :: "(BDatagram \<Rightarrow> BDatagram) \<Rightarrow> dgram_world \<Rightarrow> dgram_world" where
  "dupd_o f w = w\<lparr>dw_o := f (dw_o w)\<rparr>"

definition dupd_rx :: "(BReactor \<Rightarrow> BReactor) \<Rightarrow> dgram_world \<Rightarrow> dgram_world" where
  "dupd_rx f w = w\<lparr>dw_rx := f (dw_rx w)\<rparr>"

definition dupd_jobs :: "((nat, nat) BPendingGroup \<Rightarrow> (nat, nat) BPendingGroup) \<Rightarrow> dgram_world \<Rightarrow> dgram_world" where
  "dupd_jobs f = dupd_rx (\<lambda>r. r\<lparr>rx_jobs := f (rx_jobs r)\<rparr>)"

abbreviation dw_jobs :: "dgram_world \<Rightarrow> (nat, nat) BPendingGroup" where "dw_jobs w \<equiv> rx_jobs (dw_rx w)"

section \<open>Sending and receiving\<close>

definition dgram_report_error :: "dgram_world \<Rightarrow> dgram_world" where
  "dgram_report_error w = dupd_o (\<lambda>c. c\<lparr>dg_d_err := True\<rparr>) (w\<lparr>dw_errors := dw_errors w + 1\<rparr>)"

definition dgram_set_events :: "u32 \<Rightarrow> dgram_world \<Rightarrow> dgram_world" where
  "dgram_set_events e w =
     dupd_rx (BReactor_SetFileDescriptorEvents (dg_bfd (dw_o w)) e) (dupd_o (\<lambda>c. c\<lparr>dg_wait_events := e\<rparr>) w)"

definition dgram_wait :: "u32 \<Rightarrow> dgram_world \<Rightarrow> dgram_world" where
  "dgram_wait e w = dgram_set_events (dg_wait_events (dw_o w) OR e) w"

text \<open>The message of a send request: the remote address, and the local one as control data.\<close>

definition send_control :: "BIPAddr \<Rightarrow> cmsg list" where
  "send_control local =
     (case local of
        BIPAddr_IPv4 ip \<Rightarrow> [CMSG_IP_PKTINFO \<lparr>ipi_spec_dst = ip, ipi_addr = 0\<rparr>]
      | BIPAddr_IPv6 ip \<Rightarrow> [CMSG_IPV6_PKTINFO ip]
      | BIPAddr_Invalid \<Rightarrow> [])"

definition send_msg :: "BDatagram \<Rightarrow> dgram_msg" where
  "send_msg c =
     \<lparr>msg_name = dgram_addr_socket_to_sys (dg_send_remote_addr c), msg_control = send_control (dg_send_local_addr c),
      msg_data = take (nat (dg_send_busy_data_len c)) (dg_send_busy_data c)\<rparr>"

text \<open>The local address of a received message is the last one its control data have.\<close>

fun read_control :: "BIPAddr \<Rightarrow> cmsg list \<Rightarrow> BIPAddr" where
  "read_control local [] = local"
| "read_control local (CMSG_IP_PKTINFO p # cs) = read_control (BIPAddr_IPv4 (ipi_addr p)) cs"
| "read_control local (CMSG_IPV6_PKTINFO ip # cs) = read_control (BIPAddr_IPv6 ip) cs"
| "read_control local (CMSG_other # cs) = read_control local cs"

text \<open>After the socket was bound, also by sending, it can receive.\<close>

definition start_recv :: "dgram_world \<Rightarrow> dgram_world" where
  "start_recv w =
     (if \<not> dg_recv_started (dw_o w) then
        let w = dupd_o (\<lambda>c. c\<lparr>dg_recv_started := True\<rparr>) w in
        if dg_recv_inited (dw_o w) \<and> dg_recv_busy (dw_o w) then dupd_jobs (BSmallPending_Set (dg_recv_job (dw_o w))) w else w
      else w)"

definition dgram_send_done :: "dgram_world \<Rightarrow> dgram_world" where
  "dgram_send_done w =
     (let (i, g) = PacketPassInterface_Done (dg_send_iface (dw_o w), dw_jobs w)
      in dupd_jobs (\<lambda>_. g) (dupd_o (\<lambda>c. c\<lparr>dg_send_iface := i\<rparr>) w))"

definition dgram_recv_done :: "nat \<Rightarrow> dgram_world \<Rightarrow> dgram_world" where
  "dgram_recv_done n w =
     (let (i, g) = PacketRecvInterface_Done (int n) (dg_recv_iface (dw_o w), dw_jobs w)
      in dupd_jobs (\<lambda>_. g) (dupd_o (\<lambda>c. c\<lparr>dg_recv_iface := i\<rparr>) w))"

definition do_send :: "sm_answer \<Rightarrow> dgram_world \<Rightarrow> dgram_world" where
  "do_send a w =
     (let (ok, r) = BReactorLimit_Increment (dg_send_limit (dw_o w)) (dw_rx w); w = w\<lparr>dw_rx := r\<rparr> in
      if \<not> ok then dgram_wait BREACTOR_WRITE w
      else
        case a of
          SmFail would_block \<Rightarrow> if would_block then dgram_wait BREACTOR_WRITE w else dgram_report_error w
        | SmBytes bytes \<Rightarrow>
            let w = w\<lparr>dw_sent := dw_sent w @ [send_msg (dw_o w)]\<rparr>;
                w = start_recv w;
                w = dupd_o (\<lambda>c. c\<lparr>dg_send_busy := False\<rparr>) w
            in dgram_send_done w)"

definition do_recv :: "rm_answer \<Rightarrow> dgram_world \<Rightarrow> dgram_world" where
  "do_recv a w =
     (let (ok, r) = BReactorLimit_Increment (dg_recv_limit (dw_o w)) (dw_rx w); w = w\<lparr>dw_rx := r\<rparr> in
      if \<not> ok then dgram_wait BREACTOR_READ w
      else
        case a of
          RmFail would_block \<Rightarrow> if would_block then dgram_wait BREACTOR_READ w else dgram_report_error w
        | RmMsg m \<Rightarrow>
            let p = dg_recv_busy_data (dw_o w);
                bs = msg_data m;
                w = w\<lparr>dw_mem := (dw_mem w)(p := bs @ drop (length bs) (dw_mem w p)), dw_received := dw_received w @ [m]\<rparr>;
                w = dupd_o (\<lambda>c. c\<lparr>dg_recv_remote_addr := dgram_addr_sys_to_socket (msg_name m),
                       dg_recv_local_addr := read_control BIPAddr_Invalid (msg_control m)\<rparr>) w;
                w = dupd_o (\<lambda>c. c\<lparr>dg_recv_have_addrs := True, dg_recv_busy := False\<rparr>) w
            in dgram_recv_done (length bs) w)"

definition dgram_fd_handler :: "u32 \<Rightarrow> sm_answer \<Rightarrow> rm_answer \<Rightarrow> dgram_world \<Rightarrow> dgram_world" where
  "dgram_fd_handler events sa ra w =
     (let w = dgram_set_events (dg_wait_events (dw_o w) AND NOT events) w; c = dw_o w;
          have_send = (events AND BREACTOR_WRITE \<noteq> 0 \<or>
            events AND (BREACTOR_ERROR OR BREACTOR_HUP) \<noteq> 0 \<and> dg_send_inited c \<and> dg_send_busy c \<and> dg_send_have_addrs c);
          have_recv = (events AND BREACTOR_READ \<noteq> 0 \<or>
            events AND (BREACTOR_ERROR OR BREACTOR_HUP) \<noteq> 0 \<and> dg_recv_inited c \<and> dg_recv_busy c \<and> dg_recv_started c)
      in if have_send then
           let w = (if have_recv then dupd_jobs (BSmallPending_Set (dg_recv_job c)) w else w)
           in do_send sa w
         else if have_recv then do_recv ra w
         else dgram_report_error w)"

definition dgram_send_job_handler :: "sm_answer \<Rightarrow> dgram_world \<Rightarrow> dgram_world" where
  "dgram_send_job_handler sa w = do_send sa w"

definition dgram_recv_job_handler :: "rm_answer \<Rightarrow> dgram_world \<Rightarrow> dgram_world" where
  "dgram_recv_job_handler ra w = do_recv ra w"

definition send_if_handler_send :: "byte list \<Rightarrow> int \<Rightarrow> dgram_world \<Rightarrow> dgram_world" where
  "send_if_handler_send data data_len w =
     (let w = dupd_o (\<lambda>c. c\<lparr>dg_send_busy_data := data, dg_send_busy_data_len := data_len, dg_send_busy := True\<rparr>) w in
      if \<not> dg_send_have_addrs (dw_o w) then w else dupd_jobs (BSmallPending_Set (dg_send_job (dw_o w))) w)"

definition recv_if_handler_recv :: "nat \<Rightarrow> dgram_world \<Rightarrow> dgram_world" where
  "recv_if_handler_recv data w =
     (let w = dupd_o (\<lambda>c. c\<lparr>dg_recv_busy_data := data, dg_recv_busy := True\<rparr>) w in
      if \<not> dg_recv_started (dw_o w) then w else dupd_jobs (BSmallPending_Set (dg_recv_job (dw_o w))) w)"

section \<open>Setting up, addresses and taking down\<close>

text \<open>The answers of \<open>socket\<close>, of the setting of non-blocking mode, and of the registration with the reactor; \<open>c\<close> is the object
  with the addresses of its parts. The result is the socket, if it was set up, and the descriptors closed.\<close>

definition BDatagram_Init ::
  "int option \<Rightarrow> bool \<Rightarrow> bool \<Rightarrow> BDatagram \<Rightarrow> BReactor \<Rightarrow> BDatagram option \<times> BReactor \<times> int list" where
  "BDatagram_Init sock nonblock add c r =
     (case sock of None \<Rightarrow> (None, r, [])
      | Some fd \<Rightarrow>
          if \<not> nonblock then (None, r, [fd])
          else
            let c = c\<lparr>dg_fd := fd\<rparr>; r = BFileDescriptor_Init (dg_bfd c) r; (ok, r) = BReactor_AddFileDescriptor add (dg_bfd c) r in
            if \<not> ok then (None, r, [fd])
            else
              let c = c\<lparr>dg_wait_events := 0\<rparr>;
                  r = BReactorLimit_Init (dg_send_limit c) BDATAGRAM_SEND_LIMIT r;
                  r = BReactorLimit_Init (dg_recv_limit c) BDATAGRAM_RECV_LIMIT r;
                  c = c\<lparr>dg_send_have_addrs := False, dg_recv_have_addrs := False, dg_recv_started := False,
                    dg_send_inited := False, dg_recv_inited := False, dg_d_err := False\<rparr>
              in (Some c, r, []))"

definition BDatagram_Free :: "dgram_world \<Rightarrow> dgram_world" where
  "BDatagram_Free w =
     (let c = dw_o w;
          w = dupd_rx (BReactorLimit_Free (dg_recv_limit c)) w;
          w = dupd_rx (BReactorLimit_Free (dg_send_limit c)) w;
          w = dupd_rx (BReactor_RemoveFileDescriptor (dg_bfd c)) w
      in w\<lparr>dw_alive := False, dw_closed := dw_closed w @ [dg_fd c]\<rparr>)"

text \<open>\<open>bound\<close> is the answer of \<open>bind\<close> and the result.\<close>

definition BDatagram_Bind :: "bool \<Rightarrow> dgram_world \<Rightarrow> dgram_world" where
  "BDatagram_Bind bound w = (if \<not> bound then w else start_recv w)"

definition BDatagram_SetSendAddrs :: "dgram_addr \<Rightarrow> BIPAddr \<Rightarrow> dgram_world \<Rightarrow> dgram_world" where
  "BDatagram_SetSendAddrs remote local w =
     (let w = dupd_o (\<lambda>c. c\<lparr>dg_send_remote_addr := remote, dg_send_local_addr := local\<rparr>) w in
      if \<not> dg_send_have_addrs (dw_o w) then
        let w = dupd_o (\<lambda>c. c\<lparr>dg_send_have_addrs := True\<rparr>) w in
        if dg_send_inited (dw_o w) \<and> dg_send_busy (dw_o w) then dupd_jobs (BSmallPending_Set (dg_send_job (dw_o w))) w else w
      else w)"

definition BDatagram_GetLastReceiveAddrs :: "BDatagram \<Rightarrow> (dgram_addr \<times> BIPAddr) option" where
  "BDatagram_GetLastReceiveAddrs c = (if \<not> dg_recv_have_addrs c then None else Some (dg_recv_remote_addr c, dg_recv_local_addr c))"

definition BDatagram_SendAsync_Init :: "int \<Rightarrow> dgram_world \<Rightarrow> dgram_world" where
  "BDatagram_SendAsync_Init mtu w =
     (let c = dw_o w;
          (i, g) = PacketPassInterface_Init mtu (dg_send_op_job c) (dg_send_cancel_job c) (dg_send_done_job c) H_OPERATION H_REQUESTCANCEL
            H_DONE [] (dw_jobs w);
          g = BSmallPending_Init (dg_send_job c) H_OWN_JOB g
      in dupd_jobs (\<lambda>_. g)
           (dupd_o (\<lambda>c. c\<lparr>dg_send_mtu := mtu, dg_send_iface := i, dg_send_busy := False, dg_send_inited := True\<rparr>) w))"

definition BDatagram_SendAsync_Free :: "dgram_world \<Rightarrow> dgram_world" where
  "BDatagram_SendAsync_Free w =
     (let w = w\<lparr>dw_lost_send := dw_lost_send w \<or> ppi_state (dg_send_iface (dw_o w)) = STATE_DONE_PENDING\<rparr>;
          w = dgram_set_events (dg_wait_events (dw_o w) AND NOT BREACTOR_WRITE) w;
          w = dupd_jobs (BSmallPending_Free (dg_send_job (dw_o w))) w;
          w = dupd_jobs (PacketPassInterface_Free (dg_send_iface (dw_o w))) w
      in dupd_o (\<lambda>c. c\<lparr>dg_send_inited := False\<rparr>) w)"

definition BDatagram_RecvAsync_Init :: "int \<Rightarrow> dgram_world \<Rightarrow> dgram_world" where
  "BDatagram_RecvAsync_Init mtu w =
     (let c = dw_o w;
          (i, g) = PacketRecvInterface_Init mtu (dg_recv_op_job c) (dg_recv_done_job c) H_OPERATION H_DONE 0 (dw_jobs w);
          g = BSmallPending_Init (dg_recv_job c) H_OWN_JOB g
      in dupd_jobs (\<lambda>_. g)
           (dupd_o (\<lambda>c. c\<lparr>dg_recv_mtu := mtu, dg_recv_iface := i, dg_recv_busy := False, dg_recv_inited := True\<rparr>) w))"

definition BDatagram_RecvAsync_Free :: "dgram_world \<Rightarrow> dgram_world" where
  "BDatagram_RecvAsync_Free w =
     (let w = w\<lparr>dw_lost_recv := dw_lost_recv w \<or> pri_state (dg_recv_iface (dw_o w)) = STATE_DONE_PENDING\<rparr>;
          w = dgram_set_events (dg_wait_events (dw_o w) AND NOT BREACTOR_READ) w;
          w = dupd_jobs (BSmallPending_Free (dg_recv_job (dw_o w))) w;
          w = dupd_jobs (PacketRecvInterface_Free (dg_recv_iface (dw_o w))) w
      in dupd_o (\<lambda>c. c\<lparr>dg_recv_inited := False\<rparr>) w)"

section \<open>Histories\<close>

text \<open>The user's calls, the operations of other users of the reactor, and the turns of the loop, which dispatch to the
  socket what is its own. The conditions are those the code asserts and the documentation asks for: after an error the
  socket is only freed; an error that the kernel has signalled is what the next call returns.\<close>

datatype dgram_op =
  DO_Bind bool | DO_SetSendAddrs dgram_addr BIPAddr
| DO_SendInit int | DO_SendFree | DO_RecvInit int | DO_RecvFree | DO_SenderInit | DO_ReceiverInit
| DO_Send "byte list" | DO_Recv nat | DO_Free
| DO_Other rx_op | DO_Turn int "(ep_answer \<times> int) list" sm_answer rm_answer

definition dg_jobs :: "BDatagram \<Rightarrow> nat list" where
  "dg_jobs c = [dg_send_op_job c, dg_send_cancel_job c, dg_send_done_job c, dg_send_job c, dg_recv_op_job c, dg_recv_done_job c, dg_recv_job c]"

definition dsend_jobs :: "BDatagram \<Rightarrow> nat set" where
  "dsend_jobs c = {dg_send_op_job c, dg_send_cancel_job c, dg_send_done_job c, dg_send_job c}"

definition drecv_jobs :: "BDatagram \<Rightarrow> nat set" where
  "drecv_jobs c = {dg_recv_op_job c, dg_recv_done_job c, dg_recv_job c}"

definition dg_limits :: "BDatagram \<Rightarrow> nat list" where "dg_limits c = [dg_send_limit c, dg_recv_limit c]"

text \<open>The user of an interface is told of a packet that was sent; of one that was received, and asks for its addresses.\<close>

definition dgram_user_sent :: "dgram_world \<Rightarrow> dgram_world" where
  "dgram_user_sent w =
     (let i = dg_send_iface (dw_o w)
      in (dupd_o (\<lambda>c. c\<lparr>dg_send_iface := PacketPassInterface_job_done i\<rparr>) w)\<lparr>dw_confirmed := dw_confirmed w @ [ppi_data i]\<rparr>)"

definition dgram_user_received :: "dgram_world \<Rightarrow> dgram_world" where
  "dgram_user_received w =
     (let i = dg_recv_iface (dw_o w); (i', n) = PacketRecvInterface_job_done i;
          (remote, local) = (case BDatagram_GetLastReceiveAddrs (dw_o w) of None \<Rightarrow> (DAddr BAddr_None, BIPAddr_Invalid) | Some a \<Rightarrow> a)
      in (dupd_o (\<lambda>c. c\<lparr>dg_recv_iface := i'\<rparr>) w)
           \<lparr>dw_delivered := dw_delivered w @ [(remote, local, take (nat n) (dw_mem w (pri_data i)))]\<rparr>)"

definition dgram_dispatch_job :: "nat \<Rightarrow> sm_answer \<Rightarrow> rm_answer \<Rightarrow> dgram_world \<Rightarrow> dgram_world" where
  "dgram_dispatch_job j sa ra w =
     (let c = dw_o w in
      if j = dg_send_op_job c then
        let (i, data, len) = PacketPassInterface_job_operation (dg_send_iface c)
        in send_if_handler_send data len (dupd_o (\<lambda>c. c\<lparr>dg_send_iface := i\<rparr>) w)
      else if j = dg_send_cancel_job c then dupd_o (\<lambda>c. c\<lparr>dg_send_iface := PacketPassInterface_job_requestcancel (dg_send_iface c)\<rparr>) w
      else if j = dg_send_done_job c then dgram_user_sent w
      else if j = dg_send_job c then dgram_send_job_handler sa w
      else if j = dg_recv_op_job c then
        let (i, data) = PacketRecvInterface_job_operation (dg_recv_iface c)
        in recv_if_handler_recv data (dupd_o (\<lambda>c. c\<lparr>dg_recv_iface := i\<rparr>) w)
      else if j = dg_recv_done_job c then dgram_user_received w
      else if j = dg_recv_job c then dgram_recv_job_handler ra w
      else w)"

definition fd_trouble :: "u32 \<Rightarrow> bool" where
  "fd_trouble events \<longleftrightarrow> events AND (BREACTOR_ERROR OR BREACTOR_HUP) \<noteq> 0"

definition dgram_turn :: "int \<Rightarrow> (ep_answer \<times> int) list \<Rightarrow> sm_answer \<Rightarrow> rm_answer \<Rightarrow> dgram_world \<Rightarrow> dgram_world" where
  "dgram_turn now as sa ra w =
     (case exec_turn now as (dw_rx w) of None \<Rightarrow> w
      | Some (ev, r) \<Rightarrow>
          let w = w\<lparr>dw_rx := r\<rparr> in
          if \<not> dw_alive w then w
          else
            case ev of
              RX_Job j \<Rightarrow> dgram_dispatch_job j sa ra w
            | RX_Fd d events \<Rightarrow>
                if d = dg_bfd (dw_o w) then dgram_fd_handler events sa ra (w\<lparr>dw_sockerr := dw_sockerr w \<or> fd_trouble events\<rparr>) else w
            | _ \<Rightarrow> w)"

definition dg_own_event :: "BDatagram \<Rightarrow> rx_event \<Rightarrow> bool" where
  "dg_own_event c ev \<longleftrightarrow> (case ev of RX_Job j \<Rightarrow> j \<in> set (dg_jobs c) | RX_Fd d events \<Rightarrow> d = dg_bfd c | _ \<Rightarrow> False)"

definition trouble_event :: "rx_event \<Rightarrow> bool" where
  "trouble_event ev \<longleftrightarrow> (case ev of RX_Fd d events \<Rightarrow> fd_trouble events | _ \<Rightarrow> False)"

fun sm_answer_ok :: "bool \<Rightarrow> sm_answer \<Rightarrow> bool" where
  "sm_answer_ok err (SmBytes n) \<longleftrightarrow> \<not> err"
| "sm_answer_ok err (SmFail would_block) \<longleftrightarrow> \<not> (err \<and> would_block)"

fun rm_answer_ok :: "bool \<Rightarrow> int \<Rightarrow> rm_answer \<Rightarrow> bool" where
  "rm_answer_ok err mtu (RmMsg m) \<longleftrightarrow> \<not> err \<and> int (length (msg_data m)) \<le> mtu"
| "rm_answer_ok err mtu (RmFail would_block) \<longleftrightarrow> \<not> (err \<and> would_block)"

definition dg_turn_ok :: "sm_answer \<Rightarrow> rm_answer \<Rightarrow> rx_event \<Rightarrow> dgram_world \<Rightarrow> bool" where
  "dg_turn_ok sa ra ev w \<longleftrightarrow>
     (dg_own_event (dw_o w) ev \<longrightarrow>
        \<not> dg_d_err (dw_o w) \<and> sm_answer_ok (dw_sockerr w \<or> trouble_event ev) sa \<and>
        rm_answer_ok (dw_sockerr w \<or> trouble_event ev) (dg_recv_mtu (dw_o w)) ra)"

fun dgram_pre :: "dgram_op \<Rightarrow> dgram_world \<Rightarrow> bool" where
  "dgram_pre (DO_Bind bound) w \<longleftrightarrow> dw_alive w \<and> \<not> dg_d_err (dw_o w)"
| "dgram_pre (DO_SetSendAddrs remote local) w \<longleftrightarrow> dw_alive w \<and> \<not> dg_d_err (dw_o w) \<and> dgram_addr_ok remote"
| "dgram_pre (DO_SendInit mtu) w \<longleftrightarrow> dw_alive w \<and> \<not> dg_d_err (dw_o w) \<and> \<not> dg_send_inited (dw_o w) \<and> 0 \<le> mtu"
| "dgram_pre DO_SendFree w \<longleftrightarrow> dw_alive w \<and> dg_send_inited (dw_o w)"
| "dgram_pre (DO_RecvInit mtu) w \<longleftrightarrow> dw_alive w \<and> \<not> dg_d_err (dw_o w) \<and> \<not> dg_recv_inited (dw_o w) \<and> 0 \<le> mtu"
| "dgram_pre DO_RecvFree w \<longleftrightarrow> dw_alive w \<and> dg_recv_inited (dw_o w)"
| "dgram_pre DO_SenderInit w \<longleftrightarrow> dw_alive w \<and> dg_send_inited (dw_o w)"
| "dgram_pre DO_ReceiverInit w \<longleftrightarrow> dw_alive w \<and> dg_recv_inited (dw_o w)"
| "dgram_pre (DO_Send data) w \<longleftrightarrow>
     dw_alive w \<and> \<not> dg_d_err (dw_o w) \<and> dg_send_inited (dw_o w) \<and> int (length data) \<le> dg_send_mtu (dw_o w) \<and>
     ppi_has_user (dg_send_iface (dw_o w)) \<and> ppi_state (dg_send_iface (dw_o w)) = STATE_NONE"
| "dgram_pre (DO_Recv p) w \<longleftrightarrow>
     dw_alive w \<and> \<not> dg_d_err (dw_o w) \<and> dg_recv_inited (dw_o w) \<and>
     pri_has_user (dg_recv_iface (dw_o w)) \<and> pri_state (dg_recv_iface (dw_o w)) = STATE_NONE"
| "dgram_pre DO_Free w \<longleftrightarrow> dw_alive w \<and> \<not> dg_send_inited (dw_o w) \<and> \<not> dg_recv_inited (dw_o w)"
| "dgram_pre (DO_Other op) w \<longleftrightarrow>
     rx_pre op (dw_rx w) \<and> (dw_alive w \<longrightarrow> rx_avoids (set (dg_jobs (dw_o w))) {dg_bfd (dw_o w)} (set (dg_limits (dw_o w))) op)"
| "dgram_pre (DO_Turn now as sa ra) w \<longleftrightarrow>
     rx_pre (RO_Turn now as) (dw_rx w) \<and> (dw_alive w \<longrightarrow> dg_turn_ok sa ra (fst (the (exec_turn now as (dw_rx w)))) w)"

fun dgram_step :: "dgram_op \<Rightarrow> dgram_world \<Rightarrow> dgram_world" where
  "dgram_step (DO_Bind bound) w = BDatagram_Bind bound w"
| "dgram_step (DO_SetSendAddrs remote local) w = BDatagram_SetSendAddrs remote local w"
| "dgram_step (DO_SendInit mtu) w = BDatagram_SendAsync_Init mtu w"
| "dgram_step DO_SendFree w = BDatagram_SendAsync_Free w"
| "dgram_step (DO_RecvInit mtu) w = BDatagram_RecvAsync_Init mtu w"
| "dgram_step DO_RecvFree w = BDatagram_RecvAsync_Free w"
| "dgram_step DO_SenderInit w = dupd_o (\<lambda>c. c\<lparr>dg_send_iface := PacketPassInterface_Sender_Init (dg_send_iface c)\<rparr>) w"
| "dgram_step DO_ReceiverInit w = dupd_o (\<lambda>c. c\<lparr>dg_recv_iface := PacketRecvInterface_Receiver_Init (dg_recv_iface c)\<rparr>) w"
| "dgram_step (DO_Send data) w =
     (let (i, g) = PacketPassInterface_Sender_Send data (int (length data)) (dg_send_iface (dw_o w), dw_jobs w)
      in dupd_jobs (\<lambda>_. g) (dupd_o (\<lambda>c. c\<lparr>dg_send_iface := i\<rparr>) w))"
| "dgram_step (DO_Recv p) w =
     (let (i, g) = PacketRecvInterface_Receiver_Recv p (dg_recv_iface (dw_o w), dw_jobs w)
      in dupd_jobs (\<lambda>_. g) (dupd_o (\<lambda>c. c\<lparr>dg_recv_iface := i\<rparr>) w))"
| "dgram_step DO_Free w = BDatagram_Free w"
| "dgram_step (DO_Other op) w = dupd_rx (rx_step op) w"
| "dgram_step (DO_Turn now as sa ra) w = dgram_turn now as sa ra w"

section \<open>Invariant\<close>

text \<open>\<open>S\<close> are the jobs that are pending, \<open>H\<close> those that exist. The send side: the interface, its jobs and the state of the socket
  agree.\<close>

definition dsend_ok :: "nat set \<Rightarrow> nat set \<Rightarrow> BDatagram \<Rightarrow> bool" where
  "dsend_ok S H c \<longleftrightarrow>
     (\<forall>j\<in>dsend_jobs c. j \<in> H \<longleftrightarrow> dg_send_inited c) \<and>
     (dg_send_inited c \<longrightarrow>
        ppi_job_operation (dg_send_iface c) = dg_send_op_job c \<and> ppi_job_requestcancel (dg_send_iface c) = dg_send_cancel_job c \<and>
        ppi_job_done (dg_send_iface c) = dg_send_done_job c \<and> ppi_mtu (dg_send_iface c) = dg_send_mtu c \<and>
        dg_send_cancel_job c \<notin> S \<and>
        (dg_send_op_job c \<in> S \<longleftrightarrow> ppi_state (dg_send_iface c) = STATE_OPERATION_PENDING) \<and>
        (dg_send_done_job c \<in> S \<longleftrightarrow> ppi_state (dg_send_iface c) = STATE_DONE_PENDING) \<and>
        (dg_send_job c \<in> S \<longrightarrow> dg_send_busy c \<and> dg_send_have_addrs c) \<and>
        (dg_send_busy c \<longleftrightarrow> ppi_state (dg_send_iface c) = STATE_BUSY) \<and>
        (ppi_state (dg_send_iface c) = STATE_OPERATION_PENDING \<longrightarrow> \<not> ppi_cancel_requested (dg_send_iface c)) \<and>
        (ppi_state (dg_send_iface c) \<noteq> STATE_NONE \<longrightarrow>
           ppi_len (dg_send_iface c) = int (length (ppi_data (dg_send_iface c))) \<and> int (length (ppi_data (dg_send_iface c))) \<le> dg_send_mtu c) \<and>
        (dg_send_busy c \<longrightarrow>
           dg_send_busy_data c = ppi_data (dg_send_iface c) \<and> dg_send_busy_data_len c = ppi_len (dg_send_iface c)))"

definition drecv_ok :: "nat set \<Rightarrow> nat set \<Rightarrow> BDatagram \<Rightarrow> bool" where
  "drecv_ok S H c \<longleftrightarrow>
     (\<forall>j\<in>drecv_jobs c. j \<in> H \<longleftrightarrow> dg_recv_inited c) \<and>
     (dg_recv_inited c \<longrightarrow>
        pri_job_operation (dg_recv_iface c) = dg_recv_op_job c \<and> pri_job_done (dg_recv_iface c) = dg_recv_done_job c \<and>
        pri_mtu (dg_recv_iface c) = dg_recv_mtu c \<and>
        (dg_recv_op_job c \<in> S \<longleftrightarrow> pri_state (dg_recv_iface c) = STATE_OPERATION_PENDING) \<and>
        (dg_recv_done_job c \<in> S \<longleftrightarrow> pri_state (dg_recv_iface c) = STATE_DONE_PENDING) \<and>
        (dg_recv_job c \<in> S \<longrightarrow> dg_recv_busy c \<and> dg_recv_started c) \<and>
        (dg_recv_busy c \<longleftrightarrow> pri_state (dg_recv_iface c) = STATE_BUSY) \<and>
        (pri_state (dg_recv_iface c) = STATE_DONE_PENDING \<longrightarrow>
           0 \<le> pri_done_len (dg_recv_iface c) \<and> pri_done_len (dg_recv_iface c) \<le> dg_recv_mtu c) \<and>
        (pri_state (dg_recv_iface c) = STATE_DONE_PENDING \<longrightarrow> dg_recv_have_addrs c) \<and>
        (dg_recv_busy c \<longrightarrow> dg_recv_busy_data c = pri_data (dg_recv_iface c)))"

text \<open>A request that can be served is waited for: its job is pending or its descriptor is monitored. \<open>err\<close>: the kernel holds an
  error.\<close>

definition send_ready :: "BDatagram \<Rightarrow> bool" where
  "send_ready c \<longleftrightarrow> dg_send_inited c \<and> dg_send_busy c \<and> dg_send_have_addrs c"

definition recv_ready :: "BDatagram \<Rightarrow> bool" where
  "recv_ready c \<longleftrightarrow> dg_recv_inited c \<and> dg_recv_busy c \<and> dg_recv_started c"

definition dsend_waits :: "nat set \<Rightarrow> BDatagram \<Rightarrow> bool" where
  "dsend_waits S c \<longleftrightarrow>
     (has_write (dg_wait_events c) \<longrightarrow> send_ready c \<and> dg_send_job c \<notin> S) \<and>
     (send_ready c \<longrightarrow> has_write (dg_wait_events c) \<or> dg_send_job c \<in> S)"

definition drecv_waits :: "bool \<Rightarrow> nat set \<Rightarrow> BDatagram \<Rightarrow> bool" where
  "drecv_waits err S c \<longleftrightarrow>
     (has_read (dg_wait_events c) \<longrightarrow> recv_ready c) \<and>
     (recv_ready c \<longrightarrow> has_read (dg_wait_events c) \<or> dg_recv_job c \<in> S) \<and>
     (has_read (dg_wait_events c) \<and> dg_recv_job c \<in> S \<longrightarrow> err)"

text \<open>The descriptor is monitored for what the socket waits for; the limits exist.\<close>

definition dg_rx_ok :: "BReactor \<Rightarrow> BDatagram \<Rightarrow> bool" where
  "dg_rx_ok r c \<longleftrightarrow>
     rw_only (dg_wait_events c) \<and> fd_active (rx_fd r (dg_bfd c)) \<and> fd_waitEvents (rx_fd r (dg_bfd c)) = dg_wait_events c \<and>
     distinct (dg_limits c) \<and> (\<forall>l\<in>set (dg_limits c). rx_limit r l \<noteq> None)"

text \<open>The packets: what the kernel took and gave is what the user was told, but for the packet he is about to be told of. He is
  told the addresses that came with the packet.\<close>

definition delivery :: "dgram_msg \<Rightarrow> dgram_addr \<times> BIPAddr \<times> byte list" where
  "delivery m = (dgram_addr_sys_to_socket (msg_name m), read_control BIPAddr_Invalid (msg_control m), msg_data m)"

definition dsent_ok :: "dgram_msg list \<Rightarrow> byte list list \<Rightarrow> BDatagram \<Rightarrow> bool" where
  "dsent_ok sent confirmed c \<longleftrightarrow>
     map msg_data sent = confirmed @
       (if dg_send_inited c \<and> ppi_state (dg_send_iface c) = STATE_DONE_PENDING then [ppi_data (dg_send_iface c)] else [])"

definition dreceived_ok :: "dgram_msg list \<Rightarrow> (dgram_addr \<times> BIPAddr \<times> byte list) list \<Rightarrow> (nat \<Rightarrow> byte list) \<Rightarrow> BDatagram \<Rightarrow> bool" where
  "dreceived_ok received delivered mem c \<longleftrightarrow>
     map delivery received = delivered @
       (if dg_recv_inited c \<and> pri_state (dg_recv_iface c) = STATE_DONE_PENDING then
          [(dg_recv_remote_addr c, dg_recv_local_addr c, take (nat (pri_done_len (dg_recv_iface c))) (mem (pri_data (dg_recv_iface c))))]
        else [])"

text \<open>Packets whose interface was freed too early are not counted on.\<close>

definition messages_ok :: "dgram_world \<Rightarrow> bool" where
  "messages_ok w \<longleftrightarrow>
     (\<not> dw_lost_send w \<longrightarrow> dsent_ok (dw_sent w) (dw_confirmed w) (dw_o w)) \<and>
     (\<not> dw_lost_recv w \<longrightarrow> dreceived_ok (dw_received w) (dw_delivered w) (dw_mem w) (dw_o w))"

abbreviation pend :: "dgram_world \<Rightarrow> nat set" where "pend w \<equiv> set (jobs (dw_jobs w))"
abbreviation known :: "dgram_world \<Rightarrow> nat set" where "known w \<equiv> dom (job_handler (dw_jobs w))"

definition dg_base :: "dgram_world \<Rightarrow> bool" where
  "dg_base w \<longleftrightarrow>
     rx_inv (dw_rx w) \<and> reg_ok (dw_rx w) \<and> distinct (dg_jobs (dw_o w)) \<and> dg_rx_ok (dw_rx w) (dw_o w) \<and>
     dsend_ok (pend w) (known w) (dw_o w) \<and> drecv_ok (pend w) (known w) (dw_o w) \<and> messages_ok w"

definition dg_waits :: "dgram_world \<Rightarrow> bool" where
  "dg_waits w \<longleftrightarrow> (\<not> dg_d_err (dw_o w) \<longrightarrow> dsend_waits (pend w) (dw_o w) \<and> drecv_waits (dw_sockerr w) (pend w) (dw_o w))"

definition dg_inv :: "dgram_world \<Rightarrow> bool" where
  "dg_inv w \<longleftrightarrow> rx_inv (dw_rx w) \<and> reg_ok (dw_rx w) \<and> (dw_alive w \<longrightarrow> dg_base w \<and> dg_waits w)"

lemma dg_invI: "dg_base w \<Longrightarrow> dg_waits w \<Longrightarrow> dg_inv w"
  by (simp add: dg_inv_def dg_base_def)

end
