(* ===== verification/DatagramInv.thy ===== *)
theory DatagramInv
  imports Datagram
begin

text \<open>
  Datagram sockets, continued: the invariant of theory \<open>Datagram\<close> holds through every legal history, and the properties
  of the sockets. The proofs reduce every operation to its effect on the set of pending jobs, the set of known jobs and
  the record of the socket.
\<close>

section \<open>Changes of the state\<close>

lemmas dw_defs = dupd_o_def dupd_rx_def dupd_jobs_def

lemma started_same [simp]: "dg_recv_started c \<Longrightarrow> c\<lparr>dg_recv_started := True\<rparr> = c"
  by simp

lemma dg_ids:
  assumes "distinct (dg_jobs c)"
  shows "dg_send_op_job c \<noteq> dg_send_cancel_job c" "dg_send_op_job c \<noteq> dg_send_done_job c" "dg_send_op_job c \<noteq> dg_send_job c"
    "dg_send_op_job c \<noteq> dg_recv_op_job c" "dg_send_op_job c \<noteq> dg_recv_done_job c" "dg_send_op_job c \<noteq> dg_recv_job c"
    "dg_send_cancel_job c \<noteq> dg_send_done_job c" "dg_send_cancel_job c \<noteq> dg_send_job c" "dg_send_cancel_job c \<noteq> dg_recv_op_job c"
    "dg_send_cancel_job c \<noteq> dg_recv_done_job c" "dg_send_cancel_job c \<noteq> dg_recv_job c" "dg_send_done_job c \<noteq> dg_send_job c"
    "dg_send_done_job c \<noteq> dg_recv_op_job c" "dg_send_done_job c \<noteq> dg_recv_done_job c" "dg_send_done_job c \<noteq> dg_recv_job c"
    "dg_send_job c \<noteq> dg_recv_op_job c" "dg_send_job c \<noteq> dg_recv_done_job c" "dg_send_job c \<noteq> dg_recv_job c"
    "dg_recv_op_job c \<noteq> dg_recv_done_job c" "dg_recv_op_job c \<noteq> dg_recv_job c" "dg_recv_done_job c \<noteq> dg_recv_job c"
  using assms by (simp_all add: dg_jobs_def)

lemma dsent_simps [simp]:
  "dsent_ok sent confirmed (c\<lparr>dg_wait_events := x0\<rparr>) \<longleftrightarrow> dsent_ok sent confirmed c"
  "dsent_ok sent confirmed (c\<lparr>dg_d_err := x1\<rparr>) \<longleftrightarrow> dsent_ok sent confirmed c"
  "dsent_ok sent confirmed (c\<lparr>dg_send_have_addrs := x2\<rparr>) \<longleftrightarrow> dsent_ok sent confirmed c"
  "dsent_ok sent confirmed (c\<lparr>dg_send_remote_addr := x3\<rparr>) \<longleftrightarrow> dsent_ok sent confirmed c"
  "dsent_ok sent confirmed (c\<lparr>dg_send_local_addr := x4\<rparr>) \<longleftrightarrow> dsent_ok sent confirmed c"
  "dsent_ok sent confirmed (c\<lparr>dg_send_mtu := x5\<rparr>) \<longleftrightarrow> dsent_ok sent confirmed c"
  "dsent_ok sent confirmed (c\<lparr>dg_send_busy := x6\<rparr>) \<longleftrightarrow> dsent_ok sent confirmed c"
  "dsent_ok sent confirmed (c\<lparr>dg_send_busy_data := x7\<rparr>) \<longleftrightarrow> dsent_ok sent confirmed c"
  "dsent_ok sent confirmed (c\<lparr>dg_send_busy_data_len := x8\<rparr>) \<longleftrightarrow> dsent_ok sent confirmed c"
  "dsent_ok sent confirmed (c\<lparr>dg_recv_started := x9\<rparr>) \<longleftrightarrow> dsent_ok sent confirmed c"
  "dsent_ok sent confirmed (c\<lparr>dg_recv_have_addrs := x10\<rparr>) \<longleftrightarrow> dsent_ok sent confirmed c"
  "dsent_ok sent confirmed (c\<lparr>dg_recv_mtu := x11\<rparr>) \<longleftrightarrow> dsent_ok sent confirmed c"
  "dsent_ok sent confirmed (c\<lparr>dg_recv_busy := x12\<rparr>) \<longleftrightarrow> dsent_ok sent confirmed c"
  "dsent_ok sent confirmed (c\<lparr>dg_recv_busy_data := x13\<rparr>) \<longleftrightarrow> dsent_ok sent confirmed c"
  "dsent_ok sent confirmed (c\<lparr>dg_recv_inited := x14\<rparr>) \<longleftrightarrow> dsent_ok sent confirmed c"
  "dsent_ok sent confirmed (c\<lparr>dg_recv_iface := x15\<rparr>) \<longleftrightarrow> dsent_ok sent confirmed c"
  "dsent_ok sent confirmed (c\<lparr>dg_recv_remote_addr := x16\<rparr>) \<longleftrightarrow> dsent_ok sent confirmed c"
  "dsent_ok sent confirmed (c\<lparr>dg_recv_local_addr := x17\<rparr>) \<longleftrightarrow> dsent_ok sent confirmed c"
  by (simp_all add: dsent_ok_def)

lemma dreceived_simps [simp]:
  "dreceived_ok received delivered mem (c\<lparr>dg_wait_events := x0\<rparr>) \<longleftrightarrow> dreceived_ok received delivered mem c"
  "dreceived_ok received delivered mem (c\<lparr>dg_d_err := x1\<rparr>) \<longleftrightarrow> dreceived_ok received delivered mem c"
  "dreceived_ok received delivered mem (c\<lparr>dg_send_have_addrs := x2\<rparr>) \<longleftrightarrow> dreceived_ok received delivered mem c"
  "dreceived_ok received delivered mem (c\<lparr>dg_send_remote_addr := x3\<rparr>) \<longleftrightarrow> dreceived_ok received delivered mem c"
  "dreceived_ok received delivered mem (c\<lparr>dg_send_local_addr := x4\<rparr>) \<longleftrightarrow> dreceived_ok received delivered mem c"
  "dreceived_ok received delivered mem (c\<lparr>dg_send_mtu := x5\<rparr>) \<longleftrightarrow> dreceived_ok received delivered mem c"
  "dreceived_ok received delivered mem (c\<lparr>dg_send_busy := x6\<rparr>) \<longleftrightarrow> dreceived_ok received delivered mem c"
  "dreceived_ok received delivered mem (c\<lparr>dg_send_busy_data := x7\<rparr>) \<longleftrightarrow> dreceived_ok received delivered mem c"
  "dreceived_ok received delivered mem (c\<lparr>dg_send_busy_data_len := x8\<rparr>) \<longleftrightarrow> dreceived_ok received delivered mem c"
  "dreceived_ok received delivered mem (c\<lparr>dg_send_inited := x9\<rparr>) \<longleftrightarrow> dreceived_ok received delivered mem c"
  "dreceived_ok received delivered mem (c\<lparr>dg_send_iface := x10\<rparr>) \<longleftrightarrow> dreceived_ok received delivered mem c"
  "dreceived_ok received delivered mem (c\<lparr>dg_recv_started := x11\<rparr>) \<longleftrightarrow> dreceived_ok received delivered mem c"
  "dreceived_ok received delivered mem (c\<lparr>dg_recv_have_addrs := x12\<rparr>) \<longleftrightarrow> dreceived_ok received delivered mem c"
  "dreceived_ok received delivered mem (c\<lparr>dg_recv_mtu := x13\<rparr>) \<longleftrightarrow> dreceived_ok received delivered mem c"
  "dreceived_ok received delivered mem (c\<lparr>dg_recv_busy := x14\<rparr>) \<longleftrightarrow> dreceived_ok received delivered mem c"
  "dreceived_ok received delivered mem (c\<lparr>dg_recv_busy_data := x15\<rparr>) \<longleftrightarrow> dreceived_ok received delivered mem c"
  by (simp_all add: dreceived_ok_def)

lemma parts_simps [simp]:
  "dg_jobs (c\<lparr>dg_wait_events := x0\<rparr>) = dg_jobs c" "dg_limits (c\<lparr>dg_wait_events := x0\<rparr>) = dg_limits c"
  "dg_jobs (c\<lparr>dg_d_err := x1\<rparr>) = dg_jobs c" "dg_limits (c\<lparr>dg_d_err := x1\<rparr>) = dg_limits c"
  "dg_jobs (c\<lparr>dg_send_have_addrs := x2\<rparr>) = dg_jobs c" "dg_limits (c\<lparr>dg_send_have_addrs := x2\<rparr>) = dg_limits c"
  "dg_jobs (c\<lparr>dg_send_remote_addr := x3\<rparr>) = dg_jobs c" "dg_limits (c\<lparr>dg_send_remote_addr := x3\<rparr>) = dg_limits c"
  "dg_jobs (c\<lparr>dg_send_local_addr := x4\<rparr>) = dg_jobs c" "dg_limits (c\<lparr>dg_send_local_addr := x4\<rparr>) = dg_limits c"
  "dg_jobs (c\<lparr>dg_send_inited := x5\<rparr>) = dg_jobs c" "dg_limits (c\<lparr>dg_send_inited := x5\<rparr>) = dg_limits c"
  "dg_jobs (c\<lparr>dg_send_mtu := x6\<rparr>) = dg_jobs c" "dg_limits (c\<lparr>dg_send_mtu := x6\<rparr>) = dg_limits c"
  "dg_jobs (c\<lparr>dg_send_iface := x7\<rparr>) = dg_jobs c" "dg_limits (c\<lparr>dg_send_iface := x7\<rparr>) = dg_limits c"
  "dg_jobs (c\<lparr>dg_send_busy := x8\<rparr>) = dg_jobs c" "dg_limits (c\<lparr>dg_send_busy := x8\<rparr>) = dg_limits c"
  "dg_jobs (c\<lparr>dg_send_busy_data := x9\<rparr>) = dg_jobs c" "dg_limits (c\<lparr>dg_send_busy_data := x9\<rparr>) = dg_limits c"
  "dg_jobs (c\<lparr>dg_send_busy_data_len := x10\<rparr>) = dg_jobs c" "dg_limits (c\<lparr>dg_send_busy_data_len := x10\<rparr>) = dg_limits c"
  "dg_jobs (c\<lparr>dg_recv_started := x11\<rparr>) = dg_jobs c" "dg_limits (c\<lparr>dg_recv_started := x11\<rparr>) = dg_limits c"
  "dg_jobs (c\<lparr>dg_recv_have_addrs := x12\<rparr>) = dg_jobs c" "dg_limits (c\<lparr>dg_recv_have_addrs := x12\<rparr>) = dg_limits c"
  "dg_jobs (c\<lparr>dg_recv_remote_addr := x13\<rparr>) = dg_jobs c" "dg_limits (c\<lparr>dg_recv_remote_addr := x13\<rparr>) = dg_limits c"
  "dg_jobs (c\<lparr>dg_recv_local_addr := x14\<rparr>) = dg_jobs c" "dg_limits (c\<lparr>dg_recv_local_addr := x14\<rparr>) = dg_limits c"
  "dg_jobs (c\<lparr>dg_recv_inited := x15\<rparr>) = dg_jobs c" "dg_limits (c\<lparr>dg_recv_inited := x15\<rparr>) = dg_limits c"
  "dg_jobs (c\<lparr>dg_recv_mtu := x16\<rparr>) = dg_jobs c" "dg_limits (c\<lparr>dg_recv_mtu := x16\<rparr>) = dg_limits c"
  "dg_jobs (c\<lparr>dg_recv_iface := x17\<rparr>) = dg_jobs c" "dg_limits (c\<lparr>dg_recv_iface := x17\<rparr>) = dg_limits c"
  "dg_jobs (c\<lparr>dg_recv_busy := x18\<rparr>) = dg_jobs c" "dg_limits (c\<lparr>dg_recv_busy := x18\<rparr>) = dg_limits c"
  "dg_jobs (c\<lparr>dg_recv_busy_data := x19\<rparr>) = dg_jobs c" "dg_limits (c\<lparr>dg_recv_busy_data := x19\<rparr>) = dg_limits c"
  by (simp_all add: dg_jobs_def dg_limits_def)

lemma dsend_simps [simp]:
  "dsend_ok S H (c\<lparr>dg_wait_events := x0\<rparr>) \<longleftrightarrow> dsend_ok S H c"
  "dsend_ok S H (c\<lparr>dg_d_err := x1\<rparr>) \<longleftrightarrow> dsend_ok S H c"
  "dsend_ok S H (c\<lparr>dg_recv_started := x2\<rparr>) \<longleftrightarrow> dsend_ok S H c"
  "dsend_ok S H (c\<lparr>dg_recv_have_addrs := x3\<rparr>) \<longleftrightarrow> dsend_ok S H c"
  "dsend_ok S H (c\<lparr>dg_recv_remote_addr := x4\<rparr>) \<longleftrightarrow> dsend_ok S H c"
  "dsend_ok S H (c\<lparr>dg_recv_local_addr := x5\<rparr>) \<longleftrightarrow> dsend_ok S H c"
  "dsend_ok S H (c\<lparr>dg_recv_inited := x6\<rparr>) \<longleftrightarrow> dsend_ok S H c"
  "dsend_ok S H (c\<lparr>dg_recv_mtu := x7\<rparr>) \<longleftrightarrow> dsend_ok S H c"
  "dsend_ok S H (c\<lparr>dg_recv_iface := x8\<rparr>) \<longleftrightarrow> dsend_ok S H c"
  "dsend_ok S H (c\<lparr>dg_recv_busy := x9\<rparr>) \<longleftrightarrow> dsend_ok S H c"
  "dsend_ok S H (c\<lparr>dg_recv_busy_data := x10\<rparr>) \<longleftrightarrow> dsend_ok S H c"
  by (simp_all add: dsend_ok_def dsend_jobs_def)

lemma drecv_simps [simp]:
  "drecv_ok S H (c\<lparr>dg_wait_events := x0\<rparr>) \<longleftrightarrow> drecv_ok S H c"
  "drecv_ok S H (c\<lparr>dg_d_err := x1\<rparr>) \<longleftrightarrow> drecv_ok S H c"
  "drecv_ok S H (c\<lparr>dg_send_have_addrs := x2\<rparr>) \<longleftrightarrow> drecv_ok S H c"
  "drecv_ok S H (c\<lparr>dg_send_remote_addr := x3\<rparr>) \<longleftrightarrow> drecv_ok S H c"
  "drecv_ok S H (c\<lparr>dg_send_local_addr := x4\<rparr>) \<longleftrightarrow> drecv_ok S H c"
  "drecv_ok S H (c\<lparr>dg_send_inited := x5\<rparr>) \<longleftrightarrow> drecv_ok S H c"
  "drecv_ok S H (c\<lparr>dg_send_mtu := x6\<rparr>) \<longleftrightarrow> drecv_ok S H c"
  "drecv_ok S H (c\<lparr>dg_send_iface := x7\<rparr>) \<longleftrightarrow> drecv_ok S H c"
  "drecv_ok S H (c\<lparr>dg_send_busy := x8\<rparr>) \<longleftrightarrow> drecv_ok S H c"
  "drecv_ok S H (c\<lparr>dg_send_busy_data := x9\<rparr>) \<longleftrightarrow> drecv_ok S H c"
  "drecv_ok S H (c\<lparr>dg_send_busy_data_len := x10\<rparr>) \<longleftrightarrow> drecv_ok S H c"
  by (simp_all add: drecv_ok_def drecv_jobs_def)

text \<open>The identity of the parts: everything else of a socket may change.\<close>

definition same_parts :: "BDatagram \<Rightarrow> BDatagram \<Rightarrow> bool" where
  "same_parts c c' \<longleftrightarrow>
     dg_jobs c' = dg_jobs c \<and> dg_limits c' = dg_limits c \<and> dg_bfd c' = dg_bfd c"

lemma base_update:
  assumes base: "dg_base w" and r: "dw_rx w' = (dw_rx w)\<lparr>rx_jobs := g\<rparr>" and g: "group_inv g"
    and c: "same_parts (dw_o w) (dw_o w')" "dg_wait_events (dw_o w') = dg_wait_events (dw_o w)"
    and ok: "dsend_ok (set (jobs g)) (dom (job_handler g)) (dw_o w')" "drecv_ok (set (jobs g)) (dom (job_handler g)) (dw_o w')"
      "messages_ok w'"
  shows "dg_base w'"
  using assms rx_jobs_inv [of "dw_rx w" g] by (simp add: dg_base_def dg_rx_ok_def same_parts_def)

lemma base_parts:
  assumes "dg_base w"
  shows "rx_inv (dw_rx w)" "reg_ok (dw_rx w)" "group_inv (dw_jobs w)" "distinct (dg_jobs (dw_o w))" "dg_rx_ok (dw_rx w) (dw_o w)"
    "dsend_ok (pend w) (known w) (dw_o w)" "drecv_ok (pend w) (known w) (dw_o w)" "messages_ok w"
    "pend w \<subseteq> known w"
  using assms by (auto simp: dg_base_def rx_inv_def group_inv_def)

text \<open>Each side depends on its own jobs only.\<close>

definition agree :: "nat set \<Rightarrow> nat set \<Rightarrow> nat set \<Rightarrow> bool" where
  "agree J S S' \<longleftrightarrow> (\<forall>j\<in>J. j \<in> S' \<longleftrightarrow> j \<in> S)"

lemma dsend_frame:
  assumes "dsend_ok S H c" "agree (dsend_jobs c) S S'" "agree (dsend_jobs c) H H'"
  shows "dsend_ok S' H' c"
  using assms(1) assms(2,3) [unfolded agree_def dsend_jobs_def ball_simps] by (simp add: dsend_ok_def dsend_jobs_def)

lemma drecv_frame:
  assumes "drecv_ok S H c" "agree (drecv_jobs c) S S'" "agree (drecv_jobs c) H H'"
  shows "drecv_ok S' H' c"
  using assms(1) assms(2,3) [unfolded agree_def drecv_jobs_def ball_simps] by (simp add: drecv_ok_def drecv_jobs_def)

lemma waits_frame:
  assumes "agree (dsend_jobs c \<union> drecv_jobs c) S S'"
  shows "dsend_waits S' c \<longleftrightarrow> dsend_waits S c" "drecv_waits err S' c \<longleftrightarrow> drecv_waits err S c"
  using assms by (simp_all add: dsend_waits_def drecv_waits_def agree_def dsend_jobs_def drecv_jobs_def)

lemma sides_disjoint:
  assumes "distinct (dg_jobs c)"
  shows "j \<in> dsend_jobs c \<Longrightarrow> j \<notin> drecv_jobs c"
  using assms by (auto simp: dg_jobs_def dsend_jobs_def drecv_jobs_def)

lemma set_dg_jobs: "set (dg_jobs c) = dsend_jobs c \<union> drecv_jobs c"
  by (auto simp: dg_jobs_def dsend_jobs_def drecv_jobs_def)

text \<open>Another reactor in which the parts of the socket are as they were.\<close>

lemma base_keeps:
  assumes base: "dg_base w" and inv: "rx_inv r'" "reg_ok r'"
    and k: "rx_keeps (set (dg_jobs (dw_o w))) {dg_bfd (dw_o w)} (set (dg_limits (dw_o w))) (dw_rx w) r'"
  shows "dg_base (w\<lparr>dw_rx := r'\<rparr>)" "dg_waits (w\<lparr>dw_rx := r'\<rparr>) \<longleftrightarrow> dg_waits w"
proof -
  let ?c = "dw_o w" and ?S = "set (jobs (rx_jobs r'))" and ?H = "dom (job_handler (rx_jobs r'))"
  have a: "agree (dsend_jobs ?c \<union> drecv_jobs ?c) (pend w) ?S" "agree (dsend_jobs ?c) (pend w) ?S" "agree (dsend_jobs ?c) (known w) ?H"
    "agree (drecv_jobs ?c) (pend w) ?S" "agree (drecv_jobs ?c) (known w) ?H"
    using k by (simp_all add: rx_keeps_def agree_def set_dg_jobs ball_Un domIff)
  have f: "fd_active (rx_fd r' (dg_bfd ?c)) = fd_active (rx_fd (dw_rx w) (dg_bfd ?c))"
    "fd_waitEvents (rx_fd r' (dg_bfd ?c)) = fd_waitEvents (rx_fd (dw_rx w) (dg_bfd ?c))"
    "l \<in> set (dg_limits ?c) \<Longrightarrow> rx_limit r' l = None \<longleftrightarrow> rx_limit (dw_rx w) l = None" for l
    using k by (simp_all add: rx_keeps_def fd_key_def)
  show "dg_base (w\<lparr>dw_rx := r'\<rparr>)"
    using base inv f dsend_frame [OF base_parts(6) [OF base] a(2,3)] drecv_frame [OF base_parts(7) [OF base] a(4,5)]
    by (simp add: dg_base_def dg_rx_ok_def messages_ok_def del: not_None_eq)
  show "dg_waits (w\<lparr>dw_rx := r'\<rparr>) \<longleftrightarrow> dg_waits w" using waits_frame [OF a(1)] by (simp add: dg_waits_def)
qed

lemma set_events_base:
  assumes base: "dg_base w" and e: "rw_only e"
  shows "dg_base (dgram_set_events e w)" "dw_o (dgram_set_events e w) = (dw_o w)\<lparr>dg_wait_events := e\<rparr>"
    "dw_jobs (dgram_set_events e w) = dw_jobs w" "dw_sockerr (dgram_set_events e w) = dw_sockerr w" "dw_alive (dgram_set_events e w) = dw_alive w"
proof -
  note p = base_parts [OF base]
  have r: "fd_active (rx_fd (dw_rx w) (dg_bfd (dw_o w)))" using p(5) by (simp add: dg_rx_ok_def)
  note s = set_events_rx [OF p(1,2) r e]
  show "dw_o (dgram_set_events e w) = (dw_o w)\<lparr>dg_wait_events := e\<rparr>" "dw_jobs (dgram_set_events e w) = dw_jobs w"
    "dw_sockerr (dgram_set_events e w) = dw_sockerr w" "dw_alive (dgram_set_events e w) = dw_alive w"
    by (simp_all add: dgram_set_events_def dw_defs set_events_fields)
  show "dg_base (dgram_set_events e w)"
    using p s e
    by (simp add: dg_base_def dgram_set_events_def dw_defs set_events_fields dg_rx_ok_def messages_ok_def del: not_None_eq)
qed

lemma increment_base:
  assumes base: "dg_base w" and l: "l \<in> set (dg_limits (dw_o w))"
  obtains ok r where "BReactorLimit_Increment l (dw_rx w) = (ok, r)" "dg_base (w\<lparr>dw_rx := r\<rparr>)" "rx_jobs r = dw_jobs w"
proof -
  note p = base_parts [OF base]
  have "rx_limit (dw_rx w) l \<noteq> None" using p(5) l by (simp add: dg_rx_ok_def)
  note i = increment_rx [OF p(1,2) this]
  let ?p = "BReactorLimit_Increment l (dw_rx w)"
  have "dg_base (w\<lparr>dw_rx := snd ?p\<rparr>)" by (rule base_keeps(1) [OF base i(1,2)]) (rule rx_keepsI, simp_all add: i)
  then show ?thesis using that [of "fst ?p" "snd ?p"] i(3) by simp
qed

section \<open>Serving a request\<close>

lemma report_error_inv:
  assumes "dg_base w"
  shows "dg_inv (dgram_report_error w)"
  by (rule dg_invI) (use assms in \<open>simp_all add: dgram_report_error_def dw_defs dg_base_def dg_rx_ok_def messages_ok_def dg_waits_def\<close>)

lemma wait_base:
  assumes "dg_base w" "e = BREACTOR_WRITE \<or> e = BREACTOR_READ"
  shows "dg_base (dgram_wait e w)" "dw_o (dgram_wait e w) = (dw_o w)\<lparr>dg_wait_events := dg_wait_events (dw_o w) OR e\<rparr>"
    "dw_jobs (dgram_wait e w) = dw_jobs w" "dw_sockerr (dgram_wait e w) = dw_sockerr w"
proof -
  have "rw_only (dg_wait_events (dw_o w))" using base_parts(5) [OF assms(1)] by (simp add: dg_rx_ok_def)
  then have "rw_only (dg_wait_events (dw_o w) OR e)" using assms(2) mask_simps(14,15) by blast
  note s = set_events_base [OF assms(1) this]
  then show "dg_base (dgram_wait e w)" "dw_o (dgram_wait e w) = (dw_o w)\<lparr>dg_wait_events := dg_wait_events (dw_o w) OR e\<rparr>"
    "dw_jobs (dgram_wait e w) = dw_jobs w" "dw_sockerr (dgram_wait e w) = dw_sockerr w" by (simp_all add: dgram_wait_def)
qed

text \<open>What starts to receive has the job set if a request waits.\<close>

lemma start_recv_inv:
  assumes base: "dg_base w" and waits: "drecv_waits err (pend w) (dw_o w)"
  obtains g where "start_recv w = w\<lparr>dw_rx := (dw_rx w)\<lparr>rx_jobs := g\<rparr>, dw_o := (dw_o w)\<lparr>dg_recv_started := True\<rparr>\<rparr>"
    "dg_base (start_recv w)" "drecv_waits err (set (jobs g)) ((dw_o w)\<lparr>dg_recv_started := True\<rparr>)"
    "agree (dsend_jobs (dw_o w)) (pend w) (set (jobs g))"
proof -
  let ?c = "dw_o w" and ?b = "\<not> dg_recv_started (dw_o w) \<and> dg_recv_inited (dw_o w) \<and> dg_recv_busy (dw_o w)"
  note p = base_parts [OF base]
  define g where "g = (if ?b then BSmallPending_Set (dg_recv_job ?c) (dw_jobs w) else dw_jobs w)"
  have e: "start_recv w = w\<lparr>dw_rx := (dw_rx w)\<lparr>rx_jobs := g\<rparr>, dw_o := ?c\<lparr>dg_recv_started := True\<rparr>\<rparr>"
    by (simp add: start_recv_def dw_defs g_def Let_def)
  have g: "group_inv g" "dom (job_handler g) = known w" "set (jobs g) = (if ?b then insert (dg_recv_job ?c) (pend w) else pend w)"
    using p(3,7) by (auto simp: g_def drecv_ok_def drecv_jobs_def set_jobs_set intro!: set_inv)
  have a: "agree (dsend_jobs ?c) (pend w) (set (jobs g))" "agree J H H" for J H
    using g(3) dg_ids [OF p(4)] by (simp_all add: agree_def dsend_jobs_def)
  have r: "drecv_ok (set (jobs g)) (known w) (?c\<lparr>dg_recv_started := True\<rparr>)"
    using p(7) g(3) dg_ids(19-21) [OF p(4)] by (cases ?b) (auto simp: drecv_ok_def drecv_jobs_def)
  have "dg_base (start_recv w)"
    by (rule base_update [OF base, where g = g])
      (use p g r dsend_frame [OF p(6) a] in \<open>simp_all add: e same_parts_def messages_ok_def\<close>)
  moreover have "drecv_waits err (set (jobs g)) (?c\<lparr>dg_recv_started := True\<rparr>)"
    using waits g(3) by (auto simp: drecv_waits_def recv_ready_def)
  ultimately show ?thesis using that e a(1) by blast
qed

text \<open>The send request is answered.\<close>

lemma dgram_send_done_inv:
  assumes base: "dg_base w" and busy: "send_ready (dw_o w)" "dg_send_job (dw_o w) \<notin> pend w" "\<not> has_write (dg_wait_events (dw_o w))"
    and waits: "drecv_waits (dw_sockerr w) (pend w) (dw_o w)"
  shows "dg_inv (dgram_send_done (dupd_o (\<lambda>c. c\<lparr>dg_send_busy := False\<rparr>) (w\<lparr>dw_sent := dw_sent w @ [send_msg (dw_o w)]\<rparr>)))" (is "dg_inv ?w")
proof -
  let ?c = "dw_o w"
  define g where "g = BSmallPending_Set (dg_send_done_job ?c) (BSmallPending_Unset (dg_send_cancel_job ?c) (dw_jobs w))"
  define c' where "c' = ?c\<lparr>dg_send_busy := False, dg_send_iface := (dg_send_iface ?c)\<lparr>ppi_state := STATE_DONE_PENDING\<rparr>\<rparr>"
  note p = base_parts [OF base] and ids = dg_ids [OF base_parts(4) [OF base]]
  have s: "dg_send_inited ?c" "dg_send_busy ?c" using busy by (simp_all add: send_ready_def)
  have i: "ppi_job_done (dg_send_iface ?c) = dg_send_done_job ?c" "ppi_job_requestcancel (dg_send_iface ?c) = dg_send_cancel_job ?c"
    "dg_send_done_job ?c \<in> known w" "dg_send_cancel_job ?c \<notin> pend w" "ppi_state (dg_send_iface ?c) = STATE_BUSY"
    "msg_data (send_msg ?c) = ppi_data (dg_send_iface ?c)"
    using p(6) s by (simp_all add: dsend_ok_def dsend_jobs_def send_msg_def)
  have e: "?w = w\<lparr>dw_rx := (dw_rx w)\<lparr>rx_jobs := g\<rparr>, dw_o := c', dw_sent := dw_sent w @ [send_msg ?c]\<rparr>"
    by (simp add: dgram_send_done_def dw_defs g_def c'_def i)
  have g: "group_inv g" "dom (job_handler g) = known w" "set (jobs g) = insert (dg_send_done_job ?c) (pend w)"
    using p(3) i(3,4) by (auto simp: g_def set_jobs_set unset_jobs_set unset_inv intro!: set_inv)
  have so: "dsend_ok (set (jobs g)) (known w) c'" using p(6) s i ids busy(2) by (simp add: dsend_ok_def dsend_jobs_def c'_def g(3))
  have a: "agree (drecv_jobs ?c) (pend w) (set (jobs g))" "agree J H H" for J H using ids by (simp_all add: agree_def drecv_jobs_def g(3))
  have ro: "drecv_ok (set (jobs g)) (known w) c'" using drecv_frame [OF p(7) a] by (simp add: c'_def)
  have m: "messages_ok ?w" using p(8) s(1) i(5,6) unfolding e by (simp add: messages_ok_def c'_def) (simp add: dsent_ok_def)
  have "dg_base ?w" by (rule base_update [OF base, where g = g]) (use g so ro m in \<open>simp_all add: e same_parts_def c'_def\<close>)
  moreover have "dg_waits ?w"
    using waits busy ids by (simp add: dg_waits_def e c'_def dsend_waits_def drecv_waits_def send_ready_def recv_ready_def g(3))
  ultimately show ?thesis by (rule dg_invI)
qed

lemma start_recv_sent:
  "start_recv (w\<lparr>dw_sent := m\<rparr>) = (start_recv w)\<lparr>dw_sent := m\<rparr>" "dw_sent (start_recv w) = dw_sent w"
  "send_msg (dw_o (start_recv w)) = send_msg (dw_o w)"
  by (simp_all add: start_recv_def dw_defs Let_def send_msg_def)

lemma do_send_inv:
  assumes base: "dg_base w" and busy: "send_ready (dw_o w)" "dg_send_job (dw_o w) \<notin> pend w"
    and stale: "has_write (dg_wait_events (dw_o w)) \<Longrightarrow> dw_sockerr w"
    and waits: "drecv_waits (dw_sockerr w) (pend w) (dw_o w)" and a: "sm_answer_ok (dw_sockerr w) sa"
  shows "dg_inv (do_send sa w)"
proof -
  obtain ok r where i: "BReactorLimit_Increment (dg_send_limit (dw_o w)) (dw_rx w) = (ok, r)" "dg_base (w\<lparr>dw_rx := r\<rparr>)" "rx_jobs r = dw_jobs w"
    using increment_base [OF base, of "dg_send_limit (dw_o w)"] by (auto simp: dg_limits_def)
  let ?w = "w\<lparr>dw_rx := r\<rparr>"
  have wait: "dg_inv (dgram_wait BREACTOR_WRITE ?w)"
  proof -
    note f = wait_base [OF i(2), of BREACTOR_WRITE]
    have "dg_waits (dgram_wait BREACTOR_WRITE ?w)"
      using f waits busy i(3) by (simp add: dg_waits_def dsend_waits_def drecv_waits_def send_ready_def recv_ready_def)
    then show ?thesis using f(1) by (intro dg_invI) simp_all
  qed
  have wr: "drecv_waits (dw_sockerr w) (pend ?w) (dw_o ?w)" using waits i(3) by simp
  obtain g where s: "start_recv ?w = ?w\<lparr>dw_rx := (dw_rx ?w)\<lparr>rx_jobs := g\<rparr>, dw_o := (dw_o ?w)\<lparr>dg_recv_started := True\<rparr>\<rparr>"
    "dg_base (start_recv ?w)" "drecv_waits (dw_sockerr w) (set (jobs g)) ((dw_o ?w)\<lparr>dg_recv_started := True\<rparr>)"
    "agree (dsend_jobs (dw_o ?w)) (pend ?w) (set (jobs g))"
    by (rule start_recv_inv [OF i(2) wr])
  show ?thesis
  proof (cases "ok \<and> (\<exists>n. sa = SmBytes n)")
    case True
    have nw: "\<not> has_write (dg_wait_events (dw_o w))" using True a stale by auto
    have j: "dg_send_job (dw_o w) \<notin> set (jobs g)" using s(4) busy(2) i(3) by (simp add: agree_def dsend_jobs_def)
    have e: "do_send sa w = dgram_send_done (dupd_o (\<lambda>c. c\<lparr>dg_send_busy := False\<rparr>)
        ((start_recv ?w)\<lparr>dw_sent := dw_sent (start_recv ?w) @ [send_msg (dw_o (start_recv ?w))]\<rparr>))"
      using True i(1) by (auto simp: do_send_def start_recv_sent)
    show ?thesis unfolding e by (rule dgram_send_done_inv [OF s(2)]) (use s(1,3) busy(1) j nw in \<open>simp_all add: send_ready_def\<close>)
  next
    case False
    then show ?thesis using wait report_error_inv [OF i(2)] i(1) by (cases sa) (auto simp: do_send_def Let_def)
  qed
qed

text \<open>The receive request is answered.\<close>

lemma dgram_recv_done_inv:
  assumes base: "dg_base w" and busy: "recv_ready (dw_o w)" "dg_recv_job (dw_o w) \<notin> pend w" "\<not> has_read (dg_wait_events (dw_o w))"
    and waits: "dsend_waits (pend w) (dw_o w)" and len: "int (length (msg_data m)) \<le> dg_recv_mtu (dw_o w)"
    and w': "w' = dgram_recv_done (length (msg_data m)) (dupd_o (\<lambda>c. c\<lparr>dg_recv_have_addrs := True, dg_recv_busy := False\<rparr>)
      (dupd_o (\<lambda>c. c\<lparr>dg_recv_remote_addr := dgram_addr_sys_to_socket (msg_name m), dg_recv_local_addr := read_control BIPAddr_Invalid (msg_control m)\<rparr>)
        (w\<lparr>dw_mem := (dw_mem w)(dg_recv_busy_data (dw_o w) := msg_data m @ drop (length (msg_data m)) (dw_mem w (dg_recv_busy_data (dw_o w)))),
          dw_received := dw_received w @ [m]\<rparr>)))"
  shows "dg_inv w'"
proof -
  let ?c = "dw_o w"
  define g where "g = BSmallPending_Set (dg_recv_done_job ?c) (dw_jobs w)"
  define c' where "c' = ?c\<lparr>dg_recv_remote_addr := dgram_addr_sys_to_socket (msg_name m), dg_recv_local_addr := read_control BIPAddr_Invalid (msg_control m),
    dg_recv_have_addrs := True, dg_recv_busy := False,
    dg_recv_iface := (dg_recv_iface ?c)\<lparr>pri_done_len := int (length (msg_data m)), pri_state := STATE_DONE_PENDING\<rparr>\<rparr>"
  note p = base_parts [OF base] and ids = dg_ids [OF base_parts(4) [OF base]]
  have s: "dg_recv_inited ?c" "dg_recv_busy ?c" using busy by (simp_all add: recv_ready_def)
  have i: "pri_job_done (dg_recv_iface ?c) = dg_recv_done_job ?c" "dg_recv_done_job ?c \<in> known w" "pri_state (dg_recv_iface ?c) = STATE_BUSY"
    "dg_recv_busy_data ?c = pri_data (dg_recv_iface ?c)"
    using p(7) s by (simp_all add: drecv_ok_def drecv_jobs_def)
  have e: "w' = w\<lparr>dw_rx := (dw_rx w)\<lparr>rx_jobs := g\<rparr>, dw_o := c', dw_received := dw_received w @ [m],
      dw_mem := (dw_mem w)(pri_data (dg_recv_iface ?c) := msg_data m @ drop (length (msg_data m)) (dw_mem w (pri_data (dg_recv_iface ?c))))\<rparr>"
    by (simp add: w' dgram_recv_done_def dw_defs g_def c'_def i)
  have g: "group_inv g" "dom (job_handler g) = known w" "set (jobs g) = insert (dg_recv_done_job ?c) (pend w)"
    using p(3) i(2) by (auto simp: g_def set_jobs_set intro!: set_inv)
  have ro: "drecv_ok (set (jobs g)) (known w) c'" using p(7) s i ids busy(2) len by (simp add: drecv_ok_def drecv_jobs_def c'_def g(3))
  have a: "agree (dsend_jobs ?c) (pend w) (set (jobs g))" "agree J H H" for J H using ids by (simp_all add: agree_def dsend_jobs_def g(3))
  have so: "dsend_ok (set (jobs g)) (known w) c'" using dsend_frame [OF p(6) a] by (simp add: c'_def)
  have m: "messages_ok w'" using p(8) s(1) i(3) unfolding e by (simp add: messages_ok_def c'_def) (simp add: dreceived_ok_def delivery_def)
  have "dg_base w'" by (rule base_update [OF base, where g = g]) (use g so ro m in \<open>simp_all add: e same_parts_def c'_def\<close>)
  moreover have "dg_waits w'"
    using waits busy ids by (simp add: dg_waits_def e c'_def dsend_waits_def drecv_waits_def send_ready_def recv_ready_def g(3))
  ultimately show ?thesis by (rule dg_invI)
qed

lemma do_recv_inv:
  assumes base: "dg_base w" and busy: "recv_ready (dw_o w)" "dg_recv_job (dw_o w) \<notin> pend w"
    and stale: "has_read (dg_wait_events (dw_o w)) \<Longrightarrow> dw_sockerr w"
    and waits: "dsend_waits (pend w) (dw_o w)" and a: "rm_answer_ok (dw_sockerr w) (dg_recv_mtu (dw_o w)) ra"
  shows "dg_inv (do_recv ra w)"
proof -
  obtain ok r where i: "BReactorLimit_Increment (dg_recv_limit (dw_o w)) (dw_rx w) = (ok, r)" "dg_base (w\<lparr>dw_rx := r\<rparr>)" "rx_jobs r = dw_jobs w"
    using increment_base [OF base, of "dg_recv_limit (dw_o w)"] by (auto simp: dg_limits_def)
  let ?w = "w\<lparr>dw_rx := r\<rparr>"
  have wait: "dg_inv (dgram_wait BREACTOR_READ ?w)"
  proof -
    note f = wait_base [OF i(2), of BREACTOR_READ]
    have "dg_waits (dgram_wait BREACTOR_READ ?w)"
      using f waits busy i(3) by (simp add: dg_waits_def dsend_waits_def drecv_waits_def send_ready_def recv_ready_def)
    then show ?thesis using f(1) by (intro dg_invI) simp_all
  qed
  show ?thesis
  proof (cases "ok \<and> (\<exists>m. ra = RmMsg m)")
    case True
    then obtain m where m: "ra = RmMsg m" "int (length (msg_data m)) \<le> dg_recv_mtu (dw_o w)" "\<not> dw_sockerr w" "ok" using a by auto
    have nw: "\<not> has_read (dg_wait_events (dw_o w))" using m stale by auto
    show ?thesis by (rule dgram_recv_done_inv [OF i(2), where m = m]) (use i m busy nw waits in \<open>simp_all add: do_recv_def Let_def\<close>)
  next
    case False
    then show ?thesis using wait report_error_inv [OF i(2)] i(1) by (cases ra) (auto simp: do_recv_def Let_def)
  qed
qed

section \<open>The handlers\<close>

lemma dgram_fd_handler_inv:
  assumes base: "dg_base w" and waits: "dg_waits w" and ne: "\<not> dg_d_err (dw_o w)" and idle: "pend w = {}"
    and err: "fd_trouble events \<Longrightarrow> dw_sockerr w"
    and ev: "has_read events \<Longrightarrow> has_read (dg_wait_events (dw_o w))" "has_write events \<Longrightarrow> has_write (dg_wait_events (dw_o w))"
    and sa: "sm_answer_ok (dw_sockerr w) sa" and ra: "rm_answer_ok (dw_sockerr w) (dg_recv_mtu (dw_o w)) ra"
  shows "dg_inv (dgram_fd_handler events sa ra w)"
proof -
  let ?c = "dw_o w" and ?e = "dg_wait_events (dw_o w) AND NOT events"
  define w1 where "w1 = dgram_set_events ?e w"
  have "rw_only ?e" using base_parts(5) [OF base] by (simp add: dg_rx_ok_def)
  note f = set_events_base [OF base this, folded w1_def]
  have s: "has_write (dg_wait_events ?c) \<longleftrightarrow> send_ready ?c" "has_read (dg_wait_events ?c) \<longleftrightarrow> recv_ready ?c"
    using waits ne idle by (auto simp: dg_waits_def dsend_waits_def drecv_waits_def)
  define hs where "hs \<longleftrightarrow> has_write events \<or> fd_trouble events \<and> send_ready ?c"
  define hr where "hr \<longleftrightarrow> has_read events \<or> fd_trouble events \<and> recv_ready ?c"
  define w2 where "w2 = (if hr then dupd_jobs (BSmallPending_Set (dg_recv_job ?c)) w1 else w1)"
  have h: "dgram_fd_handler events sa ra w = (if hs then do_send sa w2 else if hr then do_recv ra w1 else dgram_report_error w1)"
    unfolding dgram_fd_handler_def Let_def w1_def [symmetric] has_read_def [symmetric] has_write_def [symmetric] fd_trouble_def [symmetric]
    by (simp add: f(2) w2_def hs_def hr_def send_ready_def recv_ready_def)
  have rdy: "hs \<Longrightarrow> send_ready ?c" "hr \<Longrightarrow> recv_ready ?c" using ev s by (auto simp: hs_def hr_def)
  consider "hs" | "\<not> hs" "hr" | "\<not> hs" "\<not> hr" by blast
  then show ?thesis
  proof cases
    case 1
    note p = base_parts [OF f(1)] and ids = dg_ids [OF base_parts(4) [OF base]]
    have g: "group_inv (BSmallPending_Set (dg_recv_job ?c) (dw_jobs w))" if hr
      using rdy(2) [OF that] base_parts(3,7) [OF base] by (auto simp: drecv_ok_def drecv_jobs_def recv_ready_def intro!: set_inv)
    have S: "pend w2 = (if hr then {dg_recv_job ?c} else {})" "known w2 = known w" "dw_o w2 = dw_o w1" "dw_sockerr w2 = dw_sockerr w"
      using idle f base_parts(3) [OF base] by (simp_all add: w2_def dw_defs set_jobs_set)
    have "dg_base w2"
    proof (cases hr)
      case True
      have w2: "w2 = w1\<lparr>dw_rx := (dw_rx w1)\<lparr>rx_jobs := BSmallPending_Set (dg_recv_job ?c) (dw_jobs w)\<rparr>\<rparr>"
        using True f(3) by (simp add: w2_def dw_defs)
      have so: "dsend_ok (insert (dg_recv_job ?c) (pend w)) (known w) ?c" 
        by (rule dsend_frame [OF base_parts(6) [OF base]]) (use ids in \<open>simp_all add: agree_def dsend_jobs_def\<close>)
      have ro: "drecv_ok (insert (dg_recv_job ?c) (pend w)) (known w) ?c"
        using base_parts(7) [OF base] rdy(2) [OF True] ids by (simp add: drecv_ok_def drecv_jobs_def recv_ready_def)
      show ?thesis
        by (rule base_update [OF f(1), where g = "BSmallPending_Set (dg_recv_job ?c) (dw_jobs w)"])
          (use w2 g [OF True] so ro f p(8) base_parts(3) [OF base] in \<open>simp_all add: same_parts_def set_jobs_set messages_ok_def\<close>)
    next
      case False
      then show ?thesis using f(1) by (simp add: w2_def)
    qed
    moreover have "drecv_waits (dw_sockerr w) (pend w2) (dw_o w2)"
      using s(2) rdy err by (auto simp: S drecv_waits_def f(2) recv_ready_def hr_def)
    ultimately have "dg_inv (do_send sa w2)"
      by (intro do_send_inv) (use rdy 1 S f s err ids sa in \<open>auto simp: send_ready_def hs_def\<close>)
    then show ?thesis using h 1 by simp
  next
    case 2
    have "dg_inv (do_recv ra w1)"
      by (rule do_recv_inv [OF f(1)])
        (use rdy 2 f s err idle ra in \<open>auto simp: recv_ready_def hs_def hr_def dsend_waits_def send_ready_def\<close>)
    then show ?thesis using h 2 by simp
  next
    case 3
    then show ?thesis using h report_error_inv [OF f(1)] by simp
  qed
qed

text \<open>A job of the socket that the loop runs leaves the queue.\<close>

lemma ran:
  assumes base: "dg_base w" and x: "BPendingGroup_ExecuteJob (dw_jobs w) = Some (j, g)"
  shows "group_inv g" "dom (job_handler g) = known w" "set (jobs g) = pend w - {j}" "j \<in> pend w" "j \<in> known w"
  using execute_jobs [OF base_parts(3) [OF base] x] base_parts(9) [OF base] by auto

lemma send_operation_inv:
  assumes base: "dg_base w" and waits: "dg_waits w" and x: "BPendingGroup_ExecuteJob (dw_jobs w) = Some (dg_send_op_job (dw_o w), g)"
    and w': "w' = send_if_handler_send (ppi_data (dg_send_iface (dw_o w))) (ppi_len (dg_send_iface (dw_o w)))
      (dupd_o (\<lambda>c. c\<lparr>dg_send_iface := (dg_send_iface (dw_o w))\<lparr>ppi_state := STATE_BUSY\<rparr>\<rparr>) (w\<lparr>dw_rx := (dw_rx w)\<lparr>rx_jobs := g\<rparr>\<rparr>))"
  shows "dg_inv w'"
proof -
  let ?c = "dw_o w" and ?i = "dg_send_iface (dw_o w)"
  define c' where "c' = ?c\<lparr>dg_send_iface := ?i\<lparr>ppi_state := STATE_BUSY\<rparr>, dg_send_busy_data := ppi_data ?i, dg_send_busy_data_len := ppi_len ?i,
    dg_send_busy := True\<rparr>"
  define g' where "g' = (if dg_send_have_addrs ?c then BSmallPending_Set (dg_send_job ?c) g else g)"
  note p = base_parts [OF base] and ids = dg_ids [OF base_parts(4) [OF base]] and r = ran [OF base x]
  have st: "dg_send_inited ?c" "ppi_state ?i = STATE_OPERATION_PENDING" using p(6) r(4,5) by (simp_all add: dsend_ok_def dsend_jobs_def)
  have e: "w' = w\<lparr>dw_rx := (dw_rx w)\<lparr>rx_jobs := g'\<rparr>, dw_o := c'\<rparr>"
    by (simp add: w' send_if_handler_send_def dw_defs Let_def g'_def c'_def)
  have sj: "dg_send_job ?c \<in> known w" "dg_send_job ?c \<notin> pend w" "\<not> dg_send_busy ?c" using p(6) st by (auto simp: dsend_ok_def dsend_jobs_def)
  have g: "group_inv g'" "dom (job_handler g') = known w"
    "set (jobs g') = pend w - {dg_send_op_job ?c} \<union> (if dg_send_have_addrs ?c then {dg_send_job ?c} else {})"
    using r sj(1) set_inv [OF r(1), of "dg_send_job ?c"] by (auto simp: g'_def set_jobs_set)
  have so: "dsend_ok (set (jobs g')) (known w) c'" using p(6) st ids sj by (simp add: dsend_ok_def dsend_jobs_def c'_def g(3))
  have a: "agree (drecv_jobs ?c) (pend w) (set (jobs g'))" "agree J H H" for J H using ids by (simp_all add: agree_def drecv_jobs_def g(3))
  have ro: "drecv_ok (set (jobs g')) (known w) c'" using drecv_frame [OF p(7) a] by (simp add: c'_def)
  have m: "messages_ok w'" using p(8) st unfolding e by (simp add: messages_ok_def c'_def) (simp add: dsent_ok_def)
  have "dg_base w'" by (rule base_update [OF base, where g = g']) (use g so ro m in \<open>simp_all add: e same_parts_def c'_def\<close>)
  moreover have "dg_waits w'"
    using waits sj ids by (auto simp: dg_waits_def e c'_def dsend_waits_def drecv_waits_def send_ready_def recv_ready_def g(3))
  ultimately show ?thesis by (rule dg_invI)
qed

lemma recv_operation_inv:
  assumes base: "dg_base w" and waits: "dg_waits w" and x: "BPendingGroup_ExecuteJob (dw_jobs w) = Some (dg_recv_op_job (dw_o w), g)"
    and w': "w' = recv_if_handler_recv (pri_data (dg_recv_iface (dw_o w)))
      (dupd_o (\<lambda>c. c\<lparr>dg_recv_iface := (dg_recv_iface (dw_o w))\<lparr>pri_state := STATE_BUSY\<rparr>\<rparr>) (w\<lparr>dw_rx := (dw_rx w)\<lparr>rx_jobs := g\<rparr>\<rparr>))"
  shows "dg_inv w'"
proof -
  let ?c = "dw_o w" and ?i = "dg_recv_iface (dw_o w)"
  define c' where "c' = ?c\<lparr>dg_recv_iface := ?i\<lparr>pri_state := STATE_BUSY\<rparr>, dg_recv_busy_data := pri_data ?i, dg_recv_busy := True\<rparr>"
  define g' where "g' = (if dg_recv_started ?c then BSmallPending_Set (dg_recv_job ?c) g else g)"
  note p = base_parts [OF base] and ids = dg_ids [OF base_parts(4) [OF base]] and r = ran [OF base x]
  have st: "dg_recv_inited ?c" "pri_state ?i = STATE_OPERATION_PENDING" using p(7) r(4,5) by (simp_all add: drecv_ok_def drecv_jobs_def)
  have e: "w' = w\<lparr>dw_rx := (dw_rx w)\<lparr>rx_jobs := g'\<rparr>, dw_o := c'\<rparr>"
    by (simp add: w' recv_if_handler_recv_def dw_defs Let_def g'_def c'_def)
  have sj: "dg_recv_job ?c \<in> known w" "dg_recv_job ?c \<notin> pend w" "\<not> dg_recv_busy ?c" using p(7) st by (auto simp: drecv_ok_def drecv_jobs_def)
  have g: "group_inv g'" "dom (job_handler g') = known w"
    "set (jobs g') = pend w - {dg_recv_op_job ?c} \<union> (if dg_recv_started ?c then {dg_recv_job ?c} else {})"
    using r sj(1) set_inv [OF r(1), of "dg_recv_job ?c"] by (auto simp: g'_def set_jobs_set)
  have ro: "drecv_ok (set (jobs g')) (known w) c'" using p(7) st ids sj by (simp add: drecv_ok_def drecv_jobs_def c'_def g(3))
  have a: "agree (dsend_jobs ?c) (pend w) (set (jobs g'))" "agree J H H" for J H using ids by (simp_all add: agree_def dsend_jobs_def g(3))
  have so: "dsend_ok (set (jobs g')) (known w) c'" using dsend_frame [OF p(6) a] by (simp add: c'_def)
  have m: "messages_ok w'" using p(8) st unfolding e by (simp add: messages_ok_def c'_def) (simp add: dreceived_ok_def)
  have "dg_base w'" by (rule base_update [OF base, where g = g']) (use g so ro m in \<open>simp_all add: e same_parts_def c'_def\<close>)
  moreover have "dg_waits w'"
    using waits sj ids by (auto simp: dg_waits_def e c'_def dsend_waits_def drecv_waits_def send_ready_def recv_ready_def g(3))
  ultimately show ?thesis by (rule dg_invI)
qed

text \<open>The user is told of a packet.\<close>

lemma user_sent_inv:
  assumes base: "dg_base w" and waits: "dg_waits w" and x: "BPendingGroup_ExecuteJob (dw_jobs w) = Some (dg_send_done_job (dw_o w), g)"
    and w': "w' = dgram_user_sent (w\<lparr>dw_rx := (dw_rx w)\<lparr>rx_jobs := g\<rparr>\<rparr>)"
  shows "dg_inv w'"
proof -
  let ?c = "dw_o w" and ?i = "dg_send_iface (dw_o w)"
  define c' where "c' = ?c\<lparr>dg_send_iface := ?i\<lparr>ppi_state := STATE_NONE\<rparr>\<rparr>"
  note p = base_parts [OF base] and ids = dg_ids [OF base_parts(4) [OF base]] and r = ran [OF base x]
  have st: "dg_send_inited ?c" "ppi_state ?i = STATE_DONE_PENDING" using p(6) r(4,5) by (simp_all add: dsend_ok_def dsend_jobs_def)
  have e: "w' = w\<lparr>dw_rx := (dw_rx w)\<lparr>rx_jobs := g\<rparr>, dw_o := c', dw_confirmed := dw_confirmed w @ [ppi_data ?i]\<rparr>"
    by (simp add: w' dgram_user_sent_def PacketPassInterface_job_done_def dw_defs c'_def Let_def)
  have so: "dsend_ok (set (jobs g)) (known w) c'" using p(6) st ids by (auto simp: dsend_ok_def dsend_jobs_def c'_def r(3))
  have a: "agree (drecv_jobs ?c) (pend w) (set (jobs g))" "agree J H H" for J H using ids by (simp_all add: agree_def drecv_jobs_def r(3))
  have ro: "drecv_ok (set (jobs g)) (known w) c'" using drecv_frame [OF p(7) a] by (simp add: c'_def)
  have m: "messages_ok w'" using p(8) st unfolding e by (simp add: messages_ok_def c'_def) (simp add: dsent_ok_def)
  have "dg_base w'" by (rule base_update [OF base, where g = g]) (use r so ro m in \<open>simp_all add: e same_parts_def c'_def\<close>)
  moreover have "dg_waits w'"
    using waits ids by (auto simp: dg_waits_def e c'_def dsend_waits_def drecv_waits_def send_ready_def recv_ready_def r(3))
  ultimately show ?thesis by (rule dg_invI)
qed

lemma user_received_inv:
  assumes base: "dg_base w" and waits: "dg_waits w" and x: "BPendingGroup_ExecuteJob (dw_jobs w) = Some (dg_recv_done_job (dw_o w), g)"
    and w': "w' = dgram_user_received (w\<lparr>dw_rx := (dw_rx w)\<lparr>rx_jobs := g\<rparr>\<rparr>)"
  shows "dg_inv w'"
proof -
  let ?c = "dw_o w" and ?i = "dg_recv_iface (dw_o w)"
  define c' where "c' = ?c\<lparr>dg_recv_iface := ?i\<lparr>pri_state := STATE_NONE\<rparr>\<rparr>"
  note p = base_parts [OF base] and ids = dg_ids [OF base_parts(4) [OF base]] and r = ran [OF base x]
  have st: "dg_recv_inited ?c" "pri_state ?i = STATE_DONE_PENDING" using p(7) r(4,5) by (simp_all add: drecv_ok_def drecv_jobs_def)
  have addr: "dg_recv_have_addrs ?c" using p(7) st by (simp add: drecv_ok_def)
  have e: "w' = w\<lparr>dw_rx := (dw_rx w)\<lparr>rx_jobs := g\<rparr>, dw_o := c', dw_delivered := dw_delivered w @
      [(dg_recv_remote_addr ?c, dg_recv_local_addr ?c, take (nat (pri_done_len ?i)) (dw_mem w (pri_data ?i)))]\<rparr>"
    using addr by (simp add: w' dgram_user_received_def PacketRecvInterface_job_done_def BDatagram_GetLastReceiveAddrs_def dw_defs c'_def Let_def)
  have ro: "drecv_ok (set (jobs g)) (known w) c'" using p(7) st ids by (auto simp: drecv_ok_def drecv_jobs_def c'_def r(3))
  have a: "agree (dsend_jobs ?c) (pend w) (set (jobs g))" "agree J H H" for J H using ids by (simp_all add: agree_def dsend_jobs_def r(3))
  have so: "dsend_ok (set (jobs g)) (known w) c'" using dsend_frame [OF p(6) a] by (simp add: c'_def)
  have m: "messages_ok w'" using p(8) st unfolding e by (simp add: messages_ok_def c'_def) (simp add: dreceived_ok_def)
  have "dg_base w'" by (rule base_update [OF base, where g = g]) (use r so ro m in \<open>simp_all add: e same_parts_def c'_def\<close>)
  moreover have "dg_waits w'"
    using waits ids by (auto simp: dg_waits_def e c'_def dsend_waits_def drecv_waits_def send_ready_def recv_ready_def r(3))
  ultimately show ?thesis by (rule dg_invI)
qed

text \<open>The jobs of the socket itself.\<close>

lemma own_job_inv:
  assumes base: "dg_base w" and waits: "dg_waits w" and ne: "\<not> dg_d_err (dw_o w)" and x: "BPendingGroup_ExecuteJob (dw_jobs w) = Some (j, g)"
    and j: "j = dg_send_job (dw_o w) \<or> j = dg_recv_job (dw_o w)"
    and sa: "sm_answer_ok (dw_sockerr w) sa" and ra: "rm_answer_ok (dw_sockerr w) (dg_recv_mtu (dw_o w)) ra"
  shows "j = dg_send_job (dw_o w) \<Longrightarrow> dg_inv (do_send sa (w\<lparr>dw_rx := (dw_rx w)\<lparr>rx_jobs := g\<rparr>\<rparr>))"
    "j = dg_recv_job (dw_o w) \<Longrightarrow> dg_inv (do_recv ra (w\<lparr>dw_rx := (dw_rx w)\<lparr>rx_jobs := g\<rparr>\<rparr>))"
proof -
  let ?c = "dw_o w" and ?w = "w\<lparr>dw_rx := (dw_rx w)\<lparr>rx_jobs := g\<rparr>\<rparr>"
  note p = base_parts [OF base] and ids = dg_ids [OF base_parts(4) [OF base]] and r = ran [OF base x]
  have so: "dsend_ok (set (jobs g)) (known w) ?c" using p(6) j ids by (auto simp: dsend_ok_def dsend_jobs_def r(3))
  have ro: "drecv_ok (set (jobs g)) (known w) ?c" using p(7) j ids by (auto simp: drecv_ok_def drecv_jobs_def r(3))
  have b: "dg_base ?w"
    by (rule base_update [OF base, where g = g]) (use r so ro p(8) in \<open>simp_all add: same_parts_def messages_ok_def\<close>)
  have w: "dsend_waits (pend w) ?c" "drecv_waits (dw_sockerr w) (pend w) ?c" using waits ne by (simp_all add: dg_waits_def)
  show "dg_inv (do_send sa ?w)" if "j = dg_send_job ?c"
  proof (rule do_send_inv [OF b])
    have k: "dg_send_job ?c \<in> known w" "dg_send_job ?c \<in> pend w" using r(4,5) that by simp_all
    then show "send_ready (dw_o ?w)" using p(6) by (simp add: dsend_ok_def dsend_jobs_def send_ready_def)
    show "has_write (dg_wait_events (dw_o ?w)) \<Longrightarrow> dw_sockerr ?w" using w(1) k by (simp add: dsend_waits_def)
    show "drecv_waits (dw_sockerr ?w) (pend ?w) (dw_o ?w)" using w(2) ids that by (simp add: drecv_waits_def r(3))
  qed (use r that sa in simp_all)
  show "dg_inv (do_recv ra ?w)" if "j = dg_recv_job ?c"
  proof (rule do_recv_inv [OF b])
    have k: "dg_recv_job ?c \<in> known w" "dg_recv_job ?c \<in> pend w" using r(4,5) that by simp_all
    then show "recv_ready (dw_o ?w)" using p(7) by (simp add: drecv_ok_def drecv_jobs_def recv_ready_def)
    show "has_read (dg_wait_events (dw_o ?w)) \<Longrightarrow> dw_sockerr ?w" using w(2) k by (simp add: drecv_waits_def)
    show "dsend_waits (pend ?w) (dw_o ?w)" using w(1) ids that by (simp add: dsend_waits_def r(3))
  qed (use r that ra in simp_all)
qed

lemma dgram_dispatch_job_inv:
  assumes base: "dg_base w" and waits: "dg_waits w" and ne: "\<not> dg_d_err (dw_o w)" and x: "BPendingGroup_ExecuteJob (dw_jobs w) = Some (j, g)"
    and own: "j \<in> set (dg_jobs (dw_o w))"
    and sa: "sm_answer_ok (dw_sockerr w) sa" and ra: "rm_answer_ok (dw_sockerr w) (dg_recv_mtu (dw_o w)) ra"
  shows "dg_inv (dgram_dispatch_job j sa ra (w\<lparr>dw_rx := (dw_rx w)\<lparr>rx_jobs := g\<rparr>\<rparr>))"
proof -
  let ?c = "dw_o w" and ?w = "w\<lparr>dw_rx := (dw_rx w)\<lparr>rx_jobs := g\<rparr>\<rparr>"
  note ids = dg_ids [OF base_parts(4) [OF base]]
  note own_job = own_job_inv [OF base waits ne x _ sa ra]
  have nc: "j \<noteq> dg_send_cancel_job ?c" using base_parts(6) [OF base] ran(4,5) [OF base x] by (auto simp: dsend_ok_def dsend_jobs_def)
  consider "j = dg_send_op_job ?c" | "j = dg_send_done_job ?c" | "j = dg_send_job ?c" | "j = dg_recv_op_job ?c" | "j = dg_recv_done_job ?c"
    | "j = dg_recv_job ?c" using own nc by (auto simp: dg_jobs_def)
  then show ?thesis
  proof cases
    case 1
    then show ?thesis using send_operation_inv [OF base waits x [unfolded 1] refl]
      by (simp add: dgram_dispatch_job_def Let_def PacketPassInterface_job_operation_def dw_defs)
  next
    case 2
    then show ?thesis using user_sent_inv [OF base waits x [unfolded 2] refl] ids by (simp add: dgram_dispatch_job_def Let_def)
  next
    case 3
    then show ?thesis using own_job(1) ids by (simp add: dgram_dispatch_job_def Let_def dgram_send_job_handler_def)
  next
    case 4
    then show ?thesis using recv_operation_inv [OF base waits x [unfolded 4] refl] ids
      by (simp add: dgram_dispatch_job_def Let_def PacketRecvInterface_job_operation_def dw_defs)
  next
    case 5
    then show ?thesis using user_received_inv [OF base waits x [unfolded 5] refl] ids by (simp add: dgram_dispatch_job_def Let_def)
  next
    case 6
    then show ?thesis using own_job(2) ids by (simp add: dgram_dispatch_job_def Let_def dgram_recv_job_handler_def)
  qed
qed

section \<open>The user's calls\<close>

lemma bind_inv:
  assumes "dg_inv w" "dgram_pre (DO_Bind bound) w"
  shows "dg_inv (BDatagram_Bind bound w)"
proof -
  have base: "dg_base w" and s: "dsend_waits (pend w) (dw_o w)" and rw: "drecv_waits (dw_sockerr w) (pend w) (dw_o w)"
    using assms by (simp_all add: dg_inv_def dg_waits_def)
  obtain g where g: "start_recv w = w\<lparr>dw_rx := (dw_rx w)\<lparr>rx_jobs := g\<rparr>, dw_o := (dw_o w)\<lparr>dg_recv_started := True\<rparr>\<rparr>"
    "dg_base (start_recv w)" "drecv_waits (dw_sockerr w) (set (jobs g)) ((dw_o w)\<lparr>dg_recv_started := True\<rparr>)"
    "agree (dsend_jobs (dw_o w)) (pend w) (set (jobs g))"
    by (rule start_recv_inv [OF base rw])
  have "dsend_waits (set (jobs g)) ((dw_o w)\<lparr>dg_recv_started := True\<rparr>)"
    using s g(4) by (simp add: dsend_waits_def send_ready_def agree_def dsend_jobs_def)
  then have "dg_waits (start_recv w)" using g(3) by (simp add: dg_waits_def g(1))
  then show ?thesis using assms(1) dg_invI [OF g(2)] by (simp add: BDatagram_Bind_def)
qed

lemma set_addrs_inv:
  assumes inv: "dg_inv w" and pre: "dgram_pre (DO_SetSendAddrs remote local) w"
  shows "dg_inv (BDatagram_SetSendAddrs remote local w)"
proof -
  let ?c = "dw_o w" and ?b = "\<not> dg_send_have_addrs (dw_o w) \<and> dg_send_inited (dw_o w) \<and> dg_send_busy (dw_o w)"
  define g where "g = (if ?b then BSmallPending_Set (dg_send_job ?c) (dw_jobs w) else dw_jobs w)"
  define c' where "c' = ?c\<lparr>dg_send_remote_addr := remote, dg_send_local_addr := local, dg_send_have_addrs := True\<rparr>"
  have base: "dg_base w" and waits: "dsend_waits (pend w) ?c" "drecv_waits (dw_sockerr w) (pend w) ?c" and ne: "\<not> dg_d_err ?c"
    using inv pre by (simp_all add: dg_inv_def dg_waits_def)
  note p = base_parts [OF base] and ids = dg_ids [OF base_parts(4) [OF base]]
  have e: "BDatagram_SetSendAddrs remote local w = w\<lparr>dw_rx := (dw_rx w)\<lparr>rx_jobs := g\<rparr>, dw_o := c'\<rparr>" (is "?w = _")
    by (simp add: BDatagram_SetSendAddrs_def dw_defs g_def c'_def Let_def)
  have g: "group_inv g" "dom (job_handler g) = known w" "set (jobs g) = (if ?b then insert (dg_send_job ?c) (pend w) else pend w)"
    using p(3,6) by (auto simp: g_def dsend_ok_def dsend_jobs_def set_jobs_set intro!: set_inv)
  have so: "dsend_ok (set (jobs g)) (known w) c'" using p(6) ids g(3) by (cases ?b) (auto simp: dsend_ok_def dsend_jobs_def c'_def)
  have a: "agree (drecv_jobs ?c) (pend w) (set (jobs g))" "agree J H H" for J H using ids by (simp_all add: agree_def drecv_jobs_def g(3))
  have ro: "drecv_ok (set (jobs g)) (known w) c'" using drecv_frame [OF p(7) a] by (simp add: c'_def)
  have m: "messages_ok ?w" using p(8) unfolding e by (simp add: messages_ok_def c'_def)
  have "dg_base ?w" by (rule base_update [OF base, where g = g]) (use g so ro m in \<open>simp_all add: e same_parts_def c'_def\<close>)
  moreover have "dg_waits ?w"
    using waits ids by (auto simp: dg_waits_def e c'_def dsend_waits_def drecv_waits_def send_ready_def recv_ready_def g(3))
  ultimately show ?thesis by (rule dg_invI)
qed

lemma dgram_send_init_inv:
  assumes inv: "dg_inv w" and pre: "dgram_pre (DO_SendInit mtu) w"
  shows "dg_inv (BDatagram_SendAsync_Init mtu w)"
proof -
  let ?c = "dw_o w" and ?g = "dw_jobs w"
  have base: "dg_base w" and waits: "dsend_waits (pend w) ?c" "drecv_waits (dw_sockerr w) (pend w) ?c" and ni: "\<not> dg_send_inited ?c" and ne: "\<not> dg_d_err ?c"
    using inv pre by (simp_all add: dg_inv_def dg_waits_def)
  note p = base_parts [OF base] and ids = dg_ids [OF base_parts(4) [OF base]]
  have new: "dg_send_op_job ?c \<notin> known w" "dg_send_cancel_job ?c \<notin> known w" "dg_send_done_job ?c \<notin> known w" "dg_send_job ?c \<notin> known w"
    using p(6) ni by (simp_all add: dsend_ok_def dsend_jobs_def)
  define g1 where "g1 = BSmallPending_Init (dg_send_op_job ?c) H_OPERATION ?g"
  define g2 where "g2 = BSmallPending_Init (dg_send_cancel_job ?c) H_REQUESTCANCEL g1"
  define g3 where "g3 = BSmallPending_Init (dg_send_done_job ?c) H_DONE g2"
  define g4 where "g4 = BSmallPending_Init (dg_send_job ?c) H_OWN_JOB g3"
  have 1: "group_inv g1" "jobs g1 = jobs ?g" "job_handler g1 = (job_handler ?g)(dg_send_op_job ?c \<mapsto> H_OPERATION)"
    using init_jobs [OF p(3), of "dg_send_op_job ?c"] new(1) by (auto simp: g1_def)
  have 2: "group_inv g2" "jobs g2 = jobs ?g" "job_handler g2 = (job_handler g1)(dg_send_cancel_job ?c \<mapsto> H_REQUESTCANCEL)"
    using init_jobs [OF 1(1), of "dg_send_cancel_job ?c"] new(2) ids 1 by (auto simp: g2_def)
  have 3: "group_inv g3" "jobs g3 = jobs ?g" "job_handler g3 = (job_handler g2)(dg_send_done_job ?c \<mapsto> H_DONE)"
    using init_jobs [OF 2(1), of "dg_send_done_job ?c"] new(3) ids 1 2 by (auto simp: g3_def)
  have 4: "group_inv g4" "jobs g4 = jobs ?g" "job_handler g4 = (job_handler g3)(dg_send_job ?c \<mapsto> H_OWN_JOB)"
    using init_jobs [OF 3(1), of "dg_send_job ?c"] new(4) ids 1 2 3 by (auto simp: g4_def)
  have H: "dom (job_handler g4) = known w \<union> dsend_jobs ?c" by (auto simp: 1 2 3 4 dsend_jobs_def)
  define i where "i = fst (PacketPassInterface_Init mtu (dg_send_op_job ?c) (dg_send_cancel_job ?c) (dg_send_done_job ?c) H_OPERATION H_REQUESTCANCEL
    H_DONE ([] :: byte list) ?g)"
  define c' where "c' = ?c\<lparr>dg_send_mtu := mtu, dg_send_iface := i, dg_send_busy := False, dg_send_inited := True\<rparr>"
  have e: "BDatagram_SendAsync_Init mtu w = w\<lparr>dw_rx := (dw_rx w)\<lparr>rx_jobs := g4\<rparr>, dw_o := c'\<rparr>" (is "?w = _")
    by (simp add: BDatagram_SendAsync_Init_def PacketPassInterface_Init_def dw_defs Let_def g1_def g2_def g3_def g4_def i_def c'_def)
  have np: "j \<in> dsend_jobs ?c \<Longrightarrow> j \<notin> pend w" for j using new p(9) by (auto simp: dsend_jobs_def)
  have so: "dsend_ok (set (jobs g4)) (dom (job_handler g4)) c'"
    using np by (simp add: dsend_ok_def H 4(2) c'_def i_def PacketPassInterface_Init_def dsend_jobs_def)
  have a: "agree (drecv_jobs ?c) (pend w) (set (jobs g4))" "agree (drecv_jobs ?c) (known w) (dom (job_handler g4))"
    using ids by (simp_all add: agree_def drecv_jobs_def 4(2) H dsend_jobs_def)
  have ro: "drecv_ok (set (jobs g4)) (dom (job_handler g4)) c'" using drecv_frame [OF p(7) a] by (simp add: c'_def)
  have m: "messages_ok ?w" using p(8) ni unfolding e by (simp add: messages_ok_def c'_def) (simp add: dsent_ok_def i_def PacketPassInterface_Init_def)
  have "dg_base ?w" by (rule base_update [OF base, where g = g4]) (use 4 so ro m in \<open>simp_all add: e same_parts_def c'_def\<close>)
  moreover have "dg_waits ?w"
    using waits ni by (simp add: dg_waits_def e c'_def dsend_waits_def drecv_waits_def send_ready_def recv_ready_def 4(2))
  ultimately show ?thesis by (rule dg_invI)
qed

lemma dgram_recv_init_inv:
  assumes inv: "dg_inv w" and pre: "dgram_pre (DO_RecvInit mtu) w"
  shows "dg_inv (BDatagram_RecvAsync_Init mtu w)"
proof -
  let ?c = "dw_o w" and ?g = "dw_jobs w"
  have base: "dg_base w" and waits: "dsend_waits (pend w) ?c" "drecv_waits (dw_sockerr w) (pend w) ?c" and ni: "\<not> dg_recv_inited ?c" and ne: "\<not> dg_d_err ?c"
    using inv pre by (simp_all add: dg_inv_def dg_waits_def)
  note p = base_parts [OF base] and ids = dg_ids [OF base_parts(4) [OF base]]
  have new: "dg_recv_op_job ?c \<notin> known w" "dg_recv_done_job ?c \<notin> known w" "dg_recv_job ?c \<notin> known w"
    using p(7) ni by (simp_all add: drecv_ok_def drecv_jobs_def)
  define g1 where "g1 = BSmallPending_Init (dg_recv_op_job ?c) H_OPERATION ?g"
  define g2 where "g2 = BSmallPending_Init (dg_recv_done_job ?c) H_DONE g1"
  define g3 where "g3 = BSmallPending_Init (dg_recv_job ?c) H_OWN_JOB g2"
  have 1: "group_inv g1" "jobs g1 = jobs ?g" "job_handler g1 = (job_handler ?g)(dg_recv_op_job ?c \<mapsto> H_OPERATION)"
    using init_jobs [OF p(3), of "dg_recv_op_job ?c"] new(1) by (auto simp: g1_def)
  have 2: "group_inv g2" "jobs g2 = jobs ?g" "job_handler g2 = (job_handler g1)(dg_recv_done_job ?c \<mapsto> H_DONE)"
    using init_jobs [OF 1(1), of "dg_recv_done_job ?c"] new(2) ids 1 by (auto simp: g2_def)
  have 3: "group_inv g3" "jobs g3 = jobs ?g" "job_handler g3 = (job_handler g2)(dg_recv_job ?c \<mapsto> H_OWN_JOB)"
    using init_jobs [OF 2(1), of "dg_recv_job ?c"] new(3) ids 1 2 by (auto simp: g3_def)
  have H: "dom (job_handler g3) = known w \<union> drecv_jobs ?c" by (auto simp: 1 2 3 drecv_jobs_def)
  define i where "i = fst (PacketRecvInterface_Init mtu (dg_recv_op_job ?c) (dg_recv_done_job ?c) H_OPERATION H_DONE (0 :: nat) ?g)"
  define c' where "c' = ?c\<lparr>dg_recv_mtu := mtu, dg_recv_iface := i, dg_recv_busy := False, dg_recv_inited := True\<rparr>"
  have e: "BDatagram_RecvAsync_Init mtu w = w\<lparr>dw_rx := (dw_rx w)\<lparr>rx_jobs := g3\<rparr>, dw_o := c'\<rparr>" (is "?w = _")
    by (simp add: BDatagram_RecvAsync_Init_def PacketRecvInterface_Init_def dw_defs Let_def g1_def g2_def g3_def i_def c'_def)
  have np: "j \<in> drecv_jobs ?c \<Longrightarrow> j \<notin> pend w" for j using new p(9) by (auto simp: drecv_jobs_def)
  have ro: "drecv_ok (set (jobs g3)) (dom (job_handler g3)) c'"
    using np by (simp add: drecv_ok_def H 3(2) c'_def i_def PacketRecvInterface_Init_def drecv_jobs_def)
  have a: "agree (dsend_jobs ?c) (pend w) (set (jobs g3))" "agree (dsend_jobs ?c) (known w) (dom (job_handler g3))"
    using ids by (simp_all add: agree_def drecv_jobs_def 3(2) H dsend_jobs_def)
  have so: "dsend_ok (set (jobs g3)) (dom (job_handler g3)) c'" using dsend_frame [OF p(6) a] by (simp add: c'_def)
  have m: "messages_ok ?w" using p(8) ni unfolding e by (simp add: messages_ok_def c'_def) (simp add: dreceived_ok_def i_def PacketRecvInterface_Init_def)
  have "dg_base ?w" by (rule base_update [OF base, where g = g3]) (use 3 so ro m in \<open>simp_all add: e same_parts_def c'_def\<close>)
  moreover have "dg_waits ?w"
    using waits ni np by (simp add: dg_waits_def e c'_def dsend_waits_def drecv_waits_def send_ready_def recv_ready_def 3(2))
  ultimately show ?thesis by (rule dg_invI)
qed

lemma dropped_events:
  "rw_only e \<Longrightarrow> rw_only (e AND NOT BREACTOR_WRITE)" "\<not> has_write (e AND NOT BREACTOR_WRITE)" "has_read (e AND NOT BREACTOR_WRITE) \<longleftrightarrow> has_read e"
  "rw_only e \<Longrightarrow> rw_only (e AND NOT BREACTOR_READ)" "\<not> has_read (e AND NOT BREACTOR_READ)" "has_write (e AND NOT BREACTOR_READ) \<longleftrightarrow> has_write e"
  by (simp_all only: mask_simps not_True_eq_False simp_thms)

text \<open>Freeing an interface: the jobs go, and the descriptor no longer waits for them.\<close>

lemma dgram_send_free_inv:
  assumes inv: "dg_inv w" and pre: "dgram_pre DO_SendFree w"
  shows "dg_inv (BDatagram_SendAsync_Free w)"
proof -
  define w0 where "w0 = w\<lparr>dw_lost_send := dw_lost_send w \<or> ppi_state (dg_send_iface (dw_o w)) = STATE_DONE_PENDING\<rparr>"
  define e' where "e' = dg_wait_events (dw_o w) AND NOT BREACTOR_WRITE"
  define w1 where "w1 = dgram_set_events e' w0"
  let ?c = "dw_o w" and ?g = "dw_jobs w"
  have base: "dg_base w" and waits: "dg_waits w" and ini: "dg_send_inited ?c" using inv pre by (simp_all add: dg_inv_def)
  note p = base_parts [OF base] and ids = dg_ids [OF base_parts(4) [OF base]]
  have w0: "dw_o w0 = ?c" by (simp add: w0_def)
  have "dg_base w0" using base by (simp add: dg_base_def w0_def messages_ok_def)
  moreover have ev: "rw_only e'" "\<not> has_write e'" "has_read e' \<longleftrightarrow> has_read (dg_wait_events ?c)"
    using dropped_events [of "dg_wait_events ?c"] p(5) by (simp_all only: e'_def dg_rx_ok_def not_False_eq_True)
  ultimately have f: "dg_base w1" "dw_o w1 = ?c\<lparr>dg_wait_events := e'\<rparr>" "dw_jobs w1 = ?g" "dw_sockerr w1 = dw_sockerr w"
    using set_events_base [of w0, folded w1_def] by (simp_all add: w1_def w0_def)
  define g where "g = BSmallPending_Free (dg_send_op_job ?c) (BSmallPending_Free (dg_send_cancel_job ?c) (BSmallPending_Free (dg_send_done_job ?c)
    (BSmallPending_Free (dg_send_job ?c) ?g)))"
  define c' where "c' = (dw_o w1)\<lparr>dg_send_inited := False\<rparr>"
  have i: "ppi_job_operation (dg_send_iface ?c) = dg_send_op_job ?c" "ppi_job_requestcancel (dg_send_iface ?c) = dg_send_cancel_job ?c"
    "ppi_job_done (dg_send_iface ?c) = dg_send_done_job ?c" using p(6) ini by (simp_all add: dsend_ok_def)
  have e: "BDatagram_SendAsync_Free w = w1\<lparr>dw_rx := (dw_rx w1)\<lparr>rx_jobs := g\<rparr>, dw_o := c'\<rparr>" (is "?w = _")
    unfolding BDatagram_SendAsync_Free_def Let_def w0_def [symmetric] w0 e'_def [symmetric] w1_def [symmetric]
    by (simp add: PacketPassInterface_Free_def dw_defs f(2,3) i g_def c'_def)
  note 1 = free_jobs [OF p(3), of "dg_send_job ?c"]
  note 2 = free_jobs [OF 1(1), of "dg_send_done_job ?c"]
  note 3 = free_jobs [OF 2(1), of "dg_send_cancel_job ?c"]
  note 4 = free_jobs [OF 3(1), of "dg_send_op_job ?c", folded g_def]
  have S: "set (jobs g) = pend w - dsend_jobs ?c" "dom (job_handler g) = known w - dsend_jobs ?c" by (auto simp: 1 2 3 4 dsend_jobs_def)
  have so: "dsend_ok (set (jobs g)) (dom (job_handler g)) c'" by (simp add: dsend_ok_def c'_def S f(2)) (simp add: dsend_jobs_def)
  have a: "agree (drecv_jobs ?c) (pend w) (set (jobs g))" "agree (drecv_jobs ?c) (known w) (dom (job_handler g))"
    using ids by (simp_all add: agree_def drecv_jobs_def S dsend_jobs_def)
  have ro: "drecv_ok (set (jobs g)) (dom (job_handler g)) c'" using drecv_frame [OF p(7) a] by (simp add: c'_def f(2))
  have "dw_lost_send w1 \<or> ppi_state (dg_send_iface (dw_o w1)) \<noteq> STATE_DONE_PENDING"
    by (simp add: w1_def w0_def dgram_set_events_def dw_defs)
  then have m: "messages_ok ?w" using base_parts(8) [OF f(1)] unfolding e by (auto simp: messages_ok_def c'_def; simp add: dsent_ok_def)
  have "dg_base ?w" by (rule base_update [OF f(1), where g = g]) (use 4(1) so ro m in \<open>simp_all add: e same_parts_def c'_def\<close>)
  moreover have "dg_waits ?w"
    using waits ids f(4) ev by (auto simp: dg_waits_def e c'_def f(2) dsend_waits_def drecv_waits_def send_ready_def recv_ready_def S dsend_jobs_def)
  ultimately show ?thesis by (rule dg_invI)
qed

lemma dgram_recv_free_inv:
  assumes inv: "dg_inv w" and pre: "dgram_pre DO_RecvFree w"
  shows "dg_inv (BDatagram_RecvAsync_Free w)"
proof -
  define w0 where "w0 = w\<lparr>dw_lost_recv := dw_lost_recv w \<or> pri_state (dg_recv_iface (dw_o w)) = STATE_DONE_PENDING\<rparr>"
  define e' where "e' = dg_wait_events (dw_o w) AND NOT BREACTOR_READ"
  define w1 where "w1 = dgram_set_events e' w0"
  let ?c = "dw_o w" and ?g = "dw_jobs w"
  have base: "dg_base w" and waits: "dg_waits w" and ini: "dg_recv_inited ?c" using inv pre by (simp_all add: dg_inv_def)
  note p = base_parts [OF base] and ids = dg_ids [OF base_parts(4) [OF base]]
  have w0: "dw_o w0 = ?c" by (simp add: w0_def)
  have "dg_base w0" using base by (simp add: dg_base_def w0_def messages_ok_def)
  moreover have ev: "rw_only e'" "\<not> has_read e'" "has_write e' \<longleftrightarrow> has_write (dg_wait_events ?c)"
    using dropped_events [of "dg_wait_events ?c"] p(5) by (simp_all only: e'_def dg_rx_ok_def not_False_eq_True)
  ultimately have f: "dg_base w1" "dw_o w1 = ?c\<lparr>dg_wait_events := e'\<rparr>" "dw_jobs w1 = ?g" "dw_sockerr w1 = dw_sockerr w"
    using set_events_base [of w0, folded w1_def] by (simp_all add: w1_def w0_def)
  define g where "g = BSmallPending_Free (dg_recv_op_job ?c) (BSmallPending_Free (dg_recv_done_job ?c) (BSmallPending_Free (dg_recv_job ?c) ?g))"
  define c' where "c' = (dw_o w1)\<lparr>dg_recv_inited := False\<rparr>"
  have i: "pri_job_operation (dg_recv_iface ?c) = dg_recv_op_job ?c" "pri_job_done (dg_recv_iface ?c) = dg_recv_done_job ?c"
    using p(7) ini by (simp_all add: drecv_ok_def)
  have e: "BDatagram_RecvAsync_Free w = w1\<lparr>dw_rx := (dw_rx w1)\<lparr>rx_jobs := g\<rparr>, dw_o := c'\<rparr>" (is "?w = _")
    unfolding BDatagram_RecvAsync_Free_def Let_def w0_def [symmetric] w0 e'_def [symmetric] w1_def [symmetric]
    by (simp add: PacketRecvInterface_Free_def dw_defs f(2,3) i g_def c'_def)
  note 1 = free_jobs [OF p(3), of "dg_recv_job ?c"]
  note 2 = free_jobs [OF 1(1), of "dg_recv_done_job ?c"]
  note 3 = free_jobs [OF 2(1), of "dg_recv_op_job ?c", folded g_def]
  have S: "set (jobs g) = pend w - drecv_jobs ?c" "dom (job_handler g) = known w - drecv_jobs ?c" by (auto simp: 1 2 3 drecv_jobs_def)
  have ro: "drecv_ok (set (jobs g)) (dom (job_handler g)) c'" by (simp add: drecv_ok_def c'_def S f(2)) (simp add: drecv_jobs_def)
  have a: "agree (dsend_jobs ?c) (pend w) (set (jobs g))" "agree (dsend_jobs ?c) (known w) (dom (job_handler g))"
    using ids by (simp_all add: agree_def drecv_jobs_def S dsend_jobs_def)
  have so: "dsend_ok (set (jobs g)) (dom (job_handler g)) c'" using dsend_frame [OF p(6) a] by (simp add: c'_def f(2))
  have "dw_lost_recv w1 \<or> pri_state (dg_recv_iface (dw_o w1)) \<noteq> STATE_DONE_PENDING"
    by (simp add: w1_def w0_def dgram_set_events_def dw_defs)
  then have m: "messages_ok ?w" using base_parts(8) [OF f(1)] unfolding e by (auto simp: messages_ok_def c'_def; simp add: dreceived_ok_def)
  have "dg_base ?w" by (rule base_update [OF f(1), where g = g]) (use 3(1) so ro m in \<open>simp_all add: e same_parts_def c'_def\<close>)
  moreover have "dg_waits ?w"
    using waits ids f(4) ev by (auto simp: dg_waits_def e c'_def f(2) dsend_waits_def drecv_waits_def send_ready_def recv_ready_def S drecv_jobs_def)
  ultimately show ?thesis by (rule dg_invI)
qed

lemma dgram_free_inv:
  assumes inv: "dg_inv w" and pre: "dgram_pre DO_Free w"
  shows "dg_inv (BDatagram_Free w)" "\<not> dw_alive (BDatagram_Free w)"
proof -
  let ?c = "dw_o w"
  define r1 where "r1 = BReactorLimit_Free (dg_recv_limit ?c) (dw_rx w)"
  define r2 where "r2 = BReactorLimit_Free (dg_send_limit ?c) r1"
  have base: "dg_base w" using inv pre by (simp add: dg_inv_def)
  have r: "rx_inv (dw_rx w)" "reg_ok (dw_rx w)" "rx_limit (dw_rx w) (dg_recv_limit ?c) \<noteq> None" "rx_limit (dw_rx w) (dg_send_limit ?c) \<noteq> None"
    "dg_send_limit ?c \<noteq> dg_recv_limit ?c" "fd_active (rx_fd (dw_rx w) (dg_bfd ?c))" using base by (auto simp: dg_base_def dg_rx_ok_def dg_limits_def)
  have 1: "rx_inv r1" "reg_ok r1" using rx_step_inv [of "dw_rx w" "RO_FreeLimit (dg_recv_limit ?c)"] reg_step_ok [of "dw_rx w" "RO_FreeLimit (dg_recv_limit ?c)"] r
    by (simp_all add: r1_def)
  have l: "rx_limit r1 (dg_send_limit ?c) \<noteq> None" "rx_fd r2 = rx_fd (dw_rx w)" using r by (simp_all add: r2_def r1_def BReactorLimit_Free_def Let_def)
  have 2: "rx_inv r2" "reg_ok r2" using rx_step_inv [of r1 "RO_FreeLimit (dg_send_limit ?c)"] reg_step_ok [of r1 "RO_FreeLimit (dg_send_limit ?c)"] 1 l(1)
    by (simp_all add: r2_def)
  have 3: "rx_inv (BReactor_RemoveFileDescriptor (dg_bfd ?c) r2)" "reg_ok (BReactor_RemoveFileDescriptor (dg_bfd ?c) r2)"
    using rx_step_inv [of r2 "RO_RemoveFd (dg_bfd ?c)"] reg_step_ok [of r2 "RO_RemoveFd (dg_bfd ?c)"] 2 l(2) r(6) by simp_all
  show "\<not> dw_alive (BDatagram_Free w)" by (simp add: BDatagram_Free_def Let_def)
  show "dg_inv (BDatagram_Free w)" using 3 by (simp add: dg_inv_def BDatagram_Free_def Let_def dw_defs flip: r1_def r2_def)
qed

lemma dgram_user_send_inv:
  assumes inv: "dg_inv w" and pre: "dgram_pre (DO_Send data) w"
  shows "dg_inv (dgram_step (DO_Send data) w)"
proof -
  let ?c = "dw_o w" and ?i = "dg_send_iface (dw_o w)"
  define g where "g = BSmallPending_Set (dg_send_op_job ?c) (dw_jobs w)"
  define c' where "c' = ?c\<lparr>dg_send_iface := ?i\<lparr>ppi_data := data, ppi_len := int (length data), ppi_state := STATE_OPERATION_PENDING,
    ppi_cancel_requested := False\<rparr>\<rparr>"
  have base: "dg_base w" and waits: "dg_waits w" and st: "dg_send_inited ?c" "ppi_state ?i = STATE_NONE" "int (length data) \<le> dg_send_mtu ?c"
    using inv pre by (simp_all add: dg_inv_def)
  note p = base_parts [OF base] and ids = dg_ids [OF base_parts(4) [OF base]]
  have i: "ppi_job_operation ?i = dg_send_op_job ?c" "dg_send_op_job ?c \<in> known w" using p(6) st by (simp_all add: dsend_ok_def dsend_jobs_def)
  have e: "dgram_step (DO_Send data) w = w\<lparr>dw_rx := (dw_rx w)\<lparr>rx_jobs := g\<rparr>, dw_o := c'\<rparr>" (is "_ = ?w")
    by (simp add: dw_defs g_def c'_def i)
  have g: "group_inv g" "dom (job_handler g) = known w" "set (jobs g) = insert (dg_send_op_job ?c) (pend w)"
    using p(3) i(2) by (auto simp: g_def set_jobs_set intro!: set_inv)
  have so: "dsend_ok (set (jobs g)) (known w) c'" using p(6) st ids by (auto simp: dsend_ok_def dsend_jobs_def c'_def g(3))
  have a: "agree (drecv_jobs ?c) (pend w) (set (jobs g))" "agree J H H" for J H using ids by (simp_all add: agree_def drecv_jobs_def g(3))
  have ro: "drecv_ok (set (jobs g)) (known w) c'" using drecv_frame [OF p(7) a] by (simp add: c'_def)
  have m: "messages_ok ?w" using p(8) st by (simp add: messages_ok_def c'_def) (simp add: dsent_ok_def)
  have "dg_base ?w" by (rule base_update [OF base, where g = g]) (use g so ro m in \<open>simp_all add: same_parts_def c'_def\<close>)
  moreover have "dg_waits ?w"
    using waits ids by (auto simp: dg_waits_def c'_def dsend_waits_def drecv_waits_def send_ready_def recv_ready_def g(3))
  ultimately show ?thesis unfolding e by (rule dg_invI)
qed

lemma dgram_user_recv_inv:
  assumes inv: "dg_inv w" and pre: "dgram_pre (DO_Recv q) w"
  shows "dg_inv (dgram_step (DO_Recv q) w)"
proof -
  let ?c = "dw_o w" and ?i = "dg_recv_iface (dw_o w)"
  define g where "g = BSmallPending_Set (dg_recv_op_job ?c) (dw_jobs w)"
  define c' where "c' = ?c\<lparr>dg_recv_iface := ?i\<lparr>pri_data := q, pri_state := STATE_OPERATION_PENDING\<rparr>\<rparr>"
  have base: "dg_base w" and waits: "dg_waits w" and st: "dg_recv_inited ?c" "pri_state ?i = STATE_NONE"
    using inv pre by (simp_all add: dg_inv_def)
  note p = base_parts [OF base] and ids = dg_ids [OF base_parts(4) [OF base]]
  have i: "pri_job_operation ?i = dg_recv_op_job ?c" "dg_recv_op_job ?c \<in> known w" using p(7) st by (simp_all add: drecv_ok_def drecv_jobs_def)
  have e: "dgram_step (DO_Recv q) w = w\<lparr>dw_rx := (dw_rx w)\<lparr>rx_jobs := g\<rparr>, dw_o := c'\<rparr>" (is "_ = ?w")
    by (simp add: dw_defs g_def c'_def i)
  have g: "group_inv g" "dom (job_handler g) = known w" "set (jobs g) = insert (dg_recv_op_job ?c) (pend w)"
    using p(3) i(2) by (auto simp: g_def set_jobs_set intro!: set_inv)
  have ro: "drecv_ok (set (jobs g)) (known w) c'" using p(7) st ids by (auto simp: drecv_ok_def drecv_jobs_def c'_def g(3))
  have a: "agree (dsend_jobs ?c) (pend w) (set (jobs g))" "agree J H H" for J H using ids by (simp_all add: agree_def dsend_jobs_def g(3))
  have so: "dsend_ok (set (jobs g)) (known w) c'" using dsend_frame [OF p(6) a] by (simp add: c'_def)
  have m: "messages_ok ?w" using p(8) st by (simp add: messages_ok_def c'_def) (simp add: dreceived_ok_def)
  have "dg_base ?w" by (rule base_update [OF base, where g = g]) (use g so ro m in \<open>simp_all add: same_parts_def c'_def\<close>)
  moreover have "dg_waits ?w"
    using waits ids by (auto simp: dg_waits_def c'_def dsend_waits_def drecv_waits_def send_ready_def recv_ready_def g(3))
  ultimately show ?thesis unfolding e by (rule dg_invI)
qed

lemma dgram_interface_user_inv:
  assumes inv: "dg_inv w"
  shows "dg_inv (dgram_step DO_SenderInit w)" "dg_inv (dgram_step DO_ReceiverInit w)"
proof -
  have s: "dsend_ok S H (c\<lparr>dg_send_iface := PacketPassInterface_Sender_Init (dg_send_iface c)\<rparr>) \<longleftrightarrow> dsend_ok S H c"
    "dsent_ok x y (c\<lparr>dg_send_iface := PacketPassInterface_Sender_Init (dg_send_iface c)\<rparr>) \<longleftrightarrow> dsent_ok x y c" for S H c x y
    by (simp_all add: dsend_ok_def dsend_jobs_def dsent_ok_def PacketPassInterface_Sender_Init_def)
  have r: "drecv_ok S H (c\<lparr>dg_recv_iface := PacketRecvInterface_Receiver_Init (dg_recv_iface c)\<rparr>) \<longleftrightarrow> drecv_ok S H c"
    "dreceived_ok x y m (c\<lparr>dg_recv_iface := PacketRecvInterface_Receiver_Init (dg_recv_iface c)\<rparr>) \<longleftrightarrow> dreceived_ok x y m c" for S H c x y m
    by (simp_all add: drecv_ok_def drecv_jobs_def dreceived_ok_def PacketRecvInterface_Receiver_Init_def)
  show "dg_inv (dgram_step DO_SenderInit w)" "dg_inv (dgram_step DO_ReceiverInit w)"
    using inv by (simp_all add: dg_inv_def dg_base_def dg_rx_ok_def messages_ok_def dw_defs s r dg_waits_def dsend_waits_def drecv_waits_def
        send_ready_def recv_ready_def)
qed

section \<open>Every step keeps the invariant\<close>

lemma dgram_other_inv:
  assumes inv: "dg_inv w" and pre: "dgram_pre (DO_Other op) w"
  shows "dg_inv (dupd_rx (rx_step op) w)"
proof -
  have ri: "rx_inv (dw_rx w)" "reg_ok (dw_rx w)" "rx_pre op (dw_rx w)" using inv pre by (simp_all add: dg_inv_def)
  note ri' = rx_step_inv [OF ri] reg_step_ok [OF ri(2,3)]
  have "rx_keeps (set (dg_jobs (dw_o w))) {dg_bfd (dw_o w)} (set (dg_limits (dw_o w))) (dw_rx w) (rx_step op (dw_rx w))" if "dw_alive w"
    by (rule avoids_keeps [OF ri(1)]) (use pre that in simp)
  then show ?thesis using inv ri' base_keeps [of w "rx_step op (dw_rx w)"] by (auto simp: dg_inv_def dw_defs)
qed

lemma dgram_turn_inv:
  assumes inv: "dg_inv w" and pre: "dgram_pre (DO_Turn now as sa ra) w"
  shows "dg_inv (dgram_turn now as sa ra w)"
proof -
  let ?r = "dw_rx w" and ?c = "dw_o w"
  have ri: "rx_inv ?r" "reg_ok ?r" using inv by (simp_all add: dg_inv_def)
  have rp: "rx_pre (RO_Turn now as) ?r" using pre by simp
  have ok: "\<forall>(a, clock)\<in>set as. ep_active ?r a" by (rule ep_answer_active [OF ri(2)]) (use rp in simp)
  obtain ev r where x: "exec_turn now as ?r = Some (ev, r)" using rp by auto
  have ri': "rx_inv r" "reg_ok r" using rx_step_inv [OF ri rp] reg_step_ok [OF ri(2) rp] x by simp_all
  show ?thesis
  proof (cases "dw_alive w \<and> dg_own_event ?c ev")
    case False
    have "dgram_turn now as sa ra w = w\<lparr>dw_rx := r\<rparr>"
      using False x by (auto simp: dgram_turn_def dg_own_event_def dg_jobs_def dgram_dispatch_job_def Let_def split: rx_event.splits)
    moreover have "rx_keeps (set (dg_jobs ?c)) {dg_bfd ?c} (set (dg_limits ?c)) ?r r" if "dw_alive w"
      by (rule turn_keeps [OF x ri(1)]) (use False that in \<open>auto simp: dg_own_event_def\<close>)
    ultimately show ?thesis using inv ri' base_keeps [of w r] by (auto simp: dg_inv_def)
  next
    case True
    then have base: "dg_base w" and waits: "dg_waits w" and alive: "dw_alive w" and own: "dg_own_event ?c ev" using inv by (simp_all add: dg_inv_def)
    have t: "\<not> dg_d_err ?c" "sm_answer_ok (dw_sockerr w \<or> trouble_event ev) sa" "rm_answer_ok (dw_sockerr w \<or> trouble_event ev) (dg_recv_mtu ?c) ra"
      using pre alive own x by (simp_all add: dg_turn_ok_def)
    show ?thesis
    proof (cases ev)
      case (RX_Job j)
      obtain g where g: "BPendingGroup_ExecuteJob (dw_jobs w) = Some (j, g)" "r = ?r\<lparr>rx_jobs := g\<rparr>"
        using turn_job [OF x [unfolded RX_Job] ri(1)] by blast
      have "dgram_turn now as sa ra w = dgram_dispatch_job j sa ra (w\<lparr>dw_rx := ?r\<lparr>rx_jobs := g\<rparr>\<rparr>)"
        using x RX_Job alive g(2) by (simp add: dgram_turn_def)
      then show ?thesis using dgram_dispatch_job_inv [OF base waits t(1) g(1)] own t(2,3) RX_Job by (simp add: dg_own_event_def trouble_event_def)
    next
      case (RX_Fd d events)
      then have d: "d = dg_bfd ?c" using own by (simp add: dg_own_event_def)
      let ?err = "dw_sockerr w \<or> fd_trouble events"
      let ?w = "w\<lparr>dw_rx := r, dw_sockerr := ?err\<rparr>"
      note f = turn_fd [OF x [unfolded RX_Fd] ri(1) ok]
      have k: "rx_keeps (set (dg_jobs ?c)) {dg_bfd ?c} (set (dg_limits ?c)) ?r r" by (rule turn_keeps [OF x ri(1)]) (simp add: RX_Fd)
      have we: "fd_waitEvents (rx_fd ?r d) = dg_wait_events ?c" using base_parts(5) [OF base] d by (simp add: dg_rx_ok_def)
      note b0 = base_keeps [OF base ri' k]
      have b: "dg_base ?w" using b0(1) by (simp add: dg_base_def messages_ok_def)
      have w: "dg_waits ?w" using waits b0(2) by (auto simp: dg_waits_def drecv_waits_def)
      have "dg_inv (dgram_fd_handler events sa ra ?w)"
        by (rule dgram_fd_handler_inv [OF b w]) (use t f we RX_Fd in \<open>simp_all add: has_read_def has_write_def trouble_event_def\<close>)
      moreover have "dgram_turn now as sa ra w = dgram_fd_handler events sa ra ?w" using x RX_Fd alive d by (simp add: dgram_turn_def)
      ultimately show ?thesis by simp
    qed (use own in \<open>simp_all add: dg_own_event_def\<close>)
  qed
qed

lemma dgram_step_inv:
  assumes inv: "dg_inv w" and pre: "dgram_pre op w"
  shows "dg_inv (dgram_step op w)"
  using inv pre bind_inv set_addrs_inv dgram_send_init_inv dgram_send_free_inv dgram_recv_init_inv dgram_recv_free_inv dgram_interface_user_inv dgram_user_send_inv dgram_user_recv_inv
    dgram_free_inv(1) dgram_other_inv dgram_turn_inv
  by (cases op) (simp_all del: dgram_pre.simps dgram_step.simps add: dgram_step.simps(1-6,11-13))

interpretation dg: invariant_machine dg_inv dgram_pre dgram_step
  by unfold_locales (rule dgram_step_inv)

section \<open>A new socket\<close>

definition dgram_fresh :: "BDatagram \<Rightarrow> BReactor \<Rightarrow> bool" where
  "dgram_fresh c r \<longleftrightarrow>
     distinct (dg_jobs c) \<and> distinct (dg_limits c) \<and> (\<forall>j\<in>set (dg_jobs c). job_handler (rx_jobs r) j = None) \<and>
     (\<forall>l\<in>set (dg_limits c). rx_limit r l = None) \<and> \<not> fd_active (rx_fd r (dg_bfd c))"

definition dgram_start :: "(nat \<Rightarrow> byte list) \<Rightarrow> BDatagram \<Rightarrow> BReactor \<Rightarrow> dgram_world" where
  "dgram_start mem c r =
     \<lparr>dw_rx = r, dw_alive = True, dw_o = c, dw_mem = mem, dw_sent = [], dw_confirmed = [], dw_received = [], dw_delivered = [],
      dw_errors = 0, dw_sockerr = False, dw_lost_send = False, dw_lost_recv = False, dw_closed = []\<rparr>"

lemma init_dgram_inv:
  assumes inv: "rx_inv r" "reg_ok r" and new: "dgram_fresh c r" and s: "BDatagram_Init sock nonblock add c r = (Some c', r', closed)"
  shows "dg_inv (dgram_start mem c' r')"
proof -
  obtain fd where fd: "sock = Some fd" "nonblock" using s by (auto simp: BDatagram_Init_def split: option.splits if_splits)
  obtain ok r2 where a: "BReactor_AddFileDescriptor add (dg_bfd c) (BFileDescriptor_Init (dg_bfd c) r) = (ok, r2)" by fastforce
  have ok: "ok" using s fd a by (auto simp: BDatagram_Init_def Let_def split: if_splits)
  define r3 where "r3 = BReactorLimit_Init (dg_send_limit c) BDATAGRAM_SEND_LIMIT r2"
  define r4 where "r4 = BReactorLimit_Init (dg_recv_limit c) BDATAGRAM_RECV_LIMIT r3"
  let ?c = "c\<lparr>dg_fd := fd, dg_wait_events := 0, dg_send_have_addrs := False, dg_recv_have_addrs := False, dg_recv_started := False,
    dg_send_inited := False, dg_recv_inited := False, dg_d_err := False\<rparr>"
  have e: "c' = ?c" "r' = r4" using s fd a ok by (simp_all add: BDatagram_Init_def Let_def r4_def r3_def)
  have fr: "distinct (dg_jobs c)" "distinct (dg_limits c)" "\<forall>j\<in>set (dg_jobs c). job_handler (rx_jobs r) j = None"
    "\<forall>l\<in>set (dg_limits c). rx_limit r l = None" "\<not> fd_active (rx_fd r (dg_bfd c))" using new by (simp_all add: dgram_fresh_def)
  note f = add_fd_rx [OF inv fr(5) a [unfolded eqTrueI [OF ok]]]
  have 3: "rx_inv r3" "reg_ok r3" using init_limit_rx [OF f(1,2)] fr(4) f(4) by (simp_all add: r3_def dg_limits_def)
  have 4: "rx_inv r4" "reg_ok r4" using init_limit_rx [OF 3] fr(2,4) f(4) by (simp_all add: r4_def r3_def dg_limits_def BReactorLimit_Init_def)
  have r4: "rx_jobs r4 = rx_jobs r" "rx_fd r4 = rx_fd r2" "\<forall>l\<in>set (dg_limits c). rx_limit r4 l \<noteq> None"
    using f(3) by (simp_all add: r4_def r3_def BReactorLimit_Init_def dg_limits_def)
  have p: "dg_jobs ?c = dg_jobs c" "dg_limits ?c = dg_limits c" by (simp_all add: dg_jobs_def dg_limits_def)
  have "dsend_ok S (dom (job_handler (rx_jobs r))) ?c" "drecv_ok S (dom (job_handler (rx_jobs r))) ?c" for S
    using fr(3) by (simp_all add: dsend_ok_def dsend_jobs_def drecv_ok_def drecv_jobs_def dg_jobs_def domIff)
  then have "dg_base (dgram_start mem ?c r4)"
    using 4 fr(1,2) f(5,6) r4 p by (simp add: dg_base_def dgram_start_def dg_rx_ok_def messages_ok_def dsent_ok_def dreceived_ok_def del: not_None_eq)
  then show ?thesis unfolding e
    by (rule dg_invI) (simp add: dg_waits_def dsend_waits_def drecv_waits_def send_ready_def recv_ready_def dgram_start_def)
qed

definition dgram_history :: "dgram_op list \<Rightarrow> dgram_world \<Rightarrow> bool" where
  "dgram_history ops w \<longleftrightarrow>
     (\<exists>rops c sock nonblock add c' r' closed mem.
        rx.legal rops BReactor_Init \<and> dgram_fresh c (rx.run rops BReactor_Init) \<and>
        BDatagram_Init sock nonblock add c (rx.run rops BReactor_Init) = (Some c', r', closed) \<and>
        dg.legal ops (dgram_start mem c' r') \<and> w = dg.run ops (dgram_start mem c' r'))"

lemma dgram_historyI:
  assumes "rx.legal rops BReactor_Init" "dgram_fresh c (rx.run rops BReactor_Init)"
    "BDatagram_Init sock nonblock add c (rx.run rops BReactor_Init) = (Some c', r', closed)" "dg.legal ops (dgram_start mem c' r')"
  shows "dgram_history ops (dg.run ops (dgram_start mem c' r'))"
  using assms unfolding dgram_history_def by blast

lemma dgram_history_inv:
  assumes "dgram_history ops w"
  shows "dg_inv w"
proof -
  obtain rops c sock nonblock add c' r' closed mem where h: "rx.legal rops BReactor_Init" "dgram_fresh c (rx.run rops BReactor_Init)"
    "BDatagram_Init sock nonblock add c (rx.run rops BReactor_Init) = (Some c', r', closed)"
    "dg.legal ops (dgram_start mem c' r')" "w = dg.run ops (dgram_start mem c' r')"
    using assms unfolding dgram_history_def by blast
  have "dg_inv (dgram_start mem c' r')" by (rule init_dgram_inv [OF reached_inv(1,2) [OF h(1) refl] h(2,3)])
  then show ?thesis using dg.run_inv h(4,5) by simp
qed

section \<open>Properties\<close>

text \<open>C40. An address survives the way to the system calls and back: every address the socket accepts, of either Internet protocol or of
  the data link layer, is converted to one that is converted back to it.\<close>

theorem dgram_addr_roundtrip:
  assumes "dgram_addr_ok a"
  shows "BDatagram_AddressFamilySupported (dgram_addr_type a) \<and> dgram_addr_sys_to_socket (dgram_addr_socket_to_sys a) = a"
proof (cases a)
  case (DAddr b)
  then show ?thesis using assms by (cases b) (simp_all add: BDatagram_AddressFamilySupported_def dgram_addr_sys_to_socket_def)
next
  case (DAddr_Packet q)
  then have q: "pk_header_type q = 1" "length (pk_phys_addr q) = 6"
    "pk_packet_type q = 1 \<or> pk_packet_type q = 2 \<or> pk_packet_type q = 3 \<or> pk_packet_type q = 4 \<or> pk_packet_type q = 5"
    using assms by auto
  then have "packet_type_from_sys (packet_type_to_sys (pk_packet_type q)) = Some (pk_packet_type q)"
    by (auto simp: packet_type_from_sys_def packet_type_to_sys_def)
  then show ?thesis using DAddr_Packet q(1,2) by (cases q) (simp add: BDatagram_AddressFamilySupported_def dgram_addr_sys_to_socket_def)
qed

theorem dgram_addr_roundtrip_witness:
  "dgram_addr_sys_to_socket (dgram_addr_socket_to_sys (DAddr_Packet \<lparr>pk_phys_proto = 8, pk_interface_index = 3, pk_header_type = 1, pk_packet_type = 5,
     pk_phys_addr = [1, 2, 3, 4, 5, 6]\<rparr>)) =
   DAddr_Packet \<lparr>pk_phys_proto = 8, pk_interface_index = 3, pk_header_type = 1, pk_packet_type = 5, pk_phys_addr = [1, 2, 3, 4, 5, 6]\<rparr>"
  using dgram_addr_roundtrip [of "DAddr_Packet \<lparr>pk_phys_proto = 8, pk_interface_index = 3, pk_header_type = 1, pk_packet_type = 5,
     pk_phys_addr = [1, 2, 3, 4, 5, 6]\<rparr>"] by simp



section \<open>An example\<close>

lemmas dg_eval =
  rx_eval dw_defs BDatagram_Init_def dgram_start_def BDatagram_SetSendAddrs_def
  BDatagram_SendAsync_Init_def BDatagram_RecvAsync_Init_def PacketPassInterface_Init_def PacketRecvInterface_Init_def
  PacketPassInterface_Sender_Init_def PacketRecvInterface_Receiver_Init_def dgram_turn_def dgram_dispatch_job_def
  PacketPassInterface_job_operation_def PacketRecvInterface_job_operation_def PacketPassInterface_job_done_def PacketRecvInterface_job_done_def
  send_if_handler_send_def recv_if_handler_recv_def dgram_send_job_handler_def dgram_recv_job_handler_def dgram_fd_handler_def
  do_send_def do_recv_def start_recv_def dgram_send_done_def dgram_recv_done_def dgram_wait_def dgram_set_events_def send_msg_def
  dgram_report_error_def dgram_user_sent_def dgram_user_received_def dg_turn_ok_def dg_own_event_def trouble_event_def
  dg_jobs_def dg_limits_def dgram_fresh_def

definition demo_dg0 :: BDatagram where
  "demo_dg0 =
     \<lparr>dg_fd = 0, dg_bfd = 7, dg_wait_events = 0, dg_send_limit = 20, dg_send_have_addrs = False, dg_send_remote_addr = DAddr BAddr_None,
      dg_send_local_addr = BIPAddr_Invalid, dg_send_inited = False, dg_send_mtu = 0,
      dg_send_iface = fst (PacketPassInterface_Init 0 10 11 12 0 0 0 [] (BPendingGroup_Init :: (nat, nat) BPendingGroup)),
      dg_send_op_job = 10, dg_send_cancel_job = 11, dg_send_done_job = 12, dg_send_job = 13, dg_send_busy = False, dg_send_busy_data = [],
      dg_send_busy_data_len = 0, dg_recv_limit = 21, dg_recv_started = False, dg_recv_have_addrs = False,
      dg_recv_remote_addr = DAddr BAddr_None, dg_recv_local_addr = BIPAddr_Invalid, dg_recv_inited = False, dg_recv_mtu = 0,
      dg_recv_iface = fst (PacketRecvInterface_Init 0 14 15 0 0 0 (BPendingGroup_Init :: (nat, nat) BPendingGroup)),
      dg_recv_op_job = 14, dg_recv_done_job = 15, dg_recv_job = 16, dg_recv_busy = False, dg_recv_busy_data = 0, dg_d_err = False\<rparr>"

definition demo_dg :: "BDatagram \<times> BReactor" where
  "demo_dg = (case BDatagram_Init (Some 5) True True demo_dg0 BReactor_Init of (c, r, closed) \<Rightarrow> (the c, r))"

definition demo_dw :: dgram_world where "demo_dw = dgram_start (\<lambda>_. [0, 0, 0, 0]) (fst demo_dg) (snd demo_dg)"

definition demo_dgops :: "dgram_op list" where
  "demo_dgops =
     [DO_RecvInit 4, DO_ReceiverInit, DO_SendInit 4, DO_SenderInit, DO_Recv 0, DO_SetSendAddrs (DAddr (BAddr_IPv4 9 80)) BIPAddr_Invalid,
      DO_Send [1, 2, 3], DO_Turn 0 [] (SmFail True) (RmFail True)]"

definition demo_msg :: dgram_msg where
  "demo_msg = \<lparr>msg_name = \<lparr>ds_len = 16, ds_addr = DS_in 80 9\<rparr>, msg_control = [CMSG_other, CMSG_IP_PKTINFO \<lparr>ipi_spec_dst = 0, ipi_addr = 7\<rparr>],
     msg_data = [6, 5]\<rparr>"

definition demo_dgops2 :: "dgram_op list" where
  "demo_dgops2 = demo_dgops @ [DO_Turn 0 [] (SmBytes 3) (RmFail True), DO_Turn 0 [] (SmFail True) (RmFail True),
     DO_Turn 0 [] (SmFail True) (RmFail True), DO_Turn 0 [] (SmFail True) (RmMsg demo_msg)]"

lemmas demo_dg_defs = demo_dgops2_def demo_dgops_def demo_msg_def demo_dw_def demo_dg_def demo_dg0_def

lemma demo_dg_init: "BDatagram_Init (Some 5) True True demo_dg0 BReactor_Init = (Some (fst demo_dg), snd demo_dg, [])"
  by (simp add: demo_dg_defs dg_eval)

lemma demo_dg_history: "dg.legal ops demo_dw \<Longrightarrow> dgram_history ops (dg.run ops demo_dw)"
  unfolding demo_dw_def
  by (rule dgram_historyI [of "[]" demo_dg0 "Some 5" True True _ _ "[]"]) (simp_all add: demo_dg_init, simp add: demo_dg0_def dg_eval)



text \<open>As with connections, the assumption on errors is needed: when an error event comes without a write event and \<open>sendmsg\<close> takes the
  packet nevertheless, the descriptor stays monitored for writing without a request.\<close>

theorem dgram_error_leaves_write:
  "let w = dgram_fd_handler BREACTOR_ERROR (SmBytes 3) (RmFail True) (dg.run (demo_dgops @ [DO_Turn 0 [] (SmFail True) (RmFail True)]) demo_dw) in
     \<not> dg_send_busy (dw_o w) \<and> has_write (dg_wait_events (dw_o w)) \<and> \<not> dg_d_err (dw_o w)"
  by (simp add: demo_dg_defs dg_eval has_write_def)

end
